(* ===== verification/Prelude.thy ===== *)
theory Prelude
imports Main "HOL-Library.Word"
begin

text \<open>
  Shared vocabulary of the development: JavaScript numbers as the guards of the
  program see them, byte strings, error results, decimal text, and the
  fact collections the component theories use.

  A JavaScript string is a list of characters with codes below 256 (the program
  handles names, hex, base64url, strkeys and digits); an \<open>Uint8Array\<close> is a list of
  8-bit words; a thrown error is the left summand of a result.
\<close>

named_theorems res_simps \<open>elimination of error results\<close>
named_theorems js_simps \<open>the number guards on integers\<close>
named_theorems wf \<open>well-formedness facts of the model's values\<close>

type_synonym byte = "8 word"
type_synonym bytes = "8 word list"

section \<open>Error results\<close>

fun ebind :: "'e + 'a \<Rightarrow> ('a \<Rightarrow> 'e + 'b) \<Rightarrow> 'e + 'b" where
  "ebind (Inl e) f = Inl e"
| "ebind (Inr a) f = f a"

fun map_err :: "('e \<Rightarrow> 'f) \<Rightarrow> 'e + 'a \<Rightarrow> 'f + 'a" where
  "map_err g (Inl e) = Inl (g e)"
| "map_err g (Inr a) = Inr a"

fun mapE :: "('a \<Rightarrow> 'e + 'b) \<Rightarrow> 'a list \<Rightarrow> 'e + 'b list" where
  "mapE f [] = Inr []"
| "mapE f (x # xs) = ebind (f x) (\<lambda>y. ebind (mapE f xs) (\<lambda>ys. Inr (y # ys)))"

definition is_ok :: "'e + 'a \<Rightarrow> bool" where
  "is_ok r = (case r of Inl _ \<Rightarrow> False | Inr _ \<Rightarrow> True)"

lemma is_ok_simps [simp]: "is_ok (Inr a)" "\<not> is_ok (Inl e)"
  by (simp_all add: is_ok_def)

lemma is_ok_iff: "is_ok r \<longleftrightarrow> (\<exists>a. r = Inr a)"
  by (cases r) auto

lemma ebind_Inr [res_simps]: "ebind r f = Inr b \<longleftrightarrow> (\<exists>a. r = Inr a \<and> f a = Inr b)"
  by (cases r) auto

lemma ebind_Inl [res_simps]:
  "ebind r f = Inl e \<longleftrightarrow> r = Inl e \<or> (\<exists>a. r = Inr a \<and> f a = Inl e)"
  by (cases r) auto

lemma map_err_Inr [res_simps]: "map_err g r = Inr a \<longleftrightarrow> r = Inr a"
  by (cases r) auto

lemma map_err_Inl [res_simps]: "map_err g r = Inl f \<longleftrightarrow> (\<exists>e. r = Inl e \<and> f = g e)"
  by (cases r) auto

lemma if_Inl_Inr [res_simps]:
  "((if b then Inl e else r) = Inr a) \<longleftrightarrow> \<not> b \<and> r = Inr a"
  "((if b then r else Inl e) = Inr a) \<longleftrightarrow> b \<and> r = Inr a"
  by auto

lemma mapE_Inr: "mapE f xs = Inr ys \<longleftrightarrow> length ys = length xs \<and> (\<forall>i<length xs. f (xs ! i) = Inr (ys ! i))"
proof (induction xs arbitrary: ys)
  case Nil
  then show ?case by auto
next
  case (Cons x xs)
  show ?case
    by (cases ys) (auto simp: res_simps Cons.IH less_Suc_eq_0_disj)
qed

lemma mapE_all_ok: "\<forall>x\<in>set xs. f x = Inr (g x) \<Longrightarrow> mapE f xs = Inr (map g xs)"
  by (induction xs) auto

section \<open>JavaScript numbers\<close>

text \<open>
  A number as the guards of the program distinguish it: an integer, a value strictly
  between \<open>n\<close> and \<open>n + 1\<close>, and the three special values.
\<close>

datatype jsnum = JInt int | JFrac int | JNaN | JInf | JNegInf

abbreviation MAX_SAFE_INTEGER :: int where
  "MAX_SAFE_INTEGER \<equiv> 9007199254740991"

fun js_isInteger :: "jsnum \<Rightarrow> bool" where
  "js_isInteger (JInt i) = True"
| "js_isInteger _ = False"

fun js_isSafeInteger :: "jsnum \<Rightarrow> bool" where
  "js_isSafeInteger (JInt i) = (\<bar>i\<bar> \<le> MAX_SAFE_INTEGER)"
| "js_isSafeInteger _ = False"

fun js_isFinite :: "jsnum \<Rightarrow> bool" where
  "js_isFinite (JInt i) = True"
| "js_isFinite (JFrac i) = True"
| "js_isFinite _ = False"

fun js_less :: "jsnum \<Rightarrow> int \<Rightarrow> bool" where
  "js_less (JInt i) k = (i < k)"
| "js_less (JFrac i) k = (i < k)"
| "js_less JNegInf k = True"
| "js_less _ k = False"

fun js_greater :: "jsnum \<Rightarrow> int \<Rightarrow> bool" where
  "js_greater (JInt i) k = (k < i)"
| "js_greater (JFrac i) k = (k \<le> i)"
| "js_greater JInf k = True"
| "js_greater _ k = False"

text \<open>
  \<open>x <= y\<close> on two numbers; a comparison with \<open>NaN\<close> or of
  a missing value is false. Fractions are placed within their unit, so two of them in the
  same unit are not told apart.
\<close>

fun js_le :: "jsnum \<Rightarrow> jsnum \<Rightarrow> bool" where
  "js_le JNaN y = False"
| "js_le x JNaN = False"
| "js_le JNegInf y = True"
| "js_le x JInf = True"
| "js_le JInf y = False"
| "js_le x JNegInf = False"
| "js_le (JInt a) (JInt b) = (a \<le> b)"
| "js_le (JInt a) (JFrac b) = (a \<le> b)"
| "js_le (JFrac a) (JInt b) = (a < b)"
| "js_le (JFrac a) (JFrac b) = (a \<le> b)"

definition js_gt :: "jsnum \<Rightarrow> jsnum \<Rightarrow> bool" where
  "js_gt x y = (js_le y x \<and> \<not> js_le x y)"

lemma js_isInteger_iff [js_simps]: "js_isInteger x \<longleftrightarrow> (\<exists>i. x = JInt i)"
  by (cases x) auto

lemma js_isSafeInteger_iff [js_simps]:
  "js_isSafeInteger x \<longleftrightarrow> (\<exists>i. x = JInt i \<and> \<bar>i\<bar> \<le> MAX_SAFE_INTEGER)"
  by (cases x) auto

section \<open>Dynamic values\<close>

text \<open>A value of type \<open>unknown\<close>: what \<open>JSON.parse\<close> or an untyped caller can supply.\<close>

datatype jsval = JUndefined | JNull | JBool bool | JNum jsnum | JString string
  | JArray "jsval list" | JObject "(string \<times> jsval) list"

text \<open>Reading a property: \<open>undefined\<close> where there is none.\<close>

fun jget :: "string \<Rightarrow> jsval \<Rightarrow> jsval" where
  "jget k (JObject kvs) = (case map_of kvs k of None \<Rightarrow> JUndefined | Some v \<Rightarrow> v)"
| "jget k _ = JUndefined"

fun is_object :: "jsval \<Rightarrow> bool" where
  "is_object (JObject kvs) = True"
| "is_object _ = False"

fun js_string :: "jsval \<Rightarrow> string option" where
  "js_string (JString s) = Some s"
| "js_string _ = None"

fun js_number :: "jsval \<Rightarrow> jsnum option" where
  "js_number (JNum x) = Some x"
| "js_number _ = None"

section \<open>Lists read by index\<close>

fun nth_opt :: "'a list \<Rightarrow> nat \<Rightarrow> 'a option" where
  "nth_opt [] n = None"
| "nth_opt (x # xs) 0 = Some x"
| "nth_opt (x # xs) (Suc n) = nth_opt xs n"

lemma nth_opt_conv: "nth_opt xs n = (if n < length xs then Some (xs ! n) else None)"
  by (induction xs n rule: nth_opt.induct) auto

section \<open>Decimal text\<close>

definition digit_char :: "nat \<Rightarrow> char" where
  "digit_char d = char_of (48 + d)"

definition is_digit :: "char \<Rightarrow> bool" where
  "is_digit c = (48 \<le> (of_char c :: nat) \<and> (of_char c :: nat) \<le> 57)"

definition digit_val :: "char \<Rightarrow> nat" where
  "digit_val c = of_char c - 48"

fun dec :: "nat \<Rightarrow> string" where
  "dec n = (if n < 10 then [digit_char n] else dec (n div 10) @ [digit_char (n mod 10)])"

declare dec.simps [simp del]

fun undec_acc :: "nat \<Rightarrow> string \<Rightarrow> nat" where
  "undec_acc a [] = a"
| "undec_acc a (c # cs) = undec_acc (10 * a + digit_val c) cs"

definition undec :: "string \<Rightarrow> nat" where
  "undec s = undec_acc 0 s"

text \<open>The pattern \<open>^(0|[1-9][0-9]*)$\<close>.\<close>

definition canonical_uint :: "string \<Rightarrow> bool" where
  "canonical_uint s = (case s of [] \<Rightarrow> False
     | c # cs \<Rightarrow> is_digit c \<and> list_all is_digit cs \<and> (c = CHR ''0'' \<longrightarrow> cs = []))"

lemma is_digit_digit_char [simp]: "d < 10 \<Longrightarrow> is_digit (digit_char d)"
  by (simp add: is_digit_def digit_char_def)

lemma digit_val_digit_char [simp]: "d < 10 \<Longrightarrow> digit_val (digit_char d) = d"
  by (simp add: digit_val_def digit_char_def)

lemma digit_char_digit_val [simp]: "is_digit c \<Longrightarrow> digit_char (digit_val c) = c"
  by (simp add: is_digit_def digit_char_def digit_val_def)

lemma digit_val_less [simp]: "is_digit c \<Longrightarrow> digit_val c < 10"
  unfolding is_digit_def digit_val_def by linarith

lemma digit_char_0 [simp]: "digit_char 0 = CHR ''0''"
  unfolding digit_char_def by code_simp

lemma digit_char_numerals [simp]:
  "digit_char (Suc 0) = CHR ''1''" "digit_char 2 = CHR ''2''" "digit_char 3 = CHR ''3''"
  "digit_char 4 = CHR ''4''" "digit_char 5 = CHR ''5''" "digit_char 6 = CHR ''6''"
  "digit_char 7 = CHR ''7''" "digit_char 8 = CHR ''8''" "digit_char 9 = CHR ''9''"
  unfolding digit_char_def by code_simp+

lemma digit_val_0 [simp]: "digit_val CHR ''0'' = 0"
  by (simp add: digit_val_def)

lemma undec_acc_append: "undec_acc a (xs @ ys) = undec_acc (undec_acc a xs) ys"
  by (induction a xs rule: undec_acc.induct) auto

lemma undec_dec [simp]: "undec (dec n) = n"
proof (induction n rule: dec.induct)
  case (1 n)
  show ?case
  proof (cases "n < 10")
    case True
    then show ?thesis by (simp add: undec_def dec.simps[of n])
  next
    case False
    then show ?thesis using 1 by (simp add: undec_def dec.simps[of n] undec_acc_append)
  qed
qed

lemma dec_digits: "list_all is_digit (dec n)"
proof (induction n rule: dec.induct)
  case (1 n)
  then show ?case by (cases "n < 10") (simp_all add: dec.simps[of n])
qed

lemma dec_not_Nil [simp]: "dec n \<noteq> []"
  by (simp add: dec.simps[of n])

lemma dec_hd_nonzero: "0 < n \<Longrightarrow> hd (dec n) \<noteq> CHR ''0''"
proof (induction n rule: dec.induct)
  case (1 n)
  show ?case
  proof (cases "n < 10")
    case True
    have "digit_val (digit_char n) = n" using True by simp
    then have "digit_char n \<noteq> CHR ''0''" using 1(2) by (metis digit_val_0 less_numeral_extra(3))
    then show ?thesis using True by (simp add: dec.simps[of n])
  next
    case False
    then show ?thesis using 1(1) by (simp add: dec.simps[of n])
  qed
qed

lemma canonical_uint_dec [simp]: "canonical_uint (dec n)"
proof (cases "n = 0")
  case True
  then show ?thesis by (simp add: canonical_uint_def dec.simps is_digit_def digit_char_def)
next
  case False
  then have "hd (dec n) \<noteq> CHR ''0''" by (simp add: dec_hd_nonzero)
  then show ?thesis
    using dec_digits[of n] dec_not_Nil[of n]
    by (cases "dec n") (auto simp: canonical_uint_def)
qed

lemma dec_inj [simp]: "dec m = dec n \<longleftrightarrow> m = n"
  by (metis undec_dec)

lemma undec_acc_pos: "0 < a \<Longrightarrow> 0 < undec_acc a s"
  by (induction a s rule: undec_acc.induct) auto

lemma dec_undec_acc:
  "0 < a \<Longrightarrow> list_all is_digit s \<Longrightarrow> dec (undec_acc a s) = dec a @ s"
proof (induction s arbitrary: a)
  case Nil
  then show ?case by simp
next
  case (Cons c s)
  have "dec (10 * a + digit_val c) = dec a @ [c]"
    using Cons.prems by (subst dec.simps) auto
  then show ?case using Cons by simp
qed

lemma dec_undec [simp]: "canonical_uint s \<Longrightarrow> dec (undec s) = s"
proof -
  assume s: "canonical_uint s"
  then obtain c cs where c: "s = c # cs" "is_digit c" "list_all is_digit cs" "c = CHR ''0'' \<longrightarrow> cs = []"
    by (cases s) (auto simp: canonical_uint_def)
  show ?thesis
  proof (cases "c = CHR ''0''")
    case True
    then show ?thesis using c by (simp add: undec_def dec.simps)
  next
    case False
    then have "0 < digit_val c" using c(2) digit_char_digit_val[OF c(2)]
      by (cases "digit_val c") auto
    then show ?thesis using c dec_undec_acc[of "digit_val c" cs]
      by (simp add: undec_def dec.simps[of "digit_val c"])
  qed
qed

section \<open>Third-party functions\<close>

text \<open>
  What the program takes from the noble packages is a parameter: a record of
  functions. \<open>noble_ok\<close> states the documented behaviour the code relies on.
  Nothing is assumed about collisions of the hash.
\<close>

record noble =
  sha256 :: "bytes \<Rightarrow> bytes"
  bytesToHex :: "bytes \<Rightarrow> string"
  hexToBytes :: "string \<Rightarrow> bytes option"
  utf8ToBytes :: "string \<Rightarrow> bytes"

definition is_lower_hex :: "char \<Rightarrow> bool" where
  "is_lower_hex c = (let k = (of_char c :: nat) in (48 \<le> k \<and> k \<le> 57) \<or> (97 \<le> k \<and> k \<le> 102))"

text \<open>The pattern \<open>^[0-9a-f]{64}$\<close>.\<close>

definition hex32 :: "string \<Rightarrow> bool" where
  "hex32 s = (length s = 64 \<and> list_all is_lower_hex s)"

definition noble_ok :: "noble \<Rightarrow> bool" where
  "noble_ok N = ((\<forall>b. length (sha256 N b) = 32)
     \<and> (\<forall>b. length (bytesToHex N b) = 2 * length b \<and> list_all is_lower_hex (bytesToHex N b))
     \<and> (\<forall>b. hexToBytes N (bytesToHex N b) = Some b)
     \<and> (\<forall>s. even (length s) \<and> list_all is_lower_hex s \<longrightarrow>
          (\<exists>b. hexToBytes N s = Some b \<and> bytesToHex N b = s))
     \<and> inj (utf8ToBytes N)
     \<and> (\<forall>s. list_all (\<lambda>c. (of_char c :: nat) < 128) s \<longrightarrow> length (utf8ToBytes N s) = length s))"

lemma noble_sha256_length [simp]: "noble_ok N \<Longrightarrow> length (sha256 N b) = 32"
  unfolding noble_ok_def by blast

lemma noble_hex_shape: "noble_ok N \<Longrightarrow> length (bytesToHex N b) = 2 * length b \<and> list_all is_lower_hex (bytesToHex N b)"
  unfolding noble_ok_def by blast

lemma noble_hexToBytes:
  "noble_ok N \<Longrightarrow> even (length s) \<Longrightarrow> list_all is_lower_hex s \<Longrightarrow> \<exists>b. hexToBytes N s = Some b \<and> bytesToHex N b = s"
  unfolding noble_ok_def by blast

lemma noble_hex_sha256 [simp]: "noble_ok N \<Longrightarrow> hex32 (bytesToHex N (sha256 N b))"
  by (simp add: hex32_def noble_hex_shape)

lemma noble_hex_roundtrip [simp]: "noble_ok N \<Longrightarrow> hexToBytes N (bytesToHex N b) = Some b"
  unfolding noble_ok_def by blast

lemma noble_unhex: "noble_ok N \<Longrightarrow> hex32 s \<Longrightarrow> \<exists>b. hexToBytes N s = Some b \<and> bytesToHex N b = s \<and> length b = 32"
proof -
  assume N: "noble_ok N" and s: "hex32 s"
  then obtain b where b: "hexToBytes N s = Some b" "bytesToHex N b = s"
    using noble_hexToBytes[OF N, of s] by (auto simp: hex32_def)
  moreover have "length (bytesToHex N b) = 2 * length b" using noble_hex_shape[OF N] by blast
  ultimately show ?thesis using s by (auto simp: hex32_def)
qed

lemma noble_hex_inj: "noble_ok N \<Longrightarrow> bytesToHex N a = bytesToHex N b \<longleftrightarrow> a = b"
  by (metis noble_hex_roundtrip option.inject)

lemma noble_utf8_inj: "noble_ok N \<Longrightarrow> utf8ToBytes N a = utf8ToBytes N b \<longleftrightarrow> a = b"
  unfolding noble_ok_def by (blast dest: injD)

lemma noble_utf8_ascii: "noble_ok N \<Longrightarrow> list_all (\<lambda>c. (of_char c :: nat) < 128) s \<Longrightarrow> length (utf8ToBytes N s) = length s"
  unfolding noble_ok_def by blast

text \<open>A concrete instance, used by the witnesses: plain hex and UTF-8, and a truncating digest.\<close>

definition nibble_char :: "nat \<Rightarrow> char" where
  "nibble_char d = (if d < 10 then char_of (48 + d) else char_of (87 + d))"

definition nibble_val :: "char \<Rightarrow> nat" where
  "nibble_val c = (let k = of_char c in if k < 58 then k - 48 else k - 87)"

fun ref_hex :: "bytes \<Rightarrow> string" where
  "ref_hex [] = []"
| "ref_hex (b # bs) = nibble_char (unat b div 16) # nibble_char (unat b mod 16) # ref_hex bs"

fun ref_unhex :: "string \<Rightarrow> bytes option" where
  "ref_unhex [] = Some []"
| "ref_unhex [c] = None"
| "ref_unhex (c # d # cs) = (if is_lower_hex c \<and> is_lower_hex d
     then map_option (\<lambda>bs. word_of_nat (16 * nibble_val c + nibble_val d) # bs) (ref_unhex cs) else None)"

fun ref_utf8 :: "string \<Rightarrow> bytes" where
  "ref_utf8 [] = []"
| "ref_utf8 (c # cs) = (let k = of_char c in
     if k < 128 then word_of_nat k # ref_utf8 cs
     else word_of_nat (192 + k div 64) # word_of_nat (128 + k mod 64) # ref_utf8 cs)"

definition noble_ref :: noble where
  "noble_ref = \<lparr> sha256 = (\<lambda>b. take 32 (b @ replicate 32 0)), bytesToHex = ref_hex,
     hexToBytes = ref_unhex, utf8ToBytes = ref_utf8 \<rparr>"

lemma unat_lt2p_8: "unat (w :: byte) < 256"
  using unsigned_less[of w] by simp

lemma unat_word8_of_nat [simp]: "n < 256 \<Longrightarrow> unat (word_of_nat n :: byte) = n"
  by (simp add: unsigned_of_nat take_bit_eq_mod)

lemma nibble_facts:
  assumes "d < 16"
  shows "is_lower_hex (nibble_char d)" "nibble_val (nibble_char d) = d"
  using assms by (auto simp: is_lower_hex_def nibble_char_def nibble_val_def Let_def)

lemma ref_hex_props: "length (ref_hex b) = 2 * length b \<and> list_all is_lower_hex (ref_hex b) \<and> ref_unhex (ref_hex b) = Some b"
proof (induction b)
  case (Cons w b)
  have "unat w < 256" using unat_lt2p_8[of w] .
  then have "unat w div 16 < 16" by (simp add: less_mult_imp_div_less)
  with Cons show ?case by (simp add: nibble_facts)
qed simp

lemma nibble_char_val: "is_lower_hex c \<Longrightarrow> nibble_val c < 16 \<and> nibble_char (nibble_val c) = c"
  by (auto simp: is_lower_hex_def nibble_char_def nibble_val_def Let_def)

lemma ref_unhex_total:
  "even (length s) \<Longrightarrow> list_all is_lower_hex s \<Longrightarrow> \<exists>b. ref_unhex s = Some b \<and> ref_hex b = s"
proof (induction s rule: ref_unhex.induct)
  case (3 c d cs)
  then obtain b where b: "ref_unhex cs = Some b" "ref_hex b = cs" by auto
  have n: "nibble_val c < 16" "nibble_val d < 16" using 3 nibble_char_val by auto
  then have "unat (word_of_nat (16 * nibble_val c + nibble_val d) :: byte) = 16 * nibble_val c + nibble_val d"
    by (intro unat_word8_of_nat) linarith
  then show ?case using 3(2,3) b n nibble_char_val[of c] nibble_char_val[of d]
    by (simp del: of_nat_add of_nat_mult)
qed auto

lemma of_char_less_256: "(of_char c :: nat) < 256"
  by (rule nat_of_char_less_256)

lemma word8_of_nat_inj: "m < 256 \<Longrightarrow> n < 256 \<Longrightarrow> (word_of_nat m :: byte) = word_of_nat n \<longleftrightarrow> m = n"
  by (metis unat_word8_of_nat)

lemma ref_utf8_inj: "ref_utf8 s = ref_utf8 t \<Longrightarrow> s = t"
proof (induction s arbitrary: t)
  case Nil
  then show ?case by (cases t) (auto simp: Let_def split: if_splits)
next
  case (Cons c s)
  then obtain d t' where t: "t = d # t'" by (cases t) (auto simp: Let_def split: if_splits)
  define k where "k = (of_char c :: nat)"
  define l where "l = (of_char d :: nat)"
  have b: "k < 256" "l < 256" by (simp_all add: k_def l_def of_char_less_256)
  have b2: "192 + k div 64 < 256" "192 + l div 64 < 256" "128 + k mod 64 < 256" "128 + l mod 64 < 256"
    using b by (auto simp: less_mult_imp_div_less intro: less_le_trans[of _ "128+64"])
  have eq: "(if k < 128 then word_of_nat k # ref_utf8 s
      else word_of_nat (192 + k div 64) # word_of_nat (128 + k mod 64) # ref_utf8 s)
    = (if l < 128 then word_of_nat l # ref_utf8 t'
      else word_of_nat (192 + l div 64) # word_of_nat (128 + l mod 64) # ref_utf8 t')"
    using Cons.prems unfolding t ref_utf8.simps Let_def k_def l_def .
  have "k = l \<and> ref_utf8 s = ref_utf8 t'"
  proof (cases "k < 128 \<or> l < 128")
    case True
    then show ?thesis using eq b b2
      by (cases "k < 128"; cases "l < 128") (simp_all add: word8_of_nat_inj del: of_nat_add)
  next
    case False
    then have "k div 64 = l div 64" "k mod 64 = l mod 64" "ref_utf8 s = ref_utf8 t'"
      using eq b2 by (simp_all add: word8_of_nat_inj del: of_nat_add)
    then show ?thesis by (metis div_mult_mod_eq)
  qed
  then show ?case using Cons.IH t by (simp add: k_def l_def)
qed

lemma ref_utf8_length: "list_all (\<lambda>c. (of_char c :: nat) < 128) s \<Longrightarrow> length (ref_utf8 s) = length s"
  by (induction s) (auto simp: Let_def)

lemma noble_ref_ok [simp]: "noble_ok noble_ref"
  by (auto simp: noble_ok_def noble_ref_def ref_hex_props inj_def ref_utf8_length ref_unhex_total dest: ref_utf8_inj)

end
