(* ===== verification/Schema.thy ===== *)
theory Schema
imports Prelude "HOL-Library.Multiset"
begin

text \<open>
  The frozen credential schema (\<open>packages/identity/src/schema.ts\<close>): the claim table, the
  canonical \<open>name=value\<close> messages, decoding of a disclosed subset, disclosure-set
  normalisation and the subject binding.
\<close>

section \<open>The claim table\<close>

datatype claim_name = SchemaVersion | IssuerId | RevocationIndex | IssuedAt | ExpiresAt
  | SubjectBinding | Over18 | Over21 | NotSanctioned | NotPep | JurisdictionOk | LivenessOk

fun CLAIM_INDEX :: "claim_name \<Rightarrow> nat" where
  "CLAIM_INDEX SchemaVersion = 0"
| "CLAIM_INDEX IssuerId = 1"
| "CLAIM_INDEX RevocationIndex = 2"
| "CLAIM_INDEX IssuedAt = 3"
| "CLAIM_INDEX ExpiresAt = 4"
| "CLAIM_INDEX SubjectBinding = 5"
| "CLAIM_INDEX Over18 = 6"
| "CLAIM_INDEX Over21 = 7"
| "CLAIM_INDEX NotSanctioned = 8"
| "CLAIM_INDEX NotPep = 9"
| "CLAIM_INDEX JurisdictionOk = 10"
| "CLAIM_INDEX LivenessOk = 11"

fun claim_str :: "claim_name \<Rightarrow> string" where
  "claim_str SchemaVersion = ''schemaVersion''"
| "claim_str IssuerId = ''issuerId''"
| "claim_str RevocationIndex = ''revocationIndex''"
| "claim_str IssuedAt = ''issuedAt''"
| "claim_str ExpiresAt = ''expiresAt''"
| "claim_str SubjectBinding = ''subjectBinding''"
| "claim_str Over18 = ''over18''"
| "claim_str Over21 = ''over21''"
| "claim_str NotSanctioned = ''notSanctioned''"
| "claim_str NotPep = ''notPep''"
| "claim_str JurisdictionOk = ''jurisdictionOk''"
| "claim_str LivenessOk = ''livenessOk''"

text \<open>Claims are ordered by their frozen index, so that claim sets can be listed.\<close>

instantiation claim_name :: linorder
begin
definition less_eq_claim_name :: "claim_name \<Rightarrow> claim_name \<Rightarrow> bool" where
  "less_eq_claim_name a b = (CLAIM_INDEX a \<le> CLAIM_INDEX b)"
definition less_claim_name :: "claim_name \<Rightarrow> claim_name \<Rightarrow> bool" where
  "less_claim_name a b = (CLAIM_INDEX a < CLAIM_INDEX b)"
instance
proof
  fix a b :: claim_name
  show "a \<le> b \<Longrightarrow> b \<le> a \<Longrightarrow> a = b"
    by (cases a; cases b) (simp_all add: less_eq_claim_name_def)
qed (auto simp: less_eq_claim_name_def less_claim_name_def)
end

definition SCHEMA_ATTRIBUTE_COUNT :: nat where
  "SCHEMA_ATTRIBUTE_COUNT = 12"

definition MAX_SCHEMA_ATTRIBUTES :: nat where
  "MAX_SCHEMA_ATTRIBUTES = 39"

definition SCHEMA_VERSION :: string where
  "SCHEMA_VERSION = ''1''"

definition CREDENTIAL_HEADER :: string where
  "CREDENTIAL_HEADER = ''stellaronramp/kyc-credential/v'' @ SCHEMA_VERSION"

datatype claim_kind = KString | KHex32 | KUint | KBool

record claim_spec =
  spec_name :: claim_name
  spec_index :: nat
  spec_kind :: claim_kind
  spec_pii :: bool

definition mk_spec :: "claim_name \<Rightarrow> claim_kind \<Rightarrow> claim_spec" where
  "mk_spec n k = \<lparr> spec_name = n, spec_index = CLAIM_INDEX n, spec_kind = k, spec_pii = False \<rparr>"

definition CLAIM_SPECS :: "claim_spec list" where
  "CLAIM_SPECS =
    [mk_spec SchemaVersion KString, mk_spec IssuerId KHex32, mk_spec RevocationIndex KUint,
     mk_spec IssuedAt KUint, mk_spec ExpiresAt KUint, mk_spec SubjectBinding KHex32,
     mk_spec Over18 KBool, mk_spec Over21 KBool, mk_spec NotSanctioned KBool,
     mk_spec NotPep KBool, mk_spec JurisdictionOk KBool, mk_spec LivenessOk KBool]"

definition CLAIM_SPEC_BY_INDEX :: "claim_spec option list" where
  "CLAIM_SPEC_BY_INDEX =
     foldl (\<lambda>out s. out[spec_index s := Some s]) (replicate SCHEMA_ATTRIBUTE_COUNT None) CLAIM_SPECS"

text \<open>\<open>CLAIM_SPEC_BY_INDEX[idx]\<close> for an arbitrary number: \<open>undefined\<close> outside the table.\<close>

fun spec_at :: "jsnum \<Rightarrow> claim_spec option" where
  "spec_at (JInt i) = (if i < 0 then None
     else case nth_opt CLAIM_SPEC_BY_INDEX (nat i) of None \<Rightarrow> None | Some s \<Rightarrow> s)"
| "spec_at _ = None"

definition ISSUER_JURISDICTION_POLICY :: "string list" where
  "ISSUER_JURISDICTION_POLICY = [''AT'', ''BE'', ''CH'', ''CZ'', ''DE'', ''DK'', ''EE'', ''ES'', ''FI'',
     ''FR'', ''GB'', ''IE'', ''IT'', ''LT'', ''LU'', ''LV'', ''NL'', ''NO'', ''PL'', ''PT'', ''SE'', ''SI'', ''SK'']"

section \<open>Claim values\<close>

datatype claim_value = VStr string | VNum jsnum | VBool bool

type_synonym kyc_claims = "claim_name \<rightharpoonup> claim_value"

datatype schema_error = UnknownClaim | MissingClaim claim_name nat | BadBool claim_name
  | BadUint claim_name | BadHex claim_name | EmptyString claim_name | EqualsInString claim_name
  | LengthMismatch | NotInSchema jsnum | Malformed nat | NameMismatch string claim_name
  | NonCanonicalBool claim_name string | NonCanonicalUint claim_name string
  | UnsafeUint claim_name | IndexOutOfRange jsnum | DuplicateIndex nat | PiiAttribute claim_name
  | BadWalletAddress | BadSalt

fun encodeValue :: "claim_spec \<Rightarrow> claim_value \<Rightarrow> schema_error + string" where
  "encodeValue spec value = (case spec_kind spec of
     KBool \<Rightarrow> (case value of VBool b \<Rightarrow> Inr (if b then ''true'' else ''false'')
               | _ \<Rightarrow> Inl (BadBool (spec_name spec)))
   | KUint \<Rightarrow> (case value of VNum x \<Rightarrow>
                 (if \<not> js_isSafeInteger x \<or> js_less x 0 then Inl (BadUint (spec_name spec))
                  else (case x of JInt i \<Rightarrow> Inr (dec (nat i)) | _ \<Rightarrow> Inl (BadUint (spec_name spec))))
               | _ \<Rightarrow> Inl (BadUint (spec_name spec)))
   | KHex32 \<Rightarrow> (case value of VStr s \<Rightarrow> (if hex32 s then Inr s else Inl (BadHex (spec_name spec)))
               | _ \<Rightarrow> Inl (BadHex (spec_name spec)))
   | KString \<Rightarrow> (case value of VStr s \<Rightarrow>
                 (if s = [] then Inl (EmptyString (spec_name spec))
                  else if CHR ''='' \<in> set s then Inl (EqualsInString (spec_name spec))
                  else Inr s)
               | _ \<Rightarrow> Inl (EmptyString (spec_name spec))))"

definition encodeClaim :: "claim_name \<Rightarrow> claim_value \<Rightarrow> schema_error + string" where
  "encodeClaim name value = (case find (\<lambda>s. spec_name s = name) CLAIM_SPECS of
     None \<Rightarrow> Inl UnknownClaim
   | Some spec \<Rightarrow> ebind (encodeValue spec value) (\<lambda>v. Inr (claim_str name @ ''='' @ v)))"

fun encodeClaims_loop :: "kyc_claims \<Rightarrow> claim_spec list \<Rightarrow> string list \<Rightarrow> schema_error + string list" where
  "encodeClaims_loop claims [] messages = Inr messages"
| "encodeClaims_loop claims (spec # specs) messages = (case claims (spec_name spec) of
     None \<Rightarrow> Inl (MissingClaim (spec_name spec) (spec_index spec))
   | Some value \<Rightarrow> ebind (encodeClaim (spec_name spec) value)
       (\<lambda>m. encodeClaims_loop claims specs (messages[spec_index spec := m])))"

definition encodeClaims :: "kyc_claims \<Rightarrow> schema_error + string list" where
  "encodeClaims claims = encodeClaims_loop claims CLAIM_SPECS (replicate SCHEMA_ATTRIBUTE_COUNT [])"

section \<open>Decoding a disclosed subset\<close>

fun decodeValue :: "claim_spec \<Rightarrow> string \<Rightarrow> schema_error + claim_value" where
  "decodeValue spec value = (case spec_kind spec of
     KBool \<Rightarrow> (if value \<noteq> ''true'' \<and> value \<noteq> ''false'' then Inl (NonCanonicalBool (spec_name spec) value)
               else Inr (VBool (value = ''true'')))
   | KUint \<Rightarrow> (if \<not> canonical_uint value then Inl (NonCanonicalUint (spec_name spec) value)
               else if \<not> js_isSafeInteger (JInt (int (undec value))) then Inl (UnsafeUint (spec_name spec))
               else Inr (VNum (JInt (int (undec value)))))
   | KHex32 \<Rightarrow> (if hex32 value then Inr (VStr value) else Inl (BadHex (spec_name spec)))
   | KString \<Rightarrow> (if value = [] then Inl (EmptyString (spec_name spec)) else Inr (VStr value)))"

text \<open>\<open>raw.indexOf('=')\<close> with the two slices around it: \<open>None\<close> when there is no separator.\<close>

definition split_eq :: "string \<Rightarrow> (string \<times> string) option" where
  "split_eq raw = (case dropWhile (\<lambda>c. c \<noteq> CHR ''='') raw of
     [] \<Rightarrow> None | _ # value \<Rightarrow> Some (takeWhile (\<lambda>c. c \<noteq> CHR ''='') raw, value))"

fun decode_at :: "jsnum \<Rightarrow> nat \<Rightarrow> string \<Rightarrow> schema_error + claim_name \<times> claim_value" where
  "decode_at idx i raw = (case spec_at idx of
     None \<Rightarrow> Inl (NotInSchema idx)
   | Some spec \<Rightarrow> (case split_eq raw of
       None \<Rightarrow> Inl (Malformed i)
     | Some (name, value) \<Rightarrow>
         (if name \<noteq> claim_str (spec_name spec) then Inl (NameMismatch name (spec_name spec))
          else ebind (decodeValue spec value) (\<lambda>v. Inr (spec_name spec, v)))))"

fun decodeDisclosed_loop ::
  "nat \<Rightarrow> jsnum list \<Rightarrow> string list \<Rightarrow> kyc_claims \<Rightarrow> schema_error + kyc_claims" where
  "decodeDisclosed_loop i (idx # indexes) (raw # messages) out =
     ebind (decode_at idx i raw) (\<lambda>(n, v). decodeDisclosed_loop (Suc i) indexes messages (out(n \<mapsto> v)))"
| "decodeDisclosed_loop i _ _ out = Inr out"

definition decodeDisclosed :: "jsnum list \<Rightarrow> string list \<Rightarrow> schema_error + kyc_claims" where
  "decodeDisclosed indexes messages = (if length indexes \<noteq> length messages then Inl LengthMismatch
     else decodeDisclosed_loop 0 indexes messages Map.empty)"

section \<open>Disclosure index sets\<close>

fun assertNoPiiDisclosed :: "nat list \<Rightarrow> schema_error + unit" where
  "assertNoPiiDisclosed [] = Inr ()"
| "assertNoPiiDisclosed (idx # indexes) = (case spec_at (JInt (int idx)) of
     None \<Rightarrow> assertNoPiiDisclosed indexes
   | Some spec \<Rightarrow> (if spec_pii spec then Inl (PiiAttribute (spec_name spec))
                  else assertNoPiiDisclosed indexes))"

fun normalize_loop :: "jsnum list \<Rightarrow> nat list \<Rightarrow> schema_error + nat list" where
  "normalize_loop [] seen = Inr seen"
| "normalize_loop (JInt i # indexes) seen =
     (if i < 0 \<or> int SCHEMA_ATTRIBUTE_COUNT \<le> i then Inl (IndexOutOfRange (JInt i))
      else if nat i \<in> set seen then Inl (DuplicateIndex (nat i))
      else normalize_loop indexes (seen @ [nat i]))"
| "normalize_loop (x # indexes) seen = Inl (IndexOutOfRange x)"

definition normalizeIndexes :: "jsnum list \<Rightarrow> schema_error + nat list" where
  "normalizeIndexes indexes = ebind (normalize_loop indexes []) (\<lambda>seen.
     let sorted = sort seen in ebind (assertNoPiiDisclosed sorted) (\<lambda>_. Inr sorted))"

section \<open>Subject binding\<close>

definition SUBJECT_BINDING_SALT_BYTES :: nat where
  "SUBJECT_BINDING_SALT_BYTES = 32"

definition is_base32_char :: "char \<Rightarrow> bool" where
  "is_base32_char c = (let k = (of_char c :: nat) in (65 \<le> k \<and> k \<le> 90) \<or> (50 \<le> k \<and> k \<le> 55))"

text \<open>The pattern \<open>^[GC][A-Z2-7]{55}$\<close>.\<close>

definition is_wallet_address :: "string \<Rightarrow> bool" where
  "is_wallet_address s = (case s of [] \<Rightarrow> False
     | c # cs \<Rightarrow> (c = CHR ''G'' \<or> c = CHR ''C'') \<and> length cs = 55 \<and> list_all is_base32_char cs)"

definition computeSubjectBinding :: "noble \<Rightarrow> string \<Rightarrow> bytes \<Rightarrow> schema_error + string" where
  "computeSubjectBinding N walletAddress salt =
     (if \<not> is_wallet_address walletAddress then Inl BadWalletAddress
      else if length salt \<noteq> SUBJECT_BINDING_SALT_BYTES then Inl BadSalt
      else Inr (bytesToHex N (sha256 N (utf8ToBytes N walletAddress @ salt))))"

section \<open>Table facts\<close>

text \<open>The specification of a claim by its name.\<close>

fun claim_kind_of :: "claim_name \<Rightarrow> claim_kind" where
  "claim_kind_of SchemaVersion = KString"
| "claim_kind_of IssuerId = KHex32"
| "claim_kind_of SubjectBinding = KHex32"
| "claim_kind_of RevocationIndex = KUint"
| "claim_kind_of IssuedAt = KUint"
| "claim_kind_of ExpiresAt = KUint"
| "claim_kind_of _ = KBool"

abbreviation spec_of :: "claim_name \<Rightarrow> claim_spec" where
  "spec_of n \<equiv> mk_spec n (claim_kind_of n)"

lemma mk_spec_sel [simp]:
  "spec_name (mk_spec n k) = n" "spec_index (mk_spec n k) = CLAIM_INDEX n"
  "spec_kind (mk_spec n k) = k" "spec_pii (mk_spec n k) = False"
  by (simp_all add: mk_spec_def)

lemma CLAIM_INDEX_less [simp]: "CLAIM_INDEX n < 12"
  by (cases n) simp_all

lemma CLAIM_INDEX_inj [simp]: "CLAIM_INDEX a = CLAIM_INDEX b \<longleftrightarrow> a = b"
  by (cases a; cases b) simp_all

lemma claim_str_inj [simp]: "claim_str a = claim_str b \<longleftrightarrow> a = b"
  by (cases a; cases b) simp_all

lemma claim_str_no_eq: "CHR ''='' \<notin> set (claim_str n)"
  by (cases n) simp_all

lemma CLAIM_SPEC_BY_INDEX_eq: "CLAIM_SPEC_BY_INDEX = map Some CLAIM_SPECS"
  by (simp add: CLAIM_SPEC_BY_INDEX_def CLAIM_SPECS_def SCHEMA_ATTRIBUTE_COUNT_def eval_nat_numeral)

lemma CLAIM_SPECS_names: "map spec_name CLAIM_SPECS = [SchemaVersion, IssuerId, RevocationIndex,
    IssuedAt, ExpiresAt, SubjectBinding, Over18, Over21, NotSanctioned, NotPep, JurisdictionOk, LivenessOk]"
  by (simp add: CLAIM_SPECS_def)

lemma CLAIM_SPECS_nth: "CLAIM_SPECS ! CLAIM_INDEX n = spec_of n" "length CLAIM_SPECS = 12"
  by (cases n; simp add: CLAIM_SPECS_def) (simp add: CLAIM_SPECS_def)

lemma find_spec [simp]: "find (\<lambda>s. spec_name s = n) CLAIM_SPECS = Some (spec_of n)"
  by (cases n) (simp_all add: CLAIM_SPECS_def)

lemma claim_at_index: "k < 12 \<Longrightarrow> \<exists>n. CLAIM_INDEX n = k"
proof -
  assume "k < 12"
  then have "k \<in> set (map CLAIM_INDEX [SchemaVersion, IssuerId, RevocationIndex, IssuedAt, ExpiresAt,
      SubjectBinding, Over18, Over21, NotSanctioned, NotPep, JurisdictionOk, LivenessOk])"
    by simp presburger
  then show ?thesis by (metis ex_map_conv)
qed

lemma spec_at_index [simp]: "spec_at (JInt (int (CLAIM_INDEX n))) = Some (spec_of n)"
  by (simp add: nth_opt_conv CLAIM_SPEC_BY_INDEX_eq CLAIM_SPECS_nth)

lemma spec_at_Some: "spec_at x = Some s \<longleftrightarrow> (\<exists>n. x = JInt (int (CLAIM_INDEX n)) \<and> s = spec_of n)"
proof (cases x)
  case (JInt i)
  show ?thesis
  proof (cases "0 \<le> i \<and> i < 12")
    case True
    then have "nat i < 12" by linarith
    then obtain n where n: "CLAIM_INDEX n = nat i" using claim_at_index by blast
    then have "i = int (CLAIM_INDEX n)" using True by linarith
    then show ?thesis using JInt by (auto simp del: spec_at.simps)
  next
    case False
    then show ?thesis using JInt CLAIM_INDEX_less
      by (auto simp: nth_opt_conv CLAIM_SPEC_BY_INDEX_eq CLAIM_SPECS_nth)
  qed
qed auto

lemma spec_at_less_12: "k < 12 \<Longrightarrow> \<exists>n. CLAIM_INDEX n = k \<and> spec_at (JInt (int k)) = Some (spec_of n)"
  using claim_at_index spec_at_index by metis

declare spec_at.simps [simp del]

lemma encodeClaim_eq: "encodeClaim n v = ebind (encodeValue (spec_of n) v) (\<lambda>t. Inr (claim_str n @ ''='' @ t))"
  by (simp add: encodeClaim_def del: encodeValue.simps)

section \<open>Values and messages\<close>

lemma decodeValue_encodeValue:
  "encodeValue s v = Inr t \<Longrightarrow> decodeValue s t = Inr v"
  by (cases "spec_kind s"; cases v)
     (auto simp del: js_isSafeInteger.simps simp: js_simps split: if_splits)

lemma encodeValue_decodeValue:
  "decodeValue s t = Inr v \<Longrightarrow> spec_kind s \<noteq> KString \<or> CHR ''='' \<notin> set t \<Longrightarrow> encodeValue s v = Inr t"
  by (auto split: claim_kind.splits if_splits)

lemma split_eq_message: "CHR ''='' \<notin> set n \<Longrightarrow> split_eq (n @ ''='' @ v) = Some (n, v)"
  by (simp add: split_eq_def dropWhile_append takeWhile_append split: list.splits)

lemma split_eq_Some: "split_eq raw = Some (n, v) \<Longrightarrow> raw = n @ ''='' @ v \<and> CHR ''='' \<notin> set n"
proof -
  assume a: "split_eq raw = Some (n, v)"
  then obtain c where d: "dropWhile (\<lambda>c. c \<noteq> CHR ''='') raw = c # v" and n: "n = takeWhile (\<lambda>c. c \<noteq> CHR ''='') raw"
    by (auto simp: split_eq_def split: list.splits)
  have "c = CHR ''=''" using d by (metis (mono_tags) hd_dropWhile list.discI list.sel(1))
  then show ?thesis using d n takeWhile_dropWhile_id[of "\<lambda>c. c \<noteq> CHR ''=''" raw]
    by (auto dest: set_takeWhileD)
qed

lemma decode_at_encodeClaim:
  "encodeClaim n v = Inr m \<Longrightarrow> decode_at (JInt (int (CLAIM_INDEX n))) i m = Inr (n, v)"
  by (auto simp: encodeClaim_eq res_simps split_eq_message[OF claim_str_no_eq, simplified]
      dest!: decodeValue_encodeValue simp del: encodeValue.simps decodeValue.simps)

lemma decode_at_Inr:
  assumes "decode_at x i m = Inr (n, v)"
  shows "x = JInt (int (CLAIM_INDEX n))" "\<exists>t. m = claim_str n @ ''='' @ t \<and> decodeValue (spec_of n) t = Inr v"
  using assms
  by (auto simp: res_simps spec_at_Some simp del: decodeValue.simps split: option.splits if_splits dest!: split_eq_Some)

lemma encodeClaims_loop_Inr:
  assumes "encodeClaims_loop c specs ms = Inr out" "\<forall>s\<in>set specs. spec_index s < length ms"
    "distinct (map spec_index specs)"
  shows "length out = length ms \<and> (\<forall>s\<in>set specs. \<exists>v. c (spec_name s) = Some v \<and>
      encodeClaim (spec_name s) v = Inr (out ! spec_index s))
    \<and> (\<forall>k. k \<notin> spec_index ` set specs \<longrightarrow> out ! k = ms ! k)"
  using assms
proof (induction c specs ms rule: encodeClaims_loop.induct)
  case (2 c s specs ms)
  then obtain v m where v: "c (spec_name s) = Some v" "encodeClaim (spec_name s) v = Inr m"
    and rest: "encodeClaims_loop c specs (ms[spec_index s := m]) = Inr out"
    by (auto simp: res_simps split: option.splits)
  from 2(1)[OF v(1) rest] 2(3,4)
  show ?case using v
    by (auto simp: nth_list_update image_iff)
qed simp

lemma spec_in_specs: "spec_of n \<in> set CLAIM_SPECS"
  using CLAIM_SPECS_nth CLAIM_INDEX_less by (metis nth_mem)

lemma encodeClaims_Inr:
  assumes "encodeClaims c = Inr ms"
  shows "length ms = 12" "\<exists>v. c n = Some v \<and> encodeClaim n v = Inr (ms ! CLAIM_INDEX n)"
proof -
  have "\<forall>s\<in>set CLAIM_SPECS. spec_index s < length (replicate SCHEMA_ATTRIBUTE_COUNT [])"
    by (auto simp: CLAIM_SPECS_def SCHEMA_ATTRIBUTE_COUNT_def)
  moreover have "distinct (map spec_index CLAIM_SPECS)" by (simp add: CLAIM_SPECS_def)
  ultimately have *: "length ms = length (replicate SCHEMA_ATTRIBUTE_COUNT ([]::string)) \<and> (\<forall>s\<in>set CLAIM_SPECS. \<exists>v.
     c (spec_name s) = Some v \<and> encodeClaim (spec_name s) v = Inr (ms ! spec_index s))"
    using encodeClaims_loop_Inr assms unfolding encodeClaims_def by blast
  then show "length ms = 12" by (simp add: SCHEMA_ATTRIBUTE_COUNT_def)
  show "\<exists>v. c n = Some v \<and> encodeClaim n v = Inr (ms ! CLAIM_INDEX n)"
    using * spec_in_specs[of n] by fastforce
qed

section \<open>Disclosed subsets\<close>

lemma ex_map_mset: "mset xs = mset (map f ks) \<Longrightarrow> \<exists>js. xs = map f js \<and> mset js = mset ks"
proof (induction ks arbitrary: xs)
  case (Cons k ks)
  then have "f k \<in> set xs" by (metis list.set_intros(1) list.simps(9) mset_eq_setD)
  then obtain us vs where xs: "xs = us @ f k # vs" by (metis split_list)
  with Cons.prems have "mset (us @ vs) = mset (map f ks)" by simp
  then obtain js where "us @ vs = map f js" "mset js = mset ks" using Cons.IH by blast
  then obtain j1 j2 where "us = map f j1" "vs = map f j2" "mset (j1 @ j2) = mset ks"
    by (auto simp: append_eq_map_conv)
  then show ?case using xs by (intro exI[of _ "j1 @ k # j2"]) simp
qed simp

lemma decodeDisclosed_loop_encoded:
  assumes "encodeClaims c = Inr ms" "\<forall>k\<in>set ks. k < 12"
  shows "decodeDisclosed_loop i (map (JInt \<circ> int) ks) (map ((!) ms) ks) out
    = Inr (out ++ c |` {n. CLAIM_INDEX n \<in> set ks})"
  using assms(2)
proof (induction ks arbitrary: i out)
  case (Cons k ks)
  then obtain n where n: "k = CLAIM_INDEX n" using claim_at_index by (metis list.set_intros(1))
  obtain v where v: "c n = Some v" "encodeClaim n v = Inr (ms ! CLAIM_INDEX n)"
    using encodeClaims_Inr[OF assms(1)] by blast
  have "(out(n \<mapsto> v)) ++ c |` {n. CLAIM_INDEX n \<in> set ks} = out ++ c |` {m. CLAIM_INDEX m \<in> set (k # ks)}"
    using v n by (auto simp: map_add_def restrict_map_def fun_eq_iff split: option.splits)
  then show ?case using Cons n decode_at_encodeClaim[OF v(2)] by (simp del: decode_at.simps)
qed (auto simp: restrict_map_def map_add_def)

lemma decodeDisclosed_loop_Inr:
  assumes "decodeDisclosed_loop i xs ms out = Inr out'" "distinct xs" "length xs = length ms"
  shows "out' n = Some v \<longleftrightarrow>
     (if JInt (int (CLAIM_INDEX n)) \<in> set xs
      then \<exists>j<length xs. xs ! j = JInt (int (CLAIM_INDEX n)) \<and> decode_at (xs ! j) (i + j) (ms ! j) = Inr (n, v)
      else out n = Some v)"
  using assms
proof (induction i xs ms out rule: decodeDisclosed_loop.induct)
  case (1 i x xs m ms out)
  then obtain a b where d: "decode_at x i m = Inr (a, b)"
    and r: "decodeDisclosed_loop (Suc i) xs ms (out(a \<mapsto> b)) = Inr out'"
    by (auto simp: res_simps simp del: decode_at.simps)
  have x: "x = JInt (int (CLAIM_INDEX a))" using decode_at_Inr(1)[OF d] .
  show ?case
  proof (cases "a = n")
    case True
    then show ?thesis
      using 1(1)[OF r] 1(3,4) d x
      by (auto simp: less_Suc_eq_0_disj nth_Cons' in_set_conv_nth simp del: decode_at.simps)
  next
    case False
    then show ?thesis
      using 1(1)[OF r] 1(3,4) d x
      by (auto simp: less_Suc_eq_0_disj simp del: decode_at.simps)
  qed
qed auto

lemma decodeDisclosed_loop_ok:
  assumes "decodeDisclosed_loop i xs ms out = Inr out'" "length xs = length ms" "j < length xs"
  shows "\<exists>n v. xs ! j = JInt (int (CLAIM_INDEX n)) \<and> decode_at (xs ! j) (i + j) (ms ! j) = Inr (n, v)"
  using assms
proof (induction i xs ms out arbitrary: j rule: decodeDisclosed_loop.induct)
  case (1 i x xs m ms out)
  then obtain a b where d: "decode_at x i m = Inr (a, b)"
    and r: "decodeDisclosed_loop (Suc i) xs ms (out(a \<mapsto> b)) = Inr out'"
    by (auto simp: res_simps simp del: decode_at.simps)
  show ?case
  proof (cases j)
    case 0
    then show ?thesis using d decode_at_Inr(1)[OF d] by (simp del: decode_at.simps)
  next
    case (Suc k)
    then show ?thesis using 1(1)[OF r, of k] 1(3,4) by (simp del: decode_at.simps)
  qed
qed auto

lemma encodeClaim_of_decode_at:
  assumes "decode_at x i m = Inr (n, v)" "n \<noteq> SchemaVersion"
  shows "encodeClaim n v = Inr m"
proof -
  obtain t where t: "m = claim_str n @ ''='' @ t" "decodeValue (spec_of n) t = Inr v"
    using decode_at_Inr(2)[OF assms(1)] by blast
  have "spec_kind (spec_of n) \<noteq> KString" using assms(2) by (cases n) auto
  with encodeValue_decodeValue[OF t(2)] show ?thesis
    by (simp add: encodeClaim_eq t(1) del: encodeValue.simps decodeValue.simps)
qed

lemma encodeClaim_inj: "encodeClaim n v = Inr m \<Longrightarrow> encodeClaim n w = Inr m \<Longrightarrow> v = w"
  using decode_at_encodeClaim by (metis Inr_inject prod.inject)

lemma assertNoPii_v1: "assertNoPiiDisclosed ks = Inr ()"
  by (induction ks rule: assertNoPiiDisclosed.induct) (auto simp: spec_at_Some split: option.splits)

lemma normalize_loop_Inr:
  "normalize_loop xs seen = Inr out \<Longrightarrow> distinct seen \<Longrightarrow>
   distinct out \<and> (\<exists>ks. out = seen @ ks \<and> xs = map (JInt \<circ> int) ks \<and> (\<forall>k\<in>set ks. k < 12))"
proof (induction xs seen rule: normalize_loop.induct)
  case (2 i xs seen)
  then have ok: "0 \<le> i" "i < 12" "nat i \<notin> set seen" "normalize_loop xs (seen @ [nat i]) = Inr out"
    by (auto simp: SCHEMA_ATTRIBUTE_COUNT_def split: if_splits)
  then obtain ks where "distinct out" "out = seen @ nat i # ks" "xs = map (JInt \<circ> int) ks" "\<forall>k\<in>set ks. k < 12"
    using 2 by (auto simp: SCHEMA_ATTRIBUTE_COUNT_def)
  then show ?case using ok by (intro conjI exI[of _ "nat i # ks"]) auto
qed auto

lemma normalize_loop_complete:
  "distinct (seen @ ks) \<Longrightarrow> \<forall>k\<in>set ks. k < 12 \<Longrightarrow> normalize_loop (map (JInt \<circ> int) ks) seen = Inr (seen @ ks)"
  by (induction ks arbitrary: seen) (auto simp: SCHEMA_ATTRIBUTE_COUNT_def)

section \<open>Properties\<close>

text \<open>
  C1. Round trip of selective disclosure: from any claim set the issuer can encode, decoding
  any subset of the signed messages at their indexes gives exactly those claims, with
  their values.
\<close>

theorem decodeDisclosed_encodeClaims:
  assumes "encodeClaims c = Inr ms" and "\<forall>k\<in>set ks. k < SCHEMA_ATTRIBUTE_COUNT"
  shows "decodeDisclosed (map (JInt \<circ> int) ks) (map ((!) ms) ks) = Inr (c |` {n. CLAIM_INDEX n \<in> set ks})"
  using decodeDisclosed_loop_encoded[OF assms(1)] assms(2)
  by (simp add: decodeDisclosed_def SCHEMA_ATTRIBUTE_COUNT_def)

definition example_claims :: kyc_claims where
  "example_claims n = (case claim_kind_of n of
     KString \<Rightarrow> Some (VStr ''1'')
   | KHex32 \<Rightarrow> Some (VStr (replicate 64 CHR ''a''))
   | KUint \<Rightarrow> Some (VNum (JInt 1700000000))
   | KBool \<Rightarrow> Some (VBool (n \<noteq> NotPep)))"

lemma dec_example [simp]: "dec 1700000000 = ''1700000000''"
  by (simp add: dec.simps)

lemma hex32_replicate_a [simp]: "hex32 (replicate 64 CHR ''a'')"
  by (simp add: hex32_def is_lower_hex_def list_all_iff)

lemma example_claims_encode: "\<exists>ms. encodeClaims example_claims = Inr ms"
  by (simp add: encodeClaims_def CLAIM_SPECS_def encodeClaim_def mk_spec_def example_claims_def)

theorem decodeDisclosed_encodeClaims_witness:
  "\<exists>ms. encodeClaims example_claims = Inr ms
     \<and> decodeDisclosed (map (JInt \<circ> int) [4, 6]) (map ((!) ms) [4, 6])
       = Inr (example_claims |` {n. CLAIM_INDEX n \<in> set [4, 6]})"
proof -
  obtain ms where m: "encodeClaims example_claims = Inr ms" using example_claims_encode by blast
  show ?thesis using decodeDisclosed_encodeClaims[OF m, of "[4, 6]"] m
    by (auto simp: SCHEMA_ATTRIBUTE_COUNT_def)
qed

text \<open>
  C2. Decoding is canonical: from distinct indexes a decoded claim (other than the
  free-form schema version) is exactly one whose unique encoding is the message disclosed at
  that claim's index. No second byte string decodes to the same claim, and a message moved
  to another index never decodes.
\<close>

theorem decodeDisclosed_canonical:
  assumes "decodeDisclosed xs ms = Inr out" and "distinct xs" and "n \<noteq> SchemaVersion"
  shows "out n = Some v \<longleftrightarrow>
    (\<exists>j<length xs. xs ! j = JInt (int (CLAIM_INDEX n)) \<and> encodeClaim n v = Inr (ms ! j))"
proof -
  have len: "length xs = length ms" and loop: "decodeDisclosed_loop 0 xs ms Map.empty = Inr out"
    using assms(1) by (auto simp: decodeDisclosed_def split: if_splits)
  note eq = decodeDisclosed_loop_Inr[OF loop assms(2) len, of n v]
  show ?thesis
  proof
    assume "out n = Some v"
    then show "\<exists>j<length xs. xs ! j = JInt (int (CLAIM_INDEX n)) \<and> encodeClaim n v = Inr (ms ! j)"
      using eq encodeClaim_of_decode_at[OF _ assms(3)] by (metis option.distinct(1))
  next
    assume "\<exists>j<length xs. xs ! j = JInt (int (CLAIM_INDEX n)) \<and> encodeClaim n v = Inr (ms ! j)"
    then show "out n = Some v"
      using eq decode_at_encodeClaim by (metis nth_mem)
  qed
qed

lemma decode_over18_example: "decode_at (JInt 6) 0 ''over18=true'' = Inr (Over18, VBool True)"
  by code_simp

theorem decodeDisclosed_canonical_witness:
  "\<exists>out. decodeDisclosed [JInt 6] [''over18=true''] = Inr out \<and>
    (out Over18 = Some (VBool True) \<longleftrightarrow>
      (\<exists>j<length [JInt 6]. [JInt 6] ! j = JInt (int (CLAIM_INDEX Over18)) \<and>
         encodeClaim Over18 (VBool True) = Inr ([''over18=true''] ! j)))"
proof -
  have d: "decodeDisclosed [JInt 6] [''over18=true''] = Inr [Over18 \<mapsto> VBool True]"
    using decode_over18_example by (simp add: decodeDisclosed_def del: decode_at.simps)
  show ?thesis
    by (rule exI, rule conjI, rule d, rule decodeDisclosed_canonical[OF d]) simp_all
qed

text \<open>
  A disclosure set is normalised to the sorted list of its elements, and is
  accepted exactly when its entries are distinct integers inside the schema.
\<close>

theorem normalizeIndexes_spec:
  "normalizeIndexes xs = Inr ks \<longleftrightarrow>
     mset xs = mset (map (JInt \<circ> int) ks) \<and> sorted ks \<and> distinct ks \<and> set ks \<subseteq> {0..<SCHEMA_ATTRIBUTE_COUNT}"
proof
  assume "normalizeIndexes xs = Inr ks"
  then obtain js where j: "normalize_loop xs [] = Inr js" "ks = sort js"
    by (auto simp: normalizeIndexes_def res_simps Let_def assertNoPii_v1)
  from normalize_loop_Inr[OF j(1)] j(2)
  show "mset xs = mset (map (JInt \<circ> int) ks) \<and> sorted ks \<and> distinct ks \<and> set ks \<subseteq> {0..<SCHEMA_ATTRIBUTE_COUNT}"
    by (auto simp: SCHEMA_ATTRIBUTE_COUNT_def)
next
  assume r: "mset xs = mset (map (JInt \<circ> int) ks) \<and> sorted ks \<and> distinct ks \<and> set ks \<subseteq> {0..<SCHEMA_ATTRIBUTE_COUNT}"
  from r obtain js where xs: "xs = map (JInt \<circ> int) js" and "mset js = mset ks"
    by (metis ex_map_mset)
  then have "ks = sort js" "distinct js" "\<forall>k\<in>set js. k < 12"
    using r mset_eq_setD[of js ks] by (auto simp: properties_for_sort SCHEMA_ATTRIBUTE_COUNT_def dest: mset_eq_imp_distinct_iff)
  then show "normalizeIndexes xs = Inr ks"
    using normalize_loop_complete[of "[]" js] xs by (simp add: normalizeIndexes_def assertNoPii_v1)
qed

text \<open>
  The subject binding pins a wallet: two accepted wallet and salt pairs with the
  same binding are the same pair, or exhibit a collision of the hash.
\<close>

theorem computeSubjectBinding_inj:
  assumes "noble_ok N"
    and "computeSubjectBinding N w s = Inr b" and "computeSubjectBinding N w' s' = Inr b"
  shows "(w = w' \<and> s = s') \<or>
    (utf8ToBytes N w @ s \<noteq> utf8ToBytes N w' @ s' \<and>
     sha256 N (utf8ToBytes N w @ s) = sha256 N (utf8ToBytes N w' @ s'))"
proof -
  have "bytesToHex N (sha256 N (utf8ToBytes N w @ s)) = bytesToHex N (sha256 N (utf8ToBytes N w' @ s'))"
    and len: "length s = length s'"
    using assms(2,3) by (auto simp: computeSubjectBinding_def split: if_splits)
  then have "sha256 N (utf8ToBytes N w @ s) = sha256 N (utf8ToBytes N w' @ s')"
    using noble_hex_inj[OF assms(1)] by blast
  moreover have "utf8ToBytes N w @ s = utf8ToBytes N w' @ s' \<longleftrightarrow> w = w' \<and> s = s'"
    using len by (simp add: noble_utf8_inj[OF assms(1)])
  ultimately show ?thesis by blast
qed

lemma example_wallet [simp]: "is_wallet_address (CHR ''C'' # replicate 55 CHR ''A'')"
  by (simp add: is_wallet_address_def is_base32_char_def list_all_iff)

theorem computeSubjectBinding_inj_witness:
  "let w = CHR ''C'' # replicate 55 CHR ''A''; s = replicate 32 0 in
   (w = w \<and> s = s) \<or>
    (utf8ToBytes noble_ref w @ s \<noteq> utf8ToBytes noble_ref w @ s \<and>
     sha256 noble_ref (utf8ToBytes noble_ref w @ s) = sha256 noble_ref (utf8ToBytes noble_ref w @ s))"
  unfolding Let_def
  by (rule computeSubjectBinding_inj[OF noble_ref_ok])
     (simp_all add: computeSubjectBinding_def SUBJECT_BINDING_SALT_BYTES_def)

end
