(* ===== verification/Interfaces.thy ===== *)
theory Interfaces
imports Prelude
begin

text \<open>
  The contracts between components, as locales: a single-use register (replay guards,
  first-sight stores), an index allocator, a keyed store, and a codec. Each is
  interpreted on the model's own operations in the theory of the component that
  provides it.
\<close>

section \<open>Single-use registers\<close>

text \<open>The answers of a register to a sequence of requests.\<close>

fun run_uses :: "('s \<Rightarrow> 'k \<Rightarrow> bool \<times> 's) \<Rightarrow> 's \<Rightarrow> 'k list \<Rightarrow> bool list" where
  "run_uses use_key s [] = []"
| "run_uses use_key s (k # ks) = fst (use_key s k) # run_uses use_key (snd (use_key s k)) ks"

lemma length_run_uses [simp]: "length (run_uses f s ks) = length ks"
  by (induction ks arbitrary: s) auto

text \<open>
  A client of a register: a request is refused before it reaches the register, or it uses a key
  and is accepted exactly where the register says so. What is listed are the keys accepted.
\<close>

fun run_guarded :: "('q \<Rightarrow> 's \<Rightarrow> 'k option \<times> 's) \<Rightarrow> 'q list \<Rightarrow> 's \<Rightarrow> 'k list" where
  "run_guarded step [] s = []"
| "run_guarded step (q # qs) s = (case step q s of
     (None, s') \<Rightarrow> run_guarded step qs s'
   | (Some k, s') \<Rightarrow> k # run_guarded step qs s')"

locale single_use =
  fixes use_key :: "'s \<Rightarrow> 'k \<Rightarrow> bool \<times> 's"
    and seen :: "'s \<Rightarrow> 'k set"
  assumes use_answer: "fst (use_key s k) \<longleftrightarrow> k \<notin> seen s"
    and use_seen: "seen (snd (use_key s k)) = insert k (seen s)"
begin

lemma run_first_use:
  "i < length ks \<Longrightarrow> run_uses use_key s ks ! i \<longleftrightarrow> ks ! i \<notin> seen s \<and> ks ! i \<notin> set (take i ks)"
proof (induction ks arbitrary: s i)
  case (Cons k ks)
  then show ?case
    by (cases i) (auto simp: use_answer use_seen)
qed simp

lemma accepted_once:
  assumes "i < length ks" "j < length ks" "run_uses use_key s ks ! i" "run_uses use_key s ks ! j" "ks ! i = ks ! j"
  shows "i = j"
proof -
  have "\<not> i < j" "\<not> j < i"
    using assms run_first_use by (metis in_set_conv_nth length_take min_less_iff_conj nth_take)+
  then show ?thesis by simp
qed

lemma run_guarded_distinct:
  assumes step: "\<And>q t r t'. step q t = (r, t') \<Longrightarrow>
      (r = None \<and> t' = t) \<or> (\<exists>k b. use_key t k = (b, t') \<and> r = (if b then Some k else None))"
  shows "distinct (run_guarded step qs s) \<and> set (run_guarded step qs s) \<inter> seen s = {}"
proof (induction qs arbitrary: s)
  case (Cons q qs)
  obtain r s' where a: "step q s = (r, s')" by fastforce
  from step[OF a] show ?case
  proof (elim disjE exE conjE)
    assume "r = None" "s' = s"
    then show ?thesis using Cons.IH[of s] a by simp
  next
    fix k b assume u: "use_key s k = (b, s')" "r = (if b then Some k else None)"
    then have "seen s' = insert k (seen s)" "b \<longleftrightarrow> k \<notin> seen s" using use_seen[of s k] use_answer[of s k] by auto
    then show ?thesis using Cons.IH[of s'] a u(2) by auto
  qed
qed simp

end

section \<open>Index allocators\<close>

text \<open>
  An allocator hands out an index or refuses; \<open>bound\<close> is the exclusive upper bound of
  the indexes it has handed out.
\<close>

fun run_alloc :: "('s \<Rightarrow> ('e + nat) \<times> 's) \<Rightarrow> nat \<Rightarrow> 's \<Rightarrow> nat list" where
  "run_alloc alloc 0 s = []"
| "run_alloc alloc (Suc n) s = (case alloc s of
     (Inl _, s') \<Rightarrow> run_alloc alloc n s'
   | (Inr i, s') \<Rightarrow> i # run_alloc alloc n s')"

text \<open>
  A client serves requests, each with at most one allocation; what it reports of a
  request is the index it used, or nothing.
\<close>

fun run_client :: "('q \<Rightarrow> 's \<Rightarrow> nat option \<times> 's) \<Rightarrow> 'q list \<Rightarrow> 's \<Rightarrow> nat list" where
  "run_client step [] s = []"
| "run_client step (q # qs) s = (case step q s of
     (None, s') \<Rightarrow> run_client step qs s'
   | (Some i, s') \<Rightarrow> i # run_client step qs s')"

locale index_allocator =
  fixes alloc :: "'s \<Rightarrow> ('e + nat) \<times> 's"
    and bound :: "'s \<Rightarrow> nat"
    and limit :: nat
    and good :: "'s \<Rightarrow> bool"
  assumes alloc_fresh: "good s \<Longrightarrow> alloc s = (Inr i, s') \<Longrightarrow> bound s \<le> i \<and> i < bound s' \<and> i \<le> limit \<and> good s'"
    and alloc_refused: "good s \<Longrightarrow> alloc s = (Inl e, s') \<Longrightarrow> bound s \<le> bound s' \<and> good s'"
begin

lemma alloc_bound:
  assumes "good s" "alloc s = (r, s')"
  shows "bound s \<le> bound s' \<and> good s'"
proof (cases r)
  case (Inl e)
  then show ?thesis using alloc_refused[OF assms(1)] assms(2) by blast
next
  case (Inr i)
  then have "bound s \<le> i \<and> i < bound s' \<and> i \<le> limit \<and> good s'" using alloc_fresh[OF assms(1)] assms(2) by blast
  then show ?thesis by linarith
qed

lemma run_alloc_fresh: "good s \<Longrightarrow> sorted (run_alloc alloc n s) \<and> distinct (run_alloc alloc n s)
    \<and> (\<forall>i\<in>set (run_alloc alloc n s). bound s \<le> i \<and> i \<le> limit)"
proof (induction n arbitrary: s)
  case (Suc n)
  obtain r s' where a: "alloc s = (r, s')" by fastforce
  have s': "bound s \<le> bound s'" "good s'" using alloc_bound[OF Suc.prems a] by auto
  note IH = Suc.IH[OF s'(2)]
  show ?case
  proof (cases r)
    case (Inl e)
    then have "run_alloc alloc (Suc n) s = run_alloc alloc n s'" using a by simp
    then show ?thesis using IH s' by (simp only:) (meson order_trans)
  next
    case (Inr i)
    then have "bound s \<le> i" "i < bound s'" "i \<le> limit" using alloc_fresh[OF Suc.prems] a by auto
    moreover have "run_alloc alloc (Suc n) s = i # run_alloc alloc n s'" using a Inr by simp
    ultimately show ?thesis using IH s' by (auto intro: order_trans dest: bspec)
  qed
qed simp

lemma run_client_fresh:
  assumes step: "\<And>q t r t'. good t \<Longrightarrow> step q t = (r, t') \<Longrightarrow>
      (t' = t \<and> r = None) \<or> (\<exists>a. alloc t = (a, t') \<and> (\<forall>i. r = Some i \<longrightarrow> a = Inr i))"
  shows "good s \<Longrightarrow> sorted (run_client step qs s) \<and> distinct (run_client step qs s)
    \<and> (\<forall>i\<in>set (run_client step qs s). bound s \<le> i \<and> i \<le> limit)"
proof (induction qs arbitrary: s)
  case (Cons q qs)
  obtain r s' where a: "step q s = (r, s')" by fastforce
  have s': "bound s \<le> bound s'" "good s'"
    using step[OF Cons.prems a] alloc_bound[OF Cons.prems] Cons.prems by auto
  note IH = Cons.IH[OF s'(2)]
  show ?case
  proof (cases r)
    case None
    then show ?thesis using IH s' a by simp (meson order_trans)
  next
    case (Some i)
    then have "alloc s = (Inr i, s')" using step[OF Cons.prems a] by auto
    then have "bound s \<le> i" "i < bound s'" "i \<le> limit" using alloc_fresh[OF Cons.prems] by auto
    moreover have "run_client step (q # qs) s = i # run_client step qs s'" using a Some by simp
    ultimately show ?thesis using IH s' by (auto intro: order_trans dest: bspec)
  qed
qed simp

end

section \<open>Keyed stores\<close>

locale keyed_store =
  fixes put :: "'k \<Rightarrow> 'v \<Rightarrow> 's \<Rightarrow> 's"
    and get :: "'s \<Rightarrow> 'k \<Rightarrow> 'v option"
    and remove :: "'k \<Rightarrow> 's \<Rightarrow> 's"
  assumes get_put: "get (put k v s) k' = (if k' = k then Some v else get s k')"
    and get_remove: "get (remove k s) k' = (if k' = k then None else get s k')"
begin

lemma get_put_same [simp]: "get (put k v s) k = Some v"
  by (simp add: get_put)

lemma get_remove_same [simp]: "get (remove k s) k = None"
  by (simp add: get_remove)

lemma get_put_put: "get (put k w (put k v s)) = get (put k w s)"
  by (rule ext) (simp add: get_put)

lemma get_remove_put: "get (remove k (put k v s)) = get (remove k s)"
  by (rule ext) (simp add: get_put get_remove)

lemma get_put_commute: "k \<noteq> k' \<Longrightarrow> get (put k v (put k' v' s)) = get (put k' v' (put k v s))"
  by (rule ext) (simp add: get_put)

end

section \<open>Codecs\<close>

text \<open>A codec on the values satisfying \<open>ok\<close>; a canonical one has no second spelling.\<close>

locale codec =
  fixes enc :: "'a \<Rightarrow> 'b" and dcd :: "'b \<Rightarrow> 'e + 'a" and ok :: "'a \<Rightarrow> bool"
  assumes dec_enc: "ok a \<Longrightarrow> dcd (enc a) = Inr a"
begin

lemma enc_inj: "ok a \<Longrightarrow> ok b \<Longrightarrow> enc a = enc b \<Longrightarrow> a = b"
  by (metis dec_enc Inr_inject)

end

locale canonical_codec = codec +
  assumes enc_dec: "dcd b = Inr a \<Longrightarrow> ok a \<and> enc a = b"
begin

lemma dec_iff: "dcd b = Inr a \<longleftrightarrow> ok a \<and> enc a = b"
  using dec_enc enc_dec by blast

lemma spelling_inj: "dcd b = Inr a \<Longrightarrow> dcd b' = Inr a \<Longrightarrow> b = b'"
  using enc_dec by blast

end

end
