(* ===== verification/Binding.thy ===== *)
theory Binding
imports Schema Interfaces
begin

unbundle bit_operations_syntax

text \<open>
  Presentation bindings (\<open>packages/identity/src/binding.ts\<close>): validation, the canonical
  length-prefixed serialisation, the digests derived from it, and the replay guard.
\<close>

definition BINDING_DOMAIN :: string where
  "BINDING_DOMAIN = ''stellaronramp/presentation-binding/v1''"

definition PRESENTATION_HEADER_DOMAIN :: string where
  "PRESENTATION_HEADER_DOMAIN = ''stellaronramp/presentation-header/v1''"

definition PROOF_MAX_WINDOW :: int where
  "PROOF_MAX_WINDOW = 17280"

record proof_binding =
  nonce :: string
  walletAddress :: string
  contractId :: string
  networkPassphrase :: string
  ledgerExpiry :: jsnum

datatype binding_error = BadNonce | BadWallet | BadContract | BadPassphrase | BadLedgerExpiry
  | HexDecode

text \<open>The pattern \<open>^C[A-Z2-7]{55}$\<close>; \<open>^[GC][A-Z2-7]{55}$\<close> is the one of wallets.\<close>

definition is_contract_address :: "string \<Rightarrow> bool" where
  "is_contract_address s = (case s of [] \<Rightarrow> False
     | c # cs \<Rightarrow> c = CHR ''C'' \<and> length cs = 55 \<and> list_all is_base32_char cs)"

definition assertValidBinding :: "proof_binding \<Rightarrow> binding_error + unit" where
  "assertValidBinding b =
     (if \<not> hex32 (nonce b) then Inl BadNonce
      else if \<not> is_wallet_address (walletAddress b) then Inl BadWallet
      else if \<not> is_contract_address (contractId b) then Inl BadContract
      else if networkPassphrase b = [] then Inl BadPassphrase
      else if \<not> js_isInteger (ledgerExpiry b) \<or> js_less (ledgerExpiry b) 0
           \<or> js_greater (ledgerExpiry b) 4294967295 then Inl BadLedgerExpiry
      else Inr ())"

section \<open>Canonical bytes\<close>

text \<open>\<open>(n >>> k) & 0xff\<close> for the four byte positions; \<open>>>>\<close> reads the number modulo 2 to the 32.\<close>

definition u32be :: "nat \<Rightarrow> bytes" where
  "u32be n = (let w = (word_of_nat n :: 32 word) in
     [ucast (drop_bit 24 w AND 255), ucast (drop_bit 16 w AND 255), ucast (drop_bit 8 w AND 255), ucast (w AND 255)])"

definition lenPrefixed :: "bytes \<Rightarrow> bytes" where
  "lenPrefixed field = u32be (length field) @ field"

fun js_nat :: "jsnum \<Rightarrow> nat" where
  "js_nat (JInt i) = nat i"
| "js_nat _ = 0"

definition canonicalBindingBytes :: "noble \<Rightarrow> proof_binding \<Rightarrow> binding_error + bytes" where
  "canonicalBindingBytes N b = ebind (assertValidBinding b) (\<lambda>_.
     case hexToBytes N (nonce b) of None \<Rightarrow> Inl HexDecode
     | Some nb \<Rightarrow> Inr (lenPrefixed (utf8ToBytes N BINDING_DOMAIN)
         @ lenPrefixed nb
         @ lenPrefixed (utf8ToBytes N (walletAddress b))
         @ lenPrefixed (utf8ToBytes N (contractId b))
         @ lenPrefixed (sha256 N (utf8ToBytes N (networkPassphrase b)))
         @ lenPrefixed (u32be (js_nat (ledgerExpiry b)))))"

definition bindingDigest :: "noble \<Rightarrow> proof_binding \<Rightarrow> binding_error + bytes" where
  "bindingDigest N b = ebind (canonicalBindingBytes N b) (\<lambda>c. Inr (sha256 N c))"

definition bindingDigestHex :: "noble \<Rightarrow> proof_binding \<Rightarrow> binding_error + string" where
  "bindingDigestHex N b = ebind (bindingDigest N b) (\<lambda>d. Inr (bytesToHex N d))"

definition presentationHeaderFor :: "noble \<Rightarrow> proof_binding \<Rightarrow> binding_error + bytes" where
  "presentationHeaderFor N b = ebind (bindingDigest N b)
     (\<lambda>d. Inr (sha256 N (utf8ToBytes N PRESENTATION_HEADER_DOMAIN @ d)))"

text \<open>\<open>diff\<close> starts as the exclusive or of the lengths and collects the differing bits.\<close>

definition bytes_diff :: "bytes \<Rightarrow> bytes \<Rightarrow> 32 word" where
  "bytes_diff x y = foldl (\<lambda>diff (a, b). diff OR (ucast a XOR ucast b))
     (word_of_nat (length x) XOR word_of_nat (length y)) (zip x y)"

definition bindingsEqual :: "noble \<Rightarrow> proof_binding \<Rightarrow> proof_binding \<Rightarrow> binding_error + bool" where
  "bindingsEqual N a b = ebind (bindingDigest N a) (\<lambda>x. ebind (bindingDigest N b)
     (\<lambda>y. Inr (bytes_diff x y = 0)))"

section \<open>The replay guard\<close>

text \<open>The state is the set of consumed digest keys.\<close>

type_synonym replay_guard = "string set"

definition consume_key :: "replay_guard \<Rightarrow> string \<Rightarrow> bool \<times> replay_guard" where
  "consume_key consumed key = (if key \<in> consumed then (False, consumed) else (True, insert key consumed))"

definition guard_consume :: "noble \<Rightarrow> replay_guard \<Rightarrow> proof_binding \<Rightarrow> binding_error + bool \<times> replay_guard" where
  "guard_consume N consumed b = ebind (bindingDigestHex N b) (\<lambda>key. Inr (consume_key consumed key))"

definition guard_has :: "noble \<Rightarrow> replay_guard \<Rightarrow> proof_binding \<Rightarrow> binding_error + bool" where
  "guard_has N consumed b = ebind (bindingDigestHex N b) (\<lambda>key. Inr (key \<in> consumed))"

definition guard_clear :: "replay_guard \<Rightarrow> replay_guard" where
  "guard_clear consumed = {}"

interpretation guard: single_use consume_key "\<lambda>s. s"
  by unfold_locales (auto simp: consume_key_def)

section \<open>Lemmas\<close>

lemma length_u32be [simp]: "length (u32be n) = 4"
  by (simp add: u32be_def Let_def)

lemma unat_ucast_byte: "unat (ucast (w AND 255 :: 32 word) :: byte) = unat w mod 256"
proof -
  have "w AND 255 = take_bit 8 w" by (simp add: take_bit_eq_mask mask_eq_exp_minus_1)
  then have "unat (ucast (w AND 255) :: byte) = take_bit 8 (take_bit LENGTH(8) (unat w))"
    by (simp only: unsigned_ucast_eq unsigned_take_bit_eq)
  then show ?thesis by (simp add: take_bit_eq_mod)
qed

lemma unat_ucast_byte_shift: "unat (ucast (drop_bit k w AND 255 :: 32 word) :: byte) = unat w div 2 ^ k mod 256"
  by (simp only: unat_ucast_byte unat_drop_bit_eq) (simp only: drop_bit_eq_div)

lemma unat_word32_of_nat: "n < 2 ^ 32 \<Longrightarrow> unat (word_of_nat n :: 32 word) = n"
  by (simp add: unsigned_of_nat take_bit_eq_mod)

lemma u32be_inj:
  assumes "m < 2 ^ 32" "n < 2 ^ 32" "u32be m = u32be n"
  shows "m = n"
proof -
  define f where "f k = map (\<lambda>w. unat (w :: byte)) (u32be k)" for k
  have f: "f k = [k div 2 ^ 24 mod 256, k div 2 ^ 16 mod 256, k div 2 ^ 8 mod 256, k mod 256]" if "k < 2 ^ 32" for k
    by (simp only: f_def u32be_def Let_def list.map unat_ucast_byte_shift unat_word32_of_nat[OF that])
       (simp only: unat_ucast_byte unat_word32_of_nat[OF that])
  have "f m = f n" using assms by (simp add: f_def)
  then have e: "m div 2 ^ 24 mod 256 = n div 2 ^ 24 mod 256" "m div 2 ^ 16 mod 256 = n div 2 ^ 16 mod 256"
      "m div 2 ^ 8 mod 256 = n div 2 ^ 8 mod 256" "m mod 256 = n mod 256"
    using assms f by auto
  have r: "k = ((k div 2 ^ 24 mod 256 * 256 + k div 2 ^ 16 mod 256) * 256 + k div 2 ^ 8 mod 256) * 256 + k mod 256"
    if "k < 2 ^ 32" for k :: nat
  proof -
    have d: "k div 2 ^ 16 = k div 2 ^ 8 div 256" "k div 2 ^ 24 = k div 2 ^ 8 div 256 div 256"
      by (simp_all flip: div_mult2_eq)
    have "k div 2 ^ 24 < 256" using that by (simp add: less_mult_imp_div_less)
    then show ?thesis
      using div_mult_mod_eq[of k 256] div_mult_mod_eq[of "k div 2 ^ 8" 256] div_mult_mod_eq[of "k div 2 ^ 8 div 256" 256]
      unfolding d by simp
  qed
  show ?thesis using r[OF assms(1)] r[OF assms(2)] e by simp
qed

lemma lenPrefixed_inj:
  assumes "length a < 2 ^ 32" "length b < 2 ^ 32" "lenPrefixed a @ r = lenPrefixed b @ s"
  shows "a = b \<and> r = s"
proof -
  have "u32be (length a) = u32be (length b)" "a @ r = b @ s"
    using assms(3) by (simp_all add: lenPrefixed_def)
  then show ?thesis using u32be_inj[OF assms(1,2)] by simp
qed

lemma lenPrefixed_cancel:
  "length a < 2 ^ 32 \<Longrightarrow> length b < 2 ^ 32 \<Longrightarrow> lenPrefixed a @ r = lenPrefixed b @ s \<longleftrightarrow> a = b \<and> r = s"
  using lenPrefixed_inj by blast

lemma word_xor_cancel: "a XOR b = 0 \<Longrightarrow> a = (b :: 'a :: len word)"
  by (metis xor.right_neutral xor.assoc xor_self_eq xor.left_neutral)

lemma ucast_byte_inj: "(ucast (a :: byte) :: 32 word) = ucast b \<longleftrightarrow> a = b"
proof
  assume "(ucast a :: 32 word) = ucast b"
  then have "unat (ucast a :: 32 word) = unat (ucast b :: 32 word)" by simp
  then have "take_bit LENGTH(32) (unat a) = take_bit LENGTH(32) (unat b)" by (simp only: unsigned_ucast_eq)
  then show "a = b" using unat_lt2p_8[of a] unat_lt2p_8[of b]
    by (simp add: take_bit_eq_mod word_unat_eq_iff)
qed simp

lemma bytes_diff_acc:
  "length x = length y \<Longrightarrow> foldl (\<lambda>diff (a, b). diff OR (ucast (a :: byte) XOR ucast b)) d (zip x y) = (0 :: 32 word)
    \<longleftrightarrow> d = 0 \<and> x = y"
proof (induction x y arbitrary: d rule: list_induct2)
  case (Cons a x b y)
  have "ucast a XOR ucast b = (0 :: 32 word) \<longleftrightarrow> a = b"
    by (metis ucast_byte_inj xor_self_eq word_xor_cancel)
  then show ?case using Cons by (auto simp: or_eq_0_iff)
qed simp

lemma base32_ascii: "is_base32_char c \<Longrightarrow> (of_char c :: nat) < 128"
  by (auto simp: is_base32_char_def Let_def)

lemma wallet_ascii: "is_wallet_address s \<Longrightarrow> length s = 56 \<and> list_all (\<lambda>c. (of_char c :: nat) < 128) s"
  by (cases s) (auto simp: is_wallet_address_def list_all_iff base32_ascii)

lemma contract_wallet: "is_contract_address s \<Longrightarrow> is_wallet_address s"
  by (auto simp: is_contract_address_def is_wallet_address_def split: list.splits)

lemma wallet_utf8_length: "noble_ok N \<Longrightarrow> is_wallet_address s \<Longrightarrow> length (utf8ToBytes N s) = 56"
  using wallet_ascii noble_utf8_ascii by metis

lemma assertValidBinding_Inr [wf]:
  "assertValidBinding b = Inr () \<longleftrightarrow> hex32 (nonce b) \<and> is_wallet_address (walletAddress b)
     \<and> is_contract_address (contractId b) \<and> networkPassphrase b \<noteq> []
     \<and> (\<exists>i. ledgerExpiry b = JInt i \<and> 0 \<le> i \<and> i < 2 ^ 32)"
  by (cases "ledgerExpiry b") (auto simp: assertValidBinding_def)

lemma domain_lengths:
  assumes "noble_ok N"
  shows "length (utf8ToBytes N BINDING_DOMAIN) = 37" "length (utf8ToBytes N PRESENTATION_HEADER_DOMAIN) = 36"
  by (simp_all add: BINDING_DOMAIN_def PRESENTATION_HEADER_DOMAIN_def noble_utf8_ascii[OF assms])

lemma canonicalBindingBytes_Inr:
  assumes "noble_ok N"
  shows "canonicalBindingBytes N b = Inr c \<longleftrightarrow> assertValidBinding b = Inr () \<and>
   (\<exists>nb. hexToBytes N (nonce b) = Some nb \<and> bytesToHex N nb = nonce b \<and> length nb = 32 \<and>
      c = lenPrefixed (utf8ToBytes N BINDING_DOMAIN) @ lenPrefixed nb
         @ lenPrefixed (utf8ToBytes N (walletAddress b))
         @ lenPrefixed (utf8ToBytes N (contractId b))
         @ lenPrefixed (sha256 N (utf8ToBytes N (networkPassphrase b)))
         @ lenPrefixed (u32be (js_nat (ledgerExpiry b))))"
proof (cases "assertValidBinding b")
  case (Inr u)
  then have "hex32 (nonce b)" by (simp add: assertValidBinding_Inr)
  from noble_unhex[OF assms this] Inr show ?thesis
    by (auto simp: canonicalBindingBytes_def)
qed (simp add: canonicalBindingBytes_def)

lemma canonicalBindingBytes_total:
  assumes "noble_ok N"
  shows "(\<exists>c. canonicalBindingBytes N b = Inr c) \<longleftrightarrow> assertValidBinding b = Inr ()"
  using canonicalBindingBytes_Inr[OF assms] noble_unhex[OF assms] by (metis assertValidBinding_Inr)

lemma bindingDigest_Inr:
  "bindingDigest N b = Inr d \<longleftrightarrow> (\<exists>c. canonicalBindingBytes N b = Inr c \<and> d = sha256 N c)"
  by (auto simp: bindingDigest_def res_simps)

lemma bindingDigestHex_Inr:
  "bindingDigestHex N b = Inr k \<longleftrightarrow> (\<exists>c. canonicalBindingBytes N b = Inr c \<and> k = bytesToHex N (sha256 N c))"
  by (auto simp: bindingDigestHex_def bindingDigest_Inr res_simps)

text \<open>The answers of a guard to a sequence of presentations.\<close>

fun guard_run :: "noble \<Rightarrow> replay_guard \<Rightarrow> proof_binding list \<Rightarrow> binding_error + bool list" where
  "guard_run N consumed [] = Inr []"
| "guard_run N consumed (b # bs) = ebind (guard_consume N consumed b)
     (\<lambda>(r, consumed'). ebind (guard_run N consumed' bs) (\<lambda>rs. Inr (r # rs)))"

lemma guard_run_Inr:
  "guard_run N S bs = Inr rs \<longleftrightarrow>
     (\<exists>keys. mapE (bindingDigestHex N) bs = Inr keys \<and> rs = run_uses consume_key S keys)"
proof (induction bs arbitrary: S rs)
  case (Cons b bs)
  have split: "consume_key S k = (r, S') \<longleftrightarrow> r = fst (consume_key S k) \<and> S' = snd (consume_key S k)" for k r S'
    by (cases "consume_key S k") auto
  show ?case by (auto simp: res_simps guard_consume_def split Cons.IH)
qed auto

section \<open>Properties\<close>

text \<open>
  C3. The canonical bytes pin every field: two bindings with the same canonical bytes
  agree on nonce, wallet, contract and ledger expiry, and on the network passphrase unless
  the two passphrases collide under the hash.
\<close>

theorem canonicalBindingBytes_inj:
  assumes "noble_ok N" and "canonicalBindingBytes N a = Inr c" and "canonicalBindingBytes N b = Inr c"
  shows "a = b \<or> (networkPassphrase a \<noteq> networkPassphrase b
     \<and> a = b\<lparr>networkPassphrase := networkPassphrase a\<rparr>
     \<and> sha256 N (utf8ToBytes N (networkPassphrase a)) = sha256 N (utf8ToBytes N (networkPassphrase b)))"
proof -
  note len = wallet_utf8_length[OF assms(1)] domain_lengths[OF assms(1)] noble_sha256_length[OF assms(1)]
  from assms(2) obtain na where a: "assertValidBinding a = Inr ()" "bytesToHex N na = nonce a" "length na = 32"
     "c = lenPrefixed (utf8ToBytes N BINDING_DOMAIN) @ lenPrefixed na @ lenPrefixed (utf8ToBytes N (walletAddress a))
       @ lenPrefixed (utf8ToBytes N (contractId a)) @ lenPrefixed (sha256 N (utf8ToBytes N (networkPassphrase a)))
       @ lenPrefixed (u32be (js_nat (ledgerExpiry a)))"
    unfolding canonicalBindingBytes_Inr[OF assms(1)] by blast
  from assms(3) obtain nb where b: "assertValidBinding b = Inr ()" "bytesToHex N nb = nonce b" "length nb = 32"
     "c = lenPrefixed (utf8ToBytes N BINDING_DOMAIN) @ lenPrefixed nb @ lenPrefixed (utf8ToBytes N (walletAddress b))
       @ lenPrefixed (utf8ToBytes N (contractId b)) @ lenPrefixed (sha256 N (utf8ToBytes N (networkPassphrase b)))
       @ lenPrefixed (u32be (js_nat (ledgerExpiry b)))"
    unfolding canonicalBindingBytes_Inr[OF assms(1)] by blast
  have w: "is_wallet_address (walletAddress a)" "is_wallet_address (walletAddress b)"
     "is_wallet_address (contractId a)" "is_wallet_address (contractId b)"
    using a(1) b(1) contract_wallet by (auto simp: assertValidBinding_Inr)
  have l: "length na < 2 ^ 32" "length nb < 2 ^ 32" "\<And>x. length (sha256 N x) < 2 ^ 32"
     "length (utf8ToBytes N (walletAddress a)) < 2 ^ 32" "length (utf8ToBytes N (walletAddress b)) < 2 ^ 32"
     "length (utf8ToBytes N (contractId a)) < 2 ^ 32" "length (utf8ToBytes N (contractId b)) < 2 ^ 32"
    using a(3) b(3) by (simp_all add: len w)
  have eqs: "na = nb" "utf8ToBytes N (walletAddress a) = utf8ToBytes N (walletAddress b)"
     "utf8ToBytes N (contractId a) = utf8ToBytes N (contractId b)"
     "sha256 N (utf8ToBytes N (networkPassphrase a)) = sha256 N (utf8ToBytes N (networkPassphrase b))"
     "lenPrefixed (u32be (js_nat (ledgerExpiry a))) = lenPrefixed (u32be (js_nat (ledgerExpiry b)))"
    using trans[OF a(4)[symmetric] b(4)] by (simp_all only: append_same_eq same_append_eq lenPrefixed_cancel l)
  then have "u32be (js_nat (ledgerExpiry a)) = u32be (js_nat (ledgerExpiry b))"
    by (simp add: lenPrefixed_def)
  then have "ledgerExpiry a = ledgerExpiry b"
    using a(1) b(1) u32be_inj[of "js_nat (ledgerExpiry a)" "js_nat (ledgerExpiry b)"]
    by (auto simp: assertValidBinding_Inr nat_less_iff)
  moreover have "nonce a = nonce b" "walletAddress a = walletAddress b" "contractId a = contractId b"
    using eqs a(2) b(2) noble_utf8_inj[OF assms(1)] by auto
  ultimately show ?thesis using eqs(4) by (cases a; cases b) auto
qed

definition example_binding :: proof_binding where
  "example_binding = \<lparr> nonce = replicate 64 CHR ''a'', walletAddress = CHR ''C'' # replicate 55 CHR ''A'',
     contractId = CHR ''C'' # replicate 55 CHR ''B'', networkPassphrase = ''Test'', ledgerExpiry = JInt 1000 \<rparr>"

lemma example_binding_ok: "assertValidBinding example_binding = Inr ()"
  by (simp add: assertValidBinding_Inr example_binding_def is_contract_address_def is_base32_char_def list_all_iff)

lemma example_binding_bytes: "\<exists>c. canonicalBindingBytes noble_ref example_binding = Inr c"
  using canonicalBindingBytes_total[OF noble_ref_ok] example_binding_ok by blast

theorem canonicalBindingBytes_inj_witness:
  "let a = example_binding\<lparr>networkPassphrase := replicate 32 CHR ''x'' @ ''y''\<rparr>; b = example_binding\<lparr>networkPassphrase := replicate 32 CHR ''x'' @ ''z''\<rparr>
   in (\<exists>c. canonicalBindingBytes noble_ref a = Inr c \<and> canonicalBindingBytes noble_ref b = Inr c)
     \<and> networkPassphrase a \<noteq> networkPassphrase b \<and> a = b\<lparr>networkPassphrase := networkPassphrase a\<rparr>
     \<and> sha256 noble_ref (utf8ToBytes noble_ref (networkPassphrase a)) = sha256 noble_ref (utf8ToBytes noble_ref (networkPassphrase b))"
proof -
  let ?a = "example_binding\<lparr>networkPassphrase := replicate 32 CHR ''x'' @ ''y''\<rparr>"
  let ?b = "example_binding\<lparr>networkPassphrase := replicate 32 CHR ''x'' @ ''z''\<rparr>"
  have ok: "assertValidBinding ?a = Inr ()" "assertValidBinding ?b = Inr ()"
    using example_binding_ok by (simp_all add: assertValidBinding_Inr)
  have collide: "sha256 noble_ref (utf8ToBytes noble_ref (networkPassphrase ?a)) = sha256 noble_ref (utf8ToBytes noble_ref (networkPassphrase ?b))"
    by (simp add: noble_ref_def numeral_eq_Suc)
  obtain c where a: "canonicalBindingBytes noble_ref ?a = Inr c" using canonicalBindingBytes_total[OF noble_ref_ok] ok(1) by blast
  then have b: "canonicalBindingBytes noble_ref ?b = Inr c"
    using ok(2) collide unfolding canonicalBindingBytes_Inr[OF noble_ref_ok] by simp
  have ne: "?a \<noteq> ?b" by (simp add: proof_binding.equality example_binding_def)
  have "networkPassphrase ?a \<noteq> networkPassphrase ?b \<and> ?a = ?b\<lparr>networkPassphrase := networkPassphrase ?a\<rparr>
     \<and> sha256 noble_ref (utf8ToBytes noble_ref (networkPassphrase ?a)) = sha256 noble_ref (utf8ToBytes noble_ref (networkPassphrase ?b))"
    by (rule disjE[OF canonicalBindingBytes_inj[OF noble_ref_ok a b]]) (rule notE[OF ne], assumption+)
  moreover have "\<exists>c. canonicalBindingBytes noble_ref ?a = Inr c \<and> canonicalBindingBytes noble_ref ?b = Inr c" using a b by blast
  ultimately show ?thesis unfolding Let_def by (rule conjI[rotated])
qed

text \<open>
  Single use: when a guard answers a sequence of presentations, the answer to the
  \<open>j\<close>-th is yes exactly when its digest was neither consumed before nor presented earlier
  in the sequence.
\<close>

theorem guard_run_single_use:
  assumes "guard_run N S bs = Inr rs" and "j < length bs"
  shows "rs ! j \<longleftrightarrow> (\<forall>k\<in>S. bindingDigestHex N (bs ! j) \<noteq> Inr k)
     \<and> (\<forall>i<j. bindingDigestHex N (bs ! i) \<noteq> bindingDigestHex N (bs ! j))"
proof -
  obtain keys where k: "mapE (bindingDigestHex N) bs = Inr keys" "rs = run_uses consume_key S keys"
    using assms(1) guard_run_Inr by blast
  then have d: "length keys = length bs" "\<And>i. i < length bs \<Longrightarrow> bindingDigestHex N (bs ! i) = Inr (keys ! i)"
    by (auto simp: mapE_Inr)
  have "keys ! j \<in> set (take j keys) \<longleftrightarrow> (\<exists>i<j. keys ! i = keys ! j)"
    using assms(2) d(1) by (auto simp: in_set_conv_nth)
  then show ?thesis
    using guard.run_first_use[of j keys S] assms(2) d k(2) by auto
qed

theorem guard_run_single_use_witness:
  "\<exists>rs. guard_run noble_ref {} [example_binding, example_binding] = Inr rs \<and>
     (rs ! 1 \<longleftrightarrow> (\<forall>k\<in>{}. bindingDigestHex noble_ref ([example_binding, example_binding] ! 1) \<noteq> Inr k)
     \<and> (\<forall>i<1. bindingDigestHex noble_ref ([example_binding, example_binding] ! i)
            \<noteq> bindingDigestHex noble_ref ([example_binding, example_binding] ! 1)))"
proof -
  obtain k where k: "bindingDigestHex noble_ref example_binding = Inr k"
    using example_binding_bytes bindingDigestHex_Inr by blast
  then have "mapE (bindingDigestHex noble_ref) [example_binding, example_binding] = Inr [k, k]" by simp
  then obtain rs where r: "guard_run noble_ref {} [example_binding, example_binding] = Inr rs"
    using guard_run_Inr by blast
  show ?thesis using guard_run_single_use[OF r, of 1] r by simp
qed

lemma bindingsEqual_Inr:
  assumes "noble_ok N" "bindingDigest N a = Inr x" "bindingDigest N b = Inr y"
  shows "bindingsEqual N a b = Inr (x = y)"
proof -
  have "length x = length y" using assms by (auto simp: bindingDigest_Inr)
  then show ?thesis using assms(2,3) bytes_diff_acc[of x y "word_of_nat (length x) XOR word_of_nat (length y)"]
    by (simp add: bindingsEqual_def bytes_diff_def)
qed

lemma presentationHeaderFor_Inr:
  "presentationHeaderFor N b = Inr h \<longleftrightarrow> (\<exists>d. bindingDigest N b = Inr d \<and> h = sha256 N (utf8ToBytes N PRESENTATION_HEADER_DOMAIN @ d))"
  by (auto simp: presentationHeaderFor_def res_simps)

text \<open>
  A presentation header commits to its binding: two bindings with the same header have
  the same canonical bytes, or their canonical bytes collide under the hash, or the two
  domain-separated digests do.
\<close>

theorem presentationHeaderFor_binds:
  assumes "presentationHeaderFor N a = Inr h" and "presentationHeaderFor N b = Inr h"
  shows "\<exists>c d. canonicalBindingBytes N a = Inr c \<and> canonicalBindingBytes N b = Inr d \<and>
     (let p = utf8ToBytes N PRESENTATION_HEADER_DOMAIN @ sha256 N c;
          q = utf8ToBytes N PRESENTATION_HEADER_DOMAIN @ sha256 N d in
      c = d \<or> (c \<noteq> d \<and> sha256 N c = sha256 N d) \<or> (p \<noteq> q \<and> sha256 N p = sha256 N q))"
  using assms by (auto simp: presentationHeaderFor_Inr bindingDigest_Inr Let_def)

theorem presentationHeaderFor_binds_witness:
  "\<exists>c d. canonicalBindingBytes noble_ref example_binding = Inr c \<and> canonicalBindingBytes noble_ref example_binding = Inr d \<and>
     (let p = utf8ToBytes noble_ref PRESENTATION_HEADER_DOMAIN @ sha256 noble_ref c;
          q = utf8ToBytes noble_ref PRESENTATION_HEADER_DOMAIN @ sha256 noble_ref d in
      c = d \<or> (c \<noteq> d \<and> sha256 noble_ref c = sha256 noble_ref d) \<or> (p \<noteq> q \<and> sha256 noble_ref p = sha256 noble_ref q))"
proof -
  obtain h where "presentationHeaderFor noble_ref example_binding = Inr h"
    using example_binding_bytes presentationHeaderFor_Inr bindingDigest_Inr by metis
  from presentationHeaderFor_binds[OF this this] show ?thesis .
qed

end
