(* ===== verification/Points.thy ===== *)
theory Points
imports Schema
begin

text \<open>
  Point and proof wire forms (\<open>packages/identity/src/points.ts\<close>): big-endian field elements,
  (de)compression layouts, the BBS+ size law, and the split and flat forms of a proof. The
  curve library is a parameter: it maps compressed points to affine coordinates and back.
\<close>

definition G1_COMPRESSED_BYTES :: nat where "G1_COMPRESSED_BYTES = 48"
definition G1_UNCOMPRESSED_BYTES :: nat where "G1_UNCOMPRESSED_BYTES = 96"
definition G2_COMPRESSED_BYTES :: nat where "G2_COMPRESSED_BYTES = 96"
definition G2_UNCOMPRESSED_BYTES :: nat where "G2_UNCOMPRESSED_BYTES = 192"
definition SCALAR_BYTES :: nat where "SCALAR_BYTES = 32"
definition FP_BYTES :: nat where "FP_BYTES = 48"
definition SIGNATURE_BYTES :: nat where "SIGNATURE_BYTES = G1_COMPRESSED_BYTES + SCALAR_BYTES"

lemmas byte_counts = G1_COMPRESSED_BYTES_def G1_UNCOMPRESSED_BYTES_def G2_COMPRESSED_BYTES_def
  G2_UNCOMPRESSED_BYTES_def SCALAR_BYTES_def FP_BYTES_def SIGNATURE_BYTES_def

datatype point_error = NegativeFp | FpTooLarge | PointLength nat | BadPoint | SignatureLength
  | BadCount jsnum | CountTooLarge nat | BadProofLength nat | ChunkRange

text \<open>
  The curve parameter. Decoding yields the affine coordinates of a point on the curve and in
  the subgroup, or fails; a G2 coordinate is the pair of its two components.
\<close>

record curve =
  g1_decode :: "bytes \<Rightarrow> (int \<times> int) option"
  g1_encode :: "int \<times> int \<Rightarrow> bytes"
  g2_decode :: "bytes \<Rightarrow> ((int \<times> int) \<times> (int \<times> int)) option"
  g2_encode :: "(int \<times> int) \<times> (int \<times> int) \<Rightarrow> bytes"

definition fp_ok :: "int \<Rightarrow> bool" where
  "fp_ok x = (0 \<le> x \<and> x < 2 ^ 384)"

definition curve_ok :: "curve \<Rightarrow> bool" where
  "curve_ok C = ((\<forall>b x y. g1_decode C b = Some (x, y) \<longrightarrow> fp_ok x \<and> fp_ok y \<and> g1_encode C (x, y) = b)
     \<and> (\<forall>b x0 x1 y0 y1. g2_decode C b = Some ((x0, x1), (y0, y1)) \<longrightarrow>
          fp_ok x0 \<and> fp_ok x1 \<and> fp_ok y0 \<and> fp_ok y1 \<and> g2_encode C ((x0, x1), (y0, y1)) = b))"

section \<open>Field elements\<close>

text \<open>The loop writes the bytes from the last index down.\<close>

fun fp_loop :: "nat \<Rightarrow> int \<Rightarrow> bytes \<Rightarrow> int \<times> bytes" where
  "fp_loop 0 v out = (v, out)"
| "fp_loop (Suc i) v out = fp_loop i (v div 256) (word_of_int (v mod 256) # out)"

definition fpToBe :: "int \<Rightarrow> point_error + bytes" where
  "fpToBe x = (if x < 0 then Inl NegativeFp
     else let (v, out) = fp_loop FP_BYTES x [] in if v \<noteq> 0 then Inl FpTooLarge else Inr out)"

definition beToBigint :: "bytes \<Rightarrow> int" where
  "beToBigint bs = foldl (\<lambda>v b. v * 256 + uint b) 0 bs"

section \<open>Compression\<close>

definition decompressG1 :: "curve \<Rightarrow> bytes \<Rightarrow> point_error + bytes" where
  "decompressG1 C compressed = (if length compressed \<noteq> G1_COMPRESSED_BYTES then Inl (PointLength G1_COMPRESSED_BYTES)
     else case g1_decode C compressed of None \<Rightarrow> Inl BadPoint
     | Some (x, y) \<Rightarrow> ebind (fpToBe x) (\<lambda>bx. ebind (fpToBe y) (\<lambda>b_y. Inr (bx @ b_y))))"

definition decompressG2 :: "curve \<Rightarrow> bytes \<Rightarrow> point_error + bytes" where
  "decompressG2 C compressed = (if length compressed \<noteq> G2_COMPRESSED_BYTES then Inl (PointLength G2_COMPRESSED_BYTES)
     else case g2_decode C compressed of None \<Rightarrow> Inl BadPoint
     | Some ((x0, x1), (y0, y1)) \<Rightarrow>
         ebind (fpToBe x1) (\<lambda>a. ebind (fpToBe x0) (\<lambda>b. ebind (fpToBe y1) (\<lambda>c. ebind (fpToBe y0) (\<lambda>d.
           Inr (a @ b @ c @ d))))))"

definition compressG1 :: "curve \<Rightarrow> bytes \<Rightarrow> point_error + bytes" where
  "compressG1 C u = (if length u \<noteq> G1_UNCOMPRESSED_BYTES then Inl (PointLength G1_UNCOMPRESSED_BYTES)
     else Inr (g1_encode C (beToBigint (take FP_BYTES u), beToBigint (drop FP_BYTES u))))"

definition compressG2 :: "curve \<Rightarrow> bytes \<Rightarrow> point_error + bytes" where
  "compressG2 C u = (if length u \<noteq> G2_UNCOMPRESSED_BYTES then Inl (PointLength G2_UNCOMPRESSED_BYTES)
     else let xc1 = beToBigint (take FP_BYTES u);
              xc0 = beToBigint (take FP_BYTES (drop FP_BYTES u));
              yc1 = beToBigint (take FP_BYTES (drop (2 * FP_BYTES) u));
              yc0 = beToBigint (drop (3 * FP_BYTES) u) in
          Inr (g2_encode C ((xc0, xc1), (yc0, yc1))))"

section \<open>Signatures and proofs\<close>

record soroban_signature =
  s_a :: bytes
  s_e :: bytes

definition splitSignature :: "curve \<Rightarrow> bytes \<Rightarrow> point_error + soroban_signature" where
  "splitSignature C signature = (if length signature \<noteq> SIGNATURE_BYTES then Inl SignatureLength
     else ebind (decompressG1 C (take G1_COMPRESSED_BYTES signature))
       (\<lambda>a. Inr \<lparr> s_a = a, s_e = drop G1_COMPRESSED_BYTES signature \<rparr>))"

definition assertUndisclosedCountInRange :: "nat \<Rightarrow> point_error + unit" where
  "assertUndisclosedCountInRange u = (if u > MAX_SCHEMA_ATTRIBUTES then Inl (CountTooLarge u) else Inr ())"

fun expectedProofBytes :: "jsnum \<Rightarrow> point_error + nat" where
  "expectedProofBytes (JInt i) = (if i < 0 then Inl (BadCount (JInt i))
     else ebind (assertUndisclosedCountInRange (nat i)) (\<lambda>_. Inr (144 + SCALAR_BYTES * (4 + nat i))))"
| "expectedProofBytes x = Inl (BadCount x)"

definition undisclosedCountFromProofBytes :: "nat \<Rightarrow> point_error + nat" where
  "undisclosedCountFromProofBytes len = (let base = 3 * G1_COMPRESSED_BYTES + 4 * SCALAR_BYTES in
     if len < base \<or> (len - base) mod SCALAR_BYTES \<noteq> 0 then Inl (BadProofLength len)
     else let u = (len - base) div SCALAR_BYTES in
       ebind (assertUndisclosedCountInRange u) (\<lambda>_. Inr u))"

record soroban_proof =
  p_abar :: bytes
  p_bbar :: bytes
  p_d :: bytes
  p_eHat :: bytes
  p_r1Hat :: bytes
  p_r3Hat :: bytes
  p_mHat :: "bytes list"
  p_challenge :: bytes
  p_undisclosedCount :: nat

text \<open>\<open>takeScalar\<close> repeated: the responses and the remaining bytes.\<close>

fun take_scalars :: "nat \<Rightarrow> bytes \<Rightarrow> bytes list \<times> bytes" where
  "take_scalars 0 bs = ([], bs)"
| "take_scalars (Suc k) bs = (let (ss, rest) = take_scalars k (drop SCALAR_BYTES bs) in (take SCALAR_BYTES bs # ss, rest))"

definition splitProof :: "curve \<Rightarrow> bytes \<Rightarrow> point_error + soroban_proof" where
  "splitProof C prf = ebind (undisclosedCountFromProofBytes (length prf)) (\<lambda>u.
     ebind (decompressG1 C (take G1_COMPRESSED_BYTES prf)) (\<lambda>abar.
     ebind (decompressG1 C (take G1_COMPRESSED_BYTES (drop G1_COMPRESSED_BYTES prf))) (\<lambda>bbar.
     ebind (decompressG1 C (take G1_COMPRESSED_BYTES (drop (2 * G1_COMPRESSED_BYTES) prf))) (\<lambda>d.
     let (heads, rest) = take_scalars 3 (drop (3 * G1_COMPRESSED_BYTES) prf);
         (mHat, rest') = take_scalars u rest in
     Inr \<lparr> p_abar = abar, p_bbar = bbar, p_d = d, p_eHat = heads ! 0, p_r1Hat = heads ! 1, p_r3Hat = heads ! 2,
           p_mHat = mHat, p_challenge = take SCALAR_BYTES rest', p_undisclosedCount = u \<rparr>))))"

text \<open>\<open>out.set(chunk, off)\<close> throws when a chunk runs past the end; unwritten bytes stay zero.\<close>

definition flattenSorobanProof :: "soroban_proof \<Rightarrow> point_error + bytes" where
  "flattenSorobanProof p = (let size = 3 * G1_UNCOMPRESSED_BYTES + SCALAR_BYTES * (4 + p_undisclosedCount p);
       data = concat ([p_abar p, p_bbar p, p_d p, p_eHat p, p_r1Hat p, p_r3Hat p] @ p_mHat p @ [p_challenge p]) in
     if length data > size then Inl ChunkRange else Inr (data @ replicate (size - length data) 0))"

section \<open>Lemmas\<close>

lemma beToBigint_acc: "foldl (\<lambda>v b. v * 256 + uint b) a bs = a * 256 ^ length bs + beToBigint bs"
proof (induction bs arbitrary: a)
  case (Cons b bs)
  have "beToBigint (b # bs) = foldl (\<lambda>v b. v * 256 + uint b) (uint b) bs"
    by (simp add: beToBigint_def)
  also have "\<dots> = uint b * 256 ^ length bs + beToBigint bs" by (rule Cons)
  finally have 1: "beToBigint (b # bs) = uint b * 256 ^ length bs + beToBigint bs" .
  have "foldl (\<lambda>v b. v * 256 + uint b) a (b # bs) = (a * 256 + uint b) * 256 ^ length bs + beToBigint bs"
    by (simp only: foldl.simps Cons)
  then show ?case unfolding 1 by (simp add: distrib_right mult.assoc)
qed (simp add: beToBigint_def)

lemma beToBigint_Cons [simp]: "beToBigint (b # bs) = uint b * 256 ^ length bs + beToBigint bs"
  using beToBigint_acc[of "uint b" bs] by (simp add: beToBigint_def)

lemma beToBigint_Nil [simp]: "beToBigint [] = 0"
  by (simp add: beToBigint_def)

lemma uint_byte_mod: "uint (word_of_int (v mod 256) :: byte) = v mod 256"
  by (simp add: uint_word_of_int)

lemma beToBigint_snoc: "beToBigint (bs @ [b]) = beToBigint bs * 256 + uint b"
  by (simp add: beToBigint_def)

lemma fp_loop_spec:
  assumes "0 \<le> v"
  shows "\<exists>bs. (\<forall>out. fp_loop n v out = (v div 256 ^ n, bs @ out)) \<and> length bs = n \<and> beToBigint bs = v mod 256 ^ n"
  using assms
proof (induction n arbitrary: v)
  case (Suc n)
  let ?w = "word_of_int (v mod 256) :: byte"
  have "0 \<le> v div 256" using Suc.prems by simp
  from Suc.IH[OF this] obtain bs where bs: "\<And>out. fp_loop n (v div 256) out = (v div 256 div 256 ^ n, bs @ out)"
    "length bs = n" "beToBigint bs = v div 256 mod 256 ^ n" by blast
  have 1: "v div 256 div 256 ^ n = v div 256 ^ Suc n" by (simp add: zdiv_zmult2_eq)
  have 2: "v div 256 mod 256 ^ n * 256 + v mod 256 = v mod 256 ^ Suc n"
    by (simp add: zmod_zmult2_eq mult.commute)
  have "\<forall>out. fp_loop (Suc n) v out = (v div 256 ^ Suc n, (bs @ [?w]) @ out)"
    unfolding fp_loop.simps bs(1) 1 by simp
  moreover have "beToBigint (bs @ [?w]) = v mod 256 ^ Suc n"
    unfolding beToBigint_snoc bs(3) uint_byte_mod by (rule 2)
  ultimately show ?case using bs(2) by (intro exI[of _ "bs @ [?w]"]) simp
qed simp

lemma fpToBe_spec:
  assumes "0 \<le> x"
  obtains bs where "length bs = 48" "beToBigint bs = x mod 256 ^ 48"
    "fpToBe x = (if x div 256 ^ 48 \<noteq> 0 then Inl FpTooLarge else Inr bs)"
proof -
  from fp_loop_spec[OF assms, of 48] obtain bs where "fp_loop 48 x [] = (x div 256 ^ 48, bs @ [])" "length bs = 48"
    "beToBigint bs = x mod 256 ^ 48" by blast
  then show ?thesis using that assms by (simp add: fpToBe_def byte_counts)
qed

lemma fpToBe_Inr: "fpToBe x = Inr bs \<Longrightarrow> length bs = 48 \<and> beToBigint bs = x"
proof -
  assume a: "fpToBe x = Inr bs"
  then have x: "0 \<le> x" by (auto simp: fpToBe_def split: if_splits)
  obtain cs where "length cs = 48" "beToBigint cs = x mod 256 ^ 48"
    "fpToBe x = (if x div 256 ^ 48 \<noteq> 0 then Inl FpTooLarge else Inr cs)" using fpToBe_spec[OF x] .
  then show ?thesis using a x div_mult_mod_eq[of x "256 ^ 48"] by (auto split: if_splits)
qed

lemma fpToBe_ok: "fp_ok x \<Longrightarrow> \<exists>bs. fpToBe x = Inr bs"
proof -
  assume a: "fp_ok x"
  then have x: "0 \<le> x" "x div 256 ^ 48 = 0" by (auto simp: fp_ok_def zdiv_eq_0_iff)
  show ?thesis using fpToBe_spec[OF x(1)] x(2) by metis
qed

lemma decompressG1_Inr:
  "decompressG1 C b = Inr u \<longleftrightarrow> length b = 48 \<and> (\<exists>x y bx b_y. g1_decode C b = Some (x, y)
     \<and> fpToBe x = Inr bx \<and> fpToBe y = Inr b_y \<and> u = bx @ b_y)"
  by (auto simp: decompressG1_def res_simps byte_counts split: option.splits)

lemma decompressG1_length: "decompressG1 C b = Inr u \<Longrightarrow> length u = 96"
  by (auto simp: decompressG1_Inr dest!: fpToBe_Inr)

lemma take_scalars_spec:
  assumes "k * 32 \<le> length bs"
  shows "\<exists>ss. take_scalars k bs = (ss, drop (k * 32) bs) \<and> length ss = k \<and> concat ss = take (k * 32) bs
     \<and> (\<forall>s\<in>set ss. length s = 32)"
  using assms
proof (induction k arbitrary: bs)
  case (Suc k)
  have "k * 32 \<le> length (drop 32 bs)" using Suc.prems by (simp only: length_drop mult_Suc)
  from Suc.IH[OF this] obtain ss where ss: "take_scalars k (drop 32 bs) = (ss, drop (k * 32) (drop 32 bs))" "length ss = k"
    "concat ss = take (k * 32) (drop 32 bs)" "\<forall>s\<in>set ss. length s = 32"
    by blast
  have "take_scalars (Suc k) bs = (take 32 bs # ss, drop (Suc k * 32) bs)"
    using ss(1) by (simp add: byte_counts add.commute)
  moreover have "concat (take 32 bs # ss) = take (Suc k * 32) bs"
    using ss(3) take_add[of 32 "k * 32" bs] by simp
  ultimately show ?case using ss Suc.prems by auto
qed simp

lemma splitProof_Inr:
  assumes "splitProof C prf = Inr p"
  obtains u eh r1 r3 where "undisclosedCountFromProofBytes (length prf) = Inr u" "p_undisclosedCount p = u"
    "decompressG1 C (take 48 prf) = Inr (p_abar p)" "decompressG1 C (take 48 (drop 48 prf)) = Inr (p_bbar p)"
    "decompressG1 C (take 48 (drop 96 prf)) = Inr (p_d p)" "length prf = 272 + 32 * u" "u \<le> 39"
    "concat ([p_eHat p, p_r1Hat p, p_r3Hat p] @ p_mHat p @ [p_challenge p]) = drop 144 prf"
    "length (p_mHat p) = u" "\<forall>s\<in>set ([p_eHat p, p_r1Hat p, p_r3Hat p] @ p_mHat p @ [p_challenge p]). length s = 32"
proof -
  from assms obtain u where u: "undisclosedCountFromProofBytes (length prf) = Inr u"
    by (auto simp: splitProof_def res_simps)
  then have len: "length prf = 272 + 32 * u" "u \<le> 39"
    by (auto simp: undisclosedCountFromProofBytes_def res_simps byte_counts Let_def assertUndisclosedCountInRange_def
        MAX_SCHEMA_ATTRIBUTES_def split: if_splits)
  obtain h where h: "take_scalars 3 (drop 144 prf) = (h, drop 240 prf)" "length h = 3"
    "concat h = take 96 (drop 144 prf)" "\<forall>s\<in>set h. length s = 32"
    using take_scalars_spec[of 3 "drop 144 prf"] len(1) by auto
  obtain ms where ms: "take_scalars u (drop 240 prf) = (ms, drop (u * 32) (drop 240 prf))" "length ms = u"
    "concat ms = take (u * 32) (drop 240 prf)" "\<forall>s\<in>set ms. length s = 32"
    using take_scalars_spec[of u "drop 240 prf"] len(1) by auto
  obtain a b c where abc: "h = [a, b, c]" using h(2) by (auto simp: eval_nat_numeral length_Suc_conv)
  have last: "take 32 (drop (u * 32) (drop 240 prf)) = drop (u * 32) (drop 240 prf)" using len(1) by simp
  have "p_undisclosedCount p = u" "decompressG1 C (take 48 prf) = Inr (p_abar p)"
    "decompressG1 C (take 48 (drop 48 prf)) = Inr (p_bbar p)" "decompressG1 C (take 48 (drop 96 prf)) = Inr (p_d p)"
    "[p_eHat p, p_r1Hat p, p_r3Hat p] = h" "p_mHat p = ms" "p_challenge p = drop (u * 32) (drop 240 prf)"
    using assms u h(1) ms(1) abc last by (auto simp: splitProof_def res_simps byte_counts Let_def)
  moreover have "drop 144 prf = concat h @ concat ms @ drop (u * 32) (drop 240 prf)"
  proof -
    have "drop 96 (drop 144 prf) = drop 240 prf" by simp
    then show ?thesis unfolding h(3) ms(3) by (metis append_take_drop_id)
  qed
  ultimately show ?thesis using that u len h(4) ms(2,4) by (auto simp: abc)
qed

lemma undisclosedCount_Inr:
  "undisclosedCountFromProofBytes n = Inr u \<longleftrightarrow> n = 272 + 32 * u \<and> u \<le> 39"
proof
  assume "undisclosedCountFromProofBytes n = Inr u"
  then have h: "272 \<le> n" "(n - 272) mod 32 = 0" "u = (n - 272) div 32" "u \<le> 39"
    by (auto simp: undisclosedCountFromProofBytes_def Let_def byte_counts assertUndisclosedCountInRange_def
        MAX_SCHEMA_ATTRIBUTES_def res_simps split: if_splits)
  then have "n - 272 = 32 * u" using div_mult_mod_eq[of "n - 272" 32] by simp
  then show "n = 272 + 32 * u \<and> u \<le> 39" using h by linarith
next
  assume "n = 272 + 32 * u \<and> u \<le> 39"
  then show "undisclosedCountFromProofBytes n = Inr u"
    by (auto simp: undisclosedCountFromProofBytes_def Let_def byte_counts assertUndisclosedCountInRange_def MAX_SCHEMA_ATTRIBUTES_def)
qed

lemma expectedProofBytes_Inr:
  "expectedProofBytes (JInt (int u)) = Inr n \<longleftrightarrow> n = 272 + 32 * u \<and> u \<le> 39"
  by (auto simp: byte_counts assertUndisclosedCountInRange_def MAX_SCHEMA_ATTRIBUTES_def res_simps)

section \<open>Properties\<close>

text \<open>
  The size law is invertible: a proof length is the expected one for a number of hidden
  messages exactly when reading that length back gives the number, and both directions refuse
  more hidden messages than the on-chain cost cap allows.
\<close>

theorem proof_size_law:
  "expectedProofBytes (JInt (int u)) = Inr n \<longleftrightarrow> undisclosedCountFromProofBytes n = Inr u"
  unfolding expectedProofBytes_Inr undisclosedCount_Inr ..

text \<open>
  Compression undoes decompression, for G1 and for G2 with its second component
  first: the uncompressed form of a valid compressed point is 96 or 192 bytes long and
  compresses back to the same bytes.
\<close>

theorem compress_decompress:
  assumes "curve_ok C"
  shows "(decompressG1 C b = Inr u \<longrightarrow> length u = 96 \<and> compressG1 C u = Inr b)
    \<and> (decompressG2 C b' = Inr u' \<longrightarrow> length u' = 192 \<and> compressG2 C u' = Inr b')"
proof (intro conjI impI)
  assume "decompressG1 C b = Inr u"
  then obtain x y bx b_y where d: "g1_decode C b = Some (x, y)" "fpToBe x = Inr bx" "fpToBe y = Inr b_y" "u = bx @ b_y"
    by (auto simp: decompressG1_Inr)
  then have l: "length bx = 48" "beToBigint bx = x" "length b_y = 48" "beToBigint b_y = y" using fpToBe_Inr by auto
  then show "length u = 96" "compressG1 C u = Inr b"
    using assms d by (auto simp: compressG1_def byte_counts curve_ok_def)
next
  assume "decompressG2 C b' = Inr u'"
  then obtain x0 x1 y0 y1 a1 a0 c1 c0 where d: "g2_decode C b' = Some ((x0, x1), (y0, y1))"
    "fpToBe x1 = Inr a1" "fpToBe x0 = Inr a0" "fpToBe y1 = Inr c1" "fpToBe y0 = Inr c0" "u' = a1 @ a0 @ c1 @ c0"
    by (auto simp: decompressG2_def res_simps split: option.splits if_splits)
  then have l: "length a1 = 48" "beToBigint a1 = x1" "length a0 = 48" "beToBigint a0 = x0"
    "length c1 = 48" "beToBigint c1 = y1" "length c0 = 48" "beToBigint c0 = y0" using fpToBe_Inr by auto
  then show "length u' = 192" "compressG2 C u' = Inr b'"
    using assms d by (auto simp: compressG2_def byte_counts curve_ok_def Let_def)
qed

definition one_point_curve :: curve where
  "one_point_curve = \<lparr> g1_decode = (\<lambda>b. if b = replicate 48 0 then Some (0, 0) else None),
     g1_encode = (\<lambda>_. replicate 48 0),
     g2_decode = (\<lambda>b. if b = replicate 96 0 then Some ((0, 0), (0, 0)) else None),
     g2_encode = (\<lambda>_. replicate 96 0) \<rparr>"

lemma one_point_curve_ok [simp]: "curve_ok one_point_curve"
  by (simp add: curve_ok_def one_point_curve_def fp_ok_def)

lemma one_point_G1: "\<exists>u. decompressG1 one_point_curve (replicate 48 0) = Inr u"
  using fpToBe_ok[of 0] by (auto simp: decompressG1_Inr one_point_curve_def fp_ok_def)

theorem compress_decompress_witness:
  "\<exists>u. decompressG1 one_point_curve (replicate 48 0) = Inr u \<and> length u = 96 \<and> compressG1 one_point_curve u = Inr (replicate 48 0)"
  using one_point_G1 compress_decompress[OF one_point_curve_ok] by blast

text \<open>
  Splitting and flattening keep the wire order: the flat form of a split proof is its
  three points uncompressed followed by the scalar bytes of the original proof unchanged, with
  the challenge last, and is 144 bytes longer than the proof.
\<close>

theorem flatten_splitProof:
  assumes "splitProof C prf = Inr p"
  shows "flattenSorobanProof p = Inr (p_abar p @ p_bbar p @ p_d p @ drop 144 prf)
    \<and> length (p_abar p @ p_bbar p @ p_d p @ drop 144 prf) = length prf + 144
    \<and> expectedProofBytes (JInt (int (p_undisclosedCount p))) = Inr (length prf)
    \<and> length (p_mHat p) = p_undisclosedCount p \<and> p_challenge p = drop (length prf - 32) prf"
proof -
  obtain u where s: "p_undisclosedCount p = u"
    "decompressG1 C (take 48 prf) = Inr (p_abar p)" "decompressG1 C (take 48 (drop 48 prf)) = Inr (p_bbar p)"
    "decompressG1 C (take 48 (drop 96 prf)) = Inr (p_d p)" "length prf = 272 + 32 * u" "u \<le> 39"
    "concat ([p_eHat p, p_r1Hat p, p_r3Hat p] @ p_mHat p @ [p_challenge p]) = drop 144 prf"
    "length (p_mHat p) = u" "\<forall>s\<in>set ([p_eHat p, p_r1Hat p, p_r3Hat p] @ p_mHat p @ [p_challenge p]). length s = 32"
    using splitProof_Inr[OF assms] by metis
  have l: "length (p_abar p) = 96" "length (p_bbar p) = 96" "length (p_d p) = 96"
    using s(2-4) decompressG1_length by blast+
  have flat: "concat ([p_abar p, p_bbar p, p_d p, p_eHat p, p_r1Hat p, p_r3Hat p] @ p_mHat p @ [p_challenge p])
      = p_abar p @ p_bbar p @ p_d p @ drop 144 prf" using s(7) by simp
  have len: "length (p_abar p @ p_bbar p @ p_d p @ drop 144 prf) = 288 + 32 * (4 + u)"
    using l s(5) by simp
  have "drop (length prf - 32) prf = drop (length (drop 144 prf) - 32) (drop 144 prf)" using s(5) by simp
  also have "drop 144 prf = (p_eHat p @ p_r1Hat p @ p_r3Hat p @ concat (p_mHat p)) @ p_challenge p" using s(7) by simp
  also have "drop (length ((p_eHat p @ p_r1Hat p @ p_r3Hat p @ concat (p_mHat p)) @ p_challenge p) - 32)
     ((p_eHat p @ p_r1Hat p @ p_r3Hat p @ concat (p_mHat p)) @ p_challenge p) = p_challenge p" using s(9) by simp
  finally have "p_challenge p = drop (length prf - 32) prf" by simp
  then show ?thesis using s(1,5,6,8) len flat
    by (auto simp: flattenSorobanProof_def Let_def byte_counts expectedProofBytes_Inr simp del: expectedProofBytes.simps)
qed

lemma example_split: "\<exists>p. splitProof one_point_curve (replicate 272 0) = Inr p"
proof -
  obtain u where u: "decompressG1 one_point_curve (replicate 48 0) = Inr u" using one_point_G1 by blast
  have "undisclosedCountFromProofBytes 272 = Inr 0" by (simp add: undisclosedCount_Inr)
  then show ?thesis using u by (auto simp: splitProof_def byte_counts Let_def split: prod.splits)
qed

theorem flatten_splitProof_witness:
  "\<exists>p. splitProof one_point_curve (replicate 272 0) = Inr p
    \<and> flattenSorobanProof p = Inr (p_abar p @ p_bbar p @ p_d p @ drop 144 (replicate 272 0))"
  using example_split flatten_splitProof by blast

end
