(* ===== verification/Base64url.thy ===== *)
theory Base64url
imports Prelude Interfaces
begin

unbundle bit_operations_syntax

text \<open>
  The hand-written base64url codec of \<open>packages/identity/src/status-list.ts\<close>: the decoder's
  bit accumulator on 32-bit words, the encoder, and the proof that they are inverse to each
  other in both directions.
\<close>

datatype status_list_error = B64Length | B64Char char | B64TrailingBits | B64Miscount
  | MultibaseEmpty | MultibasePrefix char | ExpandsPastCeiling | NotGzip | BitOutside jsnum
  | IndexNotNatural jsnum | RangeError nat | BadStatusSize jsnum | StatusSizeTooLarge jsnum
  | StatusMessageRequired | StatusMessageNotArray | StatusMessageCount | StatusMessageNotObject nat
  | StatusMessageStatus nat | StatusMessageText nat | UnsupportedPurpose string
  | NotAnObject | PurposeMismatch string string | StatusListLength nat
  | TooFewEntries jsnum | NotWholeBytes | SetIndexOutside jsnum

section \<open>base64url\<close>

definition B64URL_ALPHABET :: string where
  "B64URL_ALPHABET = ''ABCDEFGHIJKLMNOPQRSTUVWXYZabcdefghijklmnopqrstuvwxyz0123456789-_''"

fun index_of :: "char \<Rightarrow> string \<Rightarrow> nat \<Rightarrow> nat option" where
  "index_of c [] k = None"
| "index_of c (d # ds) k = (if c = d then Some k else index_of c ds (Suc k))"

text \<open>The reverse table: \<open>None\<close> for a code of 128 or more and for an entry of \<open>-1\<close>.\<close>

definition B64URL_REVERSE :: "char \<Rightarrow> nat option" where
  "B64URL_REVERSE c = index_of c B64URL_ALPHABET 0"

fun b64_loop :: "string \<Rightarrow> 32 word \<Rightarrow> nat \<Rightarrow> bytes \<Rightarrow> status_list_error + (32 word \<times> nat \<times> bytes)" where
  "b64_loop [] acc bits out = Inr (acc, bits, out)"
| "b64_loop (c # cs) acc bits out = (case B64URL_REVERSE c of
     None \<Rightarrow> Inl (B64Char c)
   | Some v \<Rightarrow>
       (let acc = push_bit 6 acc OR word_of_nat v; bits = bits + 6 in
        if 8 \<le> bits then
          b64_loop cs acc (bits - 8) (out @ [ucast (signed_drop_bit (bits - 8) acc AND 255)])
        else b64_loop cs acc bits out))"

definition base64urlDecode :: "string \<Rightarrow> status_list_error + bytes" where
  "base64urlDecode s = (let n = length s in
     if n mod 4 = 1 then Inl B64Length
     else let full = n div 4; rem = n mod 4; out_length = full * 3 + (if rem = 0 then 0 else rem - 1) in
     ebind (b64_loop s 0 0 []) (\<lambda>(acc, bits, out).
       if 0 < bits \<and> acc AND (push_bit bits 1 - 1) \<noteq> 0 then Inl B64TrailingBits
       else if length out \<noteq> out_length then Inl B64Miscount
       else Inr out))"

definition b64char :: "32 word \<Rightarrow> char" where
  "b64char sextet = B64URL_ALPHABET ! unat sextet"

fun base64urlEncode :: "bytes \<Rightarrow> string" where
  "base64urlEncode (a # b # c # rest) = (let n = (push_bit 16 (ucast a) OR push_bit 8 (ucast b) OR ucast c :: 32 word) in
     [b64char (drop_bit 18 n AND 63), b64char (drop_bit 12 n AND 63), b64char (drop_bit 6 n AND 63), b64char (n AND 63)]
     @ base64urlEncode rest)"
| "base64urlEncode [a] = [b64char (drop_bit 2 (ucast a)), b64char (push_bit 4 (ucast a) AND 63)]"
| "base64urlEncode [a, b] = [b64char (drop_bit 2 (ucast a)),
     b64char ((push_bit 4 (ucast a) OR drop_bit 4 (ucast b)) AND 63), b64char (push_bit 2 (ucast b) AND 63)]"
| "base64urlEncode [] = []"

section \<open>base64url lemmas\<close>

lemma alphabet_facts: "length B64URL_ALPHABET = 64" "distinct B64URL_ALPHABET"
  unfolding B64URL_ALPHABET_def by simp_all

lemma index_of_Some: "index_of c ds k = Some v \<Longrightarrow> k \<le> v \<and> v < k + length ds \<and> ds ! (v - k) = c"
proof (induction c ds k rule: index_of.induct)
  case (2 c d ds k)
  then show ?case by (auto simp: nth_Cons' split: if_splits)
qed simp

lemma index_of_nth: "distinct ds \<Longrightarrow> i < length ds \<Longrightarrow> index_of (ds ! i) ds k = Some (k + i)"
proof (induction ds arbitrary: i k)
  case (Cons d ds)
  then show ?case by (cases i) auto
qed simp

lemma B64URL_REVERSE_Some: "B64URL_REVERSE c = Some v \<longleftrightarrow> v < 64 \<and> c = B64URL_ALPHABET ! v"
  using index_of_Some[of c B64URL_ALPHABET 0 v] index_of_nth[OF alphabet_facts(2), of v 0] alphabet_facts(1)
  by (auto simp: B64URL_REVERSE_def)

lemma B64URL_REVERSE_nth [simp]: "v < 64 \<Longrightarrow> B64URL_REVERSE (B64URL_ALPHABET ! v) = Some v"
  by (simp add: B64URL_REVERSE_Some)

text \<open>The loop on numbers: \<open>p\<close> is the value of the pending bits.\<close>

fun b64n :: "string \<Rightarrow> nat \<Rightarrow> nat \<Rightarrow> bytes \<Rightarrow> (nat \<times> nat \<times> bytes) option" where
  "b64n [] p bits out = Some (p, bits, out)"
| "b64n (c # cs) p bits out = (case B64URL_REVERSE c of None \<Rightarrow> None
   | Some v \<Rightarrow> (if 2 \<le> bits
       then b64n cs ((64 * p + v) mod 2 ^ (bits - 2)) (bits - 2) (out @ [word_of_nat ((64 * p + v) div 2 ^ (bits - 2))])
       else b64n cs (64 * p + v) (bits + 6) out))"

lemma acc_step:
  assumes "k \<le> 32" "v < 64"
  shows "take_bit k (unat (push_bit 6 acc OR word_of_nat v :: 32 word)) = take_bit k (64 * unat acc + v)"
proof -
  have "push_bit 6 (unat acc) OR v = 64 * unat acc + v"
  proof -
    have "push_bit 6 (unat acc) OR v = push_bit 6 (unat acc) + v"
    proof (rule disjunctive_add[symmetric])
      fix n
      show "\<not> bit (push_bit 6 (unat acc)) n \<or> \<not> bit v n"
      proof (cases "n < 6")
        case False
        then have "(2::nat) ^ 6 \<le> 2 ^ n" by (intro power_increasing) auto
        then have "v < 2 ^ n" using assms(2) by simp
        then show ?thesis by (simp add: bit_iff_odd)
      qed (simp add: bit_push_bit_iff)
    qed
    then show ?thesis by (simp add: push_bit_eq_mult)
  qed
  moreover have "take_bit k (unat (push_bit 6 acc OR word_of_nat v :: 32 word)) = take_bit k (push_bit 6 (unat acc) OR v)"
    using assms(1)
    by (intro bit_eqI) (auto simp: bit_take_bit_iff bit_unsigned_iff bit_or_iff bit_push_bit_iff Bit_Operations.bit_of_nat_iff)
  ultimately show ?thesis by simp
qed

lemma unat_word_back: "word_of_nat (unat w) = (w :: 'a :: len word)"
  by (metis of_int_of_nat_eq of_nat_unat word_of_int_uint)

lemma emit_byte:
  fixes w :: "32 word"
  assumes "b \<le> 6"
  shows "unat (ucast (signed_drop_bit b w AND 255) :: byte) = take_bit (b + 8) (unat w) div 2 ^ b"
proof -
  have m: "(255 :: 32 word) = mask 8" by (simp add: mask_eq_exp_minus_1)
  have "(ucast (signed_drop_bit b w AND 255) :: byte) = ucast (drop_bit b w)"
    using assms unfolding m
    by (intro bit_eqI) (auto simp: bit_ucast_iff bit_and_iff bit_mask_iff bit_signed_drop_bit_iff bit_drop_bit_eq)
  moreover have "unat (ucast (drop_bit b w) :: byte) = take_bit 8 (drop_bit b (unat w))"
    by (simp only: unsigned_ucast_eq unat_drop_bit_eq) simp
  moreover have "take_bit 8 (drop_bit b (unat w)) = drop_bit b (take_bit (b + 8) (unat w))"
    by (simp add: take_bit_drop_bit add.commute)
  ultimately show ?thesis by (simp add: drop_bit_eq_div)
qed

lemma b64_loop_refine:
  assumes "bits \<le> 6" "even bits" "p = take_bit bits (unat acc)"
  shows "(case b64_loop s acc bits out of
     Inl e \<Rightarrow> b64n s p bits out = None
   | Inr (a, b, os) \<Rightarrow> b64n s p bits out = Some (take_bit b (unat a), b, os) \<and> b \<le> 6)"
  using assms
proof (induction s arbitrary: acc bits p out)
  case (Cons c s)
  show ?case
  proof (cases "B64URL_REVERSE c")
    case (Some v)
    then have v: "v < 64" by (simp add: B64URL_REVERSE_Some)
    define acc' where "acc' = push_bit 6 acc OR (word_of_nat v :: 32 word)"
    have q: "take_bit (bits + 6) (unat acc') = 64 * p + v"
    proof -
      have "take_bit (bits + 6) (unat acc') = (64 * unat acc + v) mod 2 ^ (bits + 6)"
        using acc_step[of "bits + 6" v acc] Cons.prems(1) v by (simp add: acc'_def take_bit_eq_mod)
      also have "\<dots> = 64 * (unat acc mod 2 ^ bits) + v"
        using v by (simp add: power_add mod_mult2_eq mult.commute[of "2 ^ bits"])
      finally show ?thesis using Cons.prems(3) by (simp add: take_bit_eq_mod)
    qed
    show ?thesis
    proof (cases "2 \<le> bits")
      case True
      define b where "b = bits - 2"
      have b: "b \<le> 6" "even b" "bits + 6 = b + 8" using Cons.prems(1,2) True by (auto simp: b_def)
      have e: "(ucast (signed_drop_bit b acc' AND 255) :: byte) = word_of_nat ((64 * p + v) div 2 ^ b)"
        using emit_byte[OF b(1), of acc'] q b(3) by (metis unat_word_back)
      have "take_bit b (unat acc') = (64 * p + v) mod 2 ^ b"
        using q b(3) by (metis le_add1 take_bit_eq_mod take_bit_take_bit min_def)
      then have IH: "\<And>out. (case b64_loop s acc' b out of
          Inl e \<Rightarrow> b64n s ((64 * p + v) mod 2 ^ b) b out = None
        | Inr (a, b', os) \<Rightarrow> b64n s ((64 * p + v) mod 2 ^ b) b out = Some (take_bit b' (unat a), b', os) \<and> b' \<le> 6)"
        using Cons.IH[OF b(1,2), of "(64 * p + v) mod 2 ^ b" acc'] by simp
      show ?thesis using IH[of "out @ [word_of_nat ((64 * p + v) div 2 ^ b)]"] Some True e b(3)
        by (auto simp add: Let_def acc'_def[symmetric] b_def[symmetric] split: sum.splits)
    next
      case False
      then have "bits = 0" using Cons.prems(2) by auto
      then show ?thesis
        using Cons.IH[of 6 "64 * p + v" acc' out] q Some Cons.prems
        by (auto simp add: Let_def acc'_def[symmetric] split: sum.splits)
    qed
  qed simp
qed simp

text \<open>The final check of the trailing bits, on the pending value.\<close>

lemma trailing_bits: "acc AND (2 ^ bits - 1) = (take_bit bits acc :: 32 word)"
  by (simp add: take_bit_eq_mask mask_eq_exp_minus_1)

lemma take_bit_word_0: "take_bit bits (acc :: 32 word) = 0 \<longleftrightarrow> take_bit bits (unat acc) = 0"
  by (simp add: unat_eq_0 flip: unsigned_take_bit_eq)

lemma b64n_append_out: "b64n s p bits out = map_option (\<lambda>(p, b, os). (p, b, out @ os)) (b64n s p bits [])"
proof (induction s arbitrary: p bits out)
  case (Cons c s)
  show ?case
    using Cons[of _ _ "out @ _"] Cons[of _ _ "[_]"] Cons[of _ _ out]
    by (auto simp: option.map_comp comp_def split: option.splits intro!: arg_cong[where f = "\<lambda>g. map_option g _"])
qed simp

lemma b64n_shape:
  "b64n s p bits [] = Some (p', b, os) \<Longrightarrow> even bits \<Longrightarrow> bits < 8 \<Longrightarrow>
     8 * length os + b = 6 * length s + bits \<and> b < 8"
proof (induction s arbitrary: p bits p' b os)
  case (Cons c s)
  then obtain v where v: "B64URL_REVERSE c = Some v" by (auto split: option.splits)
  show ?case
  proof (cases "2 \<le> bits")
    case True
    then obtain os' where "b64n s ((64 * p + v) mod 2 ^ (bits - 2)) (bits - 2) [] = Some (p', b, os')" "length os = Suc (length os')"
      using Cons.prems(1) v b64n_append_out[of s "(64 * p + v) mod 2 ^ (bits - 2)" "bits - 2" "[word_of_nat ((64 * p + v) div 2 ^ (bits - 2))]"]
      by auto
    then show ?thesis using Cons.IH[of _ "bits - 2"] Cons.prems True by fastforce
  next
    case False
    then have "bits = 0" using Cons.prems(2) by auto
    then show ?thesis using Cons.IH[of "64 * p + v" 6] Cons.prems v by simp
  qed
qed simp

lemma base64urlDecode_Inr:
  "base64urlDecode s = Inr bs \<longleftrightarrow> length s mod 4 \<noteq> 1 \<and> (\<exists>b. b64n s 0 0 [] = Some (0, b, bs))"
proof -
  have R: "case b64_loop s 0 0 [] of Inl e \<Rightarrow> b64n s 0 0 [] = None
     | Inr (a, b, os) \<Rightarrow> b64n s 0 0 [] = Some (take_bit b (unat a), b, os) \<and> b \<le> 6"
    using b64_loop_refine[of 0 0 0 s "[]"] by simp
  show ?thesis
  proof (cases "b64_loop s 0 0 []")
    case (Inl e)
    then show ?thesis using R by (auto simp: base64urlDecode_def Let_def)
  next
    case (Inr r)
    obtain a b os where r: "r = (a, b, os)" by (cases r)
    then have n: "b64n s 0 0 [] = Some (take_bit b (unat a), b, os)" using R Inr by simp
    have sh: "8 * length os + b = 6 * length s" "b < 8" using b64n_shape[OF n] by auto
    have len: "length os = length s div 4 * 3 + (if length s mod 4 = 0 then 0 else length s mod 4 - 1)"
      if "length s mod 4 \<noteq> 1"
    proof -
      define q r where "q = length s div 4" and "r = length s mod 4"
      have s: "length s = 4 * q + r" "r = 0 \<or> r = 2 \<or> r = 3" using that by (auto simp: q_def r_def)
      have "length os = 3 * q + (if r = 0 then 0 else r - 1)"
        using sh s(2) unfolding s(1) by (elim disjE) simp_all
      then show ?thesis by (simp add: q_def r_def)
    qed
    have "base64urlDecode s = (if length s mod 4 = 1 then Inl B64Length
        else if 0 < b \<and> take_bit b (unat a) \<noteq> 0 then Inl B64TrailingBits else Inr os)"
      using Inr r len by (simp add: base64urlDecode_def Let_def trailing_bits take_bit_word_0 del: take_bit_eq_0_iff)
    moreover have "b = 0 \<Longrightarrow> take_bit b (unat a) = 0" by simp
    ultimately show ?thesis using n by (cases "take_bit b (unat a) = 0") auto
  qed
qed

section \<open>The encoder on numbers\<close>

lemma unat_ucast32: "unat (ucast (a :: byte) :: 32 word) = unat a"
  using unat_lt2p_8[of a] by (simp add: unsigned_ucast_eq take_bit_eq_mod)

lemma and63: "unat (w AND 63 :: 32 word) = unat w mod 64"
proof -
  have "w AND 63 = take_bit 6 w" by (simp add: take_bit_eq_mask mask_eq_exp_minus_1)
  then have "unat (w AND 63) = take_bit 6 (unat w)" by (simp only: unsigned_take_bit_eq)
  then show ?thesis by (simp add: take_bit_eq_mod)
qed

lemma unat_or_disjoint:
  assumes "unat w < 2 ^ k" "unat v * 2 ^ k < 2 ^ 32"
  shows "unat (push_bit k v OR w :: 32 word) = unat v * 2 ^ k + unat w"
proof -
  have "unat (push_bit k v) = unat v * 2 ^ k"
  proof -
    have "unat (push_bit k v) = take_bit LENGTH(32) (push_bit k (unat v))" by (simp only: unsigned_push_bit_eq)
    then show ?thesis using assms(2) by (simp only: push_bit_eq_mult take_bit_eq_mod) simp
  qed
  moreover have "unat (push_bit k v OR w) = unat (push_bit k v) OR unat w"
    by (simp add: unsigned_or_eq)
  moreover have "(unat v * 2 ^ k) OR unat w = unat v * 2 ^ k + unat w"
  proof (rule disjunctive_add[symmetric])
    fix n
    show "\<not> bit (unat v * 2 ^ k) n \<or> \<not> bit (unat w) n"
    proof (cases "n < k")
      case False
      then have "(2::nat) ^ k \<le> 2 ^ n" by (intro power_increasing) auto
      then have "unat w < 2 ^ n" by (rule order_less_le_trans[OF assms(1)])
      then show ?thesis by (simp add: bit_iff_odd)
    qed (simp add: bit_push_bit_iff flip: push_bit_eq_mult)
  qed
  ultimately show ?thesis by simp
qed

lemma join3: "unat (push_bit 16 (ucast a) OR push_bit 8 (ucast b) OR ucast c :: 32 word) = unat (a::byte) * 65536 + unat (b::byte) * 256 + unat (c::byte)"
proof -
  have 1: "unat (push_bit 8 (ucast b) OR ucast c :: 32 word) = unat b * 256 + unat c"
    using unat_lt2p_8[of b] unat_lt2p_8[of c] unat_or_disjoint[of "ucast c" 8 "ucast b"] by (simp add: unat_ucast32)
  have "unat (push_bit 16 (ucast a) OR (push_bit 8 (ucast b) OR ucast c) :: 32 word) = unat a * 65536 + (unat b * 256 + unat c)"
    using unat_lt2p_8[of a] unat_lt2p_8[of b] unat_lt2p_8[of c] unat_or_disjoint[of "push_bit 8 (ucast b) OR ucast c" 16 "ucast a"] 1
    by (simp add: unat_ucast32)
  then show ?thesis by (simp add: ac_simps)
qed

lemma split3:
  fixes x y z :: nat
  assumes "x < 256" "y < 256" "z < 256"
  shows "(x * 65536 + y * 256 + z) div 262144 mod 64 = x div 4"
    "(x * 65536 + y * 256 + z) div 4096 mod 64 = (x mod 4) * 16 + y div 16"
    "(x * 65536 + y * 256 + z) div 64 mod 64 = (y mod 16) * 4 + z div 64"
    "(x * 65536 + y * 256 + z) mod 64 = z mod 64"
proof -
  have D: "(m * d + r) div d = m" if "r < d" for m d r :: nat using that by simp
  have M: "(m * 64 + r) mod 64 = r" if "r < 64" for m r :: nat using that by simp
  define x1 x0 y1 y0 z1 z0 where d: "x1 = x div 4" "x0 = x mod 4" "y1 = y div 16" "y0 = y mod 16" "z1 = z div 64" "z0 = z mod 64"
  have b: "x0 < 4" "x1 < 64" "y0 < 16" "y1 < 16" "z0 < 64" "z1 < 4" using assms by (auto simp: d)
  have xyz: "x = 4 * x1 + x0" "y = 16 * y1 + y0" "z = 64 * z1 + z0" by (simp_all add: d)
  let ?n = "x * 65536 + y * 256 + z"
  have 1: "?n = x1 * 262144 + ((x0 * 16 + y1) * 4096 + (y0 * 4 + z1) * 64 + z0)"
   and 2: "?n = (x1 * 64 + (x0 * 16 + y1)) * 4096 + ((y0 * 4 + z1) * 64 + z0)"
   and 3: "?n = ((x1 * 64 + (x0 * 16 + y1)) * 64 + (y0 * 4 + z1)) * 64 + z0"
    unfolding xyz by simp_all
  have r: "(x0 * 16 + y1) * 4096 + (y0 * 4 + z1) * 64 + z0 < 262144" "(y0 * 4 + z1) * 64 + z0 < 4096"
    "x0 * 16 + y1 < 64" "y0 * 4 + z1 < 64" using b by simp_all
  have n1: "?n div 262144 = x1" unfolding 1 by (rule D[OF r(1)])
  have n2: "?n div 4096 = x1 * 64 + (x0 * 16 + y1)" unfolding 2 by (rule D[OF r(2)])
  have n3: "?n div 64 = (x1 * 64 + (x0 * 16 + y1)) * 64 + (y0 * 4 + z1)" unfolding 3 by (rule D[OF b(5)])
  have n4: "?n mod 64 = z0" unfolding 3 by (rule M[OF b(5)])
  show "?n div 262144 mod 64 = x div 4" unfolding n1 using b(2) by (simp add: d)
  show "?n div 4096 mod 64 = (x mod 4) * 16 + y div 16" unfolding n2 M[OF r(3)] by (simp add: d)
  show "?n div 64 mod 64 = (y mod 16) * 4 + z div 64" unfolding n3 M[OF r(4)] by (simp add: d)
  show "?n mod 64 = z mod 64" unfolding n4 by (simp add: d)
qed

lemma drop63: "unat (drop_bit k w AND 63 :: 32 word) = unat w div 2 ^ k mod 64"
  by (simp only: and63 unat_drop_bit_eq) (simp only: drop_bit_eq_div)

lemma encode_group:
  fixes a b c :: byte
  defines "n \<equiv> (push_bit 16 (ucast a) OR push_bit 8 (ucast b) OR ucast c :: 32 word)"
  shows "unat (drop_bit 18 n AND 63) = unat a div 4" "unat (drop_bit 12 n AND 63) = (unat a mod 4) * 16 + unat b div 16"
    "unat (drop_bit 6 n AND 63) = (unat b mod 16) * 4 + unat c div 64" "unat (n AND 63) = unat c mod 64"
proof -
  have j: "unat n = unat a * 65536 + unat b * 256 + unat c" unfolding n_def by (rule join3)
  note s = split3[OF unat_lt2p_8 unat_lt2p_8 unat_lt2p_8, of a b c, folded j]
  show "unat (drop_bit 18 n AND 63) = unat a div 4" using s(1) by (simp only: drop63) simp
  show "unat (drop_bit 12 n AND 63) = (unat a mod 4) * 16 + unat b div 16" using s(2) by (simp only: drop63) simp
  show "unat (drop_bit 6 n AND 63) = (unat b mod 16) * 4 + unat c div 64" using s(3) by (simp only: drop63) simp
  show "unat (n AND 63) = unat c mod 64" using s(4) by (simp only: and63)
qed

lemma encode_one:
  "unat (drop_bit 2 (ucast (a :: byte) :: 32 word)) = unat a div 4"
  "unat (push_bit 4 (ucast (a :: byte)) AND 63 :: 32 word) = (unat a mod 4) * 16"
  "unat (push_bit 2 (ucast (a :: byte)) AND 63 :: 32 word) = (unat a mod 16) * 4"
proof -
  show "unat (drop_bit 2 (ucast a :: 32 word)) = unat a div 4"
    by (simp only: unat_drop_bit_eq unat_ucast32) (simp add: drop_bit_eq_div)
  have "unat (push_bit 4 (ucast a) :: 32 word) = unat a * 16" "unat (push_bit 2 (ucast a) :: 32 word) = unat a * 4"
    using unat_or_disjoint[of "0 :: 32 word" 4 "ucast a"] unat_or_disjoint[of "0 :: 32 word" 2 "ucast a"] unat_lt2p_8[of a]
    by (simp_all add: unat_ucast32 push_bit_eq_mult)
  then show "unat (push_bit 4 (ucast (a :: byte)) AND 63 :: 32 word) = (unat a mod 4) * 16"
    "unat (push_bit 2 (ucast (a :: byte)) AND 63 :: 32 word) = (unat a mod 16) * 4"
    unfolding and63 using mod_mult_mult2[of "unat a" 16 4] mod_mult_mult2[of "unat a" 4 16] by simp_all
qed

lemma encode_two: "unat ((push_bit 4 (ucast a) OR drop_bit 4 (ucast b)) AND 63 :: 32 word) = (unat (a :: byte) mod 4) * 16 + unat (b :: byte) div 16"
proof -
  have d: "unat (drop_bit 4 (ucast b :: 32 word)) = unat b div 16"
    by (simp only: unat_drop_bit_eq unat_ucast32) (simp add: drop_bit_eq_div)
  then have "unat (push_bit 4 (ucast a) OR drop_bit 4 (ucast b) :: 32 word) = unat a * 16 + unat b div 16"
    using unat_or_disjoint[of "drop_bit 4 (ucast b)" 4 "ucast a"] unat_lt2p_8[of b] unat_lt2p_8[of a]
    by (simp only: unat_ucast32 d) (simp add: less_mult_imp_div_less)
  moreover have q: "unat b div 16 < 16" using unat_lt2p_8[of b] by (simp add: less_mult_imp_div_less)
  have "unat a * 16 + unat b div 16 = (unat a div 4) * 64 + ((unat a mod 4) * 16 + unat b div 16)"
  proof -
    define q r where "q = unat a div 4" and "r = unat a mod 4"
    have "unat a = 4 * q + r" by (simp add: q_def r_def)
    then have "unat a * 16 + unat b div 16 = q * 64 + (r * 16 + unat b div 16)" by simp
    then show ?thesis unfolding q_def r_def .
  qed
  then have "(unat a * 16 + unat b div 16) mod 64 = ((unat a div 4) * 64 + ((unat a mod 4) * 16 + unat b div 16)) mod 64"
    by (rule arg_cong)
  also have "\<dots> = (unat a mod 4) * 16 + unat b div 16" using q by simp
  ultimately show ?thesis unfolding and63 by simp
qed

text \<open>The character of a sextet.\<close>

definition sx :: "nat \<Rightarrow> char" where "sx v = B64URL_ALPHABET ! v"

lemma encode_nat:
  "base64urlEncode (a # b # c # rest) = [sx (unat a div 4), sx ((unat a mod 4) * 16 + unat b div 16),
     sx ((unat b mod 16) * 4 + unat c div 64), sx (unat c mod 64)] @ base64urlEncode rest"
  "base64urlEncode [a] = [sx (unat a div 4), sx ((unat a mod 4) * 16)]"
  "base64urlEncode [a, b] = [sx (unat a div 4), sx ((unat a mod 4) * 16 + unat b div 16), sx ((unat b mod 16) * 4)]"
  unfolding base64urlEncode.simps Let_def b64char_def encode_group encode_one encode_two sx_def by simp_all


lemma b64n_steps:
  assumes "v < 64"
  shows "b64n (sx v # s) 0 0 out = b64n s v 6 out"
    "b64n (sx v # s) p 6 out = b64n s (v mod 16) 4 (out @ [word_of_nat (4 * p + v div 16)])"
    "b64n (sx v # s) p 4 out = b64n s (v mod 4) 2 (out @ [word_of_nat (16 * p + v div 4)])"
    "b64n (sx v # s) p 2 out = b64n s 0 0 (out @ [word_of_nat (64 * p + v)])"
proof -
  have s: "B64URL_REVERSE (sx v) = Some v" using assms by (simp add: sx_def)
  have 1: "(64 * p + v) div 16 = 4 * p + v div 16" "(64 * p + v) mod 16 = v mod 16"
    using div_mult_self2[of 16 v "4 * p"] mod_mult_self2[of v 16 "4 * p"] by (simp_all add: add.commute)
  have 2: "(64 * p + v) div 4 = 16 * p + v div 4" "(64 * p + v) mod 4 = v mod 4"
    using div_mult_self2[of 4 v "16 * p"] mod_mult_self2[of v 4 "16 * p"] by (simp_all add: add.commute)
  show "b64n (sx v # s) 0 0 out = b64n s v 6 out" by (simp add: s)
  have "(2 :: nat) ^ (6 - 2) = 16" "(2 :: nat) ^ (4 - 2) = 4" "(6 - 2 :: nat) = 4" "(4 - 2 :: nat) = 2" by simp_all
  then show "b64n (sx v # s) p 6 out = b64n s (v mod 16) 4 (out @ [word_of_nat (4 * p + v div 16)])"
    "b64n (sx v # s) p 4 out = b64n s (v mod 4) 2 (out @ [word_of_nat (16 * p + v div 4)])"
    by (simp_all only: b64n.simps s option.case 1 2) simp_all
  show "b64n (sx v # s) p 2 out = b64n s 0 0 (out @ [word_of_nat (64 * p + v)])" by (simp add: s)
qed

lemma b64n_quad:
  assumes "v1 < 64" "v2 < 64" "v3 < 64" "v4 < 64"
  shows "b64n (sx v1 # sx v2 # sx v3 # sx v4 # rest) 0 0 out = b64n rest 0 0
    (out @ [word_of_nat (4 * v1 + v2 div 16), word_of_nat (16 * (v2 mod 16) + v3 div 4), word_of_nat (64 * (v3 mod 4) + v4)])"
  using assms by (simp only: b64n_steps append_assoc append.simps)

lemma sextets_of_bytes:
  fixes x y z :: nat
  assumes "x < 256" "y < 256" "z < 256"
  defines "v1 \<equiv> x div 4" and "v2 \<equiv> x mod 4 * 16 + y div 16" and "v3 \<equiv> y mod 16 * 4 + z div 64" and "v4 \<equiv> z mod 64"
  shows "v1 < 64" "v2 < 64" "v3 < 64" "v4 < 64"
    "4 * v1 + v2 div 16 = x" "16 * (v2 mod 16) + v3 div 4 = y" "64 * (v3 mod 4) + v4 = z"
proof -
  have b: "y div 16 < 16" "z div 64 < 4" "x div 4 < 64" using assms(1-3) by (simp_all add: less_mult_imp_div_less)
  show "v1 < 64" "v4 < 64" using b(3) by (simp_all add: v1_def v4_def)
  have "x mod 4 < 4" "y mod 16 < 16" by simp_all
  then show "v2 < 64" "v3 < 64" using b unfolding v2_def v3_def by linarith+
  have "v2 div 16 = x mod 4" "v2 mod 16 = y div 16" "v3 div 4 = y mod 16" "v3 mod 4 = z div 64"
    using b unfolding v2_def v3_def by simp_all
  then show "4 * v1 + v2 div 16 = x" "16 * (v2 mod 16) + v3 div 4 = y" "64 * (v3 mod 4) + v4 = z"
    by (simp_all add: v1_def v4_def)
qed

lemma bytes_of_sextets:
  fixes v1 v2 v3 v4 :: nat
  assumes "v1 < 64" "v2 < 64" "v3 < 64" "v4 < 64"
  defines "x \<equiv> 4 * v1 + v2 div 16" and "y \<equiv> 16 * (v2 mod 16) + v3 div 4" and "z \<equiv> 64 * (v3 mod 4) + v4"
  shows "x < 256" "y < 256" "z < 256" "x div 4 = v1" "x mod 4 * 16 + y div 16 = v2" "y mod 16 * 4 + z div 64 = v3" "z mod 64 = v4"
proof -
  have b: "v2 div 16 < 4" "v3 div 4 < 16" using assms(2,3) by (simp_all add: less_mult_imp_div_less)
  have m: "v2 mod 16 < 16" "v3 mod 4 < 4" by simp_all
  show "x < 256" "y < 256" "z < 256" using assms(1,4) b m unfolding x_def y_def z_def by linarith+
  have "x div 4 = v1" "x mod 4 = v2 div 16" using b(1) unfolding x_def by simp_all
  moreover have "y div 16 = v2 mod 16" "y mod 16 = v3 div 4" using b(2) unfolding y_def by simp_all
  moreover have "z div 64 = v3 mod 4" "z mod 64 = v4" using assms(4) unfolding z_def by simp_all
  ultimately show "x div 4 = v1" "x mod 4 * 16 + y div 16 = v2" "y mod 16 * 4 + z div 64 = v3" "z mod 64 = v4" by simp_all
qed

lemma b64n_encode: "\<exists>b. b64n (base64urlEncode bs) 0 0 out = Some (0, b, out @ bs)"
proof (induction bs arbitrary: out rule: base64urlEncode.induct)
  case (1 a b c rest)
  note s = sextets_of_bytes[OF unat_lt2p_8[of a] unat_lt2p_8[of b] unat_lt2p_8[of c]]
  show ?case using 1[OF refl, of "out @ [a, b, c]"]
    by (simp only: encode_nat append.simps b64n_quad[OF s(1-4)] s(5-7) unat_word_back) simp
next
  case (2 a)
  note s = sextets_of_bytes[OF unat_lt2p_8[of a], of 0 0, simplified]
  have "(unat a mod 4 * 16) mod 16 = 0" by simp
  then show ?case unfolding encode_nat
    by (simp only: b64n_steps s b64n.simps(1)) (simp add: s(4) unat_word_back del: of_nat_add of_nat_mult)
next
  case (3 a b)
  note s = sextets_of_bytes[OF unat_lt2p_8[of a] unat_lt2p_8[of b], of 0, simplified]
  show ?case unfolding encode_nat
    by (simp only: b64n_steps s b64n.simps(1)) (simp add: s unat_word_back del: of_nat_add of_nat_mult)
qed simp


lemma b64n_Some_chars: "b64n s p bits out = Some r \<Longrightarrow> c \<in> set s \<Longrightarrow> \<exists>v<64. c = sx v"
proof (induction s p bits out rule: b64n.induct)
  case (2 c' cs p bits out)
  then show ?case
    by (auto simp: B64URL_REVERSE_Some sx_def split: option.splits if_splits)
qed simp

lemma list4_cases: "(xs = [] \<Longrightarrow> P) \<Longrightarrow> (\<And>a. xs = [a] \<Longrightarrow> P) \<Longrightarrow> (\<And>a b. xs = [a, b] \<Longrightarrow> P)
   \<Longrightarrow> (\<And>a b c. xs = [a, b, c] \<Longrightarrow> P) \<Longrightarrow> (\<And>a b c d r. xs = a # b # c # d # r \<Longrightarrow> P) \<Longrightarrow> P"
  by (metis list.exhaust)

lemma b64n_decode: "b64n s 0 0 [] = Some (0, b, bs) \<Longrightarrow> length s mod 4 \<noteq> 1 \<Longrightarrow> base64urlEncode bs = s"
proof (induction s arbitrary: bs rule: length_induct)
  case H: (1 s)
  have ch: "\<And>c. c \<in> set s \<Longrightarrow> \<exists>v<64. c = sx v" using b64n_Some_chars[OF H(2)] by blast
  consider "s = []" | c1 c2 where "s = [c1, c2]" | c1 c2 c3 where "s = [c1, c2, c3]"
    | c1 c2 c3 c4 rest where "s = c1 # c2 # c3 # c4 # rest"
    using H(3) by (cases s rule: list4_cases) auto
  then show ?case
  proof cases
    case 1
    then show ?thesis using H(2) by simp
  next
    case (2 c1 c2)
    then obtain v1 v2 where v: "v1 < 64" "v2 < 64" "c1 = sx v1" "c2 = sx v2" using ch by (metis list.set_intros)
    note x = bytes_of_sextets[OF v(1,2), of 0 0, simplified]
    have "v2 mod 16 = 0" "bs = [word_of_nat (4 * v1 + v2 div 16)]"
      using H(2) v(1,2) unfolding 2 v(3,4) by (simp_all only: b64n_steps b64n.simps(1)) auto
    moreover from this have "v2 div 16 * 16 = v2" using div_mult_mod_eq[of v2 16] by simp
    ultimately show ?thesis using x unfolding 2 v(3,4) by (simp add: encode_nat del: base64urlEncode.simps of_nat_add of_nat_mult)
  next
    case (3 c1 c2 c3)
    then obtain v1 v2 v3 where v: "v1 < 64" "v2 < 64" "v3 < 64" "c1 = sx v1" "c2 = sx v2" "c3 = sx v3" using ch by (metis list.set_intros)
    note x = bytes_of_sextets[OF v(1-3), of 0, simplified]
    have "v3 mod 4 = 0" "bs = [word_of_nat (4 * v1 + v2 div 16), word_of_nat (16 * (v2 mod 16) + v3 div 4)]"
      using H(2) v(1-3) unfolding 3 v(4-6) by (simp_all only: b64n_steps b64n.simps(1)) auto
    moreover from this have "v3 div 4 * 4 = v3" using div_mult_mod_eq[of v3 4] by simp
    ultimately show ?thesis using x unfolding 3 v(4-6) by (simp add: encode_nat del: base64urlEncode.simps of_nat_add of_nat_mult)
  next
    case (4 c1 c2 c3 c4 rest)
    then obtain v1 v2 v3 v4 where v: "v1 < 64" "v2 < 64" "v3 < 64" "v4 < 64" "c1 = sx v1" "c2 = sx v2" "c3 = sx v3" "c4 = sx v4"
      using ch by (metis list.set_intros)
    note x = bytes_of_sextets[OF v(1-4)]
    let ?h = "[word_of_nat (4 * v1 + v2 div 16), word_of_nat (16 * (v2 mod 16) + v3 div 4), word_of_nat (64 * (v3 mod 4) + v4)] :: bytes"
    have "b64n rest 0 0 ?h = Some (0, b, bs)"
      using H(2) unfolding 4 v(5-8) b64n_quad[OF v(1-4)] by (simp only: append_Nil)
    then have "map_option (\<lambda>(p, b, os). (p, b, ?h @ os)) (b64n rest 0 0 []) = Some (0, b, bs)"
      by (simp only: b64n_append_out[of rest 0 0 ?h])
    then obtain os where os: "b64n rest 0 0 [] = Some (0, b, os)" "bs = ?h @ os"
      unfolding map_option_eq_Some by (auto simp del: of_nat_add of_nat_mult)
    have "base64urlEncode os = rest"
      using H(1)[rule_format, of rest os] os(1) H(3) unfolding 4 by simp
    then show ?thesis using x unfolding 4 v(5-8) os(2)
      by (simp add: encode_nat del: base64urlEncode.simps of_nat_add of_nat_mult)
  qed
qed

section \<open>Properties\<close>

lemma base64urlDecode_iff: "base64urlDecode s = Inr bs \<longleftrightarrow> base64urlEncode bs = s"
proof
  assume "base64urlDecode s = Inr bs"
  then show "base64urlEncode bs = s" using base64urlDecode_Inr b64n_decode by blast
next
  assume s: "base64urlEncode bs = s"
  have "length (base64urlEncode bs) mod 4 \<noteq> 1"
    by (induction bs rule: base64urlEncode.induct) (simp_all add: Let_def)
  then show "base64urlDecode s = Inr bs"
    using s b64n_encode[of bs "[]"] base64urlDecode_Inr by simp
qed

interpretation b64: canonical_codec base64urlEncode base64urlDecode "\<lambda>_. True"
  by unfold_locales (simp_all add: base64urlDecode_iff)

text \<open>
  C4. base64url is a canonical codec: a string decodes to some bytes exactly when it is
  their encoding, so decoding inverts encoding, and no second string (padded, with stray
  trailing bits, or of an impossible length) decodes to the same bytes.
\<close>

theorem base64url_canonical: "base64urlDecode s = Inr bs \<longleftrightarrow> base64urlEncode bs = s"
  using b64.dec_iff by simp

end
