(* ===== verification/StatusList.thy ===== *)
theory StatusList
imports Base64url
begin

unbundle bit_operations_syntax

text \<open>
  Bitstring status lists (\<open>packages/identity/src/status-list.ts\<close>): the multibase prefix,
  bounded decompression, bit order, decoding with its guards, and
  the encoder the gateway uses. The platform's compression streams are a parameter.
\<close>

definition MINIMUM_STATUS_LIST_ENTRIES :: nat where
  "MINIMUM_STATUS_LIST_ENTRIES = 131072"

definition MAX_STATUS_LIST_BYTES :: nat where
  "MAX_STATUS_LIST_BYTES = 16 * 1024 * 1024"

definition multibaseDecode :: "string \<Rightarrow> status_list_error + bytes" where
  "multibaseDecode s = (case s of [] \<Rightarrow> Inl MultibaseEmpty
     | prefix # rest \<Rightarrow> if prefix \<noteq> CHR ''u'' then Inl (MultibasePrefix prefix) else base64urlDecode rest)"

section \<open>Compression\<close>

text \<open>
  The platform's streams: compressing yields bytes; decompressing yields the chunks
  read before the stream ended or errored, and whether it ended cleanly.
\<close>

record gzip_platform =
  deflate :: "bytes \<Rightarrow> bytes"
  inflate :: "bytes \<Rightarrow> bytes list \<times> bool"

definition gzip_ok :: "gzip_platform \<Rightarrow> bool" where
  "gzip_ok G = (\<forall>raw. snd (inflate G (deflate G raw)) \<and> concat (fst (inflate G (deflate G raw))) = raw)"

fun gunzip_loop :: "bytes list \<Rightarrow> bool \<Rightarrow> nat \<Rightarrow> bytes list \<Rightarrow> status_list_error + bytes" where
  "gunzip_loop [] clean tot chunks = (if clean then Inr (concat chunks) else Inl NotGzip)"
| "gunzip_loop (c # cs) clean tot chunks =
     (if tot + length c > MAX_STATUS_LIST_BYTES then Inl ExpandsPastCeiling
      else gunzip_loop cs clean (tot + length c) (chunks @ [c]))"

definition gunzip :: "gzip_platform \<Rightarrow> bytes \<Rightarrow> status_list_error + bytes" where
  "gunzip G compressed = (let (chunks, clean) = inflate G compressed in gunzip_loop chunks clean 0 [])"

definition gzip :: "gzip_platform \<Rightarrow> bytes \<Rightarrow> bytes" where
  "gzip G raw = deflate G raw"

section \<open>Bit access\<close>

fun bitAt :: "bytes \<Rightarrow> jsnum \<Rightarrow> status_list_error + nat" where
  "bitAt bits (JInt i) = (if i < 0 \<or> int (length bits) * 8 \<le> i then Inl (BitOutside (JInt i))
     else let byte = bits ! (nat i div 8) in Inr (unat (drop_bit (7 - nat i mod 8) byte AND 1)))"
| "bitAt bits x = Inl (BitOutside x)"

fun setBit :: "bytes \<Rightarrow> jsnum \<Rightarrow> status_list_error + bytes" where
  "setBit bits (JInt i) = (if i < 0 \<or> int (length bits) * 8 \<le> i then Inl (BitOutside (JInt i))
     else Inr (bits[nat i div 8 := bits ! (nat i div 8) OR drop_bit (nat i mod 8) 128]))"
| "setBit bits x = Inl (BitOutside x)"

record decoded_status_list =
  d_statusPurpose :: string
  d_statusSize :: nat
  d_bits :: bytes
  d_bitLength :: nat
  d_entryCount :: nat

fun statusAt_loop :: "bytes \<Rightarrow> nat \<Rightarrow> nat \<Rightarrow> nat \<Rightarrow> status_list_error + nat" where
  "statusAt_loop bits start 0 value = Inr value"
| "statusAt_loop bits start (Suc k) value = ebind (bitAt bits (JInt (int start)))
     (\<lambda>b. statusAt_loop bits (Suc start) k (2 * value + b))"

fun statusAt :: "decoded_status_list \<Rightarrow> jsnum \<Rightarrow> status_list_error + nat" where
  "statusAt l (JInt i) = (if i < 0 then Inl (IndexNotNatural (JInt i))
     else let start = nat i * d_statusSize l in
     if start + d_statusSize l > d_bitLength l then Inl (RangeError (nat i))
     else statusAt_loop (d_bits l) start (d_statusSize l) 0)"
| "statusAt l x = Inl (IndexNotNatural x)"

fun normalizeStatusSize :: "jsnum option \<Rightarrow> status_list_error + nat" where
  "normalizeStatusSize None = Inr 1"
| "normalizeStatusSize (Some (JInt i)) = (if i < 1 then Inl (BadStatusSize (JInt i))
     else if i > 8 then Inl (StatusSizeTooLarge (JInt i)) else Inr (nat i))"
| "normalizeStatusSize (Some x) = Inl (BadStatusSize x)"

section \<open>Status messages and purposes\<close>

definition is_hex_digit :: "char \<Rightarrow> bool" where
  "is_hex_digit c = (is_lower_hex c \<or> (let k = (of_char c :: nat) in 65 \<le> k \<and> k \<le> 70))"

text \<open>The pattern \<open>^0x[0-9a-fA-F]+$\<close>.\<close>

definition is_hex_status :: "string \<Rightarrow> bool" where
  "is_hex_status s = (case s of z # x # h # hs \<Rightarrow> z = CHR ''0'' \<and> x = CHR ''x'' \<and> list_all is_hex_digit (h # hs)
     | _ \<Rightarrow> False)"

fun statusMessage_loop :: "jsval list \<Rightarrow> nat \<Rightarrow> status_list_error + unit" where
  "statusMessage_loop [] i = Inr ()"
| "statusMessage_loop (entry # rest) i =
     (if \<not> is_object entry then Inl (StatusMessageNotObject i)
      else case js_string (jget ''status'' entry) of
        None \<Rightarrow> Inl (StatusMessageStatus i)
      | Some s \<Rightarrow> (if \<not> is_hex_status s then Inl (StatusMessageStatus i)
          else if js_string (jget ''message'' entry) = None then Inl (StatusMessageText i)
          else statusMessage_loop rest (Suc i)))"

fun assertStatusMessage :: "jsval \<Rightarrow> nat \<Rightarrow> status_list_error + unit" where
  "assertStatusMessage JUndefined statusSize = (if 1 < statusSize then Inl StatusMessageRequired else Inr ())"
| "assertStatusMessage (JArray raw) statusSize =
     (if length raw \<noteq> 2 ^ statusSize then Inl StatusMessageCount else statusMessage_loop raw 0)"
| "assertStatusMessage _ statusSize = Inl StatusMessageNotArray"

definition STATUS_PURPOSES :: "string list" where
  "STATUS_PURPOSES = [''revocation'', ''suspension'']"

definition assertKnownPurpose :: "string \<Rightarrow> status_list_error + string" where
  "assertKnownPurpose purpose = (if purpose \<notin> set STATUS_PURPOSES then Inl (UnsupportedPurpose purpose) else Inr purpose)"

section \<open>Decoding\<close>

record bitstring_status_list =
  statusPurpose :: string
  encodedList :: string
  statusSize :: "jsnum option"
  statusMessage :: jsval

text \<open>\<open>None\<close> stands for a list that is \<open>null\<close> or not an object.\<close>

definition decodeStatusList ::
  "gzip_platform \<Rightarrow> bitstring_status_list option \<Rightarrow> string option \<Rightarrow> status_list_error + decoded_status_list" where
  "decodeStatusList G l expectedPurpose = (case l of None \<Rightarrow> Inl NotAnObject | Some l \<Rightarrow>
     ebind (assertKnownPurpose (statusPurpose l)) (\<lambda>purpose.
     if expectedPurpose \<noteq> None \<and> expectedPurpose \<noteq> Some purpose
     then Inl (PurposeMismatch (the expectedPurpose) purpose)
     else ebind (normalizeStatusSize (statusSize l)) (\<lambda>size.
     ebind (assertStatusMessage (statusMessage l) size) (\<lambda>_.
     ebind (multibaseDecode (encodedList l)) (\<lambda>compressed.
     ebind (gunzip G compressed) (\<lambda>bits.
       let bitLength = length bits * 8; entryCount = bitLength div size in
       if entryCount < MINIMUM_STATUS_LIST_ENTRIES then Inl (StatusListLength entryCount)
       else Inr \<lparr> d_statusPurpose = purpose, d_statusSize = size, d_bits = bits,
                  d_bitLength = bitLength, d_entryCount = entryCount \<rparr>))))))"

definition isStatusSet ::
  "gzip_platform \<Rightarrow> bitstring_status_list option \<Rightarrow> jsnum \<Rightarrow> string option \<Rightarrow> status_list_error + bool" where
  "isStatusSet G l index expectedPurpose = ebind (decodeStatusList G l expectedPurpose)
     (\<lambda>d. ebind (statusAt d index) (\<lambda>v. Inr (v \<noteq> 0)))"

section \<open>Encoding\<close>

record encode_options =
  e_statusPurpose :: string
  e_set :: "jsnum list"
  e_entries :: "jsnum option"
  e_statusSize :: "jsnum option"

fun setBits :: "bytes \<Rightarrow> nat \<Rightarrow> nat \<Rightarrow> status_list_error + bytes" where
  "setBits bits start 0 = Inr bits"
| "setBits bits start (Suc k) = ebind (setBit bits (JInt (int start))) (\<lambda>bits'. setBits bits' (Suc start) k)"

fun encode_loop :: "nat \<Rightarrow> nat \<Rightarrow> jsnum list \<Rightarrow> bytes \<Rightarrow> status_list_error + bytes" where
  "encode_loop entries sz [] bits = Inr bits"
| "encode_loop entries sz (JInt i # rest) bits =
     (if i < 0 \<or> int entries \<le> i then Inl (SetIndexOutside (JInt i))
      else ebind (setBits bits (nat i * sz) sz) (encode_loop entries sz rest))"
| "encode_loop entries sz (x # rest) bits = Inl (SetIndexOutside x)"

fun encode_entries :: "jsnum option \<Rightarrow> status_list_error + nat" where
  "encode_entries None = Inr MINIMUM_STATUS_LIST_ENTRIES"
| "encode_entries (Some (JInt i)) = (if i < int MINIMUM_STATUS_LIST_ENTRIES then Inl (TooFewEntries (JInt i)) else Inr (nat i))"
| "encode_entries (Some x) = Inl (TooFewEntries x)"

fun hex_str :: "nat \<Rightarrow> string" where
  "hex_str n = (if n < 16 then [nibble_char n] else hex_str (n div 16) @ [nibble_char (n mod 16)])"

declare hex_str.simps [simp del]

definition default_message :: "string \<Rightarrow> nat \<Rightarrow> jsval" where
  "default_message purpose v = JObject
     [(''status'', JString (''0x'' @ hex_str v)),
      (''message'', JString (if v = 0 then ''valid''
         else (if purpose = ''suspension'' then ''suspended'' else ''revoked'') @ '' (code '' @ dec v @ '')''))]"

definition encodeStatusList :: "gzip_platform \<Rightarrow> encode_options \<Rightarrow> status_list_error + bitstring_status_list" where
  "encodeStatusList G opts =
     ebind (assertKnownPurpose (e_statusPurpose opts)) (\<lambda>purpose.
     ebind (normalizeStatusSize (e_statusSize opts)) (\<lambda>size.
     ebind (encode_entries (e_entries opts)) (\<lambda>entries.
     let bitLength = entries * size in
     if bitLength mod 8 \<noteq> 0 then Inl NotWholeBytes
     else ebind (encode_loop entries size (e_set opts) (replicate (bitLength div 8) 0)) (\<lambda>bits.
       let encoded = ''u'' @ base64urlEncode (gzip G bits) in
       if size = 1 then Inr \<lparr> statusPurpose = purpose, encodedList = encoded, statusSize = None, statusMessage = JUndefined \<rparr>
       else Inr \<lparr> statusPurpose = purpose, encodedList = encoded, statusSize = Some (JInt (int size)),
                  statusMessage = JArray (map (default_message purpose) [0..<2 ^ size]) \<rparr>))))"

section \<open>Bit lemmas\<close>

text \<open>The bit of an index: index 0 is the most significant bit of the first byte.\<close>

definition status_bit :: "bytes \<Rightarrow> nat \<Rightarrow> bool" where
  "status_bit bits i = bit (bits ! (i div 8)) (7 - i mod 8)"

lemma unat_and_1: "unat (w AND 1 :: byte) = (if bit w 0 then 1 else 0)"
  by (simp add: and_one_eq bit_0 odd_iff_mod_2_eq_one)

lemma bitAt_value:
  "i < 8 * length bits \<Longrightarrow> bitAt bits (JInt (int i)) = Inr (if status_bit bits i then 1 else 0)"
  by (auto simp: status_bit_def Let_def unat_and_1 bit_drop_bit_eq nat_div_distrib nat_mod_distrib)

lemma bitAt_Inr: "bitAt bits x = Inr v \<longleftrightarrow> (\<exists>i. x = JInt (int i) \<and> i < 8 * length bits \<and> v = (if status_bit bits i then 1 else 0))"
proof (cases x)
  case (JInt k)
  show ?thesis
  proof (cases "0 \<le> k \<and> k < int (length bits) * 8")
    case True
    then obtain i where "k = int i" "i < 8 * length bits" by (metis int_nat_eq mult.commute of_nat_less_iff of_nat_mult of_nat_numeral)
    then show ?thesis using JInt bitAt_value by (auto simp del: bitAt.simps)
  next
    case False
    then show ?thesis using JInt by auto
  qed
qed auto

lemma bit_mask_byte: "k < 8 \<Longrightarrow> bit (drop_bit k 128 :: byte) m \<longleftrightarrow> m = 7 - k"
proof -
  assume "k < 8"
  have "(128 :: byte) = push_bit 7 1" by (simp add: push_bit_eq_mult)
  then have "bit (drop_bit k 128 :: byte) m \<longleftrightarrow> bit (push_bit 7 1 :: byte) (k + m)"
    by (simp only: bit_drop_bit_eq comp_apply)
  then show ?thesis using \<open>k < 8\<close> by (simp only: bit_push_bit_iff bit_1_iff) auto
qed

lemma setBit_value:
  assumes "i < 8 * length bits"
  shows "\<exists>bits'. setBit bits (JInt (int i)) = Inr bits' \<and> length bits' = length bits
     \<and> (\<forall>j < 8 * length bits. status_bit bits' j \<longleftrightarrow> j = i \<or> status_bit bits j)"
proof -
  let ?b = "bits[i div 8 := bits ! (i div 8) OR drop_bit (i mod 8) 128]"
  have "setBit bits (JInt (int i)) = Inr ?b" using assms by simp
  moreover have "status_bit ?b j \<longleftrightarrow> j = i \<or> status_bit bits j" if "j < 8 * length bits" for j
  proof (cases "j div 8 = i div 8")
    case True
    have "7 - j mod 8 = 7 - i mod 8 \<longleftrightarrow> j mod 8 = i mod 8"
      using mod_less_divisor[of 8 i] mod_less_divisor[of 8 j] by linarith
    moreover have "j mod 8 = i mod 8 \<longleftrightarrow> j = i" using True by (metis div_mult_mod_eq)
    moreover have "i div 8 < length bits" using assms by (simp add: less_mult_imp_div_less mult.commute)
    ultimately show ?thesis using True by (simp add: status_bit_def bit_or_iff bit_mask_byte) blast
  next
    case False
    then have "j \<noteq> i" by auto
    then show ?thesis using False by (simp add: status_bit_def)
  qed
  ultimately show ?thesis by auto
qed

lemma setBits_value:
  "start + k \<le> 8 * length bits \<Longrightarrow> \<exists>bits'. setBits bits start k = Inr bits' \<and> length bits' = length bits
     \<and> (\<forall>j < 8 * length bits. status_bit bits' j \<longleftrightarrow> start \<le> j \<and> j < start + k \<or> status_bit bits j)"
proof (induction k arbitrary: bits start)
  case (Suc k)
  from Suc.prems obtain b1 where 1: "setBit bits (JInt (int start)) = Inr b1" "length b1 = length bits"
     "\<forall>j < 8 * length bits. status_bit b1 j \<longleftrightarrow> j = start \<or> status_bit bits j"
    using setBit_value[of start bits] by auto
  from Suc.prems 1(2) obtain b2 where 2: "setBits b1 (Suc start) k = Inr b2" "length b2 = length b1"
     "\<forall>j < 8 * length b1. status_bit b2 j \<longleftrightarrow> Suc start \<le> j \<and> j < Suc start + k \<or> status_bit b1 j"
    using Suc.IH[of "Suc start" b1] by auto
  show ?case using 1 2 by (auto simp del: setBit.simps)
qed auto

lemma encode_loop_value:
  assumes "entries * sz \<le> 8 * length bits" "encode_loop entries sz xs bits = Inr bits'"
  shows "length bits' = length bits \<and> (\<forall>x\<in>set xs. \<exists>i<entries. x = JInt (int i))
     \<and> (\<forall>j < 8 * length bits. status_bit bits' j \<longleftrightarrow>
          status_bit bits j \<or> (\<exists>i. JInt (int i) \<in> set xs \<and> i * sz \<le> j \<and> j < i * sz + sz))"
  using assms
proof (induction entries sz xs bits rule: encode_loop.induct)
  case (2 entries sz i rest bits)
  then have i: "0 \<le> i" "nat i < entries" "\<not> (i < 0 \<or> int entries \<le> i)" by (auto split: if_splits simp: nat_less_iff)
  then have le: "nat i * sz + sz \<le> 8 * length bits"
    using 2(2) mult_le_mono1[of "Suc (nat i)" entries sz] by simp
  from setBits_value[OF le] obtain b1 where b1: "setBits bits (nat i * sz) sz = Inr b1" "length b1 = length bits"
     "\<forall>j < 8 * length bits. status_bit b1 j \<longleftrightarrow> nat i * sz \<le> j \<and> j < nat i * sz + sz \<or> status_bit bits j"
    by auto
  have IH: "length bits' = length b1 \<and> (\<forall>x\<in>set rest. \<exists>i<entries. x = JInt (int i))
     \<and> (\<forall>j < 8 * length b1. status_bit bits' j \<longleftrightarrow>
          status_bit b1 j \<or> (\<exists>i. JInt (int i) \<in> set rest \<and> i * sz \<le> j \<and> j < i * sz + sz))"
    using 2(1)[OF i(3), of b1] 2(2,3) b1(1,2) unfolding encode_loop.simps if_not_P[OF i(3)] by simp
  have ii: "JInt i = JInt (int (nat i))" using i by simp
  show ?case
  proof (intro conjI allI impI)
    show "length bits' = length bits" using IH b1(2) by simp
    show "\<forall>x\<in>set (JInt i # rest). \<exists>i<entries. x = JInt (int i)" using IH i ii by auto
    fix j assume "j < 8 * length bits"
    then show "status_bit bits' j \<longleftrightarrow>
          status_bit bits j \<or> (\<exists>k. JInt (int k) \<in> set (JInt i # rest) \<and> k * sz \<le> j \<and> j < k * sz + sz)"
    proof -
      have "(\<exists>k. JInt (int k) \<in> set (JInt i # rest) \<and> k * sz \<le> j \<and> j < k * sz + sz) \<longleftrightarrow>
         (nat i * sz \<le> j \<and> j < nat i * sz + sz) \<or> (\<exists>k. JInt (int k) \<in> set rest \<and> k * sz \<le> j \<and> j < k * sz + sz)"
        using i(1) by (metis ii insert_iff jsnum.inject(1) list.simps(15) nat_int)
      then show ?thesis using IH b1(2,3) \<open>j < 8 * length bits\<close> by auto
    qed
  qed
qed auto

lemma encode_loop_ok:
  "entries * sz \<le> 8 * length bits \<Longrightarrow> \<forall>x\<in>set xs. \<exists>i<entries. x = JInt (int i) \<Longrightarrow> \<exists>bits'. encode_loop entries sz xs bits = Inr bits'"
proof (induction xs arbitrary: bits)
  case (Cons x xs)
  then obtain i where i: "x = JInt (int i)" "i < entries" by auto
  then have le: "i * sz + sz \<le> 8 * length bits"
    using Cons.prems(1) mult_le_mono1[of "Suc i" entries sz] by simp
  from setBits_value[OF le] Cons i show ?case by auto
qed simp

lemma statusAt_loop_value:
  "start + k \<le> 8 * length bits \<Longrightarrow> \<exists>v. statusAt_loop bits start k value = Inr v \<and> v < (value + 1) * 2 ^ k
     \<and> (v = 0 \<longleftrightarrow> value = 0 \<and> (\<forall>j. start \<le> j \<and> j < start + k \<longrightarrow> \<not> status_bit bits j))"
proof (induction k arbitrary: start "value")
  case (Suc k)
  let ?b = "if status_bit bits start then 1 else 0 :: nat"
  obtain v where v: "statusAt_loop bits (Suc start) k (2 * value + ?b) = Inr v" "v < (2 * value + ?b + 1) * 2 ^ k"
    "v = 0 \<longleftrightarrow> 2 * value + ?b = 0 \<and> (\<forall>j. Suc start \<le> j \<and> j < Suc start + k \<longrightarrow> \<not> status_bit bits j)"
    using Suc.IH[of "Suc start" "2 * value + ?b"] Suc.prems by auto
  have "(2 * value + ?b + 1) * 2 ^ k \<le> (value + 1) * 2 ^ Suc k"
    by (simp add: algebra_simps)
  moreover have "(\<forall>j. start \<le> j \<and> j < start + Suc k \<longrightarrow> \<not> status_bit bits j) \<longleftrightarrow>
     \<not> status_bit bits start \<and> (\<forall>j. Suc start \<le> j \<and> j < Suc start + k \<longrightarrow> \<not> status_bit bits j)"
    by (metis Suc_leI Suc_le_lessD add_Suc add_Suc_right le_eq_less_or_eq less_add_Suc1 less_or_eq_imp_le)
  ultimately show ?case using v Suc.prems by (auto simp: bitAt_value simp del: bitAt.simps)
qed auto

section \<open>Lists\<close>

lemma normalizeStatusSize_Inr:
  "normalizeStatusSize x = Inr n \<longleftrightarrow> (x = None \<and> n = 1) \<or> (\<exists>i. x = Some (JInt i) \<and> 1 \<le> i \<and> i \<le> 8 \<and> n = nat i)"
  by (cases x rule: normalizeStatusSize.cases) auto

lemma normalizeStatusSize_range: "normalizeStatusSize x = Inr n \<Longrightarrow> 1 \<le> n \<and> n \<le> 8"
  by (auto simp: normalizeStatusSize_Inr)

lemma encode_entries_Inr: "encode_entries x = Inr n \<Longrightarrow> MINIMUM_STATUS_LIST_ENTRIES \<le> n"
  by (cases x rule: encode_entries.cases) (auto split: if_splits)

lemma assertKnownPurpose_Inr: "assertKnownPurpose p = Inr q \<longleftrightarrow> p \<in> set STATUS_PURPOSES \<and> q = p"
  by (auto simp: assertKnownPurpose_def)

lemma gunzip_loop_Inr:
  "gunzip_loop cs clean t chunks = Inr bits \<longleftrightarrow>
     clean \<and> bits = concat (chunks @ cs) \<and> (cs = [] \<or> t + length (concat cs) \<le> MAX_STATUS_LIST_BYTES)"
proof (induction cs clean t chunks rule: gunzip_loop.induct)
  case (2 c cs clean t chunks)
  then show ?case by auto
qed auto

lemma gunzip_Inr:
  "gunzip G z = Inr bits \<longleftrightarrow> snd (inflate G z) \<and> bits = concat (fst (inflate G z)) \<and> length bits \<le> MAX_STATUS_LIST_BYTES"
  by (cases "inflate G z") (auto simp: gunzip_def gunzip_loop_Inr)

lemma gunzip_gzip: "gzip_ok G \<Longrightarrow> length raw \<le> MAX_STATUS_LIST_BYTES \<Longrightarrow> gunzip G (gzip G raw) = Inr raw"
  by (simp add: gunzip_Inr gzip_ok_def gzip_def)

lemma multibaseDecode_encode: "multibaseDecode (CHR ''u'' # base64urlEncode bs) = Inr bs"
  by (simp add: multibaseDecode_def base64urlDecode_iff)

lemma multibaseDecode_Inr: "multibaseDecode s = Inr bs \<longleftrightarrow> s = CHR ''u'' # base64urlEncode bs"
  by (cases s) (auto simp: multibaseDecode_def base64urlDecode_iff)

lemma hex_str_hex: "list_all is_lower_hex (hex_str n) \<and> hex_str n \<noteq> []"
proof (induction n rule: hex_str.induct)
  case (1 n)
  show ?case
  proof (cases "n < 16")
    case True
    then show ?thesis by (simp add: hex_str.simps[of n] nibble_facts)
  next
    case False
    then show ?thesis using 1 by (simp add: hex_str.simps[of n] nibble_facts)
  qed
qed

lemma default_messages_ok: "statusMessage_loop (map (default_message p) vs) k = Inr ()"
proof (induction vs arbitrary: k)
  case (Cons v vs)
  have "is_hex_status (''0x'' @ hex_str v)"
    using hex_str_hex[of v] by (cases "hex_str v") (auto simp: is_hex_status_def is_hex_digit_def list_all_iff)
  then show ?case using Cons by (simp add: default_message_def)
qed simp

lemma statusMessage_loop_ok:
  "statusMessage_loop es k = Inr () \<Longrightarrow> e \<in> set es \<Longrightarrow>
     (\<exists>s. jget ''status'' e = JString s \<and> is_hex_status s) \<and> (\<exists>t. jget ''message'' e = JString t)"
proof (induction es k rule: statusMessage_loop.induct)
  case (2 x rest i)
  have S: "js_string v = Some t \<longleftrightarrow> v = JString t" for v t by (cases v) auto
  have N: "js_string v \<noteq> None \<longleftrightarrow> (\<exists>t. v = JString t)" for v by (cases v) auto
  from 2 show ?case by (auto split: if_splits option.splits simp: S N)
qed simp

lemma decodeStatusList_Inr:
  "decodeStatusList G l expected = Inr d \<longleftrightarrow> (\<exists>L n z bits. l = Some L
     \<and> statusPurpose L \<in> set STATUS_PURPOSES \<and> (expected = None \<or> expected = Some (statusPurpose L))
     \<and> normalizeStatusSize (statusSize L) = Inr n \<and> assertStatusMessage (statusMessage L) n = Inr ()
     \<and> multibaseDecode (encodedList L) = Inr z \<and> gunzip G z = Inr bits
     \<and> MINIMUM_STATUS_LIST_ENTRIES \<le> length bits * 8 div n
     \<and> d = \<lparr> d_statusPurpose = statusPurpose L, d_statusSize = n, d_bits = bits,
            d_bitLength = length bits * 8, d_entryCount = length bits * 8 div n \<rparr>)"
  by (auto simp: decodeStatusList_def res_simps assertKnownPurpose_Inr Let_def split: option.splits if_splits)

lemma encodeStatusList_Inr:
  assumes "encodeStatusList G opts = Inr L"
  obtains n entries bits where "e_statusPurpose opts \<in> set STATUS_PURPOSES" "normalizeStatusSize (e_statusSize opts) = Inr n"
    "encode_entries (e_entries opts) = Inr entries" "8 dvd entries * n"
    "encode_loop entries n (e_set opts) (replicate (entries * n div 8) 0) = Inr bits"
    "statusPurpose L = e_statusPurpose opts" "encodedList L = CHR ''u'' # base64urlEncode (gzip G bits)"
    "normalizeStatusSize (statusSize L) = Inr n" "assertStatusMessage (statusMessage L) n = Inr ()"
proof -
  from assms obtain n entries bits where *: "e_statusPurpose opts \<in> set STATUS_PURPOSES" "normalizeStatusSize (e_statusSize opts) = Inr n"
    "encode_entries (e_entries opts) = Inr entries" "8 dvd entries * n"
    "encode_loop entries n (e_set opts) (replicate (entries * n div 8) 0) = Inr bits"
    and L: "L = (if n = 1 then \<lparr> statusPurpose = e_statusPurpose opts, encodedList = ''u'' @ base64urlEncode (gzip G bits), statusSize = None, statusMessage = JUndefined \<rparr>
       else \<lparr> statusPurpose = e_statusPurpose opts, encodedList = ''u'' @ base64urlEncode (gzip G bits), statusSize = Some (JInt (int n)),
                  statusMessage = JArray (map (default_message (e_statusPurpose opts)) [0..<2 ^ n]) \<rparr>)"
    by (auto simp: encodeStatusList_def res_simps assertKnownPurpose_Inr Let_def dvd_eq_mod_eq_0 simp del: One_nat_def split: if_splits)
  have r: "1 \<le> n" "n \<le> 8" using normalizeStatusSize_range[OF *(2)] by auto
  have "statusPurpose L = e_statusPurpose opts" "encodedList L = CHR ''u'' # base64urlEncode (gzip G bits)"
    "normalizeStatusSize (statusSize L) = Inr n" "assertStatusMessage (statusMessage L) n = Inr ()"
    using r by (auto simp: L default_messages_ok)
  then show ?thesis using that * by blast
qed

lemma status_bit_replicate_0: "j < 8 * n \<Longrightarrow> \<not> status_bit (replicate n 0) j"
  by (simp add: status_bit_def less_mult_imp_div_less mult.commute)

lemma statusAt_value:
  assumes "i * d_statusSize D + d_statusSize D \<le> d_bitLength D" "d_bitLength D = 8 * length (d_bits D)"
  shows "\<exists>v. statusAt D (JInt (int i)) = Inr v \<and> v < 2 ^ d_statusSize D
    \<and> (v = 0 \<longleftrightarrow> (\<forall>j. i * d_statusSize D \<le> j \<and> j < i * d_statusSize D + d_statusSize D \<longrightarrow> \<not> status_bit (d_bits D) j))"
  using assms statusAt_loop_value[of "i * d_statusSize D" "d_statusSize D" "d_bits D" 0] by (auto simp: Let_def)

lemma entry_bits_disjoint:
  assumes "i * n \<le> j" "j < i * n + n" "k * n \<le> j" "j < k * n + n"
  shows "i = (k :: nat)"
proof -
  have "0 < n" using assms by linarith
  have "i = j div n" "k = j div n"
    using assms by (auto intro!: div_nat_eqI[symmetric] simp: mult.commute)
  then show ?thesis by simp
qed

lemma encoded_list_decodes:
  assumes "gzip_ok G" and "encodeStatusList G opts = Inr L"
    and "encode_entries (e_entries opts) = Inr m" and "normalizeStatusSize (e_statusSize opts) = Inr n"
    and "m * n div 8 \<le> MAX_STATUS_LIST_BYTES"
  shows "\<exists>D. decodeStatusList G (Some L) (Some (e_statusPurpose opts)) = Inr D \<and> d_entryCount D = m
    \<and> (\<forall>i<m. \<exists>v. statusAt D (JInt (int i)) = Inr v \<and> (v \<noteq> 0 \<longleftrightarrow> JInt (int i) \<in> set (e_set opts)))"
proof -
  obtain bits where e: "e_statusPurpose opts \<in> set STATUS_PURPOSES" "8 dvd m * n"
    "encode_loop m n (e_set opts) (replicate (m * n div 8) 0) = Inr bits"
    "statusPurpose L = e_statusPurpose opts" "encodedList L = CHR ''u'' # base64urlEncode (gzip G bits)"
    "normalizeStatusSize (statusSize L) = Inr n" "assertStatusMessage (statusMessage L) n = Inr ()"
    using encodeStatusList_Inr[OF assms(2)] assms(3,4) by (metis Inr_inject)
  have n: "1 \<le> n" using normalizeStatusSize_range[OF assms(4)] by simp
  have mn: "8 * (m * n div 8) = m * n" using e(2) by simp
  have m: "MINIMUM_STATUS_LIST_ENTRIES \<le> m" using encode_entries_Inr[OF assms(3)] .
  have b: "length bits = m * n div 8"
    "\<forall>j < m * n. status_bit bits j \<longleftrightarrow> (\<exists>i. JInt (int i) \<in> set (e_set opts) \<and> i * n \<le> j \<and> j < i * n + n)"
    using encode_loop_value[OF _ e(3)] mn status_bit_replicate_0[of _ "m * n div 8"] by auto
  define D where "D = \<lparr> d_statusPurpose = statusPurpose L, d_statusSize = n, d_bits = bits,
            d_bitLength = length bits * 8, d_entryCount = length bits * 8 div n \<rparr>"
  have cnt: "length bits * 8 div n = m" using b(1) mn n by (simp add: mult.commute)
  have dec: "decodeStatusList G (Some L) (Some (e_statusPurpose opts)) = Inr D"
    unfolding decodeStatusList_Inr D_def using e m cnt assms(5) b(1)
    by (auto simp: multibaseDecode_encode gunzip_gzip[OF assms(1)])
  have "\<exists>v. statusAt D (JInt (int i)) = Inr v \<and> (v \<noteq> 0 \<longleftrightarrow> JInt (int i) \<in> set (e_set opts))" if "i < m" for i
  proof -
    have le: "i * n + n \<le> m * n" using that mult_le_mono1[of "Suc i" m n] by simp
    obtain v where v: "statusAt D (JInt (int i)) = Inr v"
      "v = 0 \<longleftrightarrow> (\<forall>j. i * n \<le> j \<and> j < i * n + n \<longrightarrow> \<not> status_bit bits j)"
      using statusAt_value[of i D] le b(1) mn by (auto simp: D_def mult.commute)
    have "v \<noteq> 0 \<longleftrightarrow> JInt (int i) \<in> set (e_set opts)"
    proof
      assume "v \<noteq> 0"
      then obtain j where "i * n \<le> j" "j < i * n + n" "status_bit bits j" using v(2) by blast
      then show "JInt (int i) \<in> set (e_set opts)" using b(2) le entry_bits_disjoint by (metis less_le_trans)
    next
      assume "JInt (int i) \<in> set (e_set opts)"
      then have "status_bit bits (i * n)" using b(2) le n by (metis add.right_neutral le_refl less_le_trans nat_add_left_cancel_less not_one_le_zero zero_less_iff_neq_zero)
      then show "v \<noteq> 0" using v(2) n by auto
    qed
    then show ?thesis using v(1) by blast
  qed
  then show ?thesis using dec cnt by (auto simp: D_def)
qed

section \<open>Properties\<close>

text \<open>
  C5. What the encoder writes, the decoder reads: a list encoded by the gateway decodes
  under the purpose it was issued for with the same number of entries, and an entry's status is
  non-zero exactly when its index was in the encoded set, for every supported entry size. The
  list must fit the decompression ceiling.
\<close>

theorem encodeStatusList_decodes:
  assumes "gzip_ok G" and "encodeStatusList G opts = Inr L"
    and "encode_entries (e_entries opts) = Inr m" and "normalizeStatusSize (e_statusSize opts) = Inr n"
    and "m * n div 8 \<le> MAX_STATUS_LIST_BYTES"
  shows "\<exists>D. decodeStatusList G (Some L) (Some (e_statusPurpose opts)) = Inr D \<and> d_entryCount D = m
    \<and> (\<forall>i<m. \<exists>v. statusAt D (JInt (int i)) = Inr v \<and> (v \<noteq> 0 \<longleftrightarrow> JInt (int i) \<in> set (e_set opts)))"
  using assms by (rule encoded_list_decodes)

definition gzip_identity :: gzip_platform where
  "gzip_identity = \<lparr> deflate = (\<lambda>raw. raw), inflate = (\<lambda>z. ([z], True)) \<rparr>"

lemma gzip_identity_ok [simp]: "gzip_ok gzip_identity"
  by (simp add: gzip_ok_def gzip_identity_def)

definition example_opts :: encode_options where
  "example_opts = \<lparr> e_statusPurpose = ''revocation'', e_set = [JInt 5], e_entries = None, e_statusSize = None \<rparr>"

lemma example_list: "\<exists>L. encodeStatusList gzip_identity example_opts = Inr L"
proof -
  have "131072 * 1 \<le> 8 * length (replicate 16384 (0 :: byte))" by simp
  moreover have "\<forall>x\<in>set [JInt 5]. \<exists>i<131072. x = JInt (int i)" by (auto intro: exI[of _ 5])
  ultimately obtain bits where "encode_loop 131072 1 [JInt 5] (replicate 16384 0) = Inr bits"
    using encode_loop_ok by blast
  then show ?thesis
    by (simp add: encodeStatusList_def example_opts_def assertKnownPurpose_def STATUS_PURPOSES_def MINIMUM_STATUS_LIST_ENTRIES_def
        del: encode_loop.simps)
qed

theorem encodeStatusList_decodes_witness:
  "\<exists>L D. encodeStatusList gzip_identity example_opts = Inr L
    \<and> decodeStatusList gzip_identity (Some L) (Some (e_statusPurpose example_opts)) = Inr D \<and> d_entryCount D = 131072
    \<and> (\<forall>i<131072. \<exists>v. statusAt D (JInt (int i)) = Inr v \<and> (v \<noteq> 0 \<longleftrightarrow> JInt (int i) \<in> set (e_set example_opts)))"
proof -
  obtain L where L: "encodeStatusList gzip_identity example_opts = Inr L" using example_list by blast
  have "encode_entries (e_entries example_opts) = Inr 131072" "normalizeStatusSize (e_statusSize example_opts) = Inr 1"
    "131072 * 1 div 8 \<le> MAX_STATUS_LIST_BYTES"
    by (simp_all add: example_opts_def MINIMUM_STATUS_LIST_ENTRIES_def MAX_STATUS_LIST_BYTES_def)
  from encodeStatusList_decodes[OF gzip_identity_ok L this] L show ?thesis by blast
qed

text \<open>
  C6. A decoded list is safe to read: its purpose is one the verifier acts on and the one
  asked about, it holds at least the minimum number of entries and at most the decompression
  ceiling, a multi-bit list carries a full table of well-formed status messages, and reading an
  index succeeds exactly inside the list, with a value of the entry's width.
\<close>

theorem decodeStatusList_safe:
  assumes "decodeStatusList G l expected = Inr D"
  shows "d_statusPurpose D \<in> {''revocation'', ''suspension''} \<and> (\<forall>p. expected = Some p \<longrightarrow> d_statusPurpose D = p)
    \<and> MINIMUM_STATUS_LIST_ENTRIES \<le> d_entryCount D \<and> length (d_bits D) \<le> MAX_STATUS_LIST_BYTES
    \<and> d_statusSize D \<in> {1..8}
    \<and> (1 < d_statusSize D \<longrightarrow> (\<exists>L es. l = Some L \<and> statusMessage L = JArray es \<and> length es = 2 ^ d_statusSize D
         \<and> (\<forall>e\<in>set es. \<exists>s t. jget ''status'' e = JString s \<and> is_hex_status s \<and> jget ''message'' e = JString t)))
    \<and> (\<forall>i<d_entryCount D. \<exists>v < 2 ^ d_statusSize D. statusAt D (JInt (int i)) = Inr v)
    \<and> (\<forall>i\<ge>d_entryCount D. statusAt D (JInt (int i)) = Inl (RangeError i))"
proof -
  obtain L n z bits where d: "l = Some L" "statusPurpose L \<in> set STATUS_PURPOSES" "expected = None \<or> expected = Some (statusPurpose L)"
     "normalizeStatusSize (statusSize L) = Inr n" "assertStatusMessage (statusMessage L) n = Inr ()"
     "gunzip G z = Inr bits" "MINIMUM_STATUS_LIST_ENTRIES \<le> length bits * 8 div n"
     and D: "D = \<lparr> d_statusPurpose = statusPurpose L, d_statusSize = n, d_bits = bits,
            d_bitLength = length bits * 8, d_entryCount = length bits * 8 div n \<rparr>"
    using assms unfolding decodeStatusList_Inr by blast
  have n: "1 \<le> n" "n \<le> 8" using normalizeStatusSize_range[OF d(4)] by auto
  have msg: "1 < n \<longrightarrow> (\<exists>es. statusMessage L = JArray es \<and> length es = 2 ^ n
      \<and> (\<forall>e\<in>set es. \<exists>s t. jget ''status'' e = JString s \<and> is_hex_status s \<and> jget ''message'' e = JString t))"
    using d(5) by (cases "statusMessage L") (auto split: if_splits dest!: statusMessage_loop_ok)
  have fits: "i < length bits * 8 div n \<longleftrightarrow> i * n + n \<le> length bits * 8" for i
    using n(1) less_eq_div_iff_mult_less_eq[of n "Suc i" "length bits * 8"] by (simp add: Suc_le_eq add.commute)
  have inside: "\<forall>i<d_entryCount D. \<exists>v < 2 ^ d_statusSize D. statusAt D (JInt (int i)) = Inr v"
  proof (intro allI impI)
    fix i assume "i < d_entryCount D"
    then have "i * d_statusSize D + d_statusSize D \<le> d_bitLength D" "d_bitLength D = 8 * length (d_bits D)"
      using fits by (simp_all add: D)
    then show "\<exists>v < 2 ^ d_statusSize D. statusAt D (JInt (int i)) = Inr v" using statusAt_value by blast
  qed
  have outside: "\<forall>i\<ge>d_entryCount D. statusAt D (JInt (int i)) = Inl (RangeError i)"
    using fits by (auto simp: D Let_def not_less[symmetric])
  have "length bits \<le> MAX_STATUS_LIST_BYTES" using d(6)[unfolded gunzip_Inr] by blast
  then have len: "length (d_bits D) \<le> MAX_STATUS_LIST_BYTES" by (simp add: D)
  show ?thesis using d(1,2,3,7) n msg inside outside len by (auto simp: D STATUS_PURPOSES_def)
qed

theorem decodeStatusList_safe_witness:
  "\<exists>L D. decodeStatusList gzip_identity (Some L) (Some ''revocation'') = Inr D \<and> d_statusPurpose D = ''revocation''
     \<and> statusAt D (JInt (int (d_entryCount D))) = Inl (RangeError (d_entryCount D))"
proof -
  obtain L where L: "encodeStatusList gzip_identity example_opts = Inr L" using example_list by blast
  have e: "encode_entries (e_entries example_opts) = Inr 131072" "normalizeStatusSize (e_statusSize example_opts) = Inr 1"
    "(131072 * 1 :: nat) div 8 \<le> MAX_STATUS_LIST_BYTES" "e_statusPurpose example_opts = ''revocation''"
    by (simp_all add: example_opts_def MINIMUM_STATUS_LIST_ENTRIES_def MAX_STATUS_LIST_BYTES_def)
  obtain n entries bits where "e_statusPurpose example_opts \<in> set STATUS_PURPOSES" "normalizeStatusSize (e_statusSize example_opts) = Inr n"
    "encode_entries (e_entries example_opts) = Inr entries" "8 dvd entries * n"
    "encode_loop entries n (e_set example_opts) (replicate (entries * n div 8) 0) = Inr bits"
    "statusPurpose L = e_statusPurpose example_opts" "encodedList L = CHR ''u'' # base64urlEncode (gzip gzip_identity bits)"
    "normalizeStatusSize (statusSize L) = Inr n" "assertStatusMessage (statusMessage L) n = Inr ()"
    using encodeStatusList_Inr[OF L] by metis
  note x = this
  have n: "n = 1" "entries = 131072" using x(2,3) e(1,2) by simp_all
  have "length bits = 16384" using encode_loop_value[OF _ x(5)] by (simp add: n)
  then have "\<exists>D. decodeStatusList gzip_identity (Some L) (Some ''revocation'') = Inr D"
    unfolding decodeStatusList_Inr using x e(4) n
    by (auto simp: multibaseDecode_encode gunzip_gzip MAX_STATUS_LIST_BYTES_def MINIMUM_STATUS_LIST_ENTRIES_def STATUS_PURPOSES_def)
  then obtain D where D: "decodeStatusList gzip_identity (Some L) (Some ''revocation'') = Inr D" by blast
  show ?thesis using decodeStatusList_safe[OF D] D by blast
qed

end
