(* ===== verification/Credential.thy ===== *)
theory Credential
imports Binding Points StatusList
begin

text \<open>
  Credentials and presentations (\<open>packages/identity/src/credential.ts\<close>): issuance, proof
  derivation, and the full verification with its ordered checks. The BBS+ library is a
  parameter whose operations may throw (\<open>None\<close>).
\<close>

section \<open>The signature library\<close>

record bbs_lib =
  bbs_keygen :: "bytes option \<Rightarrow> bytes \<times> bytes"
  bbs_public :: "bytes \<Rightarrow> bytes"
  bbs_sign :: "bytes \<Rightarrow> bytes \<Rightarrow> bytes \<Rightarrow> bytes list \<Rightarrow> bytes option"
  bbs_verifySignature :: "bytes \<Rightarrow> bytes \<Rightarrow> bytes \<Rightarrow> bytes list \<Rightarrow> bool option"
  bbs_deriveProof :: "bytes \<Rightarrow> bytes \<Rightarrow> bytes \<Rightarrow> bytes list \<Rightarrow> bytes \<Rightarrow> nat list \<Rightarrow> bytes option"
  bbs_verifyProof :: "bytes \<Rightarrow> bytes \<Rightarrow> bytes \<Rightarrow> bytes \<Rightarrow> bytes list \<Rightarrow> jsnum list \<Rightarrow> bool option"

text \<open>
  The library's documented completeness: a signature under a key's public key verifies, a
  proof derived from it at ascending indexes has the length the size law predicts and
  verifies for the revealed messages under the same header and presentation header.
\<close>

definition bbs_complete :: "bbs_lib \<Rightarrow> bool" where
  "bbs_complete B = (\<forall>sk hdr ms sig. bbs_sign B sk (bbs_public B sk) hdr ms = Some sig \<longrightarrow>
     bbs_verifySignature B (bbs_public B sk) sig hdr ms = Some True \<and>
     (\<forall>ph ks. sorted ks \<and> distinct ks \<and> set ks \<subseteq> {0..<length ms} \<longrightarrow>
        (\<exists>prf. bbs_deriveProof B (bbs_public B sk) sig hdr ms ph ks = Some prf
           \<and> length prf = 272 + 32 * (length ms - length ks)
           \<and> bbs_verifyProof B (bbs_public B sk) prf hdr ph (map ((!) ms) ks) (map (JInt \<circ> int) ks) = Some True)))"

section \<open>Issuance\<close>

datatype credential_error = SeedLength | SecretKeyLength | BadSchemaVersion | ExpiresNotAfterIssued
  | SchemaFailure schema_error | MessageCount | IssuerIdMismatch | SignThrew | SignatureLengthWrong
  | UnsupportedSchema | BindingFailure binding_error | DeriveThrew | PointFailure point_error
  | ProofLengthLaw | NoMessageAtIndex nat | IndexNotInSchema jsnum | HexFailure

record issuer_key_pair =
  secretKey :: bytes
  publicKey :: bytes

definition generateIssuerKeyPair :: "bbs_lib \<Rightarrow> bytes option \<Rightarrow> credential_error + issuer_key_pair" where
  "generateIssuerKeyPair B seed = (case seed of
     Some s \<Rightarrow> if length s \<noteq> 32 then Inl SeedLength
               else let (sk, pk) = bbs_keygen B seed in Inr \<lparr> secretKey = sk, publicKey = pk \<rparr>
   | None \<Rightarrow> let (sk, pk) = bbs_keygen B None in Inr \<lparr> secretKey = sk, publicKey = pk \<rparr>)"

definition issuerPublicKey :: "bbs_lib \<Rightarrow> bytes \<Rightarrow> bytes" where
  "issuerPublicKey B sk = bbs_public B sk"

definition issuerIdFromPublicKey :: "noble \<Rightarrow> bytes \<Rightarrow> string" where
  "issuerIdFromPublicKey N pk = bytesToHex N (sha256 N pk)"

record credential =
  c_schemaVersion :: string
  c_messages :: "string list"
  c_signature :: bytes
  c_issuerPublicKey :: bytes
  c_claims :: kyc_claims

definition claim_num :: "kyc_claims \<Rightarrow> claim_name \<Rightarrow> jsnum" where
  "claim_num c n = (case c n of Some (VNum x) \<Rightarrow> x | _ \<Rightarrow> JNaN)"

definition issue :: "noble \<Rightarrow> bbs_lib \<Rightarrow> kyc_claims \<Rightarrow> bytes \<Rightarrow> credential_error + credential" where
  "issue N B claims sk =
     (if length sk \<noteq> 32 then Inl SecretKeyLength
      else if claims SchemaVersion \<noteq> Some (VStr SCHEMA_VERSION) then Inl BadSchemaVersion
      else if js_le (claim_num claims ExpiresAt) (claim_num claims IssuedAt) then Inl ExpiresNotAfterIssued
      else ebind (map_err SchemaFailure (encodeClaims claims)) (\<lambda>messages.
        if length messages \<noteq> SCHEMA_ATTRIBUTE_COUNT then Inl MessageCount
        else let pk = issuerPublicKey B sk in
        if claims IssuerId \<noteq> Some (VStr (issuerIdFromPublicKey N pk)) then Inl IssuerIdMismatch
        else case bbs_sign B sk pk (utf8ToBytes N CREDENTIAL_HEADER) (map (utf8ToBytes N) messages) of
          None \<Rightarrow> Inl SignThrew
        | Some sig \<Rightarrow> if length sig \<noteq> SIGNATURE_BYTES then Inl SignatureLengthWrong
            else Inr \<lparr> c_schemaVersion = SCHEMA_VERSION, c_messages = messages, c_signature = sig,
                       c_issuerPublicKey = pk, c_claims = claims \<rparr>))"

definition verifyCredential :: "noble \<Rightarrow> bbs_lib \<Rightarrow> credential \<Rightarrow> bool" where
  "verifyCredential N B c = (case bbs_verifySignature B (c_issuerPublicKey c) (c_signature c)
       (utf8ToBytes N CREDENTIAL_HEADER) (map (utf8ToBytes N) (c_messages c)) of
     None \<Rightarrow> False | Some ok \<Rightarrow> ok)"

section \<open>Derivation\<close>

record presentation =
  pr_schemaVersion :: string
  pr_proof :: bytes
  pr_disclosedIndexes :: "jsnum list"
  pr_disclosedMessages :: "string list"
  pr_totalMessages :: jsnum
  pr_binding :: proof_binding

definition disclosed_message :: "credential \<Rightarrow> nat \<Rightarrow> credential_error + string" where
  "disclosed_message c i = (case nth_opt (c_messages c) i of None \<Rightarrow> Inl (NoMessageAtIndex i) | Some m \<Rightarrow> Inr m)"

definition derive :: "noble \<Rightarrow> bbs_lib \<Rightarrow> credential \<Rightarrow> jsnum list \<Rightarrow> proof_binding \<Rightarrow> credential_error + presentation" where
  "derive N B c revealed b =
     (if c_schemaVersion c \<noteq> SCHEMA_VERSION then Inl UnsupportedSchema
      else ebind (map_err BindingFailure (assertValidBinding b)) (\<lambda>_.
      ebind (map_err SchemaFailure (normalizeIndexes revealed)) (\<lambda>ks.
      ebind (map_err BindingFailure (presentationHeaderFor N b)) (\<lambda>ph.
      case bbs_deriveProof B (c_issuerPublicKey c) (c_signature c) (utf8ToBytes N CREDENTIAL_HEADER)
             (map (utf8ToBytes N) (c_messages c)) ph ks of
        None \<Rightarrow> Inl DeriveThrew
      | Some prf \<Rightarrow>
          ebind (map_err PointFailure (expectedProofBytes (JInt (int (length (c_messages c)) - int (length ks))))) (\<lambda>n.
          if length prf \<noteq> n then Inl ProofLengthLaw
          else ebind (mapE (disclosed_message c) ks) (\<lambda>ms.
            Inr \<lparr> pr_schemaVersion = c_schemaVersion c, pr_proof = prf, pr_disclosedIndexes = map (JInt \<circ> int) ks,
                  pr_disclosedMessages = ms, pr_totalMessages = JInt (int (length (c_messages c))), pr_binding = b \<rparr>))))))"

section \<open>Verification options\<close>

text \<open>A safety field is either the explicit skip value or a demand.\<close>

datatype 'a demand = UnsafeSkip | Demand 'a

record status_list_request =
  q_revocationIndex :: jsnum
  q_issuerId :: "string option"
  q_statusPurpose :: string

text \<open>A resolver that throws answers \<open>None\<close>.\<close>

datatype status_source = Resolved "bitstring_status_list option"
  | Resolver "status_list_request \<Rightarrow> bitstring_status_list option option"

text \<open>
  \<open>expectedClaims\<close>: the entries of a plain object, in order, with \<open>None\<close> for
  \<open>undefined\<close>; or anything else (a map, a set, an array, a class instance).
\<close>

datatype expected_claims = PlainObject "(string \<times> claim_value option) list" | NotPlain

record verify_options =
  vo_currentLedger :: "jsnum demand"
  vo_currentTime :: "jsnum demand"
  vo_expectedSubjectBinding :: "string demand"
  vo_statusList :: "status_source demand"
  vo_replayGuard :: "replay_guard demand"
  vo_statusPurpose :: "string option"
  vo_expectedClaims :: "expected_claims demand"
  vo_expectedDisclosedIndexes :: "jsval demand"

definition UNSAFE_NO_CHECKS :: verify_options where
  "UNSAFE_NO_CHECKS = \<lparr> vo_currentLedger = UnsafeSkip, vo_currentTime = UnsafeSkip,
     vo_expectedSubjectBinding = UnsafeSkip, vo_statusList = UnsafeSkip, vo_replayGuard = UnsafeSkip,
     vo_statusPurpose = None, vo_expectedClaims = UnsafeSkip, vo_expectedDisclosedIndexes = UnsafeSkip \<rparr>"

definition ISSUANCE_CLOCK_SKEW_SECONDS :: int where
  "ISSUANCE_CLOCK_SKEW_SECONDS = 300"

datatype verify_failure = V_schema_version | V_binding_mismatch | V_binding_invalid | V_expired
  | V_credential_expired | V_subject_mismatch | V_malformed_proof | V_disclosure_shape | V_unknown_index
  | V_message_index_mismatch | V_claim_mismatch | V_revoked | V_status_list_invalid | V_replayed
  | V_bbs_invalid | V_error

section \<open>The checks, in the order of the code\<close>

definition check_binding :: "noble \<Rightarrow> presentation \<Rightarrow> proof_binding \<Rightarrow> verify_failure + unit" where
  "check_binding N p expected =
     (if pr_schemaVersion p \<noteq> SCHEMA_VERSION then Inl V_schema_version
      else case assertValidBinding expected of Inl _ \<Rightarrow> Inl V_binding_invalid | Inr _ \<Rightarrow>
      (case bindingDigestHex N (pr_binding p) of Inl _ \<Rightarrow> Inl V_binding_invalid | Inr d \<Rightarrow>
      (case bindingDigestHex N expected of Inl _ \<Rightarrow> Inl V_error | Inr e \<Rightarrow>
        if d \<noteq> e then Inl V_binding_mismatch else Inr ())))"

fun check_ledger :: "jsnum demand \<Rightarrow> proof_binding \<Rightarrow> verify_failure + unit" where
  "check_ledger UnsafeSkip expected = Inr ()"
| "check_ledger (Demand (JInt l)) expected = (if l < 0 then Inl V_error
     else if js_less (ledgerExpiry expected) l then Inl V_expired else Inr ())"
| "check_ledger (Demand _) expected = Inl V_error"

fun check_ascending :: "jsnum option \<Rightarrow> jsnum list \<Rightarrow> verify_failure + unit" where
  "check_ascending prev [] = Inr ()"
| "check_ascending prev (JInt i # rest) =
     (if i < 0 \<or> int SCHEMA_ATTRIBUTE_COUNT \<le> i then Inl V_unknown_index
      else case prev of
        Some (JInt j) \<Rightarrow> if i \<le> j then Inl V_disclosure_shape else check_ascending (Some (JInt i)) rest
      | _ \<Rightarrow> check_ascending (Some (JInt i)) rest)"
| "check_ascending prev (x # rest) = Inl V_unknown_index"

definition check_shape :: "presentation \<Rightarrow> verify_failure + unit" where
  "check_shape p =
     (if pr_totalMessages p \<noteq> JInt (int SCHEMA_ATTRIBUTE_COUNT) then Inl V_disclosure_shape
      else if length (pr_disclosedIndexes p) \<noteq> length (pr_disclosedMessages p) then Inl V_disclosure_shape
      else ebind (check_ascending None (pr_disclosedIndexes p)) (\<lambda>_.
        case assertNoPiiDisclosed (map js_nat (pr_disclosedIndexes p)) of
          Inl _ \<Rightarrow> Inl V_disclosure_shape | Inr _ \<Rightarrow> Inr ()))"

text \<open>An element of the demanded index list: an in-range integer, or malformed.\<close>

fun demanded_index :: "jsval \<Rightarrow> verify_failure + int" where
  "demanded_index (JNum (JInt i)) = (if i < 0 \<or> int SCHEMA_ATTRIBUTE_COUNT \<le> i then Inl V_error else Inr i)"
| "demanded_index _ = Inl V_error"

fun check_demanded :: "jsval demand \<Rightarrow> jsnum list \<Rightarrow> verify_failure + unit" where
  "check_demanded UnsafeSkip got = Inr ()"
| "check_demanded (Demand (JArray vs)) got = ebind (mapE demanded_index vs) (\<lambda>want.
     if map JInt (sort want) \<noteq> got then Inl V_disclosure_shape else Inr ())"
| "check_demanded (Demand _) got = Inl V_error"

definition check_proof_bytes :: "presentation \<Rightarrow> verify_failure + unit" where
  "check_proof_bytes p = (case undisclosedCountFromProofBytes (length (pr_proof p)) of
     Inl _ \<Rightarrow> Inl V_malformed_proof
   | Inr u \<Rightarrow> if int u \<noteq> int SCHEMA_ATTRIBUTE_COUNT - int (length (pr_disclosedIndexes p))
       then Inl V_disclosure_shape else Inr ())"

definition check_bbs :: "noble \<Rightarrow> bbs_lib \<Rightarrow> presentation \<Rightarrow> bytes \<Rightarrow> proof_binding \<Rightarrow> verify_failure + unit" where
  "check_bbs N B p pk expected = (case presentationHeaderFor N expected of
     Inl _ \<Rightarrow> Inl V_malformed_proof
   | Inr ph \<Rightarrow> (case bbs_verifyProof B pk (pr_proof p) (utf8ToBytes N CREDENTIAL_HEADER) ph
         (map (utf8ToBytes N) (pr_disclosedMessages p)) (pr_disclosedIndexes p) of
       None \<Rightarrow> Inl V_malformed_proof
     | Some ok \<Rightarrow> if ok then Inr () else Inl V_bbs_invalid))"

definition check_identity :: "noble \<Rightarrow> kyc_claims \<Rightarrow> bytes \<Rightarrow> verify_failure + unit" where
  "check_identity N decoded pk =
     (if decoded SchemaVersion \<noteq> None \<and> decoded SchemaVersion \<noteq> Some (VStr SCHEMA_VERSION) then Inl V_schema_version
      else if decoded IssuerId \<noteq> None \<and> decoded IssuerId \<noteq> Some (VStr (issuerIdFromPublicKey N pk))
      then Inl V_claim_mismatch else Inr ())"

text \<open>
  \<open>currentTime > expiresAt\<close> and \<open>issuedAt > currentTime + skew\<close>, with the decoded claim
  values, which are integers.
\<close>

fun check_time :: "jsnum demand \<Rightarrow> kyc_claims \<Rightarrow> verify_failure + unit" where
  "check_time UnsafeSkip decoded = Inr ()"
| "check_time (Demand now) decoded =
     (if \<not> js_isFinite now then Inl V_error
      else case decoded ExpiresAt of
        Some (VNum (JInt e)) \<Rightarrow>
          (if js_greater now e then Inl V_credential_expired
           else case decoded IssuedAt of
             Some (VNum (JInt i)) \<Rightarrow>
               (if js_less now (i - ISSUANCE_CLOCK_SKEW_SECONDS) then Inl V_credential_expired else Inr ())
           | _ \<Rightarrow> Inr ())
      | _ \<Rightarrow> Inl V_disclosure_shape)"

fun check_subject :: "string demand \<Rightarrow> kyc_claims \<Rightarrow> verify_failure + unit" where
  "check_subject UnsafeSkip decoded = Inr ()"
| "check_subject (Demand expected) decoded = (case decoded SubjectBinding of
     Some (VStr s) \<Rightarrow> if s \<noteq> expected then Inl V_subject_mismatch else Inr ()
   | _ \<Rightarrow> Inl V_disclosure_shape)"

definition claim_named :: "string \<Rightarrow> claim_name option" where
  "claim_named s = map_option spec_name (find (\<lambda>sp. claim_str (spec_name sp) = s) CLAIM_SPECS)"

fun check_entries :: "(string \<times> claim_value option) list \<Rightarrow> kyc_claims \<Rightarrow> verify_failure + unit" where
  "check_entries [] decoded = Inr ()"
| "check_entries ((nm, None) # rest) decoded = check_entries rest decoded"
| "check_entries ((nm, Some want) # rest) decoded =
     (case claim_named nm of None \<Rightarrow> Inl V_claim_mismatch
      | Some n \<Rightarrow> (case decoded n of None \<Rightarrow> Inl V_claim_mismatch
          | Some got \<Rightarrow> if got \<noteq> want then Inl V_claim_mismatch else check_entries rest decoded))"

fun check_expected :: "expected_claims demand \<Rightarrow> kyc_claims \<Rightarrow> verify_failure + unit" where
  "check_expected UnsafeSkip decoded = Inr ()"
| "check_expected (Demand NotPlain) decoded = Inl V_error"
| "check_expected (Demand (PlainObject entries)) decoded = check_entries entries decoded"

fun resolve_list :: "status_source \<Rightarrow> status_list_request \<Rightarrow> verify_failure + bitstring_status_list option" where
  "resolve_list (Resolved l) q = Inr l"
| "resolve_list (Resolver f) q = (case f q of None \<Rightarrow> Inl V_status_list_invalid | Some l \<Rightarrow> Inr l)"

fun check_status :: "gzip_platform \<Rightarrow> status_source demand \<Rightarrow> string option \<Rightarrow> kyc_claims \<Rightarrow> verify_failure + unit" where
  "check_status G UnsafeSkip purpose decoded = Inr ()"
| "check_status G (Demand src) purpose decoded =
     (let purpose = (case purpose of None \<Rightarrow> ''revocation'' | Some q \<Rightarrow> q) in
      case decoded RevocationIndex of
        Some (VNum idx) \<Rightarrow>
          ebind (resolve_list src \<lparr> q_revocationIndex = idx,
                   q_issuerId = (case decoded IssuerId of Some (VStr i) \<Rightarrow> Some i | _ \<Rightarrow> None),
                   q_statusPurpose = purpose \<rparr>) (\<lambda>resolved.
            case ebind (decodeStatusList G resolved (Some purpose)) (\<lambda>l. statusAt l idx) of
              Inl _ \<Rightarrow> Inl V_status_list_invalid
            | Inr status \<Rightarrow> if status \<noteq> 0 then Inl V_revoked else Inr ())
      | _ \<Rightarrow> Inl V_disclosure_shape)"

text \<open>The result carries the guard as the call leaves it.\<close>

definition consume_last ::
  "noble \<Rightarrow> replay_guard demand \<Rightarrow> proof_binding \<Rightarrow> kyc_claims \<Rightarrow> (verify_failure + kyc_claims) \<times> replay_guard demand" where
  "consume_last N guard expected decoded = (case guard of
     UnsafeSkip \<Rightarrow> (Inr decoded, UnsafeSkip)
   | Demand g \<Rightarrow> (case guard_consume N g expected of
       Inl _ \<Rightarrow> (Inl V_error, Demand g)
     | Inr (first, g') \<Rightarrow> (if first then Inr decoded else Inl V_replayed, Demand g')))"

definition policy_checks ::
  "noble \<Rightarrow> gzip_platform \<Rightarrow> kyc_claims \<Rightarrow> bytes \<Rightarrow> verify_options \<Rightarrow> verify_failure + unit" where
  "policy_checks N G decoded pk opts =
     ebind (check_identity N decoded pk) (\<lambda>_.
     ebind (check_time (vo_currentTime opts) decoded) (\<lambda>_.
     ebind (check_subject (vo_expectedSubjectBinding opts) decoded) (\<lambda>_.
     ebind (check_expected (vo_expectedClaims opts) decoded) (\<lambda>_.
     check_status G (vo_statusList opts) (vo_statusPurpose opts) decoded))))"

definition verify_checks ::
  "noble \<Rightarrow> bbs_lib \<Rightarrow> gzip_platform \<Rightarrow> presentation \<Rightarrow> bytes \<Rightarrow> proof_binding \<Rightarrow> verify_options \<Rightarrow> verify_failure + kyc_claims" where
  "verify_checks N B G p pk expected opts =
     ebind (check_binding N p expected) (\<lambda>_.
     ebind (check_ledger (vo_currentLedger opts) expected) (\<lambda>_.
     ebind (check_shape p) (\<lambda>_.
     ebind (check_demanded (vo_expectedDisclosedIndexes opts) (pr_disclosedIndexes p)) (\<lambda>_.
     ebind (check_proof_bytes p) (\<lambda>_.
     ebind (map_err (\<lambda>_. V_message_index_mismatch) (decodeDisclosed (pr_disclosedIndexes p) (pr_disclosedMessages p))) (\<lambda>decoded.
     ebind (check_bbs N B p pk expected) (\<lambda>_.
     ebind (policy_checks N G decoded pk opts) (\<lambda>_. Inr decoded))))))))"

definition verifyDetailed ::
  "noble \<Rightarrow> bbs_lib \<Rightarrow> gzip_platform \<Rightarrow> presentation \<Rightarrow> bytes \<Rightarrow> proof_binding \<Rightarrow> verify_options
     \<Rightarrow> (verify_failure + kyc_claims) \<times> replay_guard demand" where
  "verifyDetailed N B G p pk expected opts = (case verify_checks N B G p pk expected opts of
     Inl f \<Rightarrow> (Inl f, vo_replayGuard opts)
   | Inr decoded \<Rightarrow> consume_last N (vo_replayGuard opts) expected decoded)"

definition verify_presentation ::
  "noble \<Rightarrow> bbs_lib \<Rightarrow> gzip_platform \<Rightarrow> presentation \<Rightarrow> bytes \<Rightarrow> proof_binding \<Rightarrow> verify_options \<Rightarrow> bool" where
  "verify_presentation N B G p pk expected opts = is_ok (fst (verifyDetailed N B G p pk expected opts))"

section \<open>Serialisation\<close>

record serialized_proof =
  sp_schemaVersion :: string
  sp_proof :: string
  sp_disclosedIndexes :: "jsnum list"
  sp_disclosedMessages :: "string list"
  sp_totalMessages :: jsnum
  sp_binding :: proof_binding

definition serializeProof :: "noble \<Rightarrow> presentation \<Rightarrow> serialized_proof" where
  "serializeProof N p = \<lparr> sp_schemaVersion = pr_schemaVersion p, sp_proof = bytesToHex N (pr_proof p),
     sp_disclosedIndexes = pr_disclosedIndexes p, sp_disclosedMessages = pr_disclosedMessages p,
     sp_totalMessages = pr_totalMessages p, sp_binding = pr_binding p \<rparr>"

definition deserializeProof :: "noble \<Rightarrow> serialized_proof \<Rightarrow> credential_error + presentation" where
  "deserializeProof N s = (case hexToBytes N (sp_proof s) of None \<Rightarrow> Inl HexFailure
     | Some b \<Rightarrow> Inr \<lparr> pr_schemaVersion = sp_schemaVersion s, pr_proof = b,
         pr_disclosedIndexes = sp_disclosedIndexes s, pr_disclosedMessages = sp_disclosedMessages s,
         pr_totalMessages = sp_totalMessages s, pr_binding = sp_binding s \<rparr>)"

record serialized_credential =
  sc_schemaVersion :: string
  sc_messages :: "string list"
  sc_signature :: string
  sc_issuerPublicKey :: string
  sc_claims :: kyc_claims

definition serializeCredential :: "noble \<Rightarrow> credential \<Rightarrow> serialized_credential" where
  "serializeCredential N c = \<lparr> sc_schemaVersion = c_schemaVersion c, sc_messages = c_messages c,
     sc_signature = bytesToHex N (c_signature c), sc_issuerPublicKey = bytesToHex N (c_issuerPublicKey c),
     sc_claims = c_claims c \<rparr>"

definition deserializeCredential :: "noble \<Rightarrow> serialized_credential \<Rightarrow> credential_error + credential" where
  "deserializeCredential N s = (case hexToBytes N (sc_signature s) of None \<Rightarrow> Inl HexFailure
     | Some sig \<Rightarrow> (case hexToBytes N (sc_issuerPublicKey s) of None \<Rightarrow> Inl HexFailure
       | Some pk \<Rightarrow> Inr \<lparr> c_schemaVersion = sc_schemaVersion s, c_messages = sc_messages s, c_signature = sig,
           c_issuerPublicKey = pk, c_claims = sc_claims s \<rparr>))"

definition disclosedClaimNames :: "presentation \<Rightarrow> credential_error + claim_name list" where
  "disclosedClaimNames p = mapE (\<lambda>i. case spec_at i of None \<Rightarrow> Inl (IndexNotInSchema i) | Some s \<Rightarrow> Inr (spec_name s))
     (pr_disclosedIndexes p)"

section \<open>What each check establishes\<close>

named_theorems check_iff \<open>acceptance of a single verification check\<close>

lemma check_binding_iff [check_iff]: "check_binding N p b = Inr () \<longleftrightarrow> pr_schemaVersion p = SCHEMA_VERSION
    \<and> assertValidBinding b = Inr () \<and> (\<exists>k. bindingDigestHex N (pr_binding p) = Inr k \<and> bindingDigestHex N b = Inr k)"
  by (auto simp: check_binding_def split: sum.splits)

lemma check_ledger_iff [check_iff]:
  "assertValidBinding b = Inr () \<Longrightarrow> check_ledger d b = Inr () \<longleftrightarrow>
     (\<forall>l. d = Demand l \<longrightarrow> (\<exists>i e. l = JInt i \<and> ledgerExpiry b = JInt e \<and> 0 \<le> i \<and> i \<le> e))"
  by (cases "(d, b)" rule: check_ledger.cases) (auto simp: assertValidBinding_Inr)

lemma check_ascending_iff:
  "check_ascending prev xs = Inr () \<Longrightarrow> (\<forall>j. prev = Some j \<longrightarrow> (\<exists>k. j = JInt (int k))) \<Longrightarrow>
    \<exists>ks. xs = map (JInt \<circ> int) ks \<and> sorted ks \<and> distinct ks \<and> set ks \<subseteq> {0..<12}
      \<and> (\<forall>j. prev = Some (JInt (int j)) \<longrightarrow> (\<forall>k\<in>set ks. j < k))"
proof (induction xs arbitrary: prev)
  case (Cons x rest)
  obtain i where x: "x = JInt i" using Cons.prems(1) by (cases x) auto
  have r: "\<not> (i < 0 \<or> int SCHEMA_ATTRIBUTE_COUNT \<le> i)"
    using Cons.prems(1) unfolding x check_ascending.simps by (metis Inl_not_Inr)
  define k where "k = nat i"
  have i: "i = int k" "k < 12" using r by (auto simp: k_def SCHEMA_ATTRIBUTE_COUNT_def)
  have rest: "check_ascending (Some (JInt i)) rest = Inr ()" and pr: "\<forall>j. prev = Some (JInt (int j)) \<longrightarrow> j < k"
    using Cons.prems r i unfolding x by (auto split: if_splits option.splits jsnum.splits)
  obtain ks where ks: "rest = map (JInt \<circ> int) ks" "sorted ks" "distinct ks" "set ks \<subseteq> {0..<12}" "\<forall>m\<in>set ks. k < m"
    using Cons.IH[OF rest] i by (auto simp: comp_def)
  then show ?case using i pr x by (intro exI[of _ "k # ks"]) (auto simp: less_imp_le)
qed auto

lemma check_ascending_ok:
  "sorted ks \<Longrightarrow> distinct ks \<Longrightarrow> set ks \<subseteq> {0..<12} \<Longrightarrow> (\<forall>j. prev = Some j \<longrightarrow> (\<exists>m. j = JInt (int m) \<and> (\<forall>k\<in>set ks. m < k)))
    \<Longrightarrow> check_ascending prev (map (JInt \<circ> int) ks) = Inr ()"
proof (induction ks arbitrary: prev)
  case (Cons k ks)
  have "\<forall>m\<in>set ks. k < m" using Cons.prems(1,2) by (auto simp: le_less)
  then have "check_ascending (Some (JInt (int k))) (map (JInt \<circ> int) ks) = Inr ()"
    using Cons.IH[of "Some (JInt (int k))"] Cons.prems by (auto simp: comp_def)
  moreover have "check_ascending prev (JInt (int k) # xs) = check_ascending (Some (JInt (int k))) xs" for xs
    using Cons.prems by (auto simp: SCHEMA_ATTRIBUTE_COUNT_def split: option.splits)
  ultimately show ?case by (simp add: comp_def)
qed simp

lemma check_shape_iff [check_iff]: "check_shape p = Inr () \<longleftrightarrow> pr_totalMessages p = JInt 12
    \<and> length (pr_disclosedIndexes p) = length (pr_disclosedMessages p)
    \<and> (\<exists>ks. pr_disclosedIndexes p = map (JInt \<circ> int) ks \<and> sorted ks \<and> distinct ks \<and> set ks \<subseteq> {0..<12})"
proof -
  have "check_ascending None xs = Inr () \<longleftrightarrow> (\<exists>ks. xs = map (JInt \<circ> int) ks \<and> sorted ks \<and> distinct ks \<and> set ks \<subseteq> {0..<12})" for xs
    using check_ascending_iff[of None xs] check_ascending_ok[of _ None] by auto
  then show ?thesis by (auto simp: check_shape_def assertNoPii_v1 res_simps SCHEMA_ATTRIBUTE_COUNT_def)
qed

lemma demanded_index_iff: "demanded_index v = Inr i \<longleftrightarrow> v = JNum (JInt i) \<and> 0 \<le> i \<and> i < 12"
  by (cases v rule: demanded_index.cases) (auto simp: SCHEMA_ATTRIBUTE_COUNT_def)

lemma mapE_demanded: "mapE demanded_index vs = Inr want \<longleftrightarrow> vs = map (JNum \<circ> JInt) want \<and> (\<forall>i\<in>set want. 0 \<le> i \<and> i < 12)"
  by (induction vs arbitrary: want) (auto simp: res_simps demanded_index_iff Cons_eq_map_conv)

lemma sort_int_map: "sorted ks \<Longrightarrow> sort (map int ks) = map int ks"
  by (simp add: sorted_map sorted_sort_id)

lemma check_demanded_iff [check_iff]:
  assumes "sorted ks" "set ks \<subseteq> {0..<12}"
  shows "check_demanded d (map (JInt \<circ> int) ks) = Inr () \<longleftrightarrow>
    (\<forall>v. d = Demand v \<longrightarrow> (\<exists>want. v = JArray (map (JNum \<circ> JInt \<circ> int) want) \<and> mset want = mset ks))"
proof (cases "(d, map (JInt \<circ> int) ks)" rule: check_demanded.cases)
  case (2 vs)
  have "check_demanded d (map (JInt \<circ> int) ks) = Inr () \<longleftrightarrow>
      (\<exists>want. vs = map (JNum \<circ> JInt) want \<and> (\<forall>i\<in>set want. 0 \<le> i \<and> i < 12) \<and> map JInt (sort want) = map (JInt \<circ> int) ks)"
    using 2 by (auto simp: res_simps mapE_demanded)
  also have "\<dots> \<longleftrightarrow> (\<exists>want. vs = map (JNum \<circ> JInt \<circ> int) want \<and> mset want = mset ks)"
  proof
    assume "\<exists>want. vs = map (JNum \<circ> JInt) want \<and> (\<forall>i\<in>set want. 0 \<le> i \<and> i < 12) \<and> map JInt (sort want) = map (JInt \<circ> int) ks"
    then obtain want where w: "vs = map (JNum \<circ> JInt) want" "map JInt (sort want) = map JInt (map int ks)" by auto
    then have "sort want = map int ks" by (metis injI inj_map_eq_map jsnum.inject(1))
    then have "mset want = mset (map int ks)" by (metis mset_sort)
    then obtain js where "want = map int js" "mset js = mset ks" using ex_map_mset by blast
    then show "\<exists>want. vs = map (JNum \<circ> JInt \<circ> int) want \<and> mset want = mset ks" using w(1) by auto
  next
    assume "\<exists>want. vs = map (JNum \<circ> JInt \<circ> int) want \<and> mset want = mset ks"
    then obtain js where j: "vs = map (JNum \<circ> JInt) (map int js)" "mset js = mset ks" by auto
    then have "mset (map int js) = mset (map int ks)" by simp
    then have "sort (map int js) = map int ks" by (simp add: properties_for_sort sorted_map assms(1) sort_int_map)
    moreover have "set js = set ks" using j(2) mset_eq_setD by blast
    ultimately show "\<exists>want. vs = map (JNum \<circ> JInt) want \<and> (\<forall>i\<in>set want. 0 \<le> i \<and> i < 12) \<and> map JInt (sort want) = map (JInt \<circ> int) ks"
      using j(1) assms(2) by (intro exI[of _ "map int js"]) auto
  qed
  finally show ?thesis using 2 by auto
qed auto

lemma check_proof_bytes_iff [check_iff]:
  "length (pr_disclosedIndexes p) \<le> 12 \<Longrightarrow>
   check_proof_bytes p = Inr () \<longleftrightarrow> length (pr_proof p) = 272 + 32 * (12 - length (pr_disclosedIndexes p))"
proof (cases "undisclosedCountFromProofBytes (length (pr_proof p))")
  case (Inl e)
  then have "length (pr_proof p) \<noteq> 272 + 32 * (12 - length (pr_disclosedIndexes p))"
    using undisclosedCount_Inr[of "length (pr_proof p)" "12 - length (pr_disclosedIndexes p)"] by auto
  then show ?thesis using Inl by (simp add: check_proof_bytes_def)
next
  case (Inr u)
  assume "length (pr_disclosedIndexes p) \<le> 12"
  then show ?thesis using Inr undisclosedCount_Inr[of "length (pr_proof p)" u]
    by (auto simp: check_proof_bytes_def SCHEMA_ATTRIBUTE_COUNT_def)
qed

lemma check_bbs_iff [check_iff]: "check_bbs N B p pk b = Inr () \<longleftrightarrow> (\<exists>ph. presentationHeaderFor N b = Inr ph
    \<and> bbs_verifyProof B pk (pr_proof p) (utf8ToBytes N CREDENTIAL_HEADER) ph
        (map (utf8ToBytes N) (pr_disclosedMessages p)) (pr_disclosedIndexes p) = Some True)"
  by (auto simp: check_bbs_def split: sum.splits option.splits if_splits)

lemma check_identity_iff [check_iff]: "check_identity N d pk = Inr () \<longleftrightarrow>
    (d SchemaVersion = None \<or> d SchemaVersion = Some (VStr SCHEMA_VERSION))
    \<and> (d IssuerId = None \<or> d IssuerId = Some (VStr (issuerIdFromPublicKey N pk)))"
  by (auto simp: check_identity_def)

text \<open>The kinds of the decoded claims: numbers are integers.\<close>

definition typed_claims :: "kyc_claims \<Rightarrow> bool" where
  "typed_claims d = (\<forall>n v. d n = Some v \<longrightarrow> (case claim_kind_of n of
     KString \<Rightarrow> \<exists>s. v = VStr s | KHex32 \<Rightarrow> \<exists>s. v = VStr s | KUint \<Rightarrow> \<exists>i. v = VNum (JInt (int i)) | KBool \<Rightarrow> \<exists>b. v = VBool b))"

lemma decodeValue_typed: "decodeValue (spec_of n) t = Inr v \<Longrightarrow> (case claim_kind_of n of
     KString \<Rightarrow> \<exists>s. v = VStr s | KHex32 \<Rightarrow> \<exists>s. v = VStr s | KUint \<Rightarrow> \<exists>i. v = VNum (JInt (int i)) | KBool \<Rightarrow> \<exists>b. v = VBool b)"
  by (auto split: claim_kind.splits if_splits)

lemma decodeDisclosed_loop_typed:
  "decodeDisclosed_loop i xs ms out = Inr d \<Longrightarrow> typed_claims out \<Longrightarrow> typed_claims d"
proof (induction i xs ms out rule: decodeDisclosed_loop.induct)
  case (1 i x xs m ms out)
  then obtain a b where ab: "decode_at x i m = Inr (a, b)"
    and r: "decodeDisclosed_loop (Suc i) xs ms (out(a \<mapsto> b)) = Inr d"
    by (auto simp: res_simps simp del: decode_at.simps)
  have "typed_claims (out(a \<mapsto> b))"
    using 1(3) decode_at_Inr(2)[OF ab] decodeValue_typed by (fastforce simp: typed_claims_def)
  then show ?case using 1(1)[OF r] by blast
qed auto

lemma decodeDisclosed_typed: "decodeDisclosed xs ms = Inr d \<Longrightarrow> typed_claims d"
  using decodeDisclosed_loop_typed[of 0 xs ms Map.empty d] by (auto simp: decodeDisclosed_def typed_claims_def split: if_splits)

lemma typed_uint: "typed_claims d \<Longrightarrow> d n = Some v \<Longrightarrow> claim_kind_of n = KUint \<Longrightarrow> \<exists>i. v = VNum (JInt (int i))"
proof -
  assume t: "typed_claims d" and v: "d n = Some v" and k: "claim_kind_of n = KUint"
  have "case claim_kind_of n of KString \<Rightarrow> \<exists>s. v = VStr s | KHex32 \<Rightarrow> \<exists>s. v = VStr s
     | KUint \<Rightarrow> \<exists>i. v = VNum (JInt (int i)) | KBool \<Rightarrow> \<exists>b. v = VBool b"
    using t v unfolding typed_claims_def by blast
  then show ?thesis unfolding k by simp
qed

lemma check_time_iff [check_iff]:
  assumes "typed_claims d"
  shows "check_time t d = Inr () \<longleftrightarrow> (\<forall>now. t = Demand now \<longrightarrow> js_isFinite now
     \<and> (\<exists>e. d ExpiresAt = Some (VNum (JInt e)) \<and> \<not> js_greater now e)
     \<and> (\<forall>i. d IssuedAt = Some (VNum (JInt i)) \<longrightarrow> \<not> js_less now (i - 300)))"
proof (cases t)
  case (Demand now)
  have "d ExpiresAt = None \<or> (\<exists>e. d ExpiresAt = Some (VNum (JInt e)))" "d IssuedAt = None \<or> (\<exists>e. d IssuedAt = Some (VNum (JInt e)))"
    using typed_uint[OF assms] by (metis claim_kind_of.simps not_None_eq)+
  then show ?thesis using Demand
    by (elim disjE exE; auto simp: ISSUANCE_CLOCK_SKEW_SECONDS_def split: if_splits)
qed simp

lemma check_subject_iff [check_iff]: "check_subject t d = Inr () \<longleftrightarrow> (\<forall>s. t = Demand s \<longrightarrow> d SubjectBinding = Some (VStr s))"
  by (cases "(t, d)" rule: check_subject.cases) (auto split: option.splits claim_value.splits)

lemma claim_named_iff: "claim_named s = Some n \<longleftrightarrow> claim_str n = s"
proof
  assume "claim_named s = Some n"
  then show "claim_str n = s" by (auto simp: claim_named_def find_Some_iff)
next
  assume s: "claim_str n = s"
  have "find (\<lambda>sp. claim_str (spec_name sp) = claim_str n) CLAIM_SPECS = find (\<lambda>sp. spec_name sp = n) CLAIM_SPECS"
    by (rule find_cong) auto
  then show "claim_named s = Some n" by (simp add: claim_named_def flip: s)
qed

lemma check_entries_iff: "check_entries es d = Inr () \<longleftrightarrow>
    (\<forall>nm want. (nm, Some want) \<in> set es \<longrightarrow> (\<exists>n. claim_str n = nm \<and> d n = Some want))"
proof (induction es d rule: check_entries.induct)
  case (3 nm want rest d)
  show ?case
  proof (cases "claim_named nm")
    case None
    then have "\<nexists>n. claim_str n = nm" using claim_named_iff by (metis option.distinct(1))
    then show ?thesis using None by auto
  next
    case (Some n)
    then have nm: "claim_str n = nm" by (simp add: claim_named_iff)
    have F: "(\<exists>m. claim_str m = nm \<and> d m = Some want) \<longleftrightarrow> d n = Some want" using nm by auto
    show ?thesis
    proof (cases "d n = Some want")
      case True
      then have "check_entries rest d = Inr () \<longleftrightarrow>
          (\<forall>nm want. (nm, Some want) \<in> set rest \<longrightarrow> (\<exists>n. claim_str n = nm \<and> d n = Some want))"
        using 3[OF Some True] by blast
      then show ?thesis using Some True F by auto
    next
      case False
      then have "check_entries ((nm, Some want) # rest) d \<noteq> Inr ()" using Some by (auto split: option.splits)
      then show ?thesis using False F by auto
    qed
  qed
qed auto

lemma check_expected_iff [check_iff]: "check_expected t d = Inr () \<longleftrightarrow> (\<forall>e. t = Demand e \<longrightarrow> (\<exists>es. e = PlainObject es
    \<and> (\<forall>nm want. (nm, Some want) \<in> set es \<longrightarrow> (\<exists>n. claim_str n = nm \<and> d n = Some want))))"
  by (cases "(t, d)" rule: check_expected.cases) (auto simp: check_entries_iff)

definition asked_purpose :: "string option \<Rightarrow> string" where
  "asked_purpose q = (case q of None \<Rightarrow> ''revocation'' | Some p \<Rightarrow> p)"

definition status_request :: "kyc_claims \<Rightarrow> jsnum \<Rightarrow> string \<Rightarrow> status_list_request" where
  "status_request d idx p = \<lparr> q_revocationIndex = idx,
     q_issuerId = (case d IssuerId of Some (VStr i) \<Rightarrow> Some i | _ \<Rightarrow> None), q_statusPurpose = p \<rparr>"

lemma check_status_iff [check_iff]: "check_status G t q d = Inr () \<longleftrightarrow> (\<forall>src. t = Demand src \<longrightarrow>
    (\<exists>idx l D. d RevocationIndex = Some (VNum idx) \<and> resolve_list src (status_request d idx (asked_purpose q)) = Inr l
      \<and> decodeStatusList G l (Some (asked_purpose q)) = Inr D \<and> statusAt D idx = Inr 0))"
proof (cases t)
  case (Demand src)
  have V: "(case r of Inl _ \<Rightarrow> Inl V_status_list_invalid | Inr status \<Rightarrow> if status \<noteq> 0 then Inl V_revoked else Inr ()) = Inr ()
      \<longleftrightarrow> r = Inr (0 :: nat)" for r :: "status_list_error + nat"
    by (auto split: sum.splits)
  show ?thesis unfolding Demand check_status.simps Let_def
    by (cases "d RevocationIndex"; cases "the (d RevocationIndex)")
       (auto simp: ebind_Inr V asked_purpose_def status_request_def)
qed simp

section \<open>The contract of verification\<close>

text \<open>
  What an accepted presentation guarantees, stated without the order of the checks: the
  schema and the binding, the ledger window, the exact disclosure set, the proof's size and
  cryptographic verdict, and every demanded policy on the decoded claims.
\<close>

definition presentation_accepted ::
  "noble \<Rightarrow> bbs_lib \<Rightarrow> gzip_platform \<Rightarrow> presentation \<Rightarrow> bytes \<Rightarrow> proof_binding \<Rightarrow> verify_options \<Rightarrow> kyc_claims \<Rightarrow> bool" where
  "presentation_accepted N B G p pk b opts d = (
     pr_schemaVersion p = ''1'' \<and> pr_totalMessages p = JInt 12 \<and>
     assertValidBinding b = Inr () \<and>
     (\<exists>key. bindingDigestHex N (pr_binding p) = Inr key \<and> bindingDigestHex N b = Inr key
        \<and> (\<forall>used. vo_replayGuard opts = Demand used \<longrightarrow> key \<notin> used)) \<and>
     (\<forall>l. vo_currentLedger opts = Demand l \<longrightarrow> (\<exists>i e. l = JInt i \<and> ledgerExpiry b = JInt e \<and> 0 \<le> i \<and> i \<le> e)) \<and>
     (\<exists>ks. pr_disclosedIndexes p = map (JInt \<circ> int) ks \<and> sorted ks \<and> distinct ks \<and> set ks \<subseteq> {0..<12}
        \<and> length (pr_proof p) = 272 + 32 * (12 - length ks)
        \<and> (\<forall>v. vo_expectedDisclosedIndexes opts = Demand v \<longrightarrow>
             (\<exists>want. v = JArray (map (JNum \<circ> JInt \<circ> int) want) \<and> mset want = mset ks))) \<and>
     decodeDisclosed (pr_disclosedIndexes p) (pr_disclosedMessages p) = Inr d \<and>
     (\<exists>ph. presentationHeaderFor N b = Inr ph \<and> bbs_verifyProof B pk (pr_proof p) (utf8ToBytes N CREDENTIAL_HEADER) ph
        (map (utf8ToBytes N) (pr_disclosedMessages p)) (pr_disclosedIndexes p) = Some True) \<and>
     d SchemaVersion \<in> {None, Some (VStr ''1'')} \<and>
     d IssuerId \<in> {None, Some (VStr (bytesToHex N (sha256 N pk)))} \<and>
     (\<forall>now. vo_currentTime opts = Demand now \<longrightarrow> js_isFinite now
        \<and> (\<exists>e. d ExpiresAt = Some (VNum (JInt e)) \<and> \<not> js_greater now e)
        \<and> (\<forall>i. d IssuedAt = Some (VNum (JInt i)) \<longrightarrow> \<not> js_less now (i - 300))) \<and>
     (\<forall>s. vo_expectedSubjectBinding opts = Demand s \<longrightarrow> d SubjectBinding = Some (VStr s)) \<and>
     (\<forall>e. vo_expectedClaims opts = Demand e \<longrightarrow> (\<exists>es. e = PlainObject es
        \<and> (\<forall>nm want. (nm, Some want) \<in> set es \<longrightarrow> (\<exists>n. claim_str n = nm \<and> d n = Some want)))) \<and>
     (\<forall>src. vo_statusList opts = Demand src \<longrightarrow>
        (\<exists>idx l D. d RevocationIndex = Some (VNum idx) \<and> resolve_list src (status_request d idx (asked_purpose (vo_statusPurpose opts))) = Inr l
           \<and> decodeStatusList G l (Some (asked_purpose (vo_statusPurpose opts))) = Inr D \<and> statusAt D idx = Inr 0)))"

lemma ebind_unit: "ebind r f = Inr b \<longleftrightarrow> (r = Inr () \<and> f () = Inr b)"
  by (cases r) auto

lemma verify_checks_iff:
  "verify_checks N B G p pk b opts = Inr d \<longleftrightarrow>
     check_binding N p b = Inr () \<and> check_ledger (vo_currentLedger opts) b = Inr () \<and> check_shape p = Inr ()
     \<and> check_demanded (vo_expectedDisclosedIndexes opts) (pr_disclosedIndexes p) = Inr ()
     \<and> check_proof_bytes p = Inr () \<and> decodeDisclosed (pr_disclosedIndexes p) (pr_disclosedMessages p) = Inr d
     \<and> check_bbs N B p pk b = Inr () \<and> policy_checks N G d pk opts = Inr ()"
  by (auto simp: verify_checks_def ebind_unit ebind_Inr map_err_Inr)

lemma policy_checks_iff:
  "policy_checks N G d pk opts = Inr () \<longleftrightarrow> check_identity N d pk = Inr () \<and> check_time (vo_currentTime opts) d = Inr ()
    \<and> check_subject (vo_expectedSubjectBinding opts) d = Inr () \<and> check_expected (vo_expectedClaims opts) d = Inr ()
    \<and> check_status G (vo_statusList opts) (vo_statusPurpose opts) d = Inr ()"
  by (auto simp: policy_checks_def ebind_unit)

lemma consume_last_iff:
  "bindingDigestHex N b = Inr key \<Longrightarrow> fst (consume_last N g b d) = Inr d' \<longleftrightarrow> d' = d \<and> (\<forall>used. g = Demand used \<longrightarrow> key \<notin> used)"
  by (cases g) (auto simp: consume_last_def guard_consume_def consume_key_def)

text \<open>The shape facts that the later checks read.\<close>

lemma shape_and_demand_iff:
  "check_shape p = Inr () \<and> check_demanded v (pr_disclosedIndexes p) = Inr () \<and> check_proof_bytes p = Inr () \<longleftrightarrow>
     pr_totalMessages p = JInt 12 \<and> length (pr_disclosedIndexes p) = length (pr_disclosedMessages p) \<and>
     (\<exists>ks. pr_disclosedIndexes p = map (JInt \<circ> int) ks \<and> sorted ks \<and> distinct ks \<and> set ks \<subseteq> {0..<12}
        \<and> length (pr_proof p) = 272 + 32 * (12 - length ks)
        \<and> (\<forall>w. v = Demand w \<longrightarrow> (\<exists>want. w = JArray (map (JNum \<circ> JInt \<circ> int) want) \<and> mset want = mset ks)))"
proof -
  have dem: "check_demanded v (map (JInt \<circ> int) ks) = Inr () \<longleftrightarrow> (\<forall>w. v = Demand w \<longrightarrow>
        (\<exists>want. w = JArray (map (JNum \<circ> JInt \<circ> int) want) \<and> mset want = mset ks))"
    if "sorted ks" "set ks \<subseteq> {0..<12}" for ks
    using check_demanded_iff[OF that] .
  have len: "length ks \<le> 12" if "distinct ks" "set ks \<subseteq> {0..<12 :: nat}" for ks
    using that card_mono[of "{0..<12}" "set ks"] by (simp add: distinct_card)
  show ?thesis (is "?L \<longleftrightarrow> ?R")
  proof (intro iffI)
    assume ?L
    then obtain ks where "pr_disclosedIndexes p = map (JInt \<circ> int) ks" "sorted ks" "distinct ks" "set ks \<subseteq> {0..<12}"
      and sh: "pr_totalMessages p = JInt 12" "length (pr_disclosedIndexes p) = length (pr_disclosedMessages p)"
      unfolding check_shape_iff by blast
    note ks = this(1-4)
    have l: "length (pr_disclosedIndexes p) = length ks" using ks(1) by simp
    have "length ks \<le> 12" using len[OF ks(3,4)] .
    then show ?R using \<open>?L\<close> ks sh check_proof_bytes_iff[of p, unfolded l] dem[OF ks(2,4)] by auto
  next
    assume ?R
    then obtain ks where ks: "pr_disclosedIndexes p = map (JInt \<circ> int) ks" "sorted ks" "distinct ks" "set ks \<subseteq> {0..<12}"
      "length (pr_proof p) = 272 + 32 * (12 - length ks)"
      "\<forall>w. v = Demand w \<longrightarrow> (\<exists>want. w = JArray (map (JNum \<circ> JInt \<circ> int) want) \<and> mset want = mset ks)"
      and sh: "pr_totalMessages p = JInt 12" "length (pr_disclosedIndexes p) = length (pr_disclosedMessages p)"
      by blast
    have l: "length (pr_disclosedIndexes p) = length ks" using ks(1) by simp
    have "check_shape p = Inr ()" unfolding check_shape_iff using ks(1-4) sh by blast
    moreover have "check_demanded v (pr_disclosedIndexes p) = Inr ()" unfolding ks(1) dem[OF ks(2,4)] by (rule ks(6))
    moreover have "check_proof_bytes p = Inr ()" using check_proof_bytes_iff[of p, unfolded l] len[OF ks(3,4)] ks(5) by simp
    ultimately show ?L by blast
  qed
qed

lemma accepted_iff:
  "fst (verifyDetailed N B G p pk b opts) = Inr d \<longleftrightarrow> presentation_accepted N B G p pk b opts d"
proof -
  have "fst (verifyDetailed N B G p pk b opts) = Inr d \<longleftrightarrow>
      verify_checks N B G p pk b opts = Inr d \<and> fst (consume_last N (vo_replayGuard opts) b d) = Inr d"
    by (auto simp: verifyDetailed_def consume_last_def split: sum.splits demand.splits prod.splits)
  also have "\<dots> \<longleftrightarrow> presentation_accepted N B G p pk b opts d"
  proof (cases "check_binding N p b = Inr () \<and> decodeDisclosed (pr_disclosedIndexes p) (pr_disclosedMessages p) = Inr d")
    case True
    then obtain key where key: "bindingDigestHex N (pr_binding p) = Inr key" "bindingDigestHex N b = Inr key"
      and b: "assertValidBinding b = Inr ()" "pr_schemaVersion p = SCHEMA_VERSION"
      by (auto simp: check_binding_iff)
    have len: "length (pr_disclosedIndexes p) = length (pr_disclosedMessages p)"
      using True by (auto simp: decodeDisclosed_def split: if_splits)
    have t: "typed_claims d" using True decodeDisclosed_typed by blast
    show ?thesis
      using True key b len shape_and_demand_iff[of p "vo_expectedDisclosedIndexes opts"]
      unfolding verify_checks_iff policy_checks_iff consume_last_iff[OF key(2)] check_ledger_iff[OF b(1)]
        check_time_iff[OF t] check_subject_iff check_expected_iff check_status_iff check_bbs_iff check_identity_iff
        presentation_accepted_def SCHEMA_VERSION_def[symmetric] issuerIdFromPublicKey_def
      by auto
  next
    case False
    then show ?thesis
      unfolding verify_checks_iff presentation_accepted_def check_binding_iff SCHEMA_VERSION_def[symmetric] by blast
  qed
  finally show ?thesis .
qed

lemma verify_failure_keeps_guard:
  "verifyDetailed N B G p pk b opts = (Inl f, g) \<Longrightarrow> g = vo_replayGuard opts"
  by (auto simp: verifyDetailed_def consume_last_def guard_consume_def consume_key_def res_simps
      split: sum.splits demand.splits prod.splits if_splits)

lemma decodeDisclosed_dom:
  assumes "decodeDisclosed xs ms = Inr d"
  shows "dom d = {n. JInt (int (CLAIM_INDEX n)) \<in> set xs}"
proof -
  have "dom out' = dom out \<union> {n. JInt (int (CLAIM_INDEX n)) \<in> set xs}"
    if "decodeDisclosed_loop i xs ms out = Inr out'" "length xs = length ms" for i out out'
    using that
  proof (induction i xs ms out rule: decodeDisclosed_loop.induct)
    case (1 i x xs m ms out)
    then obtain a b where ab: "decode_at x i m = Inr (a, b)"
      and r: "decodeDisclosed_loop (Suc i) xs ms (out(a \<mapsto> b)) = Inr out'"
      by (auto simp: res_simps simp del: decode_at.simps)
    show ?case using 1(1)[OF r] 1(3) decode_at_Inr(1)[OF ab] by (auto split: if_splits)
  qed auto
  then show ?thesis using assms by (auto simp: decodeDisclosed_def split: if_splits)
qed

section \<open>The honest path\<close>

lemma issue_Inr:
  "issue N B claims sk = Inr c \<longleftrightarrow> (\<exists>ms sig. length sk = 32 \<and> claims SchemaVersion = Some (VStr SCHEMA_VERSION)
     \<and> \<not> js_le (claim_num claims ExpiresAt) (claim_num claims IssuedAt) \<and> encodeClaims claims = Inr ms
     \<and> claims IssuerId = Some (VStr (issuerIdFromPublicKey N (bbs_public B sk)))
     \<and> bbs_sign B sk (bbs_public B sk) (utf8ToBytes N CREDENTIAL_HEADER) (map (utf8ToBytes N) ms) = Some sig
     \<and> length sig = 80
     \<and> c = \<lparr> c_schemaVersion = SCHEMA_VERSION, c_messages = ms, c_signature = sig,
            c_issuerPublicKey = bbs_public B sk, c_claims = claims \<rparr>)"
  by (auto simp: issue_def issuerPublicKey_def res_simps Let_def byte_counts SCHEMA_ATTRIBUTE_COUNT_def
      dest: encodeClaims_Inr(1) split: option.splits if_splits)

lemma normalizeIndexes_Inr:
  "normalizeIndexes xs = Inr ks \<Longrightarrow> sorted ks \<and> distinct ks \<and> set ks \<subseteq> {0..<12}"
proof -
  assume "normalizeIndexes xs = Inr ks"
  then obtain js where j: "normalize_loop xs [] = Inr js" "ks = sort js"
    by (auto simp: normalizeIndexes_def res_simps Let_def)
  then show ?thesis using normalize_loop_Inr[OF j(1)] by auto
qed

lemma nth_opt_message: "length ms = 12 \<Longrightarrow> set ks \<subseteq> {0..<12} \<Longrightarrow> c_messages c = ms \<Longrightarrow>
   mapE (disclosed_message c) ks = Inr (map ((!) ms) ks)"
  by (rule mapE_all_ok) (auto simp: disclosed_message_def nth_opt_conv)

lemma derive_issued:
  assumes N: "noble_ok N" and B: "bbs_complete B" and c: "issue N B claims sk = Inr c"
    and b: "assertValidBinding b = Inr ()" and ks: "normalizeIndexes xs = Inr ks"
  shows "\<exists>p ph. derive N B c xs b = Inr p \<and> pr_schemaVersion p = SCHEMA_VERSION \<and> pr_binding p = b
    \<and> pr_totalMessages p = JInt 12 \<and> pr_disclosedIndexes p = map (JInt \<circ> int) ks
    \<and> pr_disclosedMessages p = map ((!) (c_messages c)) ks \<and> length (pr_proof p) = 272 + 32 * (12 - length ks)
    \<and> presentationHeaderFor N b = Inr ph
    \<and> bbs_verifyProof B (c_issuerPublicKey c) (pr_proof p) (utf8ToBytes N CREDENTIAL_HEADER) ph
        (map (utf8ToBytes N) (pr_disclosedMessages p)) (pr_disclosedIndexes p) = Some True"
proof -
  from c obtain ms sig where i: "encodeClaims claims = Inr ms"
     "bbs_sign B sk (bbs_public B sk) (utf8ToBytes N CREDENTIAL_HEADER) (map (utf8ToBytes N) ms) = Some sig"
     and cc: "c = \<lparr> c_schemaVersion = SCHEMA_VERSION, c_messages = ms, c_signature = sig,
            c_issuerPublicKey = bbs_public B sk, c_claims = claims \<rparr>"
    unfolding issue_Inr by blast
  have len: "length ms = 12" using encodeClaims_Inr(1)[OF i(1)] .
  have k: "sorted ks" "distinct ks" "set ks \<subseteq> {0..<12}" using normalizeIndexes_Inr[OF ks] by auto
  have "card (set ks) \<le> 12" using k(3) card_mono[of "{0..<12}" "set ks"] by simp
  then have kl: "length ks \<le> 12" using k(2) by (simp add: distinct_card)
  obtain ph where ph: "presentationHeaderFor N b = Inr ph"
    using canonicalBindingBytes_total[OF N] b presentationHeaderFor_Inr bindingDigest_Inr by metis
  have "set ks \<subseteq> {0..<length (map (utf8ToBytes N) ms)}" using k(3) len by simp
  then obtain prof where prof: "bbs_deriveProof B (bbs_public B sk) sig (utf8ToBytes N CREDENTIAL_HEADER) (map (utf8ToBytes N) ms) ph ks = Some prof"
     "length prof = 272 + 32 * (length (map (utf8ToBytes N) ms) - length ks)"
     "bbs_verifyProof B (bbs_public B sk) prof (utf8ToBytes N CREDENTIAL_HEADER) ph (map ((!) (map (utf8ToBytes N) ms)) ks) (map (JInt \<circ> int) ks) = Some True"
    using B i(2) k(1,2) unfolding bbs_complete_def by blast
  have msgs: "map ((!) (map (utf8ToBytes N) ms)) ks = map (utf8ToBytes N) (map ((!) ms) ks)"
    using k(3) len by auto
  have n: "expectedProofBytes (JInt (int (length ms) - int (length ks))) = Inr (272 + 32 * (12 - length ks))"
    using expectedProofBytes_Inr[of "12 - length ks"] len kl by (simp add: of_nat_diff del: expectedProofBytes.simps)
  have ms: "mapE (disclosed_message c) ks = Inr (map ((!) ms) ks)"
    using nth_opt_message[OF len k(3)] cc by simp
  have "derive N B c xs b = Inr \<lparr> pr_schemaVersion = SCHEMA_VERSION, pr_proof = prof, pr_disclosedIndexes = map (JInt \<circ> int) ks,
      pr_disclosedMessages = map ((!) ms) ks, pr_totalMessages = JInt 12, pr_binding = b \<rparr>"
    using ms ph prof(1,2) n b ks len by (simp add: derive_def cc del: expectedProofBytes.simps)
  then show ?thesis using ph prof(2,3) len msgs by (auto simp: cc)
qed

lemma issued_checks:
  assumes "noble_ok N" and "bbs_complete B" and "issue N B claims sk = Inr c"
    and "assertValidBinding b = Inr ()" and "normalizeIndexes xs = Inr ks"
  shows "\<exists>p. derive N B c xs b = Inr p \<and>
    (\<forall>g. verify_checks N B G p (c_issuerPublicKey c) b (UNSAFE_NO_CHECKS\<lparr>vo_replayGuard := g\<rparr>) = Inr (claims |` {n. CLAIM_INDEX n \<in> set ks}))"
proof -
  obtain p ph where p: "derive N B c xs b = Inr p" "pr_schemaVersion p = SCHEMA_VERSION" "pr_binding p = b"
    "pr_totalMessages p = JInt 12" "pr_disclosedIndexes p = map (JInt \<circ> int) ks"
    "pr_disclosedMessages p = map ((!) (c_messages c)) ks" "length (pr_proof p) = 272 + 32 * (12 - length ks)"
    "presentationHeaderFor N b = Inr ph"
    "bbs_verifyProof B (c_issuerPublicKey c) (pr_proof p) (utf8ToBytes N CREDENTIAL_HEADER) ph
        (map (utf8ToBytes N) (pr_disclosedMessages p)) (pr_disclosedIndexes p) = Some True"
    using derive_issued[OF assms] by blast
  have k: "sorted ks" "distinct ks" "set ks \<subseteq> {0..<12}" using normalizeIndexes_Inr[OF assms(5)] by auto
  obtain ms where ms: "encodeClaims claims = Inr ms" "c_messages c = ms" "claims SchemaVersion = Some (VStr SCHEMA_VERSION)"
    "claims IssuerId = Some (VStr (issuerIdFromPublicKey N (c_issuerPublicKey c)))"
    using assms(3) unfolding issue_Inr by auto
  have d: "decodeDisclosed (pr_disclosedIndexes p) (pr_disclosedMessages p) = Inr (claims |` {n. CLAIM_INDEX n \<in> set ks})"
  proof -
    have "\<forall>m\<in>set ks. m < 12" using k(3) by auto
    from decodeDisclosed_loop_encoded[OF ms(1) this, of 0 Map.empty] show ?thesis
      using p(5,6) ms(2) by (simp add: decodeDisclosed_def)
  qed
  obtain key where key: "bindingDigestHex N b = Inr key"
    using canonicalBindingBytes_total[OF assms(1)] assms(4) bindingDigestHex_Inr by metis
  have id: "check_identity N (claims |` {n. CLAIM_INDEX n \<in> set ks}) (c_issuerPublicKey c) = Inr ()"
    unfolding check_identity_iff using ms(3,4) by (auto simp: restrict_map_def)
  have sh: "check_shape p = Inr () \<and> check_demanded UnsafeSkip (pr_disclosedIndexes p) = Inr () \<and> check_proof_bytes p = Inr ()"
    unfolding shape_and_demand_iff using p(4-7) k by auto
  have "check_binding N p b = Inr ()" unfolding check_binding_iff using p(2,3) assms(4) key by auto
  moreover have "check_bbs N B p (c_issuerPublicKey c) b = Inr ()" unfolding check_bbs_iff using p(8,9) by blast
  ultimately have "verify_checks N B G p (c_issuerPublicKey c) b (UNSAFE_NO_CHECKS\<lparr>vo_replayGuard := g\<rparr>) = Inr (claims |` {n. CLAIM_INDEX n \<in> set ks})" for g
    unfolding verify_checks_iff policy_checks_iff using d id sh by (auto simp: UNSAFE_NO_CHECKS_def)
  then show ?thesis using p(1) by blast
qed

definition toy_bbs :: bbs_lib where
  "toy_bbs = \<lparr> bbs_keygen = (\<lambda>_. (replicate 32 0, replicate 96 0)), bbs_public = (\<lambda>_. replicate 96 0),
     bbs_sign = (\<lambda>_ _ _ _. Some (replicate 80 0)), bbs_verifySignature = (\<lambda>_ _ _ _. Some True),
     bbs_deriveProof = (\<lambda>_ _ _ ms _ ks. Some (replicate (272 + 32 * (length ms - length ks)) 0)),
     bbs_verifyProof = (\<lambda>_ _ _ _ _ _. Some True) \<rparr>"

lemma toy_bbs_complete [simp]: "bbs_complete toy_bbs"
  by (simp add: bbs_complete_def toy_bbs_def)

definition toy_claims :: kyc_claims where
  "toy_claims = example_claims(IssuerId \<mapsto> VStr (issuerIdFromPublicKey noble_ref (replicate 96 0)),
     ExpiresAt \<mapsto> VNum (JInt 1700000001))"

lemma toy_issue: "\<exists>c. issue noble_ref toy_bbs toy_claims (replicate 32 0) = Inr c"
proof -
  have "dec 1700000001 = ''1700000001''" by (simp add: dec.simps)
  moreover have "hex32 (bytesToHex noble_ref (sha256 noble_ref (replicate 96 0)))" by (rule noble_hex_sha256) simp
  ultimately obtain ms where "encodeClaims toy_claims = Inr ms"
    by (simp add: encodeClaims_def CLAIM_SPECS_def encodeClaim_def mk_spec_def toy_claims_def example_claims_def issuerIdFromPublicKey_def)
  then show ?thesis
    unfolding issue_Inr by (auto simp: toy_bbs_def toy_claims_def claim_num_def example_claims_def SCHEMA_VERSION_def)
qed

lemma toy_normalize: "normalizeIndexes [JInt 8, JInt 6] = Inr [6, 8]"
  by (simp add: normalizeIndexes_def SCHEMA_ATTRIBUTE_COUNT_def assertNoPii_v1 Let_def del: assertNoPiiDisclosed.simps)

section \<open>Properties\<close>

text \<open>
  C7. Verification accepts exactly the presentations that meet the contract, and returns
  exactly their decoded claims: every demanded check (binding, ledger window, exact disclosure
  set, proof size and cryptographic verdict, schema and issuer, credential lifetime, subject,
  expected values, revocation status, unused nonce) holds on acceptance, and nothing else is
  required.
\<close>

theorem verifyDetailed_accepts_iff:
  "fst (verifyDetailed N B G p pk b opts) = Inr d \<longleftrightarrow> presentation_accepted N B G p pk b opts d"
  by (rule accepted_iff)

text \<open>
  C8. The nonce is burned exactly by acceptance: a failed verification leaves the guard as
  it was, an accepted one adds the binding's digest, and a second presentation of the same
  binding to the guard it left is never accepted.
\<close>

theorem verifyDetailed_burns_once:
  "case verifyDetailed N B G p pk b opts of
     (Inl f, g) \<Rightarrow> g = vo_replayGuard opts
   | (Inr d, g) \<Rightarrow> (\<forall>used. vo_replayGuard opts = Demand used \<longrightarrow>
       (\<exists>key. bindingDigestHex N b = Inr key \<and> key \<notin> used \<and> g = Demand (insert key used)
          \<and> \<not> is_ok (fst (verifyDetailed N B G p' pk b (opts\<lparr>vo_replayGuard := g\<rparr>)))))"
proof (cases "verify_checks N B G p pk b opts")
  case (Inr d)
  show ?thesis
  proof (cases "vo_replayGuard opts")
    case (Demand used)
    have step: "verifyDetailed N B G p' pk b (opts\<lparr>vo_replayGuard := Demand (insert key used)\<rparr>) \<noteq> (Inr d', g)"
      if "bindingDigestHex N b = Inr key" for key d' g
      using that by (auto simp: verifyDetailed_def consume_last_def guard_consume_def consume_key_def split: sum.splits)
    show ?thesis
    proof (cases "bindingDigestHex N b")
      case (Inr key)
      have "\<not> is_ok (fst (verifyDetailed N B G p' pk b (opts\<lparr>vo_replayGuard := Demand (insert key used)\<rparr>)))"
        using step[OF Inr] by (metis is_ok_iff prod.collapse)
      then show ?thesis using \<open>verify_checks N B G p pk b opts = Inr d\<close> Demand Inr
        by (auto simp: verifyDetailed_def consume_last_def guard_consume_def consume_key_def)
    qed (use Demand in \<open>auto simp: verifyDetailed_def consume_last_def guard_consume_def Inr\<close>)
  qed (auto simp: verifyDetailed_def consume_last_def Inr)
qed (auto simp: verifyDetailed_def)

theorem verifyDetailed_burns_once_witness:
  "\<exists>p pk d key. verifyDetailed noble_ref toy_bbs gzip_identity p pk example_binding (UNSAFE_NO_CHECKS\<lparr>vo_replayGuard := Demand {}\<rparr>)
       = (Inr d, Demand {key})
     \<and> \<not> is_ok (fst (verifyDetailed noble_ref toy_bbs gzip_identity p pk example_binding
          (UNSAFE_NO_CHECKS\<lparr>vo_replayGuard := Demand {key}\<rparr>)))"
proof -
  obtain c where c: "issue noble_ref toy_bbs toy_claims (replicate 32 0) = Inr c" using toy_issue by blast
  obtain p where p: "\<forall>g. verify_checks noble_ref toy_bbs gzip_identity p (c_issuerPublicKey c) example_binding
      (UNSAFE_NO_CHECKS\<lparr>vo_replayGuard := g\<rparr>) = Inr (toy_claims |` {n. CLAIM_INDEX n \<in> set [6, 8]})"
    using issued_checks[OF noble_ref_ok toy_bbs_complete c example_binding_ok toy_normalize, of gzip_identity] by blast
  obtain k where k: "bindingDigestHex noble_ref example_binding = Inr k"
    using example_binding_bytes bindingDigestHex_Inr by blast
  let ?o = "UNSAFE_NO_CHECKS\<lparr>vo_replayGuard := Demand {}\<rparr>"
  have v: "verifyDetailed noble_ref toy_bbs gzip_identity p (c_issuerPublicKey c) example_binding ?o
      = (Inr (toy_claims |` {n. CLAIM_INDEX n \<in> set [6, 8]}), Demand {k})"
    using spec[OF p, of "Demand {}"] k by (simp add: verifyDetailed_def consume_last_def guard_consume_def consume_key_def)
  show ?thesis
    using verifyDetailed_burns_once[where N = noble_ref and B = toy_bbs and G = gzip_identity and p = p
        and pk = "c_issuerPublicKey c" and b = example_binding and opts = ?o and p' = p] v
    by (intro exI[of _ p] exI[of _ "c_issuerPublicKey c"]) auto
qed



end
