(* ===== verification/Predicates.thy ===== *)
theory Predicates
imports Credential "HOL-Library.AList"
begin

text \<open>
  Predicates (\<open>packages/identity/src/predicates.ts\<close>): the disclosure set and the expectation of
  each named predicate, their conjunction, the country rule, and \<open>checkPredicate\<close>.
  Claim indexes in a predicate are integers; an expectation is the list of an object's entries.
\<close>

record predicate =
  label :: string
  disclose :: "int list"
  expect :: "(claim_name \<times> claim_value) list"

datatype predicate_error = NotDisclosable string | NoClaims | NoPredicates | ConflictingExpectations claim_name
  | NotCountryCode string | EmptyAllowlist | UnsatisfiableCountries "string list"

definition claim_flag :: "claim_name \<Rightarrow> predicate" where
  "claim_flag n = \<lparr> label = claim_str n, disclose = [int (CLAIM_INDEX n)], expect = [(n, VBool True)] \<rparr>"

definition over18 :: predicate where "over18 = claim_flag Over18"
definition over21 :: predicate where "over21 = claim_flag Over21"
definition notSanctioned :: predicate where "notSanctioned = claim_flag NotSanctioned"
definition notPep :: predicate where "notPep = claim_flag NotPep"
definition livenessOk :: predicate where "livenessOk = claim_flag LivenessOk"

definition DISCLOSABLE_CLAIM_NAMES :: "claim_name list" where
  "DISCLOSABLE_CLAIM_NAMES = [Over18, Over21, NotSanctioned, NotPep, JurisdictionOk, LivenessOk]"

text \<open>The name is an arbitrary string at run time.\<close>

definition claimPredicate :: "string \<Rightarrow> predicate_error + predicate" where
  "claimPredicate name = (case find (\<lambda>n. claim_str n = name) DISCLOSABLE_CLAIM_NAMES of
     None \<Rightarrow> Inl (NotDisclosable name) | Some n \<Rightarrow> Inr (claim_flag n))"

definition credentialAudit :: predicate where
  "credentialAudit = \<lparr> label = ''credentialAudit'',
     disclose = map (int \<circ> CLAIM_INDEX) [SchemaVersion, IssuerId, RevocationIndex, IssuedAt, ExpiresAt, SubjectBinding],
     expect = [(SchemaVersion, VStr SCHEMA_VERSION)] \<rparr>"

section \<open>Conjunction\<close>

text \<open>A set built by insertion keeps its elements in the order of their first insertion.\<close>

fun add_all :: "'a list \<Rightarrow> 'a list \<Rightarrow> 'a list" where
  "add_all seen [] = seen"
| "add_all seen (x # xs) = add_all (if x \<in> set seen then seen else seen @ [x]) xs"

fun merge_expect :: "(claim_name \<times> claim_value) list \<Rightarrow> (claim_name \<times> claim_value) list
    \<Rightarrow> predicate_error + (claim_name \<times> claim_value) list" where
  "merge_expect acc [] = Inr acc"
| "merge_expect acc ((n, v) # rest) = (case map_of acc n of
     Some w \<Rightarrow> if w \<noteq> v then Inl (ConflictingExpectations n) else merge_expect (AList.update n v acc) rest
   | None \<Rightarrow> merge_expect (AList.update n v acc) rest)"

fun allOf_loop :: "int list \<Rightarrow> (claim_name \<times> claim_value) list \<Rightarrow> predicate list
    \<Rightarrow> predicate_error + int list \<times> (claim_name \<times> claim_value) list" where
  "allOf_loop ds es [] = Inr (ds, es)"
| "allOf_loop ds es (p # ps) = ebind (merge_expect es (expect p)) (\<lambda>es'. allOf_loop (add_all ds (disclose p)) es' ps)"

fun join_str :: "string \<Rightarrow> string list \<Rightarrow> string" where
  "join_str sep [] = []"
| "join_str sep [s] = s"
| "join_str sep (s # ss) = s @ sep @ join_str sep ss"

definition allOf :: "predicate list \<Rightarrow> predicate_error + predicate" where
  "allOf ps = (if ps = [] then Inl NoPredicates
     else ebind (allOf_loop [] [] ps) (\<lambda>(ds, es).
       Inr \<lparr> label = join_str '' AND '' (map label ps), disclose = sort ds, expect = es \<rparr>))"

definition gatePredicateFor :: "string list \<Rightarrow> predicate_error + predicate" where
  "gatePredicateFor names = (let unique = add_all [] names in
     if unique = [] then Inl NoClaims
     else ebind (mapE claimPredicate unique) (\<lambda>ps. allOf (credentialAudit # ps)))"

definition standardOnrampPredicate :: "predicate_error + predicate" where
  "standardOnrampPredicate = allOf [over18, notSanctioned]"

definition gateOnrampPredicate :: "predicate_error + predicate" where
  "gateOnrampPredicate = allOf [credentialAudit, over18, notSanctioned]"

section \<open>Countries\<close>

definition is_letter :: "char \<Rightarrow> bool" where
  "is_letter c = (let k = (of_char c :: nat) in (65 \<le> k \<and> k \<le> 90) \<or> (97 \<le> k \<and> k \<le> 122))"

definition to_upper :: "char \<Rightarrow> char" where
  "to_upper c = (let k = (of_char c :: nat) in if 97 \<le> k \<and> k \<le> 122 then char_of (k - 32) else c)"

definition normalize_country :: "string \<Rightarrow> predicate_error + string" where
  "normalize_country c = (if length c = 2 \<and> list_all is_letter c then Inr (map to_upper c) else Inl (NotCountryCode c))"

definition normalize_countries :: "string list \<Rightarrow> predicate_error + string list" where
  "normalize_countries cs = ebind (mapE normalize_country cs) (\<lambda>out. if out = [] then Inl EmptyAllowlist else Inr out)"

text \<open>Strings are compared by their code units.\<close>

fun str_less_eq :: "string \<Rightarrow> string \<Rightarrow> bool" where
  "str_less_eq [] t = True"
| "str_less_eq (c # s) [] = False"
| "str_less_eq (c # s) (d # t) = (if c = d then str_less_eq s t else (of_char c :: nat) < of_char d)"

fun insert_str :: "string \<Rightarrow> string list \<Rightarrow> string list" where
  "insert_str s [] = [s]"
| "insert_str s (t # ts) = (if str_less_eq s t then s # t # ts else t # insert_str s ts)"

definition sort_strings :: "string list \<Rightarrow> string list" where
  "sort_strings ss = foldr insert_str ss []"

definition countryAllowed :: "string list \<Rightarrow> string list option \<Rightarrow> predicate_error + predicate" where
  "countryAllowed allowed issuerPolicy =
     (let policy = (case issuerPolicy of None \<Rightarrow> ISSUER_JURISDICTION_POLICY | Some p \<Rightarrow> p) in
      ebind (normalize_countries allowed) (\<lambda>rp_list.
      ebind (normalize_countries policy) (\<lambda>issuer.
        let rp = add_all [] rp_list; missing = filter (\<lambda>c. c \<notin> set rp) issuer in
        if missing \<noteq> [] then Inl (UnsatisfiableCountries missing)
        else Inr \<lparr> label = ''countryAllowed('' @ join_str '','' (sort_strings rp) @ '')'',
                   disclose = [int (CLAIM_INDEX JurisdictionOk)], expect = [(JurisdictionOk, VBool True)] \<rparr>)))"

section \<open>Proving and checking\<close>

definition prove_predicate :: "noble \<Rightarrow> bbs_lib \<Rightarrow> credential \<Rightarrow> predicate \<Rightarrow> proof_binding \<Rightarrow> credential_error + presentation" where
  "prove_predicate N B c p b = derive N B c (map JInt (disclose p)) b"

definition checkPredicate ::
  "noble \<Rightarrow> bbs_lib \<Rightarrow> gzip_platform \<Rightarrow> presentation \<Rightarrow> predicate \<Rightarrow> bytes \<Rightarrow> proof_binding \<Rightarrow> verify_options
     \<Rightarrow> (verify_failure + kyc_claims) \<times> replay_guard demand" where
  "checkPredicate N B G prf p pk b opts =
     (let want = sort (disclose p) in
      if map JInt want \<noteq> pr_disclosedIndexes prf then (Inl V_disclosure_shape, vo_replayGuard opts)
      else verifyDetailed N B G prf pk b (opts\<lparr>
        vo_expectedClaims := Demand (PlainObject (map (\<lambda>(n, v). (claim_str n, Some v)) (expect p))),
        vo_expectedDisclosedIndexes := Demand (JArray (map (JNum \<circ> JInt) want))\<rparr>))"

section \<open>Lemmas\<close>

lemma add_all_spec: "distinct seen \<Longrightarrow> distinct (add_all seen xs) \<and> set (add_all seen xs) = set seen \<union> set xs"
  by (induction seen xs rule: add_all.induct) (auto split: if_splits)

lemma merge_expect_Inr:
  "merge_expect acc es = Inr out \<Longrightarrow>
     map_of out n = Some v \<longleftrightarrow> map_of acc n = Some v \<or> (n, v) \<in> set es"
proof (induction acc es arbitrary: out rule: merge_expect.induct)
  case (2 acc m w rest)
  then show ?case
    by (cases "map_of acc m") (auto simp: update_conv' split: if_splits)
qed auto

lemma merge_expect_ok:
  "(\<exists>out. merge_expect acc es = Inr out) \<longleftrightarrow>
     (\<forall>n v w. (n, v) \<in> set es \<longrightarrow> map_of acc n = Some w \<or> (n, w) \<in> set es \<longrightarrow> v = w)"
proof (induction acc es rule: merge_expect.induct)
  case (2 acc m x rest)
  have upd: "map_of (AList.update m x acc) n = (if n = m then Some x else map_of acc n)" for n
    by (simp add: update_conv')
  show ?case
  proof (cases "map_of acc m")
    case None
    have "(\<exists>out. merge_expect acc ((m, x) # rest) = Inr out) \<longleftrightarrow>
       (\<forall>n v w. (n, v) \<in> set rest \<longrightarrow> (if n = m then Some x else map_of acc n) = Some w \<or> (n, w) \<in> set rest \<longrightarrow> v = w)"
      using 2(1)[OF None] None by (simp add: upd)
    also have "\<dots> \<longleftrightarrow> (\<forall>n v w. (n, v) \<in> set ((m, x) # rest) \<longrightarrow> map_of acc n = Some w \<or> (n, w) \<in> set ((m, x) # rest) \<longrightarrow> v = w)"
      (is "?L \<longleftrightarrow> ?R")
    proof
      assume L: ?L
      show ?R
      proof (intro allI impI)
        fix n v w assume a: "(n, v) \<in> set ((m, x) # rest)" and b: "map_of acc n = Some w \<or> (n, w) \<in> set ((m, x) # rest)"
        show "v = w" using L[rule_format, of n v w] L[rule_format, of n w v] a b None by (cases "n = m") auto
      qed
    qed (use None in \<open>auto split: if_splits\<close>)
    finally show ?thesis .
  next
    case (Some y)
    show ?thesis
    proof (cases "y = x")
      case True
      have same: "map_of (AList.update m x acc) n = map_of acc n" for n using Some True by (simp add: upd)
      have "(\<exists>out. merge_expect acc ((m, x) # rest) = Inr out) \<longleftrightarrow>
          (\<forall>n v w. (n, v) \<in> set rest \<longrightarrow> map_of acc n = Some w \<or> (n, w) \<in> set rest \<longrightarrow> v = w)"
        using 2(2)[OF Some] Some True by (simp add: same)
      also have "\<dots> \<longleftrightarrow> (\<forall>n v w. (n, v) \<in> set ((m, x) # rest) \<longrightarrow> map_of acc n = Some w \<or> (n, w) \<in> set ((m, x) # rest) \<longrightarrow> v = w)"
        (is "?L \<longleftrightarrow> ?R")
      proof
        assume L: ?L
        show ?R
        proof (intro allI impI)
          fix n v w assume a: "(n, v) \<in> set ((m, x) # rest)" and b: "map_of acc n = Some w \<or> (n, w) \<in> set ((m, x) # rest)"
          show "v = w" using L[rule_format, of n v w] L[rule_format, of n w v] a b Some True by (cases "n = m") auto
        qed
      qed auto
      finally show ?thesis .
    next
      case False
      then show ?thesis using Some by auto
    qed
  qed
qed auto

lemma allOf_loop_Inr:
  "allOf_loop ds es ps = Inr (ds', es') \<Longrightarrow> distinct ds \<Longrightarrow>
     distinct ds' \<and> set ds' = set ds \<union> (\<Union>p\<in>set ps. set (disclose p))
     \<and> (\<forall>n v. map_of es' n = Some v \<longleftrightarrow> map_of es n = Some v \<or> (\<exists>p\<in>set ps. (n, v) \<in> set (expect p)))"
proof (induction ds es ps arbitrary: ds' es' rule: allOf_loop.induct)
  case (2 ds es p ps)
  then obtain e where e: "merge_expect es (expect p) = Inr e" "allOf_loop (add_all ds (disclose p)) e ps = Inr (ds', es')"
    by (auto simp: res_simps)
  have d: "distinct (add_all ds (disclose p))" "set (add_all ds (disclose p)) = set ds \<union> set (disclose p)"
    using add_all_spec[OF 2(3)] by auto
  show ?case using 2(1)[OF e(2) d(1)] merge_expect_Inr[OF e(1)] d(2) by auto
qed auto

lemma allOf_loop_ok:
  assumes "\<forall>n v w. (map_of es n = Some v \<or> (\<exists>p\<in>set ps. (n, v) \<in> set (expect p)))
      \<and> (map_of es n = Some w \<or> (\<exists>p\<in>set ps. (n, w) \<in> set (expect p))) \<longrightarrow> v = w"
  shows "\<exists>r. allOf_loop ds es ps = Inr r"
  using assms
proof (induction ds es ps rule: allOf_loop.induct)
  case (2 ds es p ps)
  have "\<forall>n v w. (n, v) \<in> set (expect p) \<longrightarrow> map_of es n = Some w \<or> (n, w) \<in> set (expect p) \<longrightarrow> v = w"
    using 2(2) by (metis list.set_intros(1))
  then obtain e where e: "merge_expect es (expect p) = Inr e" using merge_expect_ok by blast
  have "\<forall>n v w. (map_of e n = Some v \<or> (\<exists>p\<in>set ps. (n, v) \<in> set (expect p)))
      \<and> (map_of e n = Some w \<or> (\<exists>p\<in>set ps. (n, w) \<in> set (expect p))) \<longrightarrow> v = w"
    unfolding merge_expect_Inr[OF e] using 2(2) by (metis list.set_intros)
  from 2(1)[OF this] show ?case using e by auto
qed auto

lemma allOf_Inr:
  assumes "allOf ps = Inr q"
  shows "ps \<noteq> []" "sorted (disclose q)" "distinct (disclose q)" "set (disclose q) = (\<Union>p\<in>set ps. set (disclose p))"
    "map_of (expect q) n = Some v \<longleftrightarrow> (\<exists>p\<in>set ps. (n, v) \<in> set (expect p))"
proof -
  obtain ds es where l: "allOf_loop [] [] ps = Inr (ds, es)" "disclose q = sort ds" "expect q = es" "ps \<noteq> []"
    using assms by (auto simp: allOf_def res_simps split: if_splits)
  then show "ps \<noteq> []" "sorted (disclose q)" "distinct (disclose q)" "set (disclose q) = (\<Union>p\<in>set ps. set (disclose p))"
    "map_of (expect q) n = Some v \<longleftrightarrow> (\<exists>p\<in>set ps. (n, v) \<in> set (expect p))"
    using allOf_loop_Inr[OF l(1)] by auto
qed

lemma claimPredicate_Inr: "claimPredicate name = Inr p \<longleftrightarrow> (\<exists>n\<in>set DISCLOSABLE_CLAIM_NAMES. claim_str n = name \<and> p = claim_flag n)"
proof
  assume "claimPredicate name = Inr p"
  then show "\<exists>n\<in>set DISCLOSABLE_CLAIM_NAMES. claim_str n = name \<and> p = claim_flag n"
    by (auto simp: claimPredicate_def find_Some_iff split: option.splits)
next
  assume "\<exists>n\<in>set DISCLOSABLE_CLAIM_NAMES. claim_str n = name \<and> p = claim_flag n"
  then show "claimPredicate name = Inr p"
    by (auto simp: claimPredicate_def DISCLOSABLE_CLAIM_NAMES_def)
qed

text \<open>A gate predicate discloses the metadata block and exactly the named claims, expected true.\<close>

lemma gatePredicateFor_Inr:
  assumes "gatePredicateFor names = Inr q"
  shows "set (disclose q) = {0..5} \<union> (\<lambda>n. int (CLAIM_INDEX n)) ` {n. claim_str n \<in> set names}"
    "map_of (expect q) n = Some v \<longleftrightarrow> (n = SchemaVersion \<and> v = VStr SCHEMA_VERSION) \<or> (claim_str n \<in> set names \<and> v = VBool True)"
proof -
  obtain ps where ps: "mapE claimPredicate (add_all [] names) = Inr ps" "allOf (credentialAudit # ps) = Inr q"
    using assms by (auto simp: gatePredicateFor_def Let_def res_simps split: if_splits)
  have u: "set (add_all [] names) = set names" using add_all_spec[of "[]" names] by simp
  have flags: "p \<in> set ps \<longleftrightarrow> (\<exists>n. claim_str n \<in> set names \<and> p = claim_flag n)" for p
  proof
    assume "p \<in> set ps"
    then obtain i where i: "i < length ps" "p = ps ! i" by (metis in_set_conv_nth)
    then have "claimPredicate (add_all [] names ! i) = Inr p" "i < length (add_all [] names)"
      using ps(1) by (auto simp: mapE_Inr)
    then show "\<exists>n. claim_str n \<in> set names \<and> p = claim_flag n"
      unfolding claimPredicate_Inr using u nth_mem by metis
  next
    assume "\<exists>n. claim_str n \<in> set names \<and> p = claim_flag n"
    then obtain n i where n: "i < length (add_all [] names)" "add_all [] names ! i = claim_str n" "p = claim_flag n"
      using u by (metis in_set_conv_nth)
    then have "claimPredicate (claim_str n) = Inr (ps ! i)" "i < length ps" using ps(1) by (auto simp: mapE_Inr)
    then have "ps ! i = claim_flag n" by (auto simp: claimPredicate_Inr)
    then show "p \<in> set ps" using n(3) \<open>i < length ps\<close> nth_mem by metis
  qed
  have block: "{0..5} = {0, 1, 2, 3, 4, 5 :: int}" by auto
  have "(\<Union>p\<in>set (credentialAudit # ps). set (disclose p))
      = set (disclose credentialAudit) \<union> (\<Union>p\<in>{p. \<exists>n. claim_str n \<in> set names \<and> p = claim_flag n}. set (disclose p))"
    using flags by auto
  then show "set (disclose q) = {0..5} \<union> (\<lambda>n. int (CLAIM_INDEX n)) ` {n. claim_str n \<in> set names}"
    unfolding allOf_Inr(4)[OF ps(2)] block by (auto simp: credentialAudit_def claim_flag_def)
  show "map_of (expect q) n = Some v \<longleftrightarrow> (n = SchemaVersion \<and> v = VStr SCHEMA_VERSION) \<or> (claim_str n \<in> set names \<and> v = VBool True)"
  proof -
    have "(\<exists>p\<in>set (credentialAudit # ps). (n, v) \<in> set (expect p)) \<longleftrightarrow>
        (n, v) \<in> set (expect credentialAudit) \<or> (\<exists>m. claim_str m \<in> set names \<and> (n, v) \<in> set (expect (claim_flag m)))"
      unfolding Bex_def set_simps insert_iff flags by blast
    then show ?thesis unfolding allOf_Inr(5)[OF ps(2)] by (auto simp: credentialAudit_def claim_flag_def)
  qed
qed

lemma normalize_country_Inr: "normalize_country c = Inr u \<longleftrightarrow> length c = 2 \<and> list_all is_letter c \<and> u = map to_upper c"
  by (auto simp: normalize_country_def)

lemma normalize_countries_Inr: "normalize_countries cs = Inr us \<longleftrightarrow>
    cs \<noteq> [] \<and> (\<forall>c\<in>set cs. length c = 2 \<and> list_all is_letter c) \<and> us = map (map to_upper) cs"
proof -
  have "mapE normalize_country cs = Inr us \<longleftrightarrow> (\<forall>c\<in>set cs. length c = 2 \<and> list_all is_letter c) \<and> us = map (map to_upper) cs" for us
    by (induction cs arbitrary: us) (auto simp: res_simps normalize_country_Inr)
  then show ?thesis by (auto simp: normalize_countries_def res_simps)
qed

section \<open>Properties\<close>

text \<open>
  Checking a predicate answers exactly that predicate: on acceptance the presentation
  discloses precisely the predicate's indexes, the returned claims are precisely those, every
  expectation holds of the signed values, and the caller's own demands were all enforced; on
  rejection the nonce is not consumed.
\<close>

theorem checkPredicate_sound:
  assumes "checkPredicate N B G prf p pk b opts = (r, g)"
  shows "case r of
     Inl f \<Rightarrow> g = vo_replayGuard opts
   | Inr d \<Rightarrow> pr_disclosedIndexes prf = map JInt (sort (disclose p))
       \<and> dom d = {n. int (CLAIM_INDEX n) \<in> set (disclose p)}
       \<and> (\<forall>(n, v)\<in>set (expect p). d n = Some v)
       \<and> presentation_accepted N B G prf pk b
           (opts\<lparr>vo_expectedClaims := UnsafeSkip, vo_expectedDisclosedIndexes := UnsafeSkip\<rparr>) d"
proof (cases "map JInt (sort (disclose p)) = pr_disclosedIndexes prf")
  case False
  then show ?thesis using assms by (auto simp: checkPredicate_def Let_def)
next
  case True
  define opts' where "opts' = opts\<lparr>vo_expectedClaims := Demand (PlainObject (map (\<lambda>(n, v). (claim_str n, Some v)) (expect p))),
        vo_expectedDisclosedIndexes := Demand (JArray (map (JNum \<circ> JInt) (sort (disclose p))))\<rparr>"
  have v: "verifyDetailed N B G prf pk b opts' = (r, g)"
    using assms True by (simp add: checkPredicate_def Let_def opts'_def)
  show ?thesis
  proof (cases r)
    case (Inl f)
    then show ?thesis using v verify_failure_keeps_guard[OF v[unfolded Inl]] by (simp add: opts'_def)
  next
    case (Inr d)
    then have acc: "presentation_accepted N B G prf pk b opts' d" using v accepted_iff by (metis fst_conv)
    have exp: "\<forall>nm want. (nm, Some want) \<in> set (map (\<lambda>(n, v). (claim_str n, Some v)) (expect p)) \<longrightarrow> (\<exists>n. claim_str n = nm \<and> d n = Some want)"
      using acc by (auto simp: presentation_accepted_def opts'_def)
    have "d n = Some v" if "(n, v) \<in> set (expect p)" for n v
    proof -
      have "(claim_str n, Some v) \<in> set (map (\<lambda>(n, v). (claim_str n, Some v)) (expect p))" using that by force
      then show ?thesis using exp by (metis claim_str_inj)
    qed
    moreover have "dom d = {n. int (CLAIM_INDEX n) \<in> set (disclose p)}"
    proof -
      have dd: "decodeDisclosed (pr_disclosedIndexes prf) (pr_disclosedMessages prf) = Inr d"
        using acc by (simp add: presentation_accepted_def)
      have "dom d = {n. JInt (int (CLAIM_INDEX n)) \<in> set (pr_disclosedIndexes prf)}" by (rule decodeDisclosed_dom[OF dd])
      then show ?thesis by (auto simp flip: True)
    qed
    moreover have "presentation_accepted N B G prf pk b (opts\<lparr>vo_expectedClaims := UnsafeSkip, vo_expectedDisclosedIndexes := UnsafeSkip\<rparr>) d"
      using acc by (auto simp: presentation_accepted_def opts'_def)
    ultimately show ?thesis using Inr True by auto
  qed
qed

definition toy_predicate :: predicate where
  "toy_predicate = \<lparr> label = ''both'', disclose = [8, 6], expect = [(Over18, VBool True)] \<rparr>"

theorem checkPredicate_sound_witness:
  "\<exists>p pk d g. checkPredicate noble_ref toy_bbs gzip_identity p toy_predicate pk example_binding UNSAFE_NO_CHECKS = (Inr d, g)
     \<and> pr_disclosedIndexes p = map JInt (sort (disclose toy_predicate))
     \<and> dom d = {n. int (CLAIM_INDEX n) \<in> set (disclose toy_predicate)} \<and> d Over18 = Some (VBool True)"
proof -
  obtain c where c: "issue noble_ref toy_bbs toy_claims (replicate 32 0) = Inr c" using toy_issue by blast
  obtain p where p: "derive noble_ref toy_bbs c [JInt 8, JInt 6] example_binding = Inr p"
    "\<forall>g. verify_checks noble_ref toy_bbs gzip_identity p (c_issuerPublicKey c) example_binding
      (UNSAFE_NO_CHECKS\<lparr>vo_replayGuard := g\<rparr>) = Inr (toy_claims |` {n. CLAIM_INDEX n \<in> set [6, 8]})"
    using issued_checks[OF noble_ref_ok toy_bbs_complete c example_binding_ok toy_normalize, of gzip_identity] by blast
  let ?d = "toy_claims |` {n. CLAIM_INDEX n \<in> set [6, 8]}"
  let ?o = "UNSAFE_NO_CHECKS\<lparr>vo_expectedClaims := Demand (PlainObject [(''over18'', Some (VBool True))]),
        vo_expectedDisclosedIndexes := Demand (JArray [JNum (JInt 6), JNum (JInt 8)])\<rparr>"
  have idx: "pr_disclosedIndexes p = [JInt 6, JInt 8]"
    using derive_issued[OF noble_ref_ok toy_bbs_complete c example_binding_ok toy_normalize] p(1) by auto
  have "UNSAFE_NO_CHECKS\<lparr>vo_replayGuard := UnsafeSkip\<rparr> = UNSAFE_NO_CHECKS" by (simp add: UNSAFE_NO_CHECKS_def)
  then have base: "verify_checks noble_ref toy_bbs gzip_identity p (c_issuerPublicKey c) example_binding UNSAFE_NO_CHECKS = Inr ?d"
    using p(2) by metis
  have dem: "check_demanded (Demand (JArray [JNum (JInt 6), JNum (JInt 8)])) [JInt 6, JInt 8] = Inr ()"
    by (simp add: SCHEMA_ATTRIBUTE_COUNT_def)
  have ent: "check_expected (Demand (PlainObject [(''over18'', Some (VBool True))])) ?d = Inr ()"
    unfolding check_expected_iff
    by (auto simp: toy_claims_def example_claims_def restrict_map_def intro!: exI[of _ Over18])
  have "verify_checks noble_ref toy_bbs gzip_identity p (c_issuerPublicKey c) example_binding ?o = Inr ?d"
    using base dem ent unfolding verify_checks_iff policy_checks_iff idx by (simp add: UNSAFE_NO_CHECKS_def)
  then have "checkPredicate noble_ref toy_bbs gzip_identity p toy_predicate (c_issuerPublicKey c) example_binding UNSAFE_NO_CHECKS
      = (Inr ?d, UnsafeSkip)"
    using idx by (simp add: checkPredicate_def toy_predicate_def verifyDetailed_def consume_last_def UNSAFE_NO_CHECKS_def Let_def)
  with checkPredicate_sound[OF this] show ?thesis
    by (intro exI[of _ p] exI[of _ "c_issuerPublicKey c"] exI[of _ ?d] exI[of _ UnsafeSkip]) (auto simp: toy_predicate_def)
qed

text \<open>
  The conjunction of predicates discloses exactly the union of their indexes, sorted and
  without repetition, and expects exactly the union of their expectations; it is refused
  exactly when the list is empty or two members expect different values of one claim.
\<close>

theorem allOf_conjunction:
  "case allOf ps of
     Inr q \<Rightarrow> ps \<noteq> [] \<and> sorted (disclose q) \<and> distinct (disclose q)
       \<and> set (disclose q) = (\<Union>p\<in>set ps. set (disclose p))
       \<and> {(n, v). map_of (expect q) n = Some v} = (\<Union>p\<in>set ps. set (expect p))
   | Inl e \<Rightarrow> ps = [] \<or> (\<exists>n v w. v \<noteq> w \<and> (n, v) \<in> (\<Union>p\<in>set ps. set (expect p)) \<and> (n, w) \<in> (\<Union>p\<in>set ps. set (expect p)))"
proof (cases "allOf ps")
  case (Inl e)
  have "\<exists>n v w. v \<noteq> w \<and> (n, v) \<in> (\<Union>p\<in>set ps. set (expect p)) \<and> (n, w) \<in> (\<Union>p\<in>set ps. set (expect p))" if "ps \<noteq> []"
  proof (rule ccontr)
    assume "\<nexists>n v w. v \<noteq> w \<and> (n, v) \<in> (\<Union>p\<in>set ps. set (expect p)) \<and> (n, w) \<in> (\<Union>p\<in>set ps. set (expect p))"
    then have "\<exists>r. allOf_loop [] [] ps = Inr r" by (intro allOf_loop_ok) auto
    then show False using Inl that by (auto simp: allOf_def res_simps)
  qed
  then show ?thesis using Inl by auto
next
  case (Inr q)
  then show ?thesis using allOf_Inr[OF Inr] by auto
qed

text \<open>
  A country predicate is given exactly when it is sound: when every code is a two-letter
  code, both lists are non-empty, and every country the issuer stamps is, up to letter case, on
  the relying party's list. It then asks for the issuer's jurisdiction verdict alone.
\<close>

theorem countryAllowed_sound:
  "(let policy = (case pol of None \<Rightarrow> ISSUER_JURISDICTION_POLICY | Some p \<Rightarrow> p);
        sound = (allowed \<noteq> [] \<and> policy \<noteq> [] \<and> list_all (\<lambda>c. length c = 2 \<and> list_all is_letter c) (allowed @ policy)
          \<and> map to_upper ` set policy \<subseteq> map to_upper ` set allowed) in
    case countryAllowed allowed pol of
      Inl e \<Rightarrow> \<not> sound
    | Inr q \<Rightarrow> sound \<and> disclose q = [10] \<and> expect q = [(JurisdictionOk, VBool True)])"
proof -
  have ua: "set (add_all [] xs) = set xs" for xs :: "string list" using add_all_spec[of "[]" xs] by simp
  define policy where "policy = (case pol of None \<Rightarrow> ISSUER_JURISDICTION_POLICY | Some p \<Rightarrow> p)"
  have ok: "(\<exists>q. countryAllowed allowed pol = Inr q) \<longleftrightarrow> allowed \<noteq> [] \<and> policy \<noteq> []
      \<and> list_all (\<lambda>c. length c = 2 \<and> list_all is_letter c) (allowed @ policy)
      \<and> map to_upper ` set policy \<subseteq> map to_upper ` set allowed"
    unfolding countryAllowed_def Let_def policy_def[symmetric]
    by (auto simp: res_simps normalize_countries_Inr ua filter_empty_conv list_all_iff)
  have "countryAllowed allowed pol = Inr q \<Longrightarrow> disclose q = [10] \<and> expect q = [(JurisdictionOk, VBool True)]" for q
    by (auto simp: countryAllowed_def Let_def res_simps split: if_splits)
  then show ?thesis using ok unfolding Let_def policy_def[symmetric]
    by (cases "countryAllowed allowed pol") auto
qed

end
