(* ===== verification/Generators.thy ===== *)
theory Generators
imports Schema
begin

unbundle bit_operations_syntax

text \<open>
  The derived message generators (\<open>packages/identity/src/generators.ts\<close>): the hash chain, one
  generator per message and one more, and the memoised set with its root. Expansion and
  hashing to the curve are library functions, so parameters.
\<close>

definition BBS_API_ID :: string where
  "BBS_API_ID = ''BBS_BLS12381G1_XMD:SHA-256_SSWU_RO_H2G_HM2S_''"

definition EXPAND_LEN :: nat where
  "EXPAND_LEN = 48"

definition BBS_GENERATOR_COUNT :: nat where
  "BBS_GENERATOR_COUNT = SCHEMA_ATTRIBUTE_COUNT + 1"

record h2c =
  expand_message_xmd :: "bytes \<Rightarrow> bytes \<Rightarrow> nat \<Rightarrow> bytes"
  hash_to_g1 :: "bytes \<Rightarrow> bytes \<Rightarrow> bytes"
  g1_recompress :: "bytes \<Rightarrow> bytes"

datatype generator_error = BadGeneratorCount jsnum

text \<open>\<open>setBigUint64\<close> writes the number big-endian in eight bytes.\<close>

definition i2osp8 :: "nat \<Rightarrow> bytes" where
  "i2osp8 i = map (\<lambda>k. word_of_nat (i div 256 ^ k)) [7, 6, 5, 4, 3, 2, 1, 0]"

definition GENERATOR_SEED :: "noble \<Rightarrow> bytes" where
  "GENERATOR_SEED N = utf8ToBytes N (BBS_API_ID @ ''MESSAGE_GENERATOR_SEED'')"

definition SEED_DST :: "noble \<Rightarrow> bytes" where
  "SEED_DST N = utf8ToBytes N (BBS_API_ID @ ''SIG_GENERATOR_SEED_'')"

definition GENERATOR_DST :: "noble \<Rightarrow> bytes" where
  "GENERATOR_DST N = utf8ToBytes N (BBS_API_ID @ ''SIG_GENERATOR_DST_'')"

text \<open>The loop for \<open>i\<close> up to \<open>i + k - 1\<close>.\<close>

fun generators_loop :: "noble \<Rightarrow> h2c \<Rightarrow> nat \<Rightarrow> nat \<Rightarrow> bytes \<Rightarrow> bytes list" where
  "generators_loop N H i 0 v = []"
| "generators_loop N H i (Suc k) v =
     (let v' = expand_message_xmd H (v @ i2osp8 i) (SEED_DST N) EXPAND_LEN in
      hash_to_g1 H v' (GENERATOR_DST N) # generators_loop N H (Suc i) k v')"

fun createGenerators :: "noble \<Rightarrow> h2c \<Rightarrow> jsnum \<Rightarrow> generator_error + bytes list" where
  "createGenerators N H (JInt n) = (if n < 1 then Inl (BadGeneratorCount (JInt n))
     else Inr (generators_loop N H 1 (nat n)
                 (expand_message_xmd H (GENERATOR_SEED N) (SEED_DST N) EXPAND_LEN)))"
| "createGenerators N H x = Inl (BadGeneratorCount x)"

record bbs_generators =
  gen_count :: nat
  gen_uncompressed :: "string list"
  gen_compressed :: "string list"
  gen_root :: string

text \<open>The state is the module's \<open>cached\<close> variable.\<close>

definition bbsGenerators ::
  "noble \<Rightarrow> h2c \<Rightarrow> bbs_generators option \<Rightarrow> generator_error + bbs_generators \<times> bbs_generators option" where
  "bbsGenerators N H cached = (case cached of Some g \<Rightarrow> Inr (g, cached)
   | None \<Rightarrow> ebind (createGenerators N H (JInt (int BBS_GENERATOR_COUNT))) (\<lambda>points.
       let g = \<lparr> gen_count = BBS_GENERATOR_COUNT, gen_uncompressed = map (bytesToHex N) points,
                 gen_compressed = map (\<lambda>p. bytesToHex N (g1_recompress H p)) points,
                 gen_root = bytesToHex N (sha256 N (concat points)) \<rparr> in Inr (g, Some g)))"

section \<open>Lemmas\<close>

lemma length_generators_loop [simp]: "length (generators_loop N H i k v) = k"
  by (induction k arbitrary: i v) (auto simp: Let_def)

lemma take_generators_loop: "take m (generators_loop N H i k v) = generators_loop N H i (min m k) v"
proof (induction k arbitrary: i m v)
  case (Suc k)
  then show ?case by (cases m) (auto simp: Let_def)
qed simp

text \<open>
  A schema that appends attributes keeps every generator of the shorter one: the sets for
  two counts agree on the shorter prefix.
\<close>

lemma createGenerators_prefix:
  assumes "createGenerators N H (JInt (int m)) = Inr gs" "createGenerators N H (JInt (int n)) = Inr hs" "m \<le> n"
  shows "gs = take m hs"
  using assms by (auto simp: take_generators_loop min_absorb1 split: if_splits)

lemma bbsGenerators_memo:
  assumes "bbsGenerators N H cached = Inr (g, cached')"
  shows "cached' = Some g \<and> bbsGenerators N H cached' = Inr (g, cached')"
  using assms by (auto simp: bbsGenerators_def Let_def res_simps split: option.splits)

lemma bbsGenerators_fresh:
  "\<exists>g. bbsGenerators N H None = Inr (g, Some g) \<and> gen_count g = 13
     \<and> length (gen_uncompressed g) = 13 \<and> length (gen_compressed g) = 13"
  by (auto simp: bbsGenerators_def Let_def BBS_GENERATOR_COUNT_def SCHEMA_ATTRIBUTE_COUNT_def)

end
