(* ===== verification/Age.thy ===== *)
theory Age
imports Prelude
begin

text \<open>
  The age arithmetic of \<open>kyc/age.ts\<close>: the strict date parser, completed years in UTC and the
  two thresholds. The first section is the part of the \<open>Date\<close> object of ECMAScript the file
  uses: \<open>Date.UTC\<close> and the three UTC readers, over the proleptic Gregorian calendar; a \<open>Date\<close>
  is its time value in milliseconds, \<open>None\<close> for an invalid one.
\<close>

section \<open>The calendar of \<open>Date\<close>\<close>

definition leap_year :: "int \<Rightarrow> bool" where
  "leap_year y = (4 dvd y \<and> (\<not> 100 dvd y \<or> 400 dvd y))"

definition month_length :: "int \<Rightarrow> int \<Rightarrow> int" where
  "month_length y m = (if m = 2 then (if leap_year y then 29 else 28)
     else if m = 4 \<or> m = 6 \<or> m = 9 \<or> m = 11 then 30 else 31)"

definition real_date :: "int \<Rightarrow> int \<Rightarrow> int \<Rightarrow> bool" where
  "real_date y m d = (1 \<le> m \<and> m \<le> 12 \<and> 1 \<le> d \<and> d \<le> month_length y m)"

text \<open>Day number of 1 January: \<open>DayFromYear\<close> of the ECMAScript specification.\<close>

definition DayFromYear :: "int \<Rightarrow> int" where
  "DayFromYear y = 365 * (y - 1970) + (y - 1969) div 4 - (y - 1901) div 100 + (y - 1601) div 400"

definition year_length :: "int \<Rightarrow> int" where
  "year_length y = (if leap_year y then 366 else 365)"

text \<open>Days of the year before month \<open>m\<close>, counted from 1.\<close>

definition days_before :: "int \<Rightarrow> int \<Rightarrow> int" where
  "days_before y m = (if m \<le> 1 then 0 else if m = 2 then 31 else
     (if leap_year y then 1 else 0) + (if m = 3 then 59 else if m = 4 then 90 else if m = 5 then 120
      else if m = 6 then 151 else if m = 7 then 181 else if m = 8 then 212 else if m = 9 then 243
      else if m = 10 then 273 else if m = 11 then 304 else 334))"

definition year_of_day :: "int \<Rightarrow> int" where
  "year_of_day n = (let n' = n + 719162; e = n' div 146097; r = n' mod 146097;
      c = min (r div 36524) 3; r1 = r - 36524 * c; q = r1 div 1461; r2 = r1 - 1461 * q
    in 400 * e + 100 * c + 4 * q + min (r2 div 365) 3 + 1)"

definition month_of_doy :: "int \<Rightarrow> int \<Rightarrow> int" where
  "month_of_doy y k = (if k < days_before y 2 then 1 else if k < days_before y 3 then 2
     else if k < days_before y 4 then 3 else if k < days_before y 5 then 4 else if k < days_before y 6 then 5
     else if k < days_before y 7 then 6 else if k < days_before y 8 then 7 else if k < days_before y 9 then 8
     else if k < days_before y 10 then 9 else if k < days_before y 11 then 10 else if k < days_before y 12 then 11 else 12)"

abbreviation ms_per_day :: int where "ms_per_day \<equiv> 86400000"

definition getUTCFullYear :: "int \<Rightarrow> int" where
  "getUTCFullYear t = year_of_day (t div ms_per_day)"

text \<open>The month as JavaScript numbers it, from 0.\<close>

definition getUTCMonth :: "int \<Rightarrow> int" where
  "getUTCMonth t = (let n = t div ms_per_day; y = year_of_day n in month_of_doy y (n - DayFromYear y) - 1)"

definition getUTCDate :: "int \<Rightarrow> int" where
  "getUTCDate t = (let n = t div ms_per_day; y = year_of_day n; k = n - DayFromYear y
     in k - days_before y (month_of_doy y k) + 1)"

text \<open>
  \<open>Date.UTC(y, m, d)\<close>: months from 0 roll over into years, days into months, and a year
  from 0 to 99 means 1900 to 1999.
\<close>

definition Date_UTC :: "int \<Rightarrow> int \<Rightarrow> int \<Rightarrow> int" where
  "Date_UTC y m d = (let y1 = (if 0 \<le> y \<and> y \<le> 99 then 1900 + y else y); y2 = y1 + m div 12
     in (DayFromYear y2 + days_before y2 (m mod 12 + 1) + d - 1) * ms_per_day)"

lemma div_step: "0 < k \<Longrightarrow> (x + 1) div k = x div k + (if k dvd x + 1 then 1 else (0::int))"
proof -
  assume k: "0 < k"
  show ?thesis
  proof (cases "k dvd x + 1")
    case True
    then obtain c where c: "x = k * c + (-1)" by (metis add_diff_cancel_right' dvdE uminus_add_conv_diff add.commute)
    have "(k * c + (-1)) div k = c + (-1) div k" using k by (intro div_mult_self4) simp
    moreover have "(-1) div k = -1" using k by (simp add: zdiv_eq_0_iff div_eq_minus1)
    moreover have "(x + 1) div k = c" using c k by simp
    ultimately show ?thesis using True c by simp
  next
    case False
    then have "(x + 1) mod k \<noteq> 0" by (simp add: dvd_eq_mod_eq_0)
    then have m: "1 \<le> (x + 1) mod k" using k pos_mod_sign[of k "x + 1"] by linarith
    have "x = k * ((x + 1) div k) + ((x + 1) mod k - 1)"
      using mult_div_mod_eq[of k "x + 1"] by linarith
    moreover have "(x + 1) mod k - 1 < k" using pos_mod_bound[OF k, of "x + 1"] by linarith
    ultimately have "x div k = (x + 1) div k" using m
      by (metis int_div_pos_eq diff_ge_0_iff_ge)
    then show ?thesis using False by simp
  qed
qed

lemma dvd_shift: "(k::int) dvd c \<Longrightarrow> k dvd y - c \<longleftrightarrow> k dvd y"
  using dvd_add[of k "y - c" c] dvd_diff[of k y c] by auto

lemma day_sum: "365 * (y + 1 - 1970) + (A + i) - (B + j) + (C + k)
    = 365 * (y - 1970) + A - B + C + (365 + i - j + (k :: int))"
  by simp

lemma leap_sum: "(c \<Longrightarrow> b) \<Longrightarrow> (b \<Longrightarrow> a) \<Longrightarrow>
    (if a \<and> (\<not> b \<or> c) then 366 else 365 :: int) = 365 + (if a then 1 else 0) - (if b then 1 else 0) + (if c then 1 else 0)"
  by (cases a; cases b; cases c) simp_all

lemma DayFromYear_Suc: "DayFromYear (y + 1) = DayFromYear y + year_length y"
proof -
  have b: "y + 1 - 1969 = y - 1969 + 1" "y + 1 - 1901 = y - 1901 + 1" "y + 1 - 1601 = y - 1601 + 1"
    "y - 1969 + 1 = y - 1968" "y - 1901 + 1 = y - 1900" "y - 1601 + 1 = y - 1600" by simp_all
  have d: "4 dvd y - 1968 \<longleftrightarrow> 4 dvd y" "100 dvd y - 1900 \<longleftrightarrow> 100 dvd y" "400 dvd y - 1600 \<longleftrightarrow> 400 dvd y"
    by (rule dvd_shift, simp)+
  have s4: "(y + 1 - 1969) div 4 = (y - 1969) div 4 + (if 4 dvd y then 1 else 0)"
    unfolding b(1) div_step[of 4 "y - 1969", simplified] b(4) d(1) by simp
  have s100: "(y + 1 - 1901) div 100 = (y - 1901) div 100 + (if 100 dvd y then 1 else 0)"
    unfolding b(2) div_step[of 100 "y - 1901", simplified] b(5) d(2) by simp
  have s400: "(y + 1 - 1601) div 400 = (y - 1601) div 400 + (if 400 dvd y then 1 else 0)"
    unfolding b(3) div_step[of 400 "y - 1601", simplified] b(6) d(3) by simp
  have "400 dvd y \<Longrightarrow> 100 dvd y" "100 dvd y \<Longrightarrow> 4 dvd y"
    using dvd_trans[of 100 400 y] dvd_trans[of 4 100 y] by auto
  then have l: "year_length y = 365 + (if 4 dvd y then 1 else 0) - (if 100 dvd y then 1 else 0) + (if 400 dvd y then 1 else 0)"
    unfolding year_length_def leap_year_def by (rule leap_sum)
  show ?thesis
    unfolding DayFromYear_def s4 s100 s400 l by (rule day_sum)
qed

lemma year_length_pos: "365 \<le> year_length y" by (simp add: year_length_def)

lemma DayFromYear_mono: "y \<le> z \<Longrightarrow> DayFromYear y + 365 * (z - y) \<le> DayFromYear z"
proof (induction z rule: int_ge_induct)
  case (step z)
  then show ?case using DayFromYear_Suc[of z] year_length_pos[of z] by simp
qed simp


lemma year_of_day_bounds:
  "DayFromYear (year_of_day n) \<le> n \<and> n < DayFromYear (year_of_day n + 1)"
proof -
  define e where "e = (n + 719162) div 146097"
  define r where "r = (n + 719162) mod 146097"
  define c where "c = min (r div 36524) 3"
  define r1 where "r1 = r - 36524 * c"
  define q where "q = r1 div 1461"
  define r2 where "r2 = r1 - 1461 * q"
  define a where "a = min (r2 div 365) 3"
  define y where "y = year_of_day n"
  have y: "y = 400 * e + 100 * c + 4 * q + a + 1"
    unfolding y_def year_of_day_def Let_def e_def r_def c_def r1_def q_def r2_def a_def by simp
  have n: "n + 719162 = 146097 * e + r" unfolding e_def r_def by simp
  have r: "0 \<le> r" "r < 146097" unfolding r_def by simp_all
  have c: "0 \<le> c" "c \<le> 3" "0 \<le> r1" "r1 \<le> 36524" "c < 3 \<Longrightarrow> r1 < 36524"
    using r unfolding r1_def c_def min_def by auto
  have q: "0 \<le> q" "q \<le> 24" "0 \<le> r2" "r2 < 1461"
    using c unfolding r2_def q_def by auto
  have a: "0 \<le> a" "a \<le> 3" "365 * a \<le> r2" "r2 - 365 * a \<le> 365" "a < 3 \<Longrightarrow> r2 - 365 * a < 365"
    using q unfolding a_def min_def by auto
  have d4: "(y - 1) div 4 = 100 * e + 25 * c + q" using y a by simp
  have d100: "(y - 1) div 100 = 4 * e + c" using y a q by simp
  have d400: "(y - 1) div 400 = e" using y a q c by simp
  have s4: "(y - 1969) div 4 = (y - 1) div 4 - 492"
    using div_mult_self1[of 4 "y - 1969" 492] by simp
  have s100: "(y - 1901) div 100 = (y - 1) div 100 - 19"
    using div_mult_self1[of 100 "y - 1901" 19] by simp
  have s400: "(y - 1601) div 400 = (y - 1) div 400 - 4"
    using div_mult_self1[of 400 "y - 1601" 4] by simp
  have D: "DayFromYear y = n - (r2 - 365 * a)"
    unfolding DayFromYear_def s4 s100 s400 d4 d100 d400 using n y unfolding r2_def r1_def by simp
  have "r2 - 365 * a < year_length y"
  proof (cases "r2 - 365 * a < 365")
    case True
    then show ?thesis using year_length_pos[of y] by linarith
  next
    case False
    then have 3: "a = 3" "r2 = 1460" using a q by linarith+
    have "leap_year y"
    proof (cases "q = 24")
      case True
      then have "c = 3" using 3 c(5) c(2) unfolding r2_def by fastforce
      then have "y = 400 * (e + 1)" using y True 3 by simp
      then show ?thesis unfolding leap_year_def by simp
    next
      case False
      have y4: "y = 4 * (100 * e + 25 * c + q + 1)" using y 3 by simp
      have "y mod 100 = 4 * (q + 1)" 
      proof -
        have "y = 100 * (4 * e + c) + 4 * (q + 1)" using y4 by simp
        then have "y mod 100 = (4 * (q + 1)) mod 100" by (simp only: mod_mult_self4)
        also have "\<dots> = 4 * (q + 1)" using \<open>q \<noteq> 24\<close> q(1,2) by (intro mod_pos_pos_trivial) auto
        finally show ?thesis .
      qed
      then have "\<not> 100 dvd y" using q by (simp add: dvd_eq_mod_eq_0)
      then show ?thesis using y4 unfolding leap_year_def by simp
    qed
    then show ?thesis using 3 by (simp add: year_length_def)
  qed
  then show ?thesis using D a DayFromYear_Suc[of y] unfolding y_def by simp
qed

lemma year_of_day_unique:
  assumes "DayFromYear y \<le> n" "n < DayFromYear (y + 1)"
  shows "year_of_day n = y"
proof (rule ccontr)
  assume "year_of_day n \<noteq> y"
  then consider "y + 1 \<le> year_of_day n" | "year_of_day n + 1 \<le> y" by linarith
  then show False
  proof cases
    case 1
    then show False using DayFromYear_mono[OF 1] year_of_day_bounds[of n] assms by simp
  next
    case 2
    then show False using DayFromYear_mono[OF 2] year_of_day_bounds[of n] assms by simp
  qed
qed


lemma month_cases: "real_date y m d \<Longrightarrow>
    m = 1 \<or> m = 2 \<or> m = 3 \<or> m = 4 \<or> m = 5 \<or> m = 6 \<or> m = 7 \<or> m = 8 \<or> m = 9 \<or> m = 10 \<or> m = 11 \<or> m = 12"
  unfolding real_date_def by presburger

lemma month_of_doy_real:
  assumes "real_date y m d"
  shows "month_of_doy y (days_before y m + d - 1) = m"
  using month_cases[OF assms] assms
  by (elim disjE; cases "leap_year y") (simp_all add: real_date_def month_length_def month_of_doy_def days_before_def)

lemma doy_less:
  assumes "real_date y m d"
  shows "0 \<le> days_before y m + d - 1 \<and> days_before y m + d - 1 < year_length y"
  using month_cases[OF assms] assms
  by (elim disjE; cases "leap_year y") (simp_all add: real_date_def month_length_def days_before_def year_length_def)

lemma real_of_doy:
  assumes "0 \<le> k" "k < year_length y"
  shows "real_date y (month_of_doy y k) (k - days_before y (month_of_doy y k) + 1)"
  using assms
  by (cases "leap_year y") (simp_all add: real_date_def month_length_def month_of_doy_def days_before_def year_length_def)

lemma utc_real: "real_date (getUTCFullYear t) (getUTCMonth t + 1) (getUTCDate t)"
proof -
  define n where "n = t div ms_per_day"
  have "0 \<le> n - DayFromYear (year_of_day n)" "n - DayFromYear (year_of_day n) < year_length (year_of_day n)"
    using year_of_day_bounds[of n] DayFromYear_Suc[of "year_of_day n"] by auto
  from real_of_doy[OF this] show ?thesis
    by (simp add: getUTCFullYear_def getUTCMonth_def getUTCDate_def Let_def n_def)
qed

lemma utc_of_Date_UTC:
  assumes "real_date y m d" "y < 0 \<or> 99 < y"
  shows "getUTCFullYear (Date_UTC y (m - 1) d) = y" "getUTCMonth (Date_UTC y (m - 1) d) = m - 1"
    "getUTCDate (Date_UTC y (m - 1) d) = d"
proof -
  have m: "(m - 1) div 12 = 0" "(m - 1) mod 12 + 1 = m"
    using assms(1) by (auto simp: real_date_def div_pos_pos_trivial mod_pos_pos_trivial)
  define k where "k = days_before y m + d - 1"
  have n: "Date_UTC y (m - 1) d div ms_per_day = DayFromYear y + k"
    using assms(2) m by (auto simp: Date_UTC_def Let_def k_def)
  have y: "year_of_day (DayFromYear y + k) = y"
    using doy_less[OF assms(1)] DayFromYear_Suc[of y] by (intro year_of_day_unique) (simp_all add: k_def)
  have mk: "month_of_doy y k = m" using month_of_doy_real[OF assms(1)] by (simp add: k_def)
  show "getUTCFullYear (Date_UTC y (m - 1) d) = y" "getUTCMonth (Date_UTC y (m - 1) d) = m - 1"
    "getUTCDate (Date_UTC y (m - 1) d) = d"
    unfolding getUTCFullYear_def getUTCMonth_def getUTCDate_def Let_def n y
    by (simp_all add: mk) (simp add: k_def)
qed

lemma utc_of_Date_UTC_legacy:
  "0 \<le> y \<Longrightarrow> y \<le> 99 \<Longrightarrow> Date_UTC y m d = Date_UTC (1900 + y) m d"
  by (simp add: Date_UTC_def)

section \<open>\<open>kyc/age.ts\<close>\<close>

datatype AgeError = DobNotString | DobBadForm | DobNoSuchDay | InvalidInstant | FutureDob | AgeOver150

record CalendarDate =
  year :: int
  month :: int
  day :: int

definition ISO_DATE :: "string \<Rightarrow> bool" where
  "ISO_DATE s = (length s = 10 \<and> list_all is_digit (take 4 s) \<and> s ! 4 = CHR ''-''
     \<and> list_all is_digit (take 2 (drop 5 s)) \<and> s ! 7 = CHR ''-'' \<and> list_all is_digit (drop 8 s))"

definition parseCalendarDate :: "jsval \<Rightarrow> AgeError + CalendarDate" where
  "parseCalendarDate v = (case v of JString s \<Rightarrow>
       if \<not> ISO_DATE s then Inl DobBadForm
       else (let y = int (undec (take 4 s)); m = int (undec (take 2 (drop 5 s))); d = int (undec (drop 8 s));
                 roundTrip = Date_UTC y (m - 1) d in
         if getUTCFullYear roundTrip \<noteq> y \<or> getUTCMonth roundTrip \<noteq> m - 1 \<or> getUTCDate roundTrip \<noteq> d
         then Inl DobNoSuchDay
         else Inr \<lparr> year = y, month = m, day = d \<rparr>)
     | _ \<Rightarrow> Inl DobNotString)"

definition ageAtUtc :: "jsval \<Rightarrow> int option \<Rightarrow> AgeError + int" where
  "ageAtUtc dobIso at = (case at of None \<Rightarrow> Inl InvalidInstant
     | Some t \<Rightarrow> ebind (parseCalendarDate dobIso) (\<lambda>dob.
         let age0 = getUTCFullYear t - year dob;
             atMonth = getUTCMonth t + 1;
             atDay = getUTCDate t;
             beforeBirthday = (atMonth < month dob \<or> (atMonth = month dob \<and> atDay < day dob));
             age = (if beforeBirthday then age0 - 1 else age0) in
         if age < 0 then Inl FutureDob
         else if age > 150 then Inl AgeOver150
         else Inr age))"

definition deriveAgeClaims :: "jsval \<Rightarrow> int option \<Rightarrow> AgeError + (bool \<times> bool)" where
  "deriveAgeClaims dobIso at = ebind (ageAtUtc dobIso at) (\<lambda>age. Inr (age \<ge> 18, age \<ge> 21))"

text \<open>The date a text spells, in the form \<open>YYYY-MM-DD\<close>, where it names a day of the calendar.\<close>

definition spells :: "string \<Rightarrow> CalendarDate \<Rightarrow> bool" where
  "spells s c = (ISO_DATE s \<and> year c = int (undec (take 4 s)) \<and> month c = int (undec (take 2 (drop 5 s)))
     \<and> day c = int (undec (drop 8 s)) \<and> real_date (year c) (month c) (day c))"

lemma parseCalendarDate_Inr:
  "parseCalendarDate v = Inr c \<longleftrightarrow> (\<exists>s. v = JString s \<and> spells s c \<and> 100 \<le> year c)"
proof (cases v)
  case (JString s)
  define y where "y = int (undec (take 4 s))"
  define m where "m = int (undec (take 2 (drop 5 s)))"
  define d where "d = int (undec (drop 8 s))"
  have pos: "0 \<le> y" by (simp add: y_def)
  have "(getUTCFullYear (Date_UTC y (m - 1) d) = y \<and> getUTCMonth (Date_UTC y (m - 1) d) = m - 1
      \<and> getUTCDate (Date_UTC y (m - 1) d) = d) \<longleftrightarrow> real_date y m d \<and> 100 \<le> y" (is "?L \<longleftrightarrow> ?R")
  proof
    assume L: ?L
    then have r: "real_date y m d" using utc_real[of "Date_UTC y (m - 1) d"] by simp
    have "\<not> y \<le> 99"
    proof
      assume y: "y \<le> 99"
      have "real_date (1900 + y) m d \<or> \<not> real_date (1900 + y) m d" by blast
      then show False
      proof
        assume "real_date (1900 + y) m d"
        then show False using utc_of_Date_UTC(1)[of "1900 + y" m d] L pos
          by (simp add: utc_of_Date_UTC_legacy[OF pos y])
      next
        assume n: "\<not> real_date (1900 + y) m d"
        have m2: "m = 2" "d = 29" using n r by (auto simp: real_date_def month_length_def split: if_splits)
        have "real_date (1900 + y) 3 1" by (simp add: real_date_def month_length_def)
        moreover have "Date_UTC (1900 + y) (m - 1) d = Date_UTC (1900 + y) (3 - 1) 1"
          using n pos y unfolding m2
          by (simp add: Date_UTC_def days_before_def real_date_def month_length_def Let_def split: if_splits)
        ultimately show False using utc_of_Date_UTC(1)[of "1900 + y" 3 1] L pos
          by (simp add: utc_of_Date_UTC_legacy[OF pos y])
      qed
    qed
    then show ?R using r by simp
  next
    assume ?R
    then show ?L using utc_of_Date_UTC[of y m d] by simp
  qed
  then show ?thesis
    unfolding parseCalendarDate_def JString spells_def
    by (auto simp: Let_def y_def[symmetric] m_def[symmetric] d_def[symmetric] res_simps)
qed (auto simp: parseCalendarDate_def)


text \<open>The order of calendar days, and the day of an instant.\<close>

definition not_after :: "int \<times> int \<times> int \<Rightarrow> int \<times> int \<times> int \<Rightarrow> bool" where
  "not_after a b = (case (a, b) of ((y, m, d), (y', m', d')) \<Rightarrow>
     y < y' \<or> (y = y' \<and> (m < m' \<or> (m = m' \<and> d \<le> d'))))"

definition utc_day :: "int \<Rightarrow> int \<times> int \<times> int" where
  "utc_day t = (getUTCFullYear t, getUTCMonth t + 1, getUTCDate t)"

text \<open>The anniversary of a birth, as the pair comparison of \<open>ageAtUtc\<close> treats it.\<close>

definition anniversary :: "CalendarDate \<Rightarrow> int \<Rightarrow> int \<times> int \<times> int" where
  "anniversary c k = (year c + k, month c, day c)"

definition years_between :: "CalendarDate \<Rightarrow> int \<Rightarrow> int" where
  "years_between c t = (if getUTCMonth t + 1 < month c \<or> (getUTCMonth t + 1 = month c \<and> getUTCDate t < day c)
     then getUTCFullYear t - year c - 1 else getUTCFullYear t - year c)"

lemma years_between_bracket: "not_after (anniversary c k) (utc_day t) \<longleftrightarrow> k \<le> years_between c t"
  by (auto simp: not_after_def anniversary_def utc_day_def years_between_def split: if_splits)

lemma ageAtUtc_Inr:
  "ageAtUtc v (Some t) = Inr a \<longleftrightarrow>
     (\<exists>c. parseCalendarDate v = Inr c \<and> a = years_between c t \<and> 0 \<le> a \<and> a \<le> 150)"
proof (cases "parseCalendarDate v")
  case (Inl e)
  then show ?thesis by (simp add: ageAtUtc_def)
next
  case (Inr c)
  have "ageAtUtc v (Some t) = (if years_between c t < 0 then Inl FutureDob
      else if years_between c t > 150 then Inl AgeOver150 else Inr (years_between c t))"
    unfolding ageAtUtc_def years_between_def Inr option.case ebind.simps Let_def
    by (simp only: diff_diff_eq)
  then show ?thesis using Inr by auto
qed

text \<open>
  C10. \<open>ageAtUtc\<close> computes completed years: it returns \<open>a\<close> exactly when the text spells a
  day of the calendar (from the year 100 on), \<open>a\<close> lies between 0 and 150, the \<open>a\<close>-th
  anniversary has been reached on the UTC day of the instant, and the next one has not. A
  29 February counts as reached on 1 March of a common year.
\<close>

theorem ageAtUtc_completed_years:
  "ageAtUtc v (Some t) = Inr a \<longleftrightarrow>
     0 \<le> a \<and> a \<le> 150 \<and> (\<exists>s c. v = JString s \<and> spells s c \<and> 100 \<le> year c
       \<and> not_after (anniversary c a) (utc_day t) \<and> \<not> not_after (anniversary c (a + 1)) (utc_day t))"
  unfolding ageAtUtc_Inr parseCalendarDate_Inr years_between_bracket by fastforce

text \<open>Time only goes on in the calendar.\<close>

lemma not_after_trans: "not_after a b \<Longrightarrow> not_after b c \<Longrightarrow> not_after a c"
  by (auto simp: not_after_def split: prod.splits)

lemma year_of_day_mono: "n \<le> n' \<Longrightarrow> year_of_day n \<le> year_of_day n'"
proof (rule ccontr)
  assume "n \<le> n'" "\<not> year_of_day n \<le> year_of_day n'"
  then show False
    using year_of_day_bounds[of n] year_of_day_bounds[of n'] DayFromYear_mono[of "year_of_day n' + 1" "year_of_day n"] by simp
qed

lemma doy_mono:
  assumes "k \<le> k'"
  shows "month_of_doy y k < month_of_doy y k' \<or> month_of_doy y k = month_of_doy y k'
    \<and> k - days_before y (month_of_doy y k) \<le> k' - days_before y (month_of_doy y k')"
proof (cases "month_of_doy y k = month_of_doy y k'")
  case False
  moreover have "month_of_doy y k \<le> month_of_doy y k'"
    using assms by (simp add: month_of_doy_def days_before_def)
  ultimately show ?thesis by simp
qed (use assms in simp)

lemma utc_day_mono:
  assumes "t \<le> t'"
  shows "not_after (utc_day t) (utc_day t')"
proof -
  define n n' where "n = t div ms_per_day" and "n' = t' div ms_per_day"
  have n: "n \<le> n'" using assms by (simp add: n_def n'_def zdiv_mono1)
  have day: "utc_day t = (year_of_day n, month_of_doy (year_of_day n) (n - DayFromYear (year_of_day n)),
      n - DayFromYear (year_of_day n) - days_before (year_of_day n) (month_of_doy (year_of_day n) (n - DayFromYear (year_of_day n))) + 1)"
    "utc_day t' = (year_of_day n', month_of_doy (year_of_day n') (n' - DayFromYear (year_of_day n')),
      n' - DayFromYear (year_of_day n') - days_before (year_of_day n') (month_of_doy (year_of_day n') (n' - DayFromYear (year_of_day n'))) + 1)"
    by (simp_all add: utc_day_def getUTCFullYear_def getUTCMonth_def getUTCDate_def Let_def n_def n'_def)
  show ?thesis
  proof (cases "year_of_day n = year_of_day n'")
    case True
    then show ?thesis using doy_mono[of "n - DayFromYear (year_of_day n')" "n' - DayFromYear (year_of_day n')" "year_of_day n'"] n
      unfolding day by (auto simp: not_after_def)
  next
    case False
    then show ?thesis using year_of_day_mono[OF n] unfolding day by (simp add: not_after_def)
  qed
qed

lemma years_between_mono: "t \<le> t' \<Longrightarrow> years_between c t \<le> years_between c t'"
  using years_between_bracket[of c "years_between c t"] not_after_trans utc_day_mono by blast

lemma ageAtUtc_None [simp]: "ageAtUtc v None = Inl InvalidInstant"
  by (simp add: ageAtUtc_def)

lemma ageAtUtc_reached:
  assumes "ageAtUtc v (Some t) = Inr a"
  obtains s c where "v = JString s" "spells s c" "0 \<le> a" "a \<le> 150"
    "\<And>k. not_after (anniversary c k) (utc_day t) \<longleftrightarrow> k \<le> a"
proof -
  obtain c where c: "parseCalendarDate v = Inr c" "a = years_between c t" "0 \<le> a" "a \<le> 150"
    using assms unfolding ageAtUtc_Inr by blast
  then obtain s where "v = JString s" "spells s c" by (auto simp: parseCalendarDate_Inr)
  then show ?thesis using that c(2-4) years_between_bracket by blast
qed

lemma deriveAgeClaims_thresholds:
  assumes "deriveAgeClaims v at = Inr (o18, o21)"
  obtains s c t where "at = Some t" "v = JString s" "spells s c"
    "o18 \<longleftrightarrow> not_after (anniversary c 18) (utc_day t)" "o21 \<longleftrightarrow> not_after (anniversary c 21) (utc_day t)"
proof -
  obtain a where a: "ageAtUtc v at = Inr a" "o18 \<longleftrightarrow> 18 \<le> a" "o21 \<longleftrightarrow> 21 \<le> a"
    using assms by (auto simp: deriveAgeClaims_def res_simps)
  then obtain t where t: "at = Some t" by (cases at) auto
  obtain s c where "v = JString s" "spells s c" and k: "\<And>k. not_after (anniversary c k) (utc_day t) \<longleftrightarrow> k \<le> a"
    using ageAtUtc_reached[OF a(1)[unfolded t]] by metis
  then show ?thesis using that[OF t, of s c] a(2,3) by blast
qed

lemma deriveAgeClaims_monotone: "deriveAgeClaims v at = Inr (o18, o21) \<Longrightarrow> o21 \<Longrightarrow> o18"
  by (auto simp: deriveAgeClaims_def res_simps)

lemma leapling_example:
  "ageAtUtc (JString ''2004-02-29'') (Some (Date_UTC 2021 1 28)) = Inr 16
   \<and> ageAtUtc (JString ''2004-02-29'') (Some (Date_UTC 2021 2 1)) = Inr 17"
  by code_simp

end
