(* ===== verification/KycClaims.thy ===== *)
theory KycClaims
imports Age Schema
begin

unbundle bit_operations_syntax

text \<open>
  The derivation of the six booleans from a provider's verdict (\<open>kyc/provider.ts\<close>,
  \<open>kyc/claims.ts\<close>) and their projection onto the on-chain bitmap (\<open>chain/constants.ts\<close>).
  The optional fields of a status are dynamic values: a provider's payload may hold
  anything there, and the code reads them with \<open>===\<close> and \<open>typeof\<close>.
\<close>

section \<open>Statuses and claim sets\<close>

record KycStatus =
  ks_provider :: string
  ks_providerRefId :: string
  ks_answer :: string
  ks_dateOfBirth :: jsval
  ks_residenceCountry :: jsval
  ks_sanctionsHit :: jsval
  ks_pepHit :: jsval
  ks_livenessPassed :: jsval

record ClaimSet =
  cs_over18 :: bool
  cs_over21 :: bool
  cs_notSanctioned :: bool
  cs_notPep :: bool
  cs_jurisdictionOk :: bool
  cs_livenessOk :: bool

datatype ClaimDerivationError = NonObjectStatus | NotApproved string | FromAge AgeError

section \<open>\<open>deriveClaimSet\<close>\<close>

definition is_upper :: "char \<Rightarrow> bool" where
  "is_upper c = (65 \<le> (of_char c :: nat) \<and> (of_char c :: nat) \<le> 90)"

definition jurisdictionAllowed :: "jsval \<Rightarrow> bool" where
  "jurisdictionAllowed country = (case country of
     JString s \<Rightarrow> (if \<not> (length s = 2 \<and> list_all is_upper s) then False
                   else s \<in> set ISSUER_JURISDICTION_POLICY)
   | _ \<Rightarrow> False)"

text \<open>The status is \<open>None\<close> where the caller passes something that is not an object.\<close>

definition deriveClaimSet :: "KycStatus option \<Rightarrow> int option \<Rightarrow> ClaimDerivationError + ClaimSet" where
  "deriveClaimSet status at = (case status of None \<Rightarrow> Inl NonObjectStatus
     | Some st \<Rightarrow>
       if ks_answer st \<noteq> ''approved'' then Inl (NotApproved (ks_answer st))
       else ebind (map_err FromAge (deriveAgeClaims (ks_dateOfBirth st) at)) (\<lambda>(o18, o21). Inr
         \<lparr> cs_over18 = o18,
           cs_over21 = o21,
           cs_notSanctioned = (ks_sanctionsHit st = JBool False),
           cs_notPep = (ks_pepHit st = JBool False),
           cs_jurisdictionOk = jurisdictionAllowed (ks_residenceCountry st),
           cs_livenessOk = (ks_livenessPassed st = JBool True) \<rparr>))"

section \<open>The on-chain bitmap\<close>

definition CLAIM_OVER_18 :: "32 word" where "CLAIM_OVER_18 = push_bit 0 1"
definition CLAIM_OVER_21 :: "32 word" where "CLAIM_OVER_21 = push_bit 1 1"
definition CLAIM_NOT_SANCTIONED :: "32 word" where "CLAIM_NOT_SANCTIONED = push_bit 2 1"
definition CLAIM_JURISDICTION_OK :: "32 word" where "CLAIM_JURISDICTION_OK = push_bit 3 1"

definition BOOLEAN_CLAIM_NAMES :: "claim_name list" where
  "BOOLEAN_CLAIM_NAMES = [Over18, Over21, NotSanctioned, NotPep, JurisdictionOk, LivenessOk]"

fun CLAIM_BIT_BY_NAME :: "claim_name \<Rightarrow> 32 word option" where
  "CLAIM_BIT_BY_NAME Over18 = Some CLAIM_OVER_18"
| "CLAIM_BIT_BY_NAME Over21 = Some CLAIM_OVER_21"
| "CLAIM_BIT_BY_NAME NotSanctioned = Some CLAIM_NOT_SANCTIONED"
| "CLAIM_BIT_BY_NAME JurisdictionOk = Some CLAIM_JURISDICTION_OK"
| "CLAIM_BIT_BY_NAME _ = None"

definition CLAIMS_WITHOUT_CHAIN_BITS :: "claim_name list" where
  "CLAIMS_WITHOUT_CHAIN_BITS = [NotPep, LivenessOk]"

text \<open>The read \<open>claims[name]\<close>.\<close>

fun claim_of :: "ClaimSet \<Rightarrow> claim_name \<Rightarrow> bool" where
  "claim_of cs Over18 = cs_over18 cs"
| "claim_of cs Over21 = cs_over21 cs"
| "claim_of cs NotSanctioned = cs_notSanctioned cs"
| "claim_of cs NotPep = cs_notPep cs"
| "claim_of cs JurisdictionOk = cs_jurisdictionOk cs"
| "claim_of cs LivenessOk = cs_livenessOk cs"
| "claim_of cs _ = False"

definition claimBitmap :: "ClaimSet \<Rightarrow> 32 word" where
  "claimBitmap cs = foldl (\<lambda>bitmap name. case CLAIM_BIT_BY_NAME name of
       None \<Rightarrow> bitmap
     | Some b \<Rightarrow> (if claim_of cs name then bitmap OR b else bitmap)) 0 BOOLEAN_CLAIM_NAMES"

lemma bit_names_split:
  "set CLAIMS_WITHOUT_CHAIN_BITS = {n \<in> set BOOLEAN_CLAIM_NAMES. CLAIM_BIT_BY_NAME n = None}"
  by (auto simp: CLAIMS_WITHOUT_CHAIN_BITS_def BOOLEAN_CLAIM_NAMES_def)

lemma bit_claim_bits [simp]:
  "bit CLAIM_OVER_18 n \<longleftrightarrow> n = 0" "bit CLAIM_OVER_21 n \<longleftrightarrow> n = 1"
  "bit CLAIM_NOT_SANCTIONED n \<longleftrightarrow> n = 2" "bit CLAIM_JURISDICTION_OK n \<longleftrightarrow> n = 3"
  by (simp_all only: CLAIM_OVER_18_def CLAIM_OVER_21_def CLAIM_NOT_SANCTIONED_def CLAIM_JURISDICTION_OK_def
      bit_push_bit_iff bit_1_iff) auto

lemma claimBitmap_bits:
  "bit (claimBitmap cs) n \<longleftrightarrow> (n = 0 \<and> cs_over18 cs) \<or> (n = 1 \<and> cs_over21 cs)
     \<or> (n = 2 \<and> cs_notSanctioned cs) \<or> (n = 3 \<and> cs_jurisdictionOk cs)"
  by (auto simp: claimBitmap_def BOOLEAN_CLAIM_NAMES_def bit_or_iff)

lemma claimBitmap_zero: "claimBitmap cs = 0 \<longleftrightarrow>
    \<not> (cs_over18 cs \<or> cs_over21 cs \<or> cs_notSanctioned cs \<or> cs_jurisdictionOk cs)"
proof -
  have "claimBitmap cs = 0 \<longleftrightarrow> (\<forall>n. \<not> bit (claimBitmap cs) n)"
    by (auto intro: bit_eqI)
  then show ?thesis unfolding claimBitmap_bits by blast
qed

lemma claimBitmap_unat: "unat (claimBitmap a) = of_bool (cs_over18 a) + 2 * of_bool (cs_over21 a)
    + 4 * of_bool (cs_notSanctioned a) + 8 * of_bool (cs_jurisdictionOk a)"
  unfolding claimBitmap_def BOOLEAN_CLAIM_NAMES_def CLAIM_OVER_18_def CLAIM_OVER_21_def
    CLAIM_NOT_SANCTIONED_def CLAIM_JURISDICTION_OK_def
  by (cases "cs_over18 a"; cases "cs_over21 a"; cases "cs_notSanctioned a"; cases "cs_jurisdictionOk a")
    (simp_all add: CLAIM_OVER_18_def CLAIM_OVER_21_def CLAIM_NOT_SANCTIONED_def CLAIM_JURISDICTION_OK_def)

lemma jurisdictionAllowed_policy: "jurisdictionAllowed v \<longleftrightarrow> v \<in> JString ` set ISSUER_JURISDICTION_POLICY"
proof -
  have "list_all (\<lambda>s. length s = 2 \<and> list_all is_upper s) ISSUER_JURISDICTION_POLICY" by code_simp
  then show ?thesis by (cases v) (auto simp: jurisdictionAllowed_def list_all_iff[of _ ISSUER_JURISDICTION_POLICY])
qed

lemma deriveClaimSet_Inr:
  "deriveClaimSet (Some st) (Some t) = Inr cs \<longleftrightarrow> ks_answer st = ''approved''
     \<and> (\<exists>c. parseCalendarDate (ks_dateOfBirth st) = Inr c \<and> 0 \<le> years_between c t \<and> years_between c t \<le> 150
        \<and> cs = \<lparr> cs_over18 = (18 \<le> years_between c t), cs_over21 = (21 \<le> years_between c t),
             cs_notSanctioned = (ks_sanctionsHit st = JBool False), cs_notPep = (ks_pepHit st = JBool False),
             cs_jurisdictionOk = jurisdictionAllowed (ks_residenceCountry st), cs_livenessOk = (ks_livenessPassed st = JBool True) \<rparr>)"
  by (auto simp: deriveClaimSet_def deriveAgeClaims_def res_simps ageAtUtc_Inr)

text \<open>
  C11. Time only adds to what an applicant's status proves. A status that yields claims yields claims
  at every later instant, until the holder's 151st anniversary (refused as an impossible age), and no bit of the
  on-chain bitmap and no boolean is ever lost; the bits are those of a calendar and of the policy:
  bit 0 and bit 1 from the 18th and the 21st anniversary of the date of birth on, bit 2 and bit 3 at
  all times or never, by a literal \<open>false\<close> of the sanctions screening and by a residence in the
  published list of countries.
\<close>

theorem claims_grow_with_time:
  assumes "deriveClaimSet (Some st) (Some t) = Inr cs" "t \<le> t'"
  shows "\<exists>s c. ks_dateOfBirth st = JString s \<and> spells s c \<and>
    (if not_after (anniversary c 151) (utc_day t') then deriveClaimSet (Some st) (Some t') = Inl (FromAge AgeOver150)
     else \<exists>cs'. deriveClaimSet (Some st) (Some t') = Inr cs'
       \<and> claimBitmap cs AND claimBitmap cs' = claimBitmap cs
       \<and> (bit (claimBitmap cs') 0 \<longleftrightarrow> not_after (anniversary c 18) (utc_day t'))
       \<and> (bit (claimBitmap cs') 1 \<longleftrightarrow> not_after (anniversary c 21) (utc_day t'))
       \<and> (bit (claimBitmap cs') 2 \<longleftrightarrow> ks_sanctionsHit st = JBool False)
       \<and> (bit (claimBitmap cs') 3 \<longleftrightarrow> (\<exists>a\<in>set ISSUER_JURISDICTION_POLICY. ks_residenceCountry st = JString a))
       \<and> cs_notPep cs' = cs_notPep cs \<and> cs_livenessOk cs' = cs_livenessOk cs)"
proof -
  obtain c where c: "parseCalendarDate (ks_dateOfBirth st) = Inr c" "0 \<le> years_between c t" and approved: "ks_answer st = ''approved''"
    using assms(1) unfolding deriveClaimSet_Inr by blast
  obtain s where s: "ks_dateOfBirth st = JString s" "spells s c" using c(1) unfolding parseCalendarDate_Inr by blast
  have grow: "years_between c t \<le> years_between c t'" by (rule years_between_mono[OF assms(2)])
  show ?thesis
  proof (cases "151 \<le> years_between c t'")
    case True
    then have "deriveClaimSet (Some st) (Some t') = Inl (FromAge AgeOver150)"
      using c approved by (auto simp: deriveClaimSet_def deriveAgeClaims_def ageAtUtc_def years_between_def Let_def)
    then show ?thesis using s True by (auto simp: years_between_bracket)
  next
    case False
    then obtain cs' where cs': "deriveClaimSet (Some st) (Some t') = Inr cs'" "cs_over18 cs' = (18 \<le> years_between c t')" 
      "cs_over21 cs' = (21 \<le> years_between c t')" "cs_notSanctioned cs' = (ks_sanctionsHit st = JBool False)"
      "cs_jurisdictionOk cs' = jurisdictionAllowed (ks_residenceCountry st)" "cs_notPep cs' = (ks_pepHit st = JBool False)"
      "cs_livenessOk cs' = (ks_livenessPassed st = JBool True)"
      using c(1,2) grow approved unfolding deriveClaimSet_Inr by fastforce
    have cs: "cs_over18 cs = (18 \<le> years_between c t)" "cs_over21 cs = (21 \<le> years_between c t)" 
      "cs_notSanctioned cs = (ks_sanctionsHit st = JBool False)" "cs_jurisdictionOk cs = jurisdictionAllowed (ks_residenceCountry st)"
      "cs_notPep cs = (ks_pepHit st = JBool False)" "cs_livenessOk cs = (ks_livenessPassed st = JBool True)"
      using assms(1) c(1) unfolding deriveClaimSet_Inr by auto
    have "claimBitmap cs AND claimBitmap cs' = claimBitmap cs"
      by (rule bit_eqI) (use grow in \<open>auto simp: bit_and_iff claimBitmap_bits cs cs'(2-)\<close>)
    then show ?thesis using s False cs' cs
      by (auto simp: years_between_bracket claimBitmap_bits jurisdictionAllowed_policy)
  qed
qed

definition leapling_status :: KycStatus where
  "leapling_status = \<lparr> ks_provider = ''mock'', ks_providerRefId = ''r1'', ks_answer = ''approved'', ks_dateOfBirth = JString ''2004-02-29'',
     ks_residenceCountry = JString ''DE'', ks_sanctionsHit = JBool False, ks_pepHit = JBool False, ks_livenessPassed = JBool True \<rparr>"

theorem claims_grow_with_time_witness:
  "\<exists>c cs'. spells ''2004-02-29'' c \<and> \<not> not_after (anniversary c 18) (utc_day (Date_UTC 2022 1 28))
     \<and> deriveClaimSet (Some leapling_status) (Some (Date_UTC 2022 2 1)) = Inr cs' \<and> bit (claimBitmap cs') 0 \<and> bit (claimBitmap cs') 2"
proof -
  define cs where "cs = \<lparr> cs_over18 = False, cs_over21 = False, cs_notSanctioned = True, cs_notPep = True,
     cs_jurisdictionOk = True, cs_livenessOk = True \<rparr>"
  have cs: "deriveClaimSet (Some leapling_status) (Some (Date_UTC 2022 1 28)) = Inr cs" unfolding cs_def by code_simp
  have "Date_UTC 2022 1 28 \<le> Date_UTC 2022 2 1" by code_simp
  from claims_grow_with_time[OF cs this]
  obtain s c where "s = ''2004-02-29''" "spells s c" 
    and r: "if not_after (anniversary c 151) (utc_day (Date_UTC 2022 2 1)) then deriveClaimSet (Some leapling_status) (Some (Date_UTC 2022 2 1)) = Inl (FromAge AgeOver150)
     else \<exists>cs'. deriveClaimSet (Some leapling_status) (Some (Date_UTC 2022 2 1)) = Inr cs'
       \<and> claimBitmap cs AND claimBitmap cs' = claimBitmap cs
       \<and> (bit (claimBitmap cs') 0 \<longleftrightarrow> not_after (anniversary c 18) (utc_day (Date_UTC 2022 2 1)))
       \<and> (bit (claimBitmap cs') 1 \<longleftrightarrow> not_after (anniversary c 21) (utc_day (Date_UTC 2022 2 1)))
       \<and> (bit (claimBitmap cs') 2 \<longleftrightarrow> ks_sanctionsHit leapling_status = JBool False)
       \<and> (bit (claimBitmap cs') 3 \<longleftrightarrow> (\<exists>a\<in>set ISSUER_JURISDICTION_POLICY. ks_residenceCountry leapling_status = JString a))
       \<and> cs_notPep cs' = cs_notPep cs \<and> cs_livenessOk cs' = cs_livenessOk cs"
    by (auto simp: leapling_status_def)
  then have spelt: "spells ''2004-02-29'' c" by simp
  have "int (undec (take 4 ''2004-02-29'')) = 2004" "int (undec (take 2 (drop 5 ''2004-02-29''))) = 2" "int (undec (drop 8 ''2004-02-29'')) = 29"
    by code_simp+
  then have c: "year c = 2004" "month c = 2" "day c = 29" using spelt unfolding spells_def by presburger+
  have "utc_day (Date_UTC 2022 1 28) = (2022, 2, 28)" "utc_day (Date_UTC 2022 2 1) = (2022, 3, 1)" by code_simp+
  then show ?thesis using r c spelt by (auto simp: anniversary_def not_after_def leapling_status_def)
qed

text \<open>
  The bitmap carries exactly four of the six booleans: two claim sets have the same
  bitmap exactly when they agree on the age pair, on sanctions and on the jurisdiction,
  bit by bit at the positions of the contract, and it is 0 (which \<open>kyc-gate\<close> refuses) exactly
  when all four are false; \<open>notPep\<close> and \<open>livenessOk\<close> leave no trace.
\<close>

theorem claimBitmap_projection:
  "(claimBitmap a = claimBitmap b \<longleftrightarrow> cs_over18 a = cs_over18 b \<and> cs_over21 a = cs_over21 b
      \<and> cs_notSanctioned a = cs_notSanctioned b \<and> cs_jurisdictionOk a = cs_jurisdictionOk b)
   \<and> (claimBitmap a = 0 \<longleftrightarrow>
      \<not> (cs_over18 a \<or> cs_over21 a \<or> cs_notSanctioned a \<or> cs_jurisdictionOk a))
   \<and> unat (claimBitmap a) = of_bool (cs_over18 a) + 2 * of_bool (cs_over21 a)
       + 4 * of_bool (cs_notSanctioned a) + 8 * of_bool (cs_jurisdictionOk a)"
proof -
  have "claimBitmap a = claimBitmap b \<longleftrightarrow> cs_over18 a = cs_over18 b \<and> cs_over21 a = cs_over21 b
      \<and> cs_notSanctioned a = cs_notSanctioned b \<and> cs_jurisdictionOk a = cs_jurisdictionOk b" (is "?L \<longleftrightarrow> ?R")
  proof
    assume ?L
    then have "bit (claimBitmap a) n \<longleftrightarrow> bit (claimBitmap b) n" for n by simp
    from this[of 0] this[of 1] this[of 2] this[of 3] show ?R by (simp add: claimBitmap_bits)
  next
    assume ?R
    then show ?L by (intro bit_eqI) (simp add: claimBitmap_bits)
  qed
  then show ?thesis by (simp add: claimBitmap_zero claimBitmap_unat)
qed

end
