(* ===== verification/RevocationIndex.thy ===== *)
theory RevocationIndex
imports Interfaces
begin

text \<open>
  Allocation of status-list indexes: the in-memory allocator and the index guard of
  \<open>kyc/revocation-index.ts\<close>, and the durable one of \<open>scripts/onboard/durable.ts\<close>, with the
  file it keeps and the crashes it is built for. Both satisfy the allocator interface.
\<close>

datatype revocation_index_error = BadStart | BadCap | IndexSpaceExhausted | UnusableIndex
  | NotAnAllocatorFile | FileWriteFailed | ProcessRestarted

definition MAX_REVOCATION_INDEX :: nat where
  "MAX_REVOCATION_INDEX = 4294967295"

section \<open>The in-memory allocator\<close>

record InMemoryAllocator =
  im_next :: nat
  im_max :: nat

text \<open>The constructor, with its two options; an absent one is \<open>None\<close>.\<close>

definition InMemoryRevocationIndexAllocator ::
  "jsnum option \<Rightarrow> jsnum option \<Rightarrow> revocation_index_error + InMemoryAllocator" where
  "InMemoryRevocationIndexAllocator startOpt maxOpt =
     (let start = (case startOpt of None \<Rightarrow> JInt 0 | Some x \<Rightarrow> x);
          mx = (case maxOpt of None \<Rightarrow> JInt (int MAX_REVOCATION_INDEX) | Some x \<Rightarrow> x) in
      case start of JInt st \<Rightarrow>
        if st < 0 \<or> st > int MAX_REVOCATION_INDEX then Inl BadStart
        else (case mx of JInt m \<Rightarrow>
          if m < st \<or> m > int MAX_REVOCATION_INDEX then Inl BadCap
          else Inr \<lparr> im_next = nat st, im_max = nat m \<rparr>
        | _ \<Rightarrow> Inl BadCap)
      | _ \<Rightarrow> Inl BadStart)"

definition allocate :: "InMemoryAllocator \<Rightarrow> (revocation_index_error + nat) \<times> InMemoryAllocator" where
  "allocate s = (let val = im_next s in
     if val > im_max s then (Inl IndexSpaceExhausted, s)
     else (Inr val, s\<lparr>im_next := val + 1\<rparr>))"

fun assertUsableRevocationIndex :: "jsnum \<Rightarrow> revocation_index_error + nat" where
  "assertUsableRevocationIndex (JInt i) =
     (if i < 0 \<or> i > int MAX_REVOCATION_INDEX then Inl UnusableIndex else Inr (nat i))"
| "assertUsableRevocationIndex _ = Inl UnusableIndex"

text \<open>An allocation whose result passes the guard, as issuance makes it.\<close>

definition allocate_usable :: "('s \<Rightarrow> (revocation_index_error + nat) \<times> 's) \<Rightarrow> 's \<Rightarrow> (revocation_index_error + nat) \<times> 's" where
  "allocate_usable alloc s = (case alloc s of (r, s') \<Rightarrow> (ebind r (\<lambda>i. assertUsableRevocationIndex (JInt (int i))), s'))"

lemma usable_Inr [simp]: "assertUsableRevocationIndex x = Inr i \<longleftrightarrow> x = JInt (int i) \<and> i \<le> MAX_REVOCATION_INDEX"
  by (cases x) auto

lemma constructed_ok:
  "InMemoryRevocationIndexAllocator st mx = Inr s \<Longrightarrow> im_next s \<le> im_max s \<and> im_max s \<le> MAX_REVOCATION_INDEX"
  by (auto simp: InMemoryRevocationIndexAllocator_def Let_def nat_le_iff split: jsnum.splits if_splits option.splits)

lemma allocate_exhausts: "is_ok (fst (allocate s)) \<longleftrightarrow> im_next s \<le> im_max s"
  by (auto simp: allocate_def Let_def)

interpretation memalloc: index_allocator allocate im_next MAX_REVOCATION_INDEX
  "\<lambda>s. im_max s \<le> MAX_REVOCATION_INDEX"
  by unfold_locales (auto simp: allocate_def Let_def split: if_splits)

section \<open>The durable allocator\<close>

text \<open>
  The state is the counter in memory and the counter in the file, \<open>None\<close> before the file
  exists. \<open>write_ok\<close> says whether the atomic write of the step succeeds; where it fails the
  call rejects and the file is unchanged. The counters are exact below \<open>2 ^ 53\<close>, far above
  every index the guard lets through.
\<close>

record JsonFileAllocator =
  jf_next :: nat
  jf_file :: "nat option"

text \<open>The constructor reads the file: absent, a version-1 file with its counter, or refused.\<close>

definition load_allocator :: "jsval option \<Rightarrow> revocation_index_error + nat" where
  "load_allocator raw = (case raw of None \<Rightarrow> Inr 0
     | Some v \<Rightarrow>
       if jget ''version'' v = JNum (JInt 1) then
         (case jget ''next'' v of JNum (JInt n) \<Rightarrow> if 0 \<le> n then Inr (nat n) else Inl NotAnAllocatorFile
          | _ \<Rightarrow> Inl NotAnAllocatorFile)
       else Inl NotAnAllocatorFile)"

definition allocator_file :: "nat \<Rightarrow> jsval" where
  "allocator_file n = JObject [(''version'', JNum (JInt 1)), (''next'', JNum (JInt (int n)))]"

definition JsonFile_open :: "nat option \<Rightarrow> revocation_index_error + JsonFileAllocator" where
  "JsonFile_open file = ebind (load_allocator (map_option allocator_file file)) (\<lambda>n. Inr \<lparr> jf_next = n, jf_file = file \<rparr>)"

definition JsonFile_allocate :: "bool \<Rightarrow> JsonFileAllocator \<Rightarrow> (revocation_index_error + nat) \<times> JsonFileAllocator" where
  "JsonFile_allocate write_ok s = (let index = jf_next s; s1 = s\<lparr>jf_next := index + 1\<rparr> in
     if write_ok then (Inr index, s1\<lparr>jf_file := Some (jf_next s1)\<rparr>) else (Inl FileWriteFailed, s1))"

lemma load_allocator_file [simp]: "load_allocator (map_option allocator_file f) = Inr (case f of None \<Rightarrow> 0 | Some n \<Rightarrow> n)"
  by (cases f) (auto simp: load_allocator_def allocator_file_def)

text \<open>
  The process as a whole: a schedule of allocations, each with the outcome of its write, and
  of restarts, which read the counter back from the file.
\<close>

datatype alloc_event = Allocate bool | Restart

fun durable_step :: "alloc_event list \<times> JsonFileAllocator \<Rightarrow>
    (revocation_index_error + nat) \<times> (alloc_event list \<times> JsonFileAllocator)" where
  "durable_step (Allocate w # es, s) = (case JsonFile_allocate w s of (r, s') \<Rightarrow> (r, (es, s')))"
| "durable_step (Restart # es, s) = (case JsonFile_open (jf_file s) of
     Inl e \<Rightarrow> (Inl e, (es, s)) | Inr s' \<Rightarrow> (Inl ProcessRestarted, (es, s')))"
| "durable_step ([], s) = (Inl ProcessRestarted, ([], s))"

definition persisted :: "JsonFileAllocator \<Rightarrow> nat" where
  "persisted s = (case jf_file s of None \<Rightarrow> 0 | Some n \<Rightarrow> n)"

text \<open>Every index below the counter of the file may have been used; no other one has.\<close>

interpretation fileralloc: index_allocator "allocate_usable durable_step" "\<lambda>(es, s). persisted s"
  MAX_REVOCATION_INDEX "\<lambda>(es, s). persisted s \<le> jf_next s"
proof unfold_locales
  fix t t' :: "alloc_event list \<times> JsonFileAllocator" and i e
  obtain es s where t: "t = (es, s)" by (cases t)
  have step: "fst (durable_step t) = Inr j \<Longrightarrow> persisted s \<le> jf_next s \<Longrightarrow> (case snd (durable_step t) of (es', s') \<Rightarrow>
      persisted s \<le> j \<and> j < persisted s' \<and> persisted s' \<le> jf_next s')" for j
    unfolding t by (cases "(es, s)" rule: durable_step.cases)
      (auto simp: JsonFile_allocate_def JsonFile_open_def persisted_def Let_def split: if_splits)
  have any: "persisted s \<le> jf_next s \<Longrightarrow> (case snd (durable_step t) of (es', s') \<Rightarrow>
      persisted s \<le> persisted s' \<and> persisted s' \<le> jf_next s')"
    unfolding t by (cases "(es, s)" rule: durable_step.cases)
      (auto simp: JsonFile_allocate_def JsonFile_open_def persisted_def Let_def split: option.splits)
  show "(case t of (es, s) \<Rightarrow> persisted s \<le> jf_next s) \<Longrightarrow> allocate_usable durable_step t = (Inr i, t') \<Longrightarrow>
      (case t of (es, s) \<Rightarrow> persisted s) \<le> i \<and> i < (case t' of (es, s) \<Rightarrow> persisted s) \<and> i \<le> MAX_REVOCATION_INDEX
      \<and> (case t' of (es, s) \<Rightarrow> persisted s \<le> jf_next s)"
    using step[of i] by (auto simp: allocate_usable_def res_simps t split: prod.splits)
  show "(case t of (es, s) \<Rightarrow> persisted s \<le> jf_next s) \<Longrightarrow> allocate_usable durable_step t = (Inl e, t') \<Longrightarrow>
      (case t of (es, s) \<Rightarrow> persisted s) \<le> (case t' of (es, s) \<Rightarrow> persisted s)
      \<and> (case t' of (es, s) \<Rightarrow> persisted s \<le> jf_next s)"
    using any by (auto simp: allocate_usable_def t split: prod.splits)
qed

text \<open>
  The durable allocator never hands out an index twice: over any sequence of allocations,
  of which any may fail to write its file, and of restarts from whatever file is there, the
  indexes that issuance can use are strictly increasing, and fit the 32 bits of the
  attestation.
\<close>

theorem durable_indexes_unique:
  assumes "JsonFile_open file = Inr s"
  shows "sorted (run_alloc (allocate_usable durable_step) n (events, s))
    \<and> distinct (run_alloc (allocate_usable durable_step) n (events, s))
    \<and> (\<forall>i\<in>set (run_alloc (allocate_usable durable_step) n (events, s)). i < 2 ^ 32)"
proof -
  have "persisted s \<le> jf_next s"
    using assms by (auto simp: JsonFile_open_def persisted_def split: option.splits)
  then show ?thesis
    using fileralloc.run_alloc_fresh[of "(events, s)" n] by (auto simp: MAX_REVOCATION_INDEX_def)
qed

theorem durable_indexes_unique_witness:
  "let s = \<lparr> jf_next = 7, jf_file = Some 7 \<rparr>;
       events = [Allocate True, Allocate False, Restart, Allocate True, Allocate True];
       is = run_alloc (allocate_usable durable_step) 5 (events, s) in
   is = [7, 8, 9] \<and> sorted is \<and> distinct is \<and> (\<forall>i\<in>set is. i < 2 ^ 32)"
proof -
  let ?s = "\<lparr> jf_next = 7, jf_file = Some 7 \<rparr>"
  let ?events = "[Allocate True, Allocate False, Restart, Allocate True, Allocate True]"
  have "JsonFile_open (Some 7) = Inr ?s" by (simp add: JsonFile_open_def allocator_file_def load_allocator_def)
  note unique = durable_indexes_unique[OF this, of 5 ?events]
  have "run_alloc (allocate_usable durable_step) (Suc (Suc (Suc (Suc (Suc 0))))) (?events, ?s) = [7, 8, 9]"
    by (simp add: allocate_usable_def JsonFile_allocate_def JsonFile_open_def Let_def MAX_REVOCATION_INDEX_def
        allocator_file_def load_allocator_def)
  moreover have "Suc (Suc (Suc (Suc (Suc 0)))) = 5" by simp
  ultimately have "run_alloc (allocate_usable durable_step) 5 (?events, ?s) = [7, 8, 9]" by (simp only:)
  then show ?thesis
    unfolding Let_def by (intro conjI unique[THEN conjunct1] unique[THEN conjunct2, THEN conjunct1] unique[THEN conjunct2, THEN conjunct2])
qed

end
