(* ===== verification/Issuance.thy ===== *)
theory Issuance
imports KycClaims RevocationIndex Credential
begin

text \<open>
  One issuance, end to end (\<open>kyc/issue.ts\<close>), and the tuple the gateway keeps of it
  (\<open>kyc/record.ts\<close>). The allocator is the interface \<open>RevocationIndexAllocator\<close>: a function on
  its own state, which the result carries as the call leaves it. The salt drawn from the
  random generator is an argument.
\<close>

section \<open>The persisted tuple\<close>

datatype record_field = F_provider | F_providerRefId | F_subjectId | F_walletCAddr | F_claimBitmap
  | F_schemaVersion | F_issuedAt | F_expiresAt | F_revocationIndex | F_issuerId | F_erasedAt

datatype record_error = EmptyField record_field | NotU32 record_field | NotHex32 record_field | NotAfterIssued

definition PERSISTED_COLUMNS :: "string list" where
  "PERSISTED_COLUMNS = [''provider'', ''provider_ref_id'', ''subject_id'', ''wallet_c_addr'', ''claim_bitmap'',
     ''schema_version'', ''issued_at'', ''expires_at'', ''revocation_index'', ''issuer_id'']"

fun RECORD_FIELD_TO_COLUMN :: "record_field \<Rightarrow> string option" where
  "RECORD_FIELD_TO_COLUMN F_provider = Some ''provider''"
| "RECORD_FIELD_TO_COLUMN F_providerRefId = Some ''provider_ref_id''"
| "RECORD_FIELD_TO_COLUMN F_subjectId = Some ''subject_id''"
| "RECORD_FIELD_TO_COLUMN F_walletCAddr = Some ''wallet_c_addr''"
| "RECORD_FIELD_TO_COLUMN F_claimBitmap = Some ''claim_bitmap''"
| "RECORD_FIELD_TO_COLUMN F_schemaVersion = Some ''schema_version''"
| "RECORD_FIELD_TO_COLUMN F_issuedAt = Some ''issued_at''"
| "RECORD_FIELD_TO_COLUMN F_expiresAt = Some ''expires_at''"
| "RECORD_FIELD_TO_COLUMN F_revocationIndex = Some ''revocation_index''"
| "RECORD_FIELD_TO_COLUMN F_issuerId = Some ''issuer_id''"
| "RECORD_FIELD_TO_COLUMN F_erasedAt = None"

record IssuanceRecord =
  ir_provider :: string
  ir_providerRefId :: string
  ir_subjectId :: string
  ir_walletCAddr :: string
  ir_claimBitmap :: jsnum
  ir_schemaVersion :: string
  ir_issuedAt :: jsnum
  ir_expiresAt :: jsnum
  ir_revocationIndex :: jsnum
  ir_issuerId :: string

definition nonEmpty :: "string \<Rightarrow> record_field \<Rightarrow> record_error + string" where
  "nonEmpty v field = (if length v = 0 then Inl (EmptyField field) else Inr v)"

fun u32 :: "jsnum \<Rightarrow> record_field \<Rightarrow> record_error + jsnum" where
  "u32 (JInt i) field = (if i < 0 \<or> i > 4294967295 then Inl (NotU32 field) else Inr (JInt i))"
| "u32 _ field = Inl (NotU32 field)"

definition hex32_field :: "string \<Rightarrow> record_field \<Rightarrow> record_error + string" where
  "hex32_field v field = (if \<not> hex32 v then Inl (NotHex32 field) else Inr v)"

definition buildIssuanceRecord :: "IssuanceRecord \<Rightarrow> record_error + IssuanceRecord" where
  "buildIssuanceRecord a =
     ebind (nonEmpty (ir_provider a) F_provider) (\<lambda>provider.
     ebind (nonEmpty (ir_providerRefId a) F_providerRefId) (\<lambda>providerRefId.
     ebind (nonEmpty (ir_subjectId a) F_subjectId) (\<lambda>subjectId.
     ebind (nonEmpty (ir_walletCAddr a) F_walletCAddr) (\<lambda>walletCAddr.
     ebind (u32 (ir_claimBitmap a) F_claimBitmap) (\<lambda>bm.
     ebind (nonEmpty (ir_schemaVersion a) F_schemaVersion) (\<lambda>schemaVersion.
     ebind (u32 (ir_issuedAt a) F_issuedAt) (\<lambda>issuedAt.
     ebind (u32 (ir_expiresAt a) F_expiresAt) (\<lambda>expiresAt.
     ebind (u32 (ir_revocationIndex a) F_revocationIndex) (\<lambda>revocationIndex.
     ebind (hex32_field (ir_issuerId a) F_issuerId) (\<lambda>issuerId.
     if js_le expiresAt issuedAt then Inl NotAfterIssued
     else Inr \<lparr> ir_provider = provider, ir_providerRefId = providerRefId, ir_subjectId = subjectId,
       ir_walletCAddr = walletCAddr, ir_claimBitmap = bm, ir_schemaVersion = schemaVersion,
       ir_issuedAt = issuedAt, ir_expiresAt = expiresAt, ir_revocationIndex = revocationIndex,
       ir_issuerId = issuerId \<rparr>))))))))))"

text \<open>A row maps column names to values.\<close>

definition toPersistedRow :: "IssuanceRecord \<Rightarrow> (string \<times> jsval) list" where
  "toPersistedRow r = [(''provider'', JString (ir_provider r)), (''provider_ref_id'', JString (ir_providerRefId r)),
     (''subject_id'', JString (ir_subjectId r)), (''wallet_c_addr'', JString (ir_walletCAddr r)),
     (''claim_bitmap'', JNum (ir_claimBitmap r)), (''schema_version'', JString (ir_schemaVersion r)),
     (''issued_at'', JNum (ir_issuedAt r)), (''expires_at'', JNum (ir_expiresAt r)),
     (''revocation_index'', JNum (ir_revocationIndex r)), (''issuer_id'', JString (ir_issuerId r))]"

record ErasedIssuanceRecord =
  er_provider :: string
  er_providerRefId :: string
  er_subjectId :: "string option"
  er_walletCAddr :: "string option"
  er_claimBitmap :: jsnum
  er_schemaVersion :: string
  er_issuedAt :: jsnum
  er_expiresAt :: jsnum
  er_revocationIndex :: jsnum
  er_issuerId :: string
  er_erasedAt :: jsnum

definition eraseSubjectLinkage :: "IssuanceRecord \<Rightarrow> jsnum \<Rightarrow> record_error + ErasedIssuanceRecord" where
  "eraseSubjectLinkage r at = ebind (u32 at F_erasedAt) (\<lambda>erasedAt. Inr
     \<lparr> er_provider = ir_provider r, er_providerRefId = ir_providerRefId r, er_subjectId = None,
       er_walletCAddr = None, er_claimBitmap = ir_claimBitmap r, er_schemaVersion = ir_schemaVersion r,
       er_issuedAt = ir_issuedAt r, er_expiresAt = ir_expiresAt r,
       er_revocationIndex = ir_revocationIndex r, er_issuerId = ir_issuerId r, er_erasedAt = erasedAt \<rparr>)"

lemma toPersistedRow_columns: "map fst (toPersistedRow r) = PERSISTED_COLUMNS"
  by (simp add: toPersistedRow_def PERSISTED_COLUMNS_def)

lemma columns_bij: "RECORD_FIELD_TO_COLUMN ` {f. f \<noteq> F_erasedAt} = Some ` set PERSISTED_COLUMNS"
  unfolding PERSISTED_COLUMNS_def
  by (auto simp: image_iff) (metis RECORD_FIELD_TO_COLUMN.simps record_field.exhaust record_field.distinct)+

lemma u32_Inr [res_simps]: "u32 x f = Inr y \<longleftrightarrow> y = x \<and> (\<exists>i. x = JInt i \<and> 0 \<le> i \<and> i < 2 ^ 32)"
  by (cases x) auto

text \<open>The well-formed tuples, and what the builder accepts.\<close>

definition record_ok :: "IssuanceRecord \<Rightarrow> bool" where
  "record_ok r = (ir_provider r \<noteq> [] \<and> ir_providerRefId r \<noteq> [] \<and> ir_subjectId r \<noteq> [] \<and> ir_walletCAddr r \<noteq> []
     \<and> ir_schemaVersion r \<noteq> [] \<and> hex32 (ir_issuerId r)
     \<and> is_ok (u32 (ir_claimBitmap r) F_claimBitmap) \<and> is_ok (u32 (ir_revocationIndex r) F_revocationIndex)
     \<and> (\<exists>i e. ir_issuedAt r = JInt i \<and> ir_expiresAt r = JInt e \<and> 0 \<le> i \<and> i < e \<and> e < 2 ^ 32))"

lemma buildIssuanceRecord_iff: "buildIssuanceRecord a = Inr r \<longleftrightarrow> r = a \<and> record_ok a"
  by (cases a) (auto simp: buildIssuanceRecord_def record_ok_def nonEmpty_def hex32_field_def is_ok_iff res_simps
      split: if_splits)

section \<open>\<open>issueKycCredential\<close>\<close>

datatype issuance_error = BadIssuedAt | BadExpiresAt | BadSecretKey | ZeroBitmap | BadSaltLength
  | BindingRefused schema_error | IndexRefused revocation_index_error | IssueRefused credential_error
  | RecordRefused record_error

record IssueCredentialRequest =
  rq_claims :: ClaimSet
  rq_walletAddress :: string
  rq_issuedAt :: jsnum
  rq_expiresAt :: jsnum
  rq_issuerSecretKey :: bytes
  rq_issuerPublicKey :: bytes
  rq_provider :: string
  rq_providerRefId :: string
  rq_subjectId :: string
  rq_salt :: "bytes option"

record IssuedCredential =
  ic_credential :: credential
  ic_serialized :: serialized_credential
  ic_salt :: bytes
  ic_record :: IssuanceRecord
  ic_claimBitmap :: "32 word"

text \<open>The claims the credential signs.\<close>

definition issued_claims :: "string \<Rightarrow> nat \<Rightarrow> jsnum \<Rightarrow> jsnum \<Rightarrow> string \<Rightarrow> ClaimSet \<Rightarrow> kyc_claims" where
  "issued_claims issuerId revIndex issuedAt expiresAt subject cs =
     Map.empty(SchemaVersion \<mapsto> VStr SCHEMA_VERSION, IssuerId \<mapsto> VStr issuerId,
       RevocationIndex \<mapsto> VNum (JInt (int revIndex)), IssuedAt \<mapsto> VNum issuedAt, ExpiresAt \<mapsto> VNum expiresAt,
       SubjectBinding \<mapsto> VStr subject, Over18 \<mapsto> VBool (cs_over18 cs), Over21 \<mapsto> VBool (cs_over21 cs),
       NotSanctioned \<mapsto> VBool (cs_notSanctioned cs), NotPep \<mapsto> VBool (cs_notPep cs),
       JurisdictionOk \<mapsto> VBool (cs_jurisdictionOk cs), LivenessOk \<mapsto> VBool (cs_livenessOk cs))"

text \<open>The checks before the allocation: the salt and the subject binding they end in.\<close>

definition validate_request :: "noble \<Rightarrow> bytes \<Rightarrow> IssueCredentialRequest \<Rightarrow> issuance_error + (bytes \<times> string)" where
  "validate_request N fresh q =
     (case rq_issuedAt q of JInt issued \<Rightarrow>
        if issued < 0 then Inl BadIssuedAt
        else (case rq_expiresAt q of JInt expires \<Rightarrow>
          if expires \<le> issued then Inl BadExpiresAt
          else if length (rq_issuerSecretKey q) \<noteq> 32 then Inl BadSecretKey
          else if claimBitmap (rq_claims q) = 0 then Inl ZeroBitmap
          else (let salt = (case rq_salt q of None \<Rightarrow> fresh | Some s \<Rightarrow> s) in
            if length salt \<noteq> SUBJECT_BINDING_SALT_BYTES then Inl BadSaltLength
            else ebind (map_err BindingRefused (computeSubjectBinding N (rq_walletAddress q) salt)) (\<lambda>sb.
              Inr (salt, sb)))
        | _ \<Rightarrow> Inl BadExpiresAt)
      | _ \<Rightarrow> Inl BadIssuedAt)"

text \<open>The steps after it.\<close>

definition issue_with_index ::
  "noble \<Rightarrow> bbs_lib \<Rightarrow> IssueCredentialRequest \<Rightarrow> bytes \<Rightarrow> string \<Rightarrow> nat \<Rightarrow> issuance_error + IssuedCredential" where
  "issue_with_index N B q salt subject revIndex =
     (let issuerId = issuerIdFromPublicKey N (rq_issuerPublicKey q);
          bitmap = claimBitmap (rq_claims q) in
      ebind (map_err IssueRefused (issue N B
          (issued_claims issuerId revIndex (rq_issuedAt q) (rq_expiresAt q) subject (rq_claims q))
          (rq_issuerSecretKey q))) (\<lambda>cred.
      ebind (map_err RecordRefused (buildIssuanceRecord
          \<lparr> ir_provider = rq_provider q, ir_providerRefId = rq_providerRefId q, ir_subjectId = rq_subjectId q,
            ir_walletCAddr = rq_walletAddress q, ir_claimBitmap = JInt (uint bitmap),
            ir_schemaVersion = SCHEMA_VERSION, ir_issuedAt = rq_issuedAt q, ir_expiresAt = rq_expiresAt q,
            ir_revocationIndex = JInt (int revIndex), ir_issuerId = issuerId \<rparr>)) (\<lambda>rcd.
      Inr \<lparr> ic_credential = cred, ic_serialized = serializeCredential N cred, ic_salt = salt,
            ic_record = rcd, ic_claimBitmap = bitmap \<rparr>)))"

definition issueKycCredential ::
  "noble \<Rightarrow> bbs_lib \<Rightarrow> ('s \<Rightarrow> (revocation_index_error + nat) \<times> 's) \<Rightarrow> bytes \<Rightarrow> IssueCredentialRequest \<Rightarrow> 's
     \<Rightarrow> (issuance_error + IssuedCredential) \<times> 's" where
  "issueKycCredential N B alloc fresh q s = (case validate_request N fresh q of
     Inl e \<Rightarrow> (Inl e, s)
   | Inr (salt, subject) \<Rightarrow> (case allocate_usable alloc s of
       (Inl e, s') \<Rightarrow> (Inl (IndexRefused e), s')
     | (Inr revIndex, s') \<Rightarrow> (issue_with_index N B q salt subject revIndex, s')))"


section \<open>Facts\<close>

lemma validate_request_Inr:
  "validate_request N fresh q = Inr (salt, sb) \<longleftrightarrow> (\<exists>i e. rq_issuedAt q = JInt i \<and> rq_expiresAt q = JInt e \<and> 0 \<le> i \<and> i < e
     \<and> length (rq_issuerSecretKey q) = 32 \<and> claimBitmap (rq_claims q) \<noteq> 0
     \<and> salt = (case rq_salt q of None \<Rightarrow> fresh | Some s \<Rightarrow> s) \<and> length salt = 32
     \<and> computeSubjectBinding N (rq_walletAddress q) salt = Inr sb)"
  by (cases "rq_issuedAt q"; cases "rq_expiresAt q")
    (auto simp: validate_request_def Let_def res_simps SUBJECT_BINDING_SALT_BYTES_def)

lemma issue_with_index_Inr:
  "issue_with_index N B q salt sb i = Inr ic \<longleftrightarrow>
     (let iss = issuerIdFromPublicKey N (rq_issuerPublicKey q) in
      issue N B (issued_claims iss i (rq_issuedAt q) (rq_expiresAt q) sb (rq_claims q)) (rq_issuerSecretKey q)
        = Inr (ic_credential ic)
      \<and> ic_serialized ic = serializeCredential N (ic_credential ic) \<and> ic_salt ic = salt
      \<and> ic_claimBitmap ic = claimBitmap (rq_claims q) \<and> record_ok (ic_record ic)
      \<and> ic_record ic = \<lparr> ir_provider = rq_provider q, ir_providerRefId = rq_providerRefId q, ir_subjectId = rq_subjectId q,
            ir_walletCAddr = rq_walletAddress q, ir_claimBitmap = JInt (uint (claimBitmap (rq_claims q))),
            ir_schemaVersion = SCHEMA_VERSION, ir_issuedAt = rq_issuedAt q, ir_expiresAt = rq_expiresAt q,
            ir_revocationIndex = JInt (int i), ir_issuerId = iss \<rparr>)"
  unfolding issue_with_index_def Let_def
  by (cases ic) (auto simp: res_simps buildIssuanceRecord_iff)

lemma allocate_usable_Inr:
  "allocate_usable alloc s = (Inr i, s') \<longleftrightarrow> alloc s = (Inr i, s') \<and> i \<le> MAX_REVOCATION_INDEX"
  by (cases "alloc s") (auto simp: allocate_usable_def res_simps)

lemma issueKycCredential_Inr:
  "issueKycCredential N B alloc fresh q s = (Inr ic, s') \<longleftrightarrow> (\<exists>salt sb i. validate_request N fresh q = Inr (salt, sb)
     \<and> alloc s = (Inr i, s') \<and> i \<le> MAX_REVOCATION_INDEX \<and> issue_with_index N B q salt sb i = Inr ic)"
proof (cases "allocate_usable alloc s")
  case (Pair r t)
  have u: "alloc s = (Inr i, s') \<and> i \<le> MAX_REVOCATION_INDEX \<longleftrightarrow> r = Inr i \<and> t = s'" for i
    using Pair by (simp add: allocate_usable_Inr[symmetric])
  have "issueKycCredential N B alloc fresh q s = (Inr ic, s') \<longleftrightarrow> (\<exists>salt sb i. validate_request N fresh q = Inr (salt, sb)
     \<and> (r = Inr i \<and> t = s') \<and> issue_with_index N B q salt sb i = Inr ic)"
    using Pair by (auto simp: issueKycCredential_def split: sum.splits)
  then show ?thesis unfolding u[symmetric] by blast
qed

text \<open>What a successful issuance promises.\<close>

definition issuance_contract ::
  "noble \<Rightarrow> bytes \<Rightarrow> IssueCredentialRequest \<Rightarrow> nat \<Rightarrow> IssuedCredential \<Rightarrow> bool" where
  "issuance_contract N fresh q i ic =
     (case computeSubjectBinding N (rq_walletAddress q) (ic_salt ic) of
        Inl _ \<Rightarrow> False
      | Inr subject \<Rightarrow>
          i < 2 ^ 32 \<and> length (ic_salt ic) = 32 \<and> ic_salt ic = (case rq_salt q of None \<Rightarrow> fresh | Some s \<Rightarrow> s)
          \<and> claimBitmap (rq_claims q) \<noteq> 0 \<and> ic_claimBitmap ic = claimBitmap (rq_claims q)
          \<and> c_claims (ic_credential ic) = issued_claims (issuerIdFromPublicKey N (c_issuerPublicKey (ic_credential ic))) i
              (rq_issuedAt q) (rq_expiresAt q) subject (rq_claims q)
          \<and> ir_walletCAddr (ic_record ic) = rq_walletAddress q
          \<and> ir_revocationIndex (ic_record ic) = JInt (int i)
          \<and> ir_issuerId (ic_record ic) = issuerIdFromPublicKey N (c_issuerPublicKey (ic_credential ic))
          \<and> ir_claimBitmap (ic_record ic) = JInt (uint (ic_claimBitmap ic))
          \<and> ir_issuedAt (ic_record ic) = rq_issuedAt q \<and> ir_expiresAt (ic_record ic) = rq_expiresAt q
          \<and> record_ok (ic_record ic))"

lemma issue_contract:
  assumes "validate_request N fresh q = Inr (salt, sb)" "i \<le> MAX_REVOCATION_INDEX"
    and "issue_with_index N B q salt sb i = Inr ic"
  shows "issuance_contract N fresh q i ic"
proof -
  let ?iss = "issuerIdFromPublicKey N (rq_issuerPublicKey q)"
  obtain ms sig where c: "issued_claims ?iss i (rq_issuedAt q) (rq_expiresAt q) sb (rq_claims q) IssuerId
      = Some (VStr (issuerIdFromPublicKey N (c_issuerPublicKey (ic_credential ic))))"
    "c_claims (ic_credential ic) = issued_claims ?iss i (rq_issuedAt q) (rq_expiresAt q) sb (rq_claims q)"
    using assms(3) unfolding issue_with_index_Inr Let_def issue_Inr by auto
  then have "?iss = issuerIdFromPublicKey N (c_issuerPublicKey (ic_credential ic))" by (simp add: issued_claims_def)
  then show ?thesis
    using assms c(2) unfolding issue_with_index_Inr validate_request_Inr Let_def
    by (auto simp: issuance_contract_def MAX_REVOCATION_INDEX_def)
qed

text \<open>A request that is served where the library signs.\<close>

lemma issued_claims_encode:
  assumes "hex32 iss" "hex32 sb" "0 \<le> a" "a \<le> MAX_SAFE_INTEGER" "0 \<le> e" "e \<le> MAX_SAFE_INTEGER" "i \<le> MAX_REVOCATION_INDEX"
  shows "\<exists>ms. encodeClaims (issued_claims iss i (JInt a) (JInt e) sb cs) = Inr ms"
  using assms
  by (simp add: encodeClaims_def CLAIM_SPECS_def encodeClaim_def mk_spec_def issued_claims_def SCHEMA_VERSION_def
      MAX_REVOCATION_INDEX_def)

definition toy_request :: IssueCredentialRequest where
  "toy_request = \<lparr> rq_claims = \<lparr> cs_over18 = True, cs_over21 = False, cs_notSanctioned = True, cs_notPep = True,
       cs_jurisdictionOk = False, cs_livenessOk = True \<rparr>,
     rq_walletAddress = CHR ''C'' # replicate 55 CHR ''A'', rq_issuedAt = JInt 1000, rq_expiresAt = JInt 2000,
     rq_issuerSecretKey = replicate 32 0, rq_issuerPublicKey = replicate 96 0, rq_provider = ''mock'',
     rq_providerRefId = ''r1'', rq_subjectId = ''s1'', rq_salt = None \<rparr>"

lemma toy_bitmap: "uint (claimBitmap (rq_claims toy_request)) = 5"
  using claimBitmap_unat[of "rq_claims toy_request"] by (simp add: toy_request_def uint_nat)

lemma toy_validates: "\<exists>sb. validate_request noble_ref (replicate 32 7) toy_request = Inr (replicate 32 7, sb) \<and> hex32 sb"
  using toy_bitmap unfolding validate_request_Inr
  by (auto simp: toy_request_def computeSubjectBinding_def SUBJECT_BINDING_SALT_BYTES_def)

text \<open>With the reference library every well-formed request is served.\<close>

lemma reference_issues:
  assumes "hex32 sb" "i \<le> MAX_REVOCATION_INDEX" and keys: "rq_issuerPublicKey q = replicate 96 0" "rq_issuerSecretKey q = replicate 32 0"
    and window: "rq_issuedAt q = JInt a" "rq_expiresAt q = JInt e" "0 \<le> a" "a < e" "e < 2 ^ 32"
    and names: "rq_provider q \<noteq> []" "rq_providerRefId q \<noteq> []" "rq_subjectId q \<noteq> []" "rq_walletAddress q \<noteq> []"
    and bits: "claimBitmap (rq_claims q) \<noteq> 0"
  shows "\<exists>ic. issue_with_index noble_ref toy_bbs q salt sb i = Inr ic"
proof -
  let ?iss = "issuerIdFromPublicKey noble_ref (replicate 96 0)"
  have iss: "hex32 ?iss" unfolding issuerIdFromPublicKey_def by (rule noble_hex_sha256) simp
  have "e \<le> MAX_SAFE_INTEGER" "a \<le> MAX_SAFE_INTEGER" "0 \<le> e" using window by simp_all
  then obtain ms where ms: "encodeClaims (issued_claims ?iss i (JInt a) (JInt e) sb (rq_claims q)) = Inr ms"
    using issued_claims_encode[OF iss assms(1) window(3) _ _ _ assms(2), of e "rq_claims q"] by blast
  have "claim_num (issued_claims ?iss i (JInt a) (JInt e) sb (rq_claims q)) ExpiresAt = JInt e"
    "claim_num (issued_claims ?iss i (JInt a) (JInt e) sb (rq_claims q)) IssuedAt = JInt a"
    by (simp_all add: issued_claims_def claim_num_def)
  then have "\<exists>c. issue noble_ref toy_bbs (issued_claims ?iss i (JInt a) (JInt e) sb (rq_claims q)) (replicate 32 0) = Inr c"
    unfolding issue_Inr using ms window by (simp add: toy_bbs_def) (simp add: issued_claims_def)
  then obtain c where c: "issue noble_ref toy_bbs (issued_claims ?iss i (JInt a) (JInt e) sb (rq_claims q)) (replicate 32 0) = Inr c" ..
  have "0 < uint (claimBitmap (rq_claims q))" using bits by (simp add: word_neq_0_conv word_less_def)
  moreover have "uint (claimBitmap (rq_claims q)) < 2 ^ 32" using uint_lt2p[of "claimBitmap (rq_claims q)"] by simp
  ultimately have "record_ok \<lparr> ir_provider = rq_provider q, ir_providerRefId = rq_providerRefId q, ir_subjectId = rq_subjectId q,
      ir_walletCAddr = rq_walletAddress q, ir_claimBitmap = JInt (uint (claimBitmap (rq_claims q))),
      ir_schemaVersion = SCHEMA_VERSION, ir_issuedAt = JInt a, ir_expiresAt = JInt e,
      ir_revocationIndex = JInt (int i), ir_issuerId = ?iss \<rparr>" (is "record_ok ?r")
    using iss assms(2) names window by (simp add: record_ok_def SCHEMA_VERSION_def MAX_REVOCATION_INDEX_def)
  then have "buildIssuanceRecord ?r = Inr ?r" by (simp add: buildIssuanceRecord_iff)
  then show ?thesis using c keys window by (simp add: issue_with_index_def Let_def)
qed

lemma toy_issues:
  assumes "hex32 sb" "i \<le> MAX_REVOCATION_INDEX"
  shows "\<exists>ic. issue_with_index noble_ref toy_bbs toy_request salt sb i = Inr ic"
  by (rule reference_issues[OF assms, where a = 1000 and e = 2000]) (use toy_bitmap in \<open>auto simp: toy_request_def\<close>)

lemma toy_issuance:
  "\<exists>ic. issueKycCredential noble_ref toy_bbs allocate (replicate 32 7) toy_request \<lparr> im_next = 3, im_max = 9 \<rparr>
     = (Inr ic, \<lparr> im_next = 4, im_max = 9 \<rparr>)"
proof -
  obtain sb where sb: "validate_request noble_ref (replicate 32 7) toy_request = Inr (replicate 32 7, sb)" "hex32 sb"
    using toy_validates by blast
  have m: "(3 :: nat) \<le> MAX_REVOCATION_INDEX" by (simp add: MAX_REVOCATION_INDEX_def)
  from toy_issues[OF sb(2) m] obtain ic where "issue_with_index noble_ref toy_bbs toy_request (replicate 32 7) sb 3 = Inr ic" by blast
  then show ?thesis
    unfolding issueKycCredential_Inr using sb(1) m by (auto simp: allocate_def)
qed


lemma issued_from_alloc:
  assumes "issueKycCredential N B alloc fresh q s = (Inr ic, s')"
  shows "\<exists>i. alloc s = (Inr i, s') \<and> issuance_contract N fresh q i ic"
  using assms issue_contract unfolding issueKycCredential_Inr by blast

text \<open>
  The record is checked after the allocation: a request that names no subject passes the
  validations, and is refused with its index spent.
\<close>

lemma record_refusal_burns_index:
  "fst (issueKycCredential noble_ref toy_bbs allocate (replicate 32 7) (toy_request\<lparr>rq_subjectId := []\<rparr>)
      \<lparr> im_next = 3, im_max = 9 \<rparr>) = Inl (RecordRefused (EmptyField F_subjectId))
   \<and> im_next (snd (issueKycCredential noble_ref toy_bbs allocate (replicate 32 7) (toy_request\<lparr>rq_subjectId := []\<rparr>)
      \<lparr> im_next = 3, im_max = 9 \<rparr>)) = 4"
proof -
  obtain sb where sb: "validate_request noble_ref (replicate 32 7) toy_request = Inr (replicate 32 7, sb)" "hex32 sb"
    using toy_validates by blast
  have m: "(3 :: nat) \<le> MAX_REVOCATION_INDEX" by (simp add: MAX_REVOCATION_INDEX_def)
  obtain ic where ic: "issue_with_index noble_ref toy_bbs toy_request (replicate 32 7) sb 3 = Inr ic"
    using toy_issues[OF sb(2) m] by blast
  have v: "validate_request noble_ref (replicate 32 7) (toy_request\<lparr>rq_subjectId := []\<rparr>) = Inr (replicate 32 7, sb)"
    using sb(1) unfolding validate_request_Inr by simp
  have a: "allocate_usable allocate \<lparr> im_next = 3, im_max = 9 \<rparr> = (Inr 3, \<lparr> im_next = 4, im_max = 9 \<rparr>)"
    using m by (simp add: allocate_usable_Inr) (simp add: allocate_def)
  have "issue_with_index noble_ref toy_bbs (toy_request\<lparr>rq_subjectId := []\<rparr>) (replicate 32 7) sb 3
      = Inl (RecordRefused (EmptyField F_subjectId))"
  proof -
    have "rq_provider toy_request \<noteq> []" "rq_providerRefId toy_request \<noteq> []" by (simp_all add: toy_request_def)
    then show ?thesis using ic
      by (simp add: issue_with_index_def Let_def res_simps) (auto simp: buildIssuanceRecord_def nonEmpty_def)
  qed
  then show ?thesis using v a by (simp add: issueKycCredential_def)
qed

section \<open>Properties\<close>

text \<open>
  C12. A credential is issued only from a claim set with a bit on chain, under one freshly
  allocated 32-bit index, and everything that names it agrees: the signed claims carry the
  booleans of the request, the index, the lifetime, the issuer id of the key that signed and
  the binding of exactly the wallet and the returned salt, and the persisted tuple is
  well formed and carries the same index, issuer, wallet, lifetime and bitmap.
\<close>

theorem issueKycCredential_sound:
  assumes "issueKycCredential N B alloc fresh q s = (Inr ic, s')"
  shows "\<exists>i. alloc s = (Inr i, s') \<and> issuance_contract N fresh q i ic"
  using assms by (rule issued_from_alloc)

theorem issueKycCredential_sound_witness:
  "\<exists>ic i. allocate \<lparr> im_next = 3, im_max = 9 \<rparr> = (Inr i, \<lparr> im_next = 4, im_max = 9 \<rparr>)
     \<and> issuance_contract noble_ref (replicate 32 7) toy_request i ic"
proof -
  obtain ic where "issueKycCredential noble_ref toy_bbs allocate (replicate 32 7) toy_request \<lparr> im_next = 3, im_max = 9 \<rparr>
     = (Inr ic, \<lparr> im_next = 4, im_max = 9 \<rparr>)" using toy_issuance by blast
  from issueKycCredential_sound[OF this] show ?thesis by blast
qed

text \<open>The index a request was served with, in a run over one allocator.\<close>

definition served_index ::
  "noble \<Rightarrow> bbs_lib \<Rightarrow> ('s \<Rightarrow> (revocation_index_error + nat) \<times> 's) \<Rightarrow> bytes \<times> IssueCredentialRequest \<Rightarrow> 's \<Rightarrow> nat option \<times> 's" where
  "served_index N B alloc r s = (case issueKycCredential N B alloc (fst r) (snd r) s of
     (Inl e, s') \<Rightarrow> (None, s')
   | (Inr ic, s') \<Rightarrow> (case ir_revocationIndex (ic_record ic) of JInt i \<Rightarrow> Some (nat i) | _ \<Rightarrow> None, s'))"

lemma issueKycCredential_state:
  "snd (issueKycCredential N B alloc fresh q s) = s \<or>
   (\<exists>a. alloc s = (a, snd (issueKycCredential N B alloc fresh q s)))"
proof (cases "validate_request N fresh q")
  case (Inl e)
  then show ?thesis by (simp add: issueKycCredential_def)
next
  case (Inr v)
  obtain salt sb where v: "v = (salt, sb)" by fastforce
  obtain a t where a: "alloc s = (a, t)" by fastforce
  have "snd (allocate_usable alloc s) = t" by (simp add: allocate_usable_def a)
  then have "snd (issueKycCredential N B alloc fresh q s) = t"
    unfolding issueKycCredential_def Inr v by (auto split: sum.splits prod.splits)
  then show ?thesis using a by simp
qed

lemma issuance_contract_index:
  "issuance_contract N fresh q i ic \<Longrightarrow> ir_revocationIndex (ic_record ic) = JInt (int i)"
  by (simp add: issuance_contract_def split: sum.splits)

lemma served_index_step:
  assumes "served_index N B alloc r s = (res, s')"
  shows "(s' = s \<and> res = None) \<or> (\<exists>a. alloc s = (a, s') \<and> (\<forall>i. res = Some i \<longrightarrow> a = Inr i))"
proof (cases "issueKycCredential N B alloc (fst r) (snd r) s")
  case (Pair x t)
  show ?thesis
  proof (cases x)
    case (Inl e)
    then have "res = None" "t = s'" using assms Pair by (auto simp: served_index_def)
    moreover have "t = s \<or> (\<exists>a. alloc s = (a, t))"
      using issueKycCredential_state[of N B alloc "fst r" "snd r" s] Pair by simp
    ultimately show ?thesis by auto
  next
    case (Inr ic)
    from issued_from_alloc[OF Pair[unfolded Inr]] obtain i where i: "alloc s = (Inr i, t)" "issuance_contract N (fst r) (snd r) i ic"
      by blast
    have "ir_revocationIndex (ic_record ic) = JInt (int i)"
      using issuance_contract_index[OF i(2)] .
    then show ?thesis using assms Pair Inr i(1) by (auto simp: served_index_def)
  qed
qed

text \<open>
  No two credentials share a revocation index: over any sequence of issuance requests, of
  which any may be refused at any step, against one allocator the gateway constructed, the
  indexes of the credentials issued are strictly increasing, start at the configured value
  and fit the 32 bits of the attestation.
\<close>

theorem issued_indexes_unique:
  assumes "InMemoryRevocationIndexAllocator start cap = Inr s"
  shows "sorted (run_client (served_index N B allocate) requests s)
    \<and> distinct (run_client (served_index N B allocate) requests s)
    \<and> (\<forall>i\<in>set (run_client (served_index N B allocate) requests s). im_next s \<le> i \<and> i \<le> MAX_REVOCATION_INDEX)"
proof (rule memalloc.run_client_fresh)
  show "im_max s \<le> MAX_REVOCATION_INDEX" using constructed_ok[OF assms] by simp
qed (rule served_index_step)

theorem issued_indexes_unique_witness:
  "let s = \<lparr> im_next = 3, im_max = 9 \<rparr>;
       is = run_client (served_index noble_ref toy_bbs allocate) [(replicate 32 7, toy_request)] s in
   is = [3] \<and> sorted is \<and> distinct is \<and> (\<forall>i\<in>set is. 3 \<le> i \<and> i \<le> MAX_REVOCATION_INDEX)"
proof -
  let ?s = "\<lparr> im_next = 3, im_max = 9 \<rparr>"
  have c: "InMemoryRevocationIndexAllocator (Some (JInt 3)) (Some (JInt 9)) = Inr ?s"
    by (simp add: InMemoryRevocationIndexAllocator_def MAX_REVOCATION_INDEX_def)
  obtain ic where ic: "issueKycCredential noble_ref toy_bbs allocate (replicate 32 7) toy_request ?s
     = (Inr ic, \<lparr> im_next = 4, im_max = 9 \<rparr>)" using toy_issuance by blast
  from issued_from_alloc[OF this] obtain i where i: "allocate ?s = (Inr i, \<lparr> im_next = 4, im_max = 9 \<rparr>)"
    "issuance_contract noble_ref (replicate 32 7) toy_request i ic" by blast
  have "i = 3" using i(1) by (simp add: allocate_def)
  then have "ir_revocationIndex (ic_record ic) = JInt 3" using issuance_contract_index[OF i(2)] by simp
  then have r: "run_client (served_index noble_ref toy_bbs allocate) [(replicate 32 7, toy_request)] ?s = [3]"
    using ic by (simp add: served_index_def)
  note u = issued_indexes_unique[OF c, of noble_ref toy_bbs "[(replicate 32 7, toy_request)]"]
  show ?thesis using u unfolding Let_def r by simp
qed

end
