(* ===== verification/Json.thy ===== *)
theory Json
imports Prelude "HOL-Library.Char_ord" "HOL-Library.List_Lexorder"
begin

text \<open>
  JSON as the program uses it: \<open>JSON.parse\<close> and \<open>JSON.stringify\<close> of the standard library, and
  the restricted canonical form of \<open>status/credential.ts\<close>. An object is the list of its
  entries in insertion order, with distinct keys. Numbers are exact: a literal with a fraction
  or an exponent is an integer or lies strictly between two of them; the rounding of doubles
  from \<open>2 ^ 53\<close> on is not modelled. Text is limited to code points below 256.
\<close>

section \<open>Strings\<close>

definition code :: "char \<Rightarrow> nat" where
  "code c = of_char c"

definition quote_char :: "char \<Rightarrow> string" where
  "quote_char c = (let k = code c in
     if k = 34 then [char_of (92::nat), char_of (34::nat)] else if k = 92 then [char_of (92::nat), char_of (92::nat)]
     else if k = 8 then [char_of (92::nat), CHR ''b''] else if k = 9 then [char_of (92::nat), CHR ''t'']
     else if k = 10 then [char_of (92::nat), CHR ''n''] else if k = 12 then [char_of (92::nat), CHR ''f'']
     else if k = 13 then [char_of (92::nat), CHR ''r'']
     else if k < 32 then [char_of (92::nat), CHR ''u'', CHR ''0'', CHR ''0'', nibble_char (k div 16), nibble_char (k mod 16)]
     else [c])"

definition json_quote :: "string \<Rightarrow> string" where
  "json_quote s = char_of (34::nat) # concat (map quote_char s) @ [char_of (34::nat)]"

definition json_hex_digit :: "char \<Rightarrow> bool" where
  "json_hex_digit c = (is_lower_hex c \<or> (65 \<le> code c \<and> code c \<le> 70))"

definition hex_digit :: "char \<Rightarrow> nat" where
  "hex_digit c = (if 65 \<le> code c \<and> code c \<le> 70 then code c - 55 else nibble_val c)"

fun parse_chars :: "string \<Rightarrow> (string \<times> string) option" where
  "parse_chars [] = None"
| "parse_chars (c # cs) =
     (if code c = 34 then Some ([], cs)
      else if code c = 92 then
        (case cs of [] \<Rightarrow> None
         | e # r \<Rightarrow>
           if code e = 34 \<or> code e = 92 \<or> code e = 47 then map_option (\<lambda>(s, t). (e # s, t)) (parse_chars r)
           else if e = CHR ''b'' then map_option (\<lambda>(s, t). (char_of (8::nat) # s, t)) (parse_chars r)
           else if e = CHR ''t'' then map_option (\<lambda>(s, t). (char_of (9::nat) # s, t)) (parse_chars r)
           else if e = CHR ''n'' then map_option (\<lambda>(s, t). (char_of (10::nat) # s, t)) (parse_chars r)
           else if e = CHR ''f'' then map_option (\<lambda>(s, t). (char_of (12::nat) # s, t)) (parse_chars r)
           else if e = CHR ''r'' then map_option (\<lambda>(s, t). (char_of (13::nat) # s, t)) (parse_chars r)
           else if e = CHR ''u'' then
             (case r of a # b # h # l # t' \<Rightarrow>
                if a = CHR ''0'' \<and> b = CHR ''0'' \<and> json_hex_digit h \<and> json_hex_digit l
                then map_option (\<lambda>(s, t). (char_of (16 * hex_digit h + hex_digit l) # s, t)) (parse_chars t')
                else None
              | _ \<Rightarrow> None)
           else None)
      else if code c < 32 then None
      else map_option (\<lambda>(s, t). (c # s, t)) (parse_chars cs))"

lemma code_less: "code c < 256" by (simp add: code_def of_char_less_256)

lemma code_char [simp]: "k < 256 \<Longrightarrow> code (char_of k) = k"
  by (simp add: code_def)

lemma char_code [simp]: "char_of (code c) = c"
  by (simp add: code_def)

lemma hex_digit_nibble: "d < 16 \<Longrightarrow> json_hex_digit (nibble_char d) \<and> hex_digit (nibble_char d) = d"
  using nibble_facts[of d] by (auto simp: json_hex_digit_def hex_digit_def nibble_char_def)

lemma parse_quoted_char: "parse_chars (quote_char c @ r) = map_option (\<lambda>(s, t). (c # s, t)) (parse_chars r)"
proof -
  define k where "k = code c"
  have c: "c = char_of k" by (simp add: k_def)
  have k: "k < 256" by (simp add: k_def code_less)
  have u: "code CHR ''u'' = 117" "code CHR ''b'' = 98" "code CHR ''t'' = 116" "code CHR ''n'' = 110"
    "code CHR ''f'' = 102" "code CHR ''r'' = 114"
    by (simp_all add: code_def)
  show ?thesis
  proof (cases "k < 32 \<and> k \<noteq> 8 \<and> k \<noteq> 9 \<and> k \<noteq> 10 \<and> k \<noteq> 12 \<and> k \<noteq> 13")
    case True
    have d: "k div 16 < 16" "k mod 16 < 16" using k by (auto simp: less_mult_imp_div_less)
    have h: "16 * hex_digit (nibble_char (k div 16)) + hex_digit (nibble_char (k mod 16)) = k"
      using d hex_digit_nibble by simp
    have "json_hex_digit (nibble_char (k div 16))" "json_hex_digit (nibble_char (k mod 16))"
      using d hex_digit_nibble by blast+
    then show ?thesis using True c h by (simp add: quote_char_def Let_def k_def[symmetric] u)
  next
    case False
    then show ?thesis using k c by (auto simp: quote_char_def Let_def k_def[symmetric] u)
  qed
qed

lemma parse_chars_quote: "parse_chars (concat (map quote_char s) @ char_of (34::nat) # r) = Some (s, r)"
proof (induction s)
  case Nil
  show ?case by simp
next
  case (Cons c s)
  have "parse_chars (concat (map quote_char (c # s)) @ char_of (34::nat) # r)
      = parse_chars (quote_char c @ (concat (map quote_char s) @ char_of (34::nat) # r))" by simp
  then show ?case unfolding parse_quoted_char Cons.IH by simp
qed

section \<open>\<open>JSON.parse\<close>\<close>

definition is_ws :: "char \<Rightarrow> bool" where
  "is_ws c = (code c = 32 \<or> code c = 9 \<or> code c = 10 \<or> code c = 13)"

abbreviation skip_ws :: "string \<Rightarrow> string" where
  "skip_ws \<equiv> dropWhile is_ws"

text \<open>A number literal: sign, integer part without leading zeros, fraction, exponent.\<close>

definition parse_exponent :: "string \<Rightarrow> (int \<times> string) option" where
  "parse_exponent s = (case s of
     c # r \<Rightarrow> if c = CHR ''e'' \<or> c = CHR ''E'' then
         (let (neg, r1) = (case r of d # r' \<Rightarrow> if d = CHR ''-'' then (True, r') else if d = CHR ''+'' then (False, r') else (False, r)
                           | [] \<Rightarrow> (False, r));
              ds = takeWhile is_digit r1 in
          if ds = [] then None
          else Some (if neg then - int (undec ds) else int (undec ds), dropWhile is_digit r1))
       else Some (0, s)
   | [] \<Rightarrow> Some (0, s))"

definition decimal_num :: "bool \<Rightarrow> nat \<Rightarrow> int \<Rightarrow> jsnum" where
  "decimal_num neg m e = (let v = (if neg then - int m else int m) in
     if 0 \<le> e then JInt (v * 10 ^ nat e)
     else if (10 ^ nat (- e)) dvd v then JInt (v div 10 ^ nat (- e))
     else JFrac (v div 10 ^ nat (- e)))"

definition parse_number :: "string \<Rightarrow> (jsnum \<times> string) option" where
  "parse_number s =
     (let (neg, s1) = (case s of c # r \<Rightarrow> if c = CHR ''-'' then (True, r) else (False, s) | [] \<Rightarrow> (False, s));
          ds = takeWhile is_digit s1; s2 = dropWhile is_digit s1 in
      if \<not> canonical_uint ds then None
      else (let (fs, s3) = (case s2 of c # r \<Rightarrow> if c = CHR ''.'' then (takeWhile is_digit r, dropWhile is_digit r) else ([], s2)
                            | [] \<Rightarrow> ([], s2)) in
        if fs = [] \<and> s2 \<noteq> [] \<and> hd s2 = CHR ''.'' then None
        else map_option (\<lambda>(e, s4). (decimal_num neg (undec (ds @ fs)) (e - int (length fs)), s4)) (parse_exponent s3)))"

fun put_entry :: "string \<Rightarrow> jsval \<Rightarrow> (string \<times> jsval) list \<Rightarrow> (string \<times> jsval) list" where
  "put_entry k v [] = [(k, v)]"
| "put_entry k v ((k', v') # es) = (if k' = k then (k, v) # es else (k', v') # put_entry k v es)"

definition starts_with :: "string \<Rightarrow> string \<Rightarrow> bool" where
  "starts_with w s = (take (length w) s = w)"

fun parse_value :: "nat \<Rightarrow> string \<Rightarrow> (jsval \<times> string) option"
and parse_members :: "nat \<Rightarrow> (string \<times> jsval) list \<Rightarrow> string \<Rightarrow> (jsval \<times> string) option"
and parse_elements :: "nat \<Rightarrow> jsval list \<Rightarrow> string \<Rightarrow> (jsval \<times> string) option" where
  "parse_value 0 s = None"
| "parse_value (Suc n) s = (case skip_ws s of [] \<Rightarrow> None
     | c # r \<Rightarrow>
       if c = CHR ''{'' then (case skip_ws r of d # r' \<Rightarrow>
           if d = CHR ''}'' then Some (JObject [], r') else parse_members n [] r
         | [] \<Rightarrow> None)
       else if c = CHR ''['' then (case skip_ws r of d # r' \<Rightarrow>
           if d = CHR '']'' then Some (JArray [], r') else parse_elements n [] r
         | [] \<Rightarrow> None)
       else if code c = 34 then map_option (\<lambda>(t, r'). (JString t, r')) (parse_chars r)
       else if starts_with ''null'' (c # r) then Some (JNull, drop 4 (c # r))
       else if starts_with ''true'' (c # r) then Some (JBool True, drop 4 (c # r))
       else if starts_with ''false'' (c # r) then Some (JBool False, drop 5 (c # r))
       else map_option (\<lambda>(x, r'). (JNum x, r')) (parse_number (c # r)))"
| "parse_members 0 es s = None"
| "parse_members (Suc n) es s = (case skip_ws s of [] \<Rightarrow> None
     | q # r \<Rightarrow> if code q \<noteq> 34 then None else (case parse_chars r of None \<Rightarrow> None
       | Some (k, r1) \<Rightarrow> (case skip_ws r1 of [] \<Rightarrow> None
         | c # r2 \<Rightarrow> if c \<noteq> CHR '':'' then None else (case parse_value n r2 of None \<Rightarrow> None
           | Some (v, r3) \<Rightarrow> (case skip_ws r3 of [] \<Rightarrow> None
             | d # r4 \<Rightarrow> if d = CHR '','' then parse_members n (put_entry k v es) r4
                         else if d = CHR ''}'' then Some (JObject (put_entry k v es), r4) else None)))))"
| "parse_elements 0 vs s = None"
| "parse_elements (Suc n) vs s = (case parse_value n s of None \<Rightarrow> None
     | Some (v, r) \<Rightarrow> (case skip_ws r of [] \<Rightarrow> None
       | d # r' \<Rightarrow> if d = CHR '','' then parse_elements n (vs @ [v]) r'
                   else if d = CHR '']'' then Some (JArray (vs @ [v]), r') else None))"

text \<open>Every call consumes a character, so the length of the text is enough fuel.\<close>

definition json_parse :: "string \<Rightarrow> jsval option" where
  "json_parse s = (case parse_value (Suc (length s)) s of
     Some (v, r) \<Rightarrow> if skip_ws r = [] then Some v else None
   | None \<Rightarrow> None)"


section \<open>\<open>JSON.stringify\<close>\<close>

fun join :: "string \<Rightarrow> string list \<Rightarrow> string" where
  "join sep [] = []"
| "join sep [x] = x"
| "join sep (x # y # xs) = x @ sep @ join sep (y # xs)"

definition int_text :: "int \<Rightarrow> string" where
  "int_text i = (if i < 0 then CHR ''-'' # dec (nat (- i)) else dec (nat i))"

text \<open>
  Compact form. An entry whose value is \<open>undefined\<close> is left out; in an array it is
  \<open>null\<close>, as are the numbers without a JSON form. No number the program writes has a fraction.
\<close>

fun json_stringify :: "jsval \<Rightarrow> string" where
  "json_stringify JUndefined = ''null''"
| "json_stringify JNull = ''null''"
| "json_stringify (JBool b) = (if b then ''true'' else ''false'')"
| "json_stringify (JNum (JInt i)) = int_text i"
| "json_stringify (JNum _) = ''null''"
| "json_stringify (JString s) = json_quote s"
| "json_stringify (JArray vs) = ''['' @ join '','' (map json_stringify vs) @ '']''"
| "json_stringify (JObject kvs) = ''{'' @ join '','' (concat (map (\<lambda>(k, v). if v = JUndefined then []
     else [json_quote k @ '':'' @ json_stringify v]) kvs)) @ ''}''"

section \<open>Text of bytes\<close>

text \<open>
  \<open>Buffer.toString('utf8')\<close> for text with code points below 256; other text is outside the
  model of strings and counts as not parseable.
\<close>

fun utf8_text :: "bytes \<Rightarrow> string option" where
  "utf8_text [] = Some []"
| "utf8_text (b # bs) = (if unat b < 128 then map_option (\<lambda>t. char_of (unat b) # t) (utf8_text bs)
     else (case bs of [] \<Rightarrow> None
       | c # cs \<Rightarrow> if (unat b = 194 \<or> unat b = 195) \<and> 128 \<le> unat c \<and> unat c < 192
           then map_option (\<lambda>t. char_of ((unat b - 192) * 64 + (unat c - 128)) # t) (utf8_text cs) else None))"

lemma utf8_text_ref: "utf8_text (ref_utf8 s) = Some s"
proof (induction s)
  case (Cons c s)
  define k where "k = (of_char c :: nat)"
  have k: "k < 256" "char_of k = c" by (simp_all add: k_def of_char_less_256)
  show ?case
  proof (cases "k < 128")
    case True
    then show ?thesis using Cons k by (simp add: Let_def k_def[symmetric])
  next
    case False
    then have d: "k div 64 = 2 \<or> k div 64 = 3" using k(1) by auto
    have b: "unat (word_of_nat (192 + k div 64) :: byte) = 192 + k div 64" using d by (intro unat_word8_of_nat) auto
    have m: "k mod 64 < 64" by simp
    then have c2: "unat (word_of_nat (128 + k mod 64) :: byte) = 128 + k mod 64" by (intro unat_word8_of_nat) linarith
    have e: "k div 64 * 64 + k mod 64 = k" by simp
    have "utf8_text (ref_utf8 (c # s)) = utf8_text (word_of_nat (192 + k div 64) # word_of_nat (128 + k mod 64) # ref_utf8 s)"
      using False by (simp add: Let_def k_def[symmetric])
    also have "\<dots> = Some (c # s)"
      unfolding utf8_text.simps(2) b list.case c2 using d m Cons.IH e k(2) by auto
    finally show ?thesis .
  qed
qed simp

section \<open>\<open>canonicalJson\<close> of \<open>status/credential.ts\<close>\<close>

datatype canonical_error = UnsafeNumber | NonAsciiKey string | NotJson

definition printable_ascii :: "string \<Rightarrow> bool" where
  "printable_ascii s = list_all (\<lambda>c. 32 \<le> code c \<and> code c \<le> 126) s"

lemma mapE_cong [fundef_cong]:
  "xs = ys \<Longrightarrow> (\<And>x. x \<in> set ys \<Longrightarrow> f x = g x) \<Longrightarrow> mapE f xs = mapE g ys"
proof -
  have "(\<And>x. x \<in> set ys \<Longrightarrow> f x = g x) \<Longrightarrow> mapE f ys = mapE g ys"
    by (induction ys) auto
  then show "xs = ys \<Longrightarrow> (\<And>x. x \<in> set ys \<Longrightarrow> f x = g x) \<Longrightarrow> mapE f xs = mapE g ys" by blast
qed

lemma entry_size: "e \<in> set kvs \<Longrightarrow> size (snd e) < Suc (size_list (size_prod (\<lambda>x. 0) size) kvs)"
  by (induction kvs) auto

function canonicalJson :: "jsval \<Rightarrow> canonical_error + string" where
  "canonicalJson JNull = Inr ''null''"
| "canonicalJson (JBool b) = Inr (if b then ''true'' else ''false'')"
| "canonicalJson (JNum x) = (case x of
     JInt i \<Rightarrow> if i < 0 \<or> i > MAX_SAFE_INTEGER then Inl UnsafeNumber else Inr (int_text i)
   | _ \<Rightarrow> Inl UnsafeNumber)"
| "canonicalJson (JString s) = Inr (json_quote s)"
| "canonicalJson (JArray vs) = ebind (mapE canonicalJson vs) (\<lambda>parts. Inr (''['' @ join '','' parts @ '']''))"
| "canonicalJson (JObject bag) =
     (let es = filter (\<lambda>e. snd e \<noteq> JUndefined) bag in
      case find (\<lambda>e. \<not> printable_ascii (fst e)) es of Some e \<Rightarrow> Inl (NonAsciiKey (fst e))
      | None \<Rightarrow>
      ebind (mapE (\<lambda>e. ebind (canonicalJson (snd e)) (\<lambda>t. Inr (json_quote (fst e) @ '':'' @ t))) (sort_key fst es))
        (\<lambda>parts. Inr (''{'' @ join '','' parts @ ''}'')))"
| "canonicalJson JUndefined = Inl NotJson"
  by pat_completeness auto
termination
  by (relation "measure size")
    (auto simp: less_Suc_eq_le size_list_estimation' intro: entry_size[unfolded less_Suc_eq_le])

text \<open>The value a canonical form stands for: entries sorted, undefined ones left out.\<close>

function canonical_value :: "jsval \<Rightarrow> jsval" where
  "canonical_value (JArray vs) = JArray (map canonical_value vs)"
| "canonical_value (JObject bag) = JObject (map (\<lambda>e. (fst e, canonical_value (snd e)))
     (sort_key fst (filter (\<lambda>e. snd e \<noteq> JUndefined) bag)))"
| "canonical_value JUndefined = JUndefined"
| "canonical_value JNull = JNull"
| "canonical_value (JBool b) = JBool b"
| "canonical_value (JNum x) = JNum x"
| "canonical_value (JString s) = JString s"
  by pat_completeness auto
termination
  by (relation "measure size")
    (auto simp: less_Suc_eq_le size_list_estimation' intro: entry_size[unfolded less_Suc_eq_le])

text \<open>Values a text can stand for: no \<open>undefined\<close>, integers, distinct keys.\<close>

fun plain :: "jsval \<Rightarrow> bool" where
  "plain JUndefined = False"
| "plain JNull = True"
| "plain (JBool b) = True"
| "plain (JNum (JInt i)) = True"
| "plain (JNum _) = False"
| "plain (JString s) = True"
| "plain (JArray vs) = list_all plain vs"
| "plain (JObject kvs) = (distinct (map fst kvs) \<and> list_all (\<lambda>(k, v). plain v) kvs)"

text \<open>An object has no key twice.\<close>

fun js_object_ok :: "jsval \<Rightarrow> bool" where
  "js_object_ok (JArray vs) = list_all js_object_ok vs"
| "js_object_ok (JObject kvs) = (distinct (map fst kvs) \<and> list_all (\<lambda>(k, v). js_object_ok v) kvs)"
| "js_object_ok _ = True"


section \<open>Parsing what was written\<close>

definition number_ends :: "string \<Rightarrow> bool" where
  "number_ends r = (case r of [] \<Rightarrow> True
     | c # t \<Rightarrow> \<not> is_digit c \<and> c \<noteq> CHR ''.'' \<and> c \<noteq> CHR ''e'' \<and> c \<noteq> CHR ''E'')"

lemma take_digits: "list_all is_digit ds \<Longrightarrow> number_ends r \<Longrightarrow> takeWhile is_digit (ds @ r) = ds \<and> dropWhile is_digit (ds @ r) = r"
  by (induction ds) (cases r; simp add: number_ends_def)+

lemma parse_number_dec:
  assumes "number_ends r"
  shows "(case parse_exponent r of Some (e, t) \<Rightarrow> e = 0 \<and> t = r | None \<Rightarrow> False)"
  using assms by (cases r) (auto simp: parse_exponent_def number_ends_def)

lemma is_digit_minus: "\<not> is_digit CHR ''-''" by code_simp

lemma parse_number_int: "number_ends r \<Longrightarrow> parse_number (int_text i @ r) = Some (JInt i, r)"
proof -
  assume r: "number_ends r"
  define n where "n = nat \<bar>i\<bar>"
  note d = take_digits[OF dec_digits[of n] r]
  have hd: "\<exists>c t. dec n = c # t \<and> c \<noteq> CHR ''-''"
    using dec_digits[of n] dec_not_Nil[of n] is_digit_minus by (cases "dec n") auto
  have x: "parse_exponent r = Some (0, r)" using parse_number_dec[OF r] by (auto split: option.splits)
  have dot: "r = [] \<or> hd r \<noteq> CHR ''.''" using r by (cases r) (auto simp: number_ends_def)
  have frac: "(case r of [] \<Rightarrow> ([], r) | c # q \<Rightarrow> if c = CHR ''.'' then (takeWhile is_digit q, dropWhile is_digit q) else ([], r)) = ([], r)"
    using r by (cases r) (auto simp: number_ends_def)
  show ?thesis
  proof (cases "i < 0")
    case True
    then have "int_text i = CHR ''-'' # dec n" by (simp add: int_text_def n_def)
    then show ?thesis using d x dot frac True
      by (simp add: parse_number_def decimal_num_def n_def)
  next
    case False
    then have t: "int_text i = dec n" by (simp add: int_text_def n_def)
    have sgn: "(case dec n @ r of [] \<Rightarrow> (False, dec n @ r) | c # q \<Rightarrow> if c = CHR ''-'' then (True, q) else (False, dec n @ r))
        = (False, dec n @ r)" using hd by auto
    have "int n = i" using False by (simp add: n_def)
    then show ?thesis using d x dot frac
      unfolding parse_number_def t sgn by (simp add: decimal_num_def)
  qed
qed

definition value_start :: "char \<Rightarrow> bool" where
  "value_start c = (\<not> is_ws c \<and> c \<noteq> CHR ''}'' \<and> c \<noteq> CHR '']'')"

lemma digit_start: "is_digit c \<Longrightarrow> value_start c \<and> c \<noteq> CHR ''n'' \<and> c \<noteq> CHR ''t'' \<and> c \<noteq> CHR ''f'' \<and> c \<noteq> CHR ''{'' \<and> c \<noteq> CHR ''['' \<and> code c \<noteq> 34"
  by (auto simp: is_digit_def value_start_def is_ws_def code_def)

lemma int_text_start: "\<exists>c t. int_text i = c # t \<and> value_start c \<and> c \<noteq> CHR ''n'' \<and> c \<noteq> CHR ''t'' \<and> c \<noteq> CHR ''f'' \<and> c \<noteq> CHR ''{'' \<and> c \<noteq> CHR ''['' \<and> code c \<noteq> 34"
proof (cases "i < 0")
  case True
  moreover have "value_start CHR ''-'' \<and> code CHR ''-'' \<noteq> 34" by code_simp
  ultimately show ?thesis by (simp add: int_text_def)
next
  case False
  then show ?thesis using dec_digits[of "nat i"] dec_not_Nil[of "nat i"] digit_start
    by (cases "dec (nat i)") (auto simp: int_text_def)
qed

lemma stringify_start: "plain v \<Longrightarrow> \<exists>c t. json_stringify v = c # t \<and> value_start c"
proof (cases v)
  case (JNum x)
  assume "plain v"
  then show ?thesis using JNum int_text_start by (cases x) fastforce+
next
  case (JString x)
  have "value_start (char_of (34::nat))" by code_simp
  then show ?thesis using JString by (simp add: json_quote_def)
qed (auto simp: value_start_def is_ws_def code_def)

lemma skip_start [simp]: "value_start c \<Longrightarrow> skip_ws (c # t) = c # t"
  by (simp add: value_start_def)

definition parses :: "jsval \<Rightarrow> bool" where
  "parses v = (\<forall>n r. number_ends r \<longrightarrow> length (json_stringify v) \<le> n \<longrightarrow> parse_value n (json_stringify v @ r) = Some (v, r))"

lemma parsesD: "parses v \<Longrightarrow> number_ends r \<Longrightarrow> length (json_stringify v) \<le> n \<Longrightarrow> parse_value n (json_stringify v @ r) = Some (v, r)"
  by (simp add: parses_def)

lemma parse_elements_text:
  "vs \<noteq> [] \<Longrightarrow> \<forall>v\<in>set vs. parses v \<and> plain v \<Longrightarrow> length (join '','' (map json_stringify vs)) < n \<Longrightarrow>
     parse_elements n acc (join '','' (map json_stringify vs) @ CHR '']'' # r) = Some (JArray (acc @ vs), r)"
proof (induction vs arbitrary: n acc)
  case (Cons v vs)
  obtain m where n: "n = Suc m" using Cons.prems(3) by (cases n) auto
  have v: "parses v" using Cons.prems(2) by simp
  have follow: "number_ends (CHR '','' # t)" "number_ends (CHR '']'' # t)" for t
    by (simp_all add: number_ends_def is_digit_def)
  have ws: "\<not> is_ws CHR '',''" "\<not> is_ws CHR '']''" by (simp_all add: is_ws_def code_def)
  show ?case
  proof (cases vs)
    case Nil
    then show ?thesis using Cons.prems(3) parsesD[OF v follow(2), of m r] n ws by simp
  next
    case (Cons w ws')
    let ?rest = "join '','' (map json_stringify vs) @ CHR '']'' # r"
    have "parse_value m (json_stringify v @ CHR '','' # ?rest) = Some (v, CHR '','' # ?rest)"
      using Cons.prems(3) n Cons by (intro parsesD[OF v follow(1)]) simp
    moreover have "parse_elements m (acc @ [v]) ?rest = Some (JArray ((acc @ [v]) @ vs), r)"
      using Cons.prems n Cons by (intro Cons.IH) auto
    ultimately show ?thesis using n ws Cons by simp
  qed
qed simp

lemma put_entry_fresh: "k \<notin> fst ` set es \<Longrightarrow> put_entry k v es = es @ [(k, v)]"
  by (induction k v es rule: put_entry.induct) auto

definition entry_text :: "string \<times> jsval \<Rightarrow> string" where
  "entry_text e = json_quote (fst e) @ '':'' @ json_stringify (snd e)"

lemma parse_members_text:
  "kvs \<noteq> [] \<Longrightarrow> \<forall>e\<in>set kvs. parses (snd e) \<and> plain (snd e) \<Longrightarrow> distinct (map fst (es @ kvs)) \<Longrightarrow>
     length (join '','' (map entry_text kvs)) < n \<Longrightarrow>
     parse_members n es (join '','' (map entry_text kvs) @ CHR ''}'' # r) = Some (JObject (es @ kvs), r)"
proof (induction kvs arbitrary: n es)
  case (Cons e kvs)
  obtain m where n: "n = Suc m" using Cons.prems(4) by (cases n) auto
  obtain k v where e: "e = (k, v)" by (cases e)
  have v: "parses v" using Cons.prems(2) e by simp
  have follow: "number_ends (CHR '','' # t)" "number_ends (CHR ''}'' # t)" for t
    by (simp_all add: number_ends_def is_digit_def)
  have ws: "\<not> is_ws CHR '',''" "\<not> is_ws CHR ''}''" "\<not> is_ws CHR '':''" "\<not> is_ws (char_of (34::nat))"
    by (simp_all add: is_ws_def code_def)
  have put: "put_entry k v es = es @ [(k, v)]" using Cons.prems(3) e by (intro put_entry_fresh) auto
  have head: "parse_members (Suc m) es (entry_text e @ t) =
      (case parse_value m (json_stringify v @ t) of None \<Rightarrow> None
           | Some (v, r3) \<Rightarrow> (case skip_ws r3 of [] \<Rightarrow> None
             | d # r4 \<Rightarrow> if d = CHR '','' then parse_members m (put_entry k v es) r4
                         else if d = CHR ''}'' then Some (JObject (put_entry k v es), r4) else None))" for t
    using ws parse_chars_quote[of k "CHR '':'' # json_stringify v @ t"]
    by (simp add: entry_text_def e json_quote_def)
  show ?case
  proof (cases kvs)
    case Nil
    have "parse_value m (json_stringify v @ CHR ''}'' # r) = Some (v, CHR ''}'' # r)"
      using Cons.prems(4) n Nil e by (intro parsesD[OF v follow(2)]) (simp add: entry_text_def)
    then show ?thesis using head[of "CHR ''}'' # r"] n ws Nil put e by simp
  next
    case (Cons w ws')
    let ?rest = "join '','' (map entry_text kvs) @ CHR ''}'' # r"
    have "parse_value m (json_stringify v @ CHR '','' # ?rest) = Some (v, CHR '','' # ?rest)"
      using Cons.prems(4) n Cons e by (intro parsesD[OF v follow(1)]) (simp add: entry_text_def)
    moreover have "parse_members m (es @ [(k, v)]) ?rest = Some (JObject ((es @ [(k, v)]) @ kvs), r)"
      using Cons.prems n Cons e by (intro Cons.IH) auto
    ultimately show ?thesis using head[of "CHR '','' # ?rest"] n ws Cons put e by simp
  qed
qed simp

lemma plain_entries: "list_all (\<lambda>(k, v). plain v) kvs \<Longrightarrow>
    concat (map (\<lambda>(k, v). if v = JUndefined then [] else [json_quote k @ '':'' @ json_stringify v]) kvs) = map entry_text kvs"
  by (induction kvs) (auto simp: entry_text_def)


lemma plain_parses: "plain v \<Longrightarrow> parses v"
proof (induction v)
  case JUndefined
  then show ?case by simp
next
  case JNull
  show ?case unfolding parses_def
    by (auto simp: starts_with_def is_ws_def code_def gr0_conv_Suc dest!: Suc_le_D)
next
  case (JBool b)
  show ?case unfolding parses_def
    by (cases b) (auto simp: starts_with_def is_ws_def code_def dest!: Suc_le_D)
next
  case (JNum x)
  then obtain i where x: "x = JInt i" by (cases x) auto
  obtain c t where c: "int_text i = c # t" "value_start c" "c \<noteq> CHR ''n''" "c \<noteq> CHR ''t''" "c \<noteq> CHR ''f''"
    "c \<noteq> CHR ''{''" "c \<noteq> CHR ''[''" "code c \<noteq> 34" using int_text_start[of i] by blast
  show ?case unfolding parses_def x
  proof (intro allI impI)
    fix n r
    assume r: "number_ends r" and "length (json_stringify (JNum (JInt i))) \<le> n"
    then obtain m where n: "n = Suc m" using c(1) by (cases n) auto
    have "parse_number (c # t @ r) = Some (JInt i, r)" using parse_number_int[OF r, of i] c(1) by simp
    then show "parse_value n (json_stringify (JNum (JInt i)) @ r) = Some (JNum (JInt i), r)"
      using c n skip_start[OF c(2), of "t @ r"] by (simp add: starts_with_def value_start_def)
  qed
next
  case (JString s)
  show ?case unfolding parses_def
  proof (intro allI impI)
    fix n r
    assume "length (json_stringify (JString s)) \<le> n"
    then obtain m where n: "n = Suc m" by (cases n) (auto simp: json_quote_def)
    have "\<not> is_ws (char_of (34::nat))" by code_simp
    moreover have "char_of (34::nat) \<noteq> CHR ''{''" "char_of (34::nat) \<noteq> CHR ''[''" by code_simp+
    ultimately show "parse_value n (json_stringify (JString s) @ r) = Some (JString s, r)"
      using parse_chars_quote[of s r] n by (simp add: json_quote_def)
  qed
next
  case (JArray vs)
  then have vs: "\<forall>v\<in>set vs. parses v \<and> plain v" by (auto simp: list_all_iff)
  show ?case unfolding parses_def
  proof (intro allI impI)
    fix n r
    assume l: "length (json_stringify (JArray vs)) \<le> n"
    then obtain m where n: "n = Suc m" by (cases n) auto
    have br: "\<not> is_ws CHR ''[''" "\<not> is_ws CHR '']''" by (simp_all add: is_ws_def code_def)
    show "parse_value n (json_stringify (JArray vs) @ r) = Some (JArray vs, r)"
    proof (cases vs)
      case Nil
      then show ?thesis using n br by simp
    next
      case (Cons w ws)
      obtain c t where c: "json_stringify w = c # t" "value_start c" using stringify_start[of w] vs Cons by auto
      have "\<exists>u. join '','' (map json_stringify vs) = c # u" using Cons c by (cases ws) auto
      then obtain u where u: "join '','' (map json_stringify vs) = c # u" by blast
      have "parse_elements m [] (join '','' (map json_stringify vs) @ CHR '']'' # r) = Some (JArray ([] @ vs), r)"
        using l n Cons by (intro parse_elements_text) (use vs in auto)
      then show ?thesis using n br c u by (simp add: value_start_def)
    qed
  qed
next
  case (JObject kvs)
  then have kvs: "\<forall>e\<in>set kvs. parses (snd e) \<and> plain (snd e)" "distinct (map fst kvs)"
    by (auto simp: list_all_iff snds.simps)
  have tx: "json_stringify (JObject kvs) = ''{'' @ join '','' (map entry_text kvs) @ ''}''"
    using JObject.prems plain_entries[of kvs] by simp
  show ?case unfolding parses_def
  proof (intro allI impI)
    fix n r
    assume l: "length (json_stringify (JObject kvs)) \<le> n"
    then obtain m where n: "n = Suc m" by (cases n) auto
    have br: "\<not> is_ws CHR ''{''" "\<not> is_ws CHR ''}''" by (simp_all add: is_ws_def code_def)
    show "parse_value n (json_stringify (JObject kvs) @ r) = Some (JObject kvs, r)"
    proof (cases kvs)
      case Nil
      then show ?thesis using n br by simp
    next
      case (Cons w ws)
      have q: "value_start (char_of (34::nat))" by code_simp
      have "\<exists>u. join '','' (map entry_text kvs) = char_of (34::nat) # u"
        using Cons by (cases ws) (auto simp: entry_text_def json_quote_def)
      then obtain u where u: "join '','' (map entry_text kvs) = char_of (34::nat) # u" by blast
      have "parse_members m [] (join '','' (map entry_text kvs) @ CHR ''}'' # r) = Some (JObject ([] @ kvs), r)"
        using l n Cons tx by (intro parse_members_text) (use kvs in auto)
      then show ?thesis using n br q u unfolding tx by (simp add: value_start_def)
    qed
  qed
qed

lemma json_parse_stringify: "plain v \<Longrightarrow> json_parse (json_stringify v) = Some v"
  using plain_parses[of v] by (auto simp: json_parse_def parses_def number_ends_def dest!: spec[of _ "[]"] spec[of _ "Suc (length (json_stringify v))"])


section \<open>Canonical forms\<close>

lemma canonical_undefined [simp]: "canonical_value v = JUndefined \<longleftrightarrow> v = JUndefined"
  by (cases v) auto

lemma canonical_entries: "\<forall>e\<in>set es. snd e \<noteq> JUndefined \<Longrightarrow>
    concat (map (\<lambda>(k, v). if v = JUndefined then [] else [json_quote k @ '':'' @ json_stringify v])
      (map (\<lambda>e. (fst e, canonical_value (snd e))) es))
    = map (\<lambda>e. json_quote (fst e) @ '':'' @ json_stringify (canonical_value (snd e))) es"
  by (induction es) auto

lemma mapE_text:
  "mapE f xs = Inr ys \<Longrightarrow> (\<And>x y. x \<in> set xs \<Longrightarrow> f x = Inr y \<Longrightarrow> y = g x) \<Longrightarrow> ys = map g xs"
  by (induction xs arbitrary: ys) (auto simp: res_simps)

lemma mapE_all: "mapE f xs = Inr ys \<Longrightarrow> (\<And>x y. x \<in> set xs \<Longrightarrow> f x = Inr y \<Longrightarrow> P x) \<Longrightarrow> \<forall>x\<in>set xs. P x"
  by (induction xs arbitrary: ys) (auto simp: res_simps)

lemma canonicalJson_object:
  assumes "canonicalJson (JObject bag) = Inr s"
  obtains parts where "find (\<lambda>e. \<not> printable_ascii (fst e)) (filter (\<lambda>e. snd e \<noteq> JUndefined) bag) = None"
    "mapE (\<lambda>e. ebind (canonicalJson (snd e)) (\<lambda>t. Inr (json_quote (fst e) @ '':'' @ t)))
       (sort_key fst (filter (\<lambda>e. snd e \<noteq> JUndefined) bag)) = Inr parts"
    "s = ''{'' @ join '','' parts @ ''}''"
proof (cases "find (\<lambda>e. \<not> printable_ascii (fst e)) (filter (\<lambda>e. snd e \<noteq> JUndefined) bag)")
  case None
  then show ?thesis using assms that unfolding canonicalJson.simps Let_def None option.case ebind_Inr
    by blast
next
  case (Some e)
  then show ?thesis using assms unfolding canonicalJson.simps Let_def Some option.case by blast
qed

lemma canonicalJson_text: "canonicalJson v = Inr s \<Longrightarrow> s = json_stringify (canonical_value v)"
proof (induction v arbitrary: s rule: canonicalJson.induct)
  case (3 x)
  then show ?case by (cases x) (auto split: if_splits)
next
  case (5 vs)
  then obtain parts where parts: "mapE canonicalJson vs = Inr parts" "s = ''['' @ join '','' parts @ '']''"
    by (auto simp: res_simps)
  have "parts = map (\<lambda>v. json_stringify (canonical_value v)) vs"
  proof (rule mapE_text[OF parts(1)])
    fix v y assume "v \<in> set vs" "canonicalJson v = Inr y"
    then show "y = json_stringify (canonical_value v)" by (rule 5(1))
  qed
  then show ?case using parts(2) by (simp add: comp_def)
next
  case (6 bag)
  let ?es = "filter (\<lambda>e. snd e \<noteq> JUndefined) bag"
  obtain parts where f: "find (\<lambda>e. \<not> printable_ascii (fst e)) ?es = None" and
    parts: "mapE (\<lambda>e. ebind (canonicalJson (snd e)) (\<lambda>t. Inr (json_quote (fst e) @ '':'' @ t))) (sort_key fst ?es) = Inr parts"
      "s = ''{'' @ join '','' parts @ ''}''"
    using canonicalJson_object[OF 6(2)] by blast
  have "parts = map (\<lambda>e. json_quote (fst e) @ '':'' @ json_stringify (canonical_value (snd e))) (sort_key fst ?es)"
  proof (rule mapE_text[OF parts(1)])
    fix e y
    assume e: "e \<in> set (sort_key fst ?es)" "ebind (canonicalJson (snd e)) (\<lambda>t. Inr (json_quote (fst e) @ '':'' @ t)) = Inr y"
    then show "y = json_quote (fst e) @ '':'' @ json_stringify (canonical_value (snd e))"
      using 6(1)[OF refl f e(1)] by (auto simp: res_simps)
  qed
  then show ?case using parts(2) canonical_entries[of "sort_key fst ?es"] by simp
qed auto

lemma canonical_plain: "canonicalJson v = Inr s \<Longrightarrow> js_object_ok v \<Longrightarrow> plain (canonical_value v)"
proof (induction v arbitrary: s rule: canonicalJson.induct)
  case (3 x)
  then show ?case by (cases x) auto
next
  case (5 vs)
  then obtain parts where parts: "mapE canonicalJson vs = Inr parts" by (auto simp: res_simps)
  have "\<forall>v\<in>set vs. plain (canonical_value v)"
  proof (rule mapE_all[OF parts])
    fix v y assume "v \<in> set vs" "canonicalJson v = Inr y"
    then show "plain (canonical_value v)" using 5(1)[of v] 5(3) by (auto simp: list_all_iff)
  qed
  then show ?case by (simp add: list_all_iff)
next
  case (6 bag)
  let ?es = "filter (\<lambda>e. snd e \<noteq> JUndefined) bag"
  obtain parts where f: "find (\<lambda>e. \<not> printable_ascii (fst e)) ?es = None" and
    parts: "mapE (\<lambda>e. ebind (canonicalJson (snd e)) (\<lambda>t. Inr (json_quote (fst e) @ '':'' @ t))) (sort_key fst ?es) = Inr parts"
    using canonicalJson_object[OF 6(2)] by blast
  have "\<forall>e\<in>set (sort_key fst ?es). plain (canonical_value (snd e))"
  proof (rule mapE_all[OF parts])
    fix e y
    assume e: "e \<in> set (sort_key fst ?es)" "ebind (canonicalJson (snd e)) (\<lambda>t. Inr (json_quote (fst e) @ '':'' @ t)) = Inr y"
    moreover have "js_object_ok (snd e)" using 6(3) e(1) by (auto simp: list_all_iff)
    ultimately show "plain (canonical_value (snd e))" using 6(1)[OF refl f e(1)] by (auto simp: res_simps)
  qed
  moreover have "distinct (map fst (sort_key fst ?es))"
  proof -
    have "distinct (map fst ?es)" using 6(3) by (auto intro: distinct_map_filter)
    then show ?thesis by (simp add: distinct_map)
  qed
  ultimately show ?case by (simp add: list_all_iff comp_def)
qed auto

text \<open>Values the canonical form accepts.\<close>

fun canonical_ok :: "jsval \<Rightarrow> bool" where
  "canonical_ok JUndefined = False"
| "canonical_ok (JNum (JInt i)) = (0 \<le> i \<and> i \<le> MAX_SAFE_INTEGER)"
| "canonical_ok (JNum _) = False"
| "canonical_ok (JArray vs) = list_all canonical_ok vs"
| "canonical_ok (JObject kvs) = list_all (\<lambda>(k, v). v = JUndefined \<or> (printable_ascii k \<and> canonical_ok v)) kvs"
| "canonical_ok _ = True"

lemma mapE_is_ok: "\<forall>x\<in>set xs. is_ok (f x) \<Longrightarrow> is_ok (mapE f xs)"
  by (induction xs) (auto simp: is_ok_iff)

lemma canonicalJson_ok: "canonical_ok v \<Longrightarrow> is_ok (canonicalJson v)"
proof (induction v rule: canonicalJson.induct)
  case (3 x)
  then show ?case by (cases x) auto
next
  case (5 vs)
  then have "is_ok (mapE canonicalJson vs)" by (intro mapE_is_ok) (auto simp: list_all_iff)
  then show ?case by (auto simp: is_ok_iff)
next
  case (6 bag)
  let ?es = "filter (\<lambda>e. snd e \<noteq> JUndefined) bag"
  have es: "\<forall>e\<in>set ?es. printable_ascii (fst e) \<and> canonical_ok (snd e)" using 6(2) by (auto simp: list_all_iff)
  have f: "find (\<lambda>e. \<not> printable_ascii (fst e)) ?es = None" using es by (auto simp: find_None_iff)
  have "is_ok (mapE (\<lambda>e. ebind (canonicalJson (snd e)) (\<lambda>t. Inr (json_quote (fst e) @ '':'' @ t))) (sort_key fst ?es))"
  proof (intro mapE_is_ok ballI)
    fix e assume e: "e \<in> set (sort_key fst ?es)"
    then have "is_ok (canonicalJson (snd e))" using 6(1)[OF refl f e] es by simp
    then show "is_ok (ebind (canonicalJson (snd e)) (\<lambda>t. Inr (json_quote (fst e) @ '':'' @ t)))" by (auto simp: is_ok_iff)
  qed
  then obtain parts where "mapE (\<lambda>e. ebind (canonicalJson (snd e)) (\<lambda>t. Inr (json_quote (fst e) @ '':'' @ t))) (sort_key fst ?es) = Inr parts"
    by (auto simp: is_ok_iff)
  then show ?case unfolding canonicalJson.simps Let_def f option.case by simp
qed auto

section \<open>Properties\<close>

text \<open>
  The canonical form is faithful: whatever it accepts, its text is valid JSON that parses
  back to the same value with the entries of every object sorted and the undefined ones left
  out. So two values have the same signed text exactly when they are that same value.
\<close>

theorem canonicalJson_faithful:
  assumes "js_object_ok v" and "canonicalJson v = Inr s"
  shows "json_parse s = Some (canonical_value v)
    \<and> (\<forall>w. js_object_ok w \<longrightarrow> is_ok (canonicalJson w) \<longrightarrow>
        (canonicalJson w = Inr s \<longleftrightarrow> canonical_value w = canonical_value v))"
proof -
  have t: "s = json_stringify (canonical_value v)" by (rule canonicalJson_text[OF assms(2)])
  have p: "json_parse s = Some (canonical_value v)"
    unfolding t by (rule json_parse_stringify[OF canonical_plain[OF assms(2,1)]])
  have "canonicalJson w = Inr s \<longleftrightarrow> canonical_value w = canonical_value v" if ok: "js_object_ok w" "is_ok (canonicalJson w)" for w
  proof -
    obtain u where u: "canonicalJson w = Inr u" using ok(2) by (auto simp: is_ok_iff)
    have "json_parse u = Some (canonical_value w)" "u = json_stringify (canonical_value w)"
      using canonicalJson_text[OF u] json_parse_stringify[OF canonical_plain[OF u ok(1)]] by auto
    then show ?thesis using p u t by (metis Inr_inject option.inject)
  qed
  then show ?thesis using p by blast
qed

definition example_json :: jsval where
  "example_json = JObject [(''b'', JArray [JNum (JInt 12), JBool True]), (''u'', JUndefined), (''a'', JString [char_of (34::nat), CHR ''x'', char_of (10::nat)])]"

theorem canonicalJson_faithful_witness:
  "\<exists>s. canonicalJson example_json = Inr s \<and> json_parse s = Some (canonical_value example_json)
    \<and> (\<forall>w. js_object_ok w \<longrightarrow> is_ok (canonicalJson w) \<longrightarrow>
        (canonicalJson w = Inr s \<longleftrightarrow> canonical_value w = canonical_value example_json))"
proof -
  have "js_object_ok example_json" by (simp add: example_json_def)
  moreover have "is_ok (canonicalJson example_json)"
    by (simp add: example_json_def printable_ascii_def code_def Let_def)
  ultimately show ?thesis using canonicalJson_faithful[of example_json] by (auto simp: is_ok_iff)
qed

end
