(* ===== verification/StatusCredential.thy ===== *)
theory StatusCredential
imports Age Json StatusList
begin

text \<open>
  The signed envelope of a status list (\<open>status/credential.ts\<close>) and its publisher
  (\<open>status/publisher.ts\<close>). Documents are JSON values. Ed25519 of \<open>node:crypto\<close> and the URL
  parser of the platform are parameters; SHA-256 and UTF-8 are those of the \<open>noble\<close> record.
\<close>

section \<open>Instants as text\<close>

definition pad2 :: "nat \<Rightarrow> string" where
  "pad2 n = [digit_char (n div 10 mod 10), digit_char (n mod 10)]"

definition pad4 :: "nat \<Rightarrow> string" where
  "pad4 n = [digit_char (n div 1000 mod 10), digit_char (n div 100 mod 10), digit_char (n div 10 mod 10), digit_char (n mod 10)]"

definition pad6 :: "nat \<Rightarrow> string" where
  "pad6 n = [digit_char (n div 100000 mod 10), digit_char (n div 10000 mod 10)] @ pad4 n"

text \<open>
  \<open>Date.prototype.toISOString\<close> up to the seconds, for an instant in whole seconds from 1970 on:
  a year above 9999 is written with a sign and six digits; outside \<open>8.64e15\<close> milliseconds there
  is no valid \<open>Date\<close> and the call throws.
\<close>

definition toISOString :: "int \<Rightarrow> string option" where
  "toISOString sec = (if sec > 8640000000000 then None else
     (let ms = sec * 1000; y = nat (getUTCFullYear ms); r = nat (sec mod 86400) in
      Some ((if y \<le> 9999 then pad4 y else CHR ''+'' # pad6 y) @ ''-'' @ pad2 (nat (getUTCMonth ms) + 1) @ ''-'' @ pad2 (nat (getUTCDate ms))
        @ ''T'' @ pad2 (r div 3600) @ '':'' @ pad2 (r div 60 mod 60) @ '':'' @ pad2 (r mod 60) @ ''.000Z'')))"

datatype status_credential_error = SC_BadInstant | SC_NotString string | SC_BadDateTime string | SC_NotRealInstant string
  | SC_Canonical canonical_error | SC_ProofValueEmpty | SC_ProofValuePrefix char | SC_ProofValueEncoding status_list_error
  | SC_ProofValueLength nat | SC_BadSigningKey | SC_KeyRefused
  | SC_NotObject | SC_Context | SC_Type | SC_MissingField string | SC_NoSubject | SC_SubjectType | SC_SubjectFields
  | SC_Unsigned | SC_ProofType | SC_Cryptosuite | SC_ProofPurpose | SC_WrongIssuer | SC_WrongMethod | SC_NoPinnedKey
  | SC_BadSignature | SC_UrlEmpty | SC_UrlNotAbsolute | SC_UrlScheme string | SC_UrlCredentials
  | SC_NoIssuer | SC_NoMethod | SC_BadValidFrom | SC_BadValidUntil | SC_BadRevokedIndex jsnum | SC_Encoding status_list_error

fun toXsdDateTime :: "jsnum \<Rightarrow> status_credential_error + string" where
  "toXsdDateTime (JInt sec) = (if sec < 0 then Inl SC_BadInstant
     else case toISOString sec of None \<Rightarrow> Inl SC_BadInstant | Some text \<Rightarrow> Inr (take 19 text @ ''Z''))"
| "toXsdDateTime _ = Inl SC_BadInstant"

text \<open>The pattern \<open>^\d{4}-\d{2}-\d{2}T\d{2}:\d{2}:\d{2}(\.\d{1,9})?Z$\<close>.\<close>

definition matches :: "string \<Rightarrow> string \<Rightarrow> bool" where
  "matches template s = list_all2 (\<lambda>t c. if t = CHR ''d'' then is_digit c else c = t) template s"

definition xsd_form :: "string \<Rightarrow> bool" where
  "xsd_form s = (matches ''dddd-dd-ddTdd:dd:dd'' (take 19 s) \<and>
     (case drop 19 s of [] \<Rightarrow> False
      | c # r \<Rightarrow> (c = CHR ''Z'' \<and> r = []) \<or>
          (c = CHR ''.'' \<and> r \<noteq> [] \<and> last r = CHR ''Z'' \<and> list_all is_digit (butlast r)
             \<and> 1 \<le> length (butlast r) \<and> length (butlast r) \<le> 9)))"

text \<open>
  \<open>Date.parse\<close> on that form, in milliseconds: as in the runtime of the program, a day of the
  month up to 31 rolls over, and \<open>24:00:00\<close> is the end of the day. Digits of the fraction
  past the third are dropped.
\<close>

definition Date_parse :: "string \<Rightarrow> int option" where
  "Date_parse s = (let y = int (undec (take 4 s)); mo = int (undec (take 2 (drop 5 s))); d = int (undec (take 2 (drop 8 s)));
       h = int (undec (take 2 (drop 11 s))); mi = int (undec (take 2 (drop 14 s))); se = int (undec (take 2 (drop 17 s)));
       ms = int (undec (take 3 (takeWhile is_digit (drop 20 s) @ ''000''))) in
     if mo < 1 \<or> 12 < mo \<or> d < 1 \<or> 31 < d \<or> 59 < mi \<or> 59 < se \<or> 24 < h \<or> (h = 24 \<and> \<not> (mi = 0 \<and> se = 0 \<and> ms = 0)) then None
     else Some ((DayFromYear y + days_before y mo + d - 1) * ms_per_day + h * 3600000 + mi * 60000 + se * 1000 + ms))"

definition parseXsdDateTime :: "jsval \<Rightarrow> string \<Rightarrow> status_credential_error + int" where
  "parseXsdDateTime v field = (case v of JString s \<Rightarrow>
       if \<not> xsd_form s then Inl (SC_BadDateTime field)
       else (case Date_parse s of None \<Rightarrow> Inl (SC_NotRealInstant field) | Some ms \<Rightarrow> Inr (ms div 1000))
     | _ \<Rightarrow> Inl (SC_NotString field))"

lemma pad2_facts: "n < 100 \<Longrightarrow> undec (pad2 n) = n"
proof -
  assume n: "n < 100"
  have "n div 10 mod 10 = n div 10" using n by (intro mod_less) (simp add: less_mult_imp_div_less)
  then show ?thesis by (simp add: undec_def pad2_def)
qed

lemma pad4_facts: "n < 10000 \<Longrightarrow> undec (pad4 n) = n"
proof -
  assume n: "n < 10000"
  have a: "n div 1000 mod 10 = n div 1000" using n by (intro mod_less) (simp add: less_mult_imp_div_less)
  have s: "n = 10 * (n div 10) + n mod 10" "n div 10 = 10 * (n div 100) + n div 10 mod 10" "n div 100 = 10 * (n div 1000) + n div 100 mod 10"
    using mult_div_mod_eq[of 10 n] mult_div_mod_eq[of 10 "n div 10"] mult_div_mod_eq[of 10 "n div 100"]
    by (simp_all add: div_mult2_eq[symmetric])
  have "n div 1000 < 10" using n by (simp add: less_mult_imp_div_less)
  then have "undec (pad4 n) = 10 * (10 * (10 * (n div 1000) + n div 100 mod 10) + n div 10 mod 10) + n mod 10"
    using a by (simp add: undec_def pad4_def)
  also have "\<dots> = n" by (simp only: s[symmetric])
  finally show ?thesis .
qed

lemma pad_lengths [simp]: "length (pad2 n) = 2" "length (pad4 n) = 4"
  by (simp_all add: pad2_def pad4_def)


lemma utc_year_range:
  assumes "0 \<le> sec" "sec < 253402300800"
  shows "1970 \<le> getUTCFullYear (sec * 1000) \<and> getUTCFullYear (sec * 1000) \<le> 9999"
proof -
  define n where "n = sec * 1000 div ms_per_day"
  have "n \<le> 253402300799 * 1000 div ms_per_day" unfolding n_def using assms by (intro zdiv_mono1) auto
  then have n: "0 \<le> n" "n < 2932897" using assms by (auto simp: n_def pos_imp_zdiv_nonneg_iff)
  note b = year_of_day_bounds[of n]
  have D: "DayFromYear 1970 = 0" "DayFromYear 10000 = 2932897" by (simp_all add: DayFromYear_def)
  have "\<not> year_of_day n + 1 \<le> 1970" using DayFromYear_mono[of "year_of_day n + 1" 1970] b n D by auto
  moreover have "\<not> 10000 \<le> year_of_day n" using DayFromYear_mono[of 10000 "year_of_day n"] b n D by auto
  ultimately show ?thesis by (simp add: getUTCFullYear_def n_def)
qed

lemma utc_day_number:
  "DayFromYear (getUTCFullYear ms) + days_before (getUTCFullYear ms) (getUTCMonth ms + 1) + getUTCDate ms - 1 = ms div ms_per_day"
  by (simp add: getUTCFullYear_def getUTCMonth_def getUTCDate_def Let_def)


lemma drop_pad: "drop 2 (pad2 n @ r) = r" "drop 4 (pad4 n @ r) = r" "take 2 (pad2 n @ r) = pad2 n" "take 4 (pad4 n @ r) = pad4 n"
  by (simp_all add: pad2_def pad4_def)

text \<open>The seconds form of an instant of the four-digit years, field by field.\<close>

definition xsd_text :: "nat \<Rightarrow> nat \<Rightarrow> nat \<Rightarrow> nat \<Rightarrow> nat \<Rightarrow> nat \<Rightarrow> string" where
  "xsd_text y mo d h mi se = pad4 y @ ''-'' @ pad2 mo @ ''-'' @ pad2 d @ ''T'' @ pad2 h @ '':'' @ pad2 mi @ '':'' @ pad2 se @ ''Z''"

lemma xsd_text_form: "xsd_form (xsd_text y mo d h mi se)"
  by (simp add: xsd_form_def matches_def xsd_text_def pad2_def pad4_def)

lemma xsd_text_fields:
  "take 4 (xsd_text y mo d h mi se) = pad4 y" "take 2 (drop 5 (xsd_text y mo d h mi se)) = pad2 mo"
  "take 2 (drop 8 (xsd_text y mo d h mi se)) = pad2 d" "take 2 (drop 11 (xsd_text y mo d h mi se)) = pad2 h"
  "take 2 (drop 14 (xsd_text y mo d h mi se)) = pad2 mi" "take 2 (drop 17 (xsd_text y mo d h mi se)) = pad2 se"
  "drop 20 (xsd_text y mo d h mi se) = []"
  by (simp_all add: xsd_text_def pad2_def pad4_def)

lemma parse_xsd_text:
  assumes "y < 10000" "real_date (int y) (int mo) (int d)" "h < 24" "mi < 60" "se < 60"
  shows "parseXsdDateTime (JString (xsd_text y mo d h mi se)) field
     = Inr ((DayFromYear (int y) + days_before (int y) (int mo) + int d - 1) * 86400 + int h * 3600 + int mi * 60 + int se)"
proof -
  have r: "mo \<ge> 1" "mo \<le> 12" "d \<ge> 1" "d \<le> 31"
    using assms(2) by (auto simp: real_date_def month_length_def split: if_splits)
  have f: "undec (pad4 y) = y" "undec (pad2 mo) = mo" "undec (pad2 d) = d" "undec (pad2 h) = h"
    "undec (pad2 mi) = mi" "undec (pad2 se) = se"
    using assms r by (simp_all add: pad2_facts pad4_facts)
  define N where "N = DayFromYear (int y) + days_before (int y) (int mo) + int d - 1"
  have ms: "undec ''000'' = 0" by code_simp
  have "Date_parse (xsd_text y mo d h mi se)
      = Some (N * ms_per_day + int h * 3600000 + int mi * 60000 + int se * 1000)"
    unfolding Date_parse_def Let_def xsd_text_fields f N_def[symmetric] using r assms(3-5) ms by simp
  moreover have "(N * ms_per_day + int h * 3600000 + int mi * 60000 + int se * 1000) div 1000
      = N * 86400 + int h * 3600 + int mi * 60 + int se"
  proof -
    have "N * ms_per_day + int h * 3600000 + int mi * 60000 + int se * 1000
       = (N * 86400 + int h * 3600 + int mi * 60 + int se) * 1000" by simp
    then show ?thesis by simp
  qed
  ultimately show ?thesis
    unfolding parseXsdDateTime_def N_def[symmetric] using xsd_text_form by simp
qed

lemma toXsd_text:
  assumes "0 \<le> sec" "sec < 253402300800"
  shows "toXsdDateTime (JInt sec) = Inr (xsd_text (nat (getUTCFullYear (sec * 1000))) (nat (getUTCMonth (sec * 1000) + 1))
     (nat (getUTCDate (sec * 1000))) (nat (sec mod 86400) div 3600) (nat (sec mod 86400) div 60 mod 60) (nat (sec mod 86400) mod 60))"
proof -
  have "nat (getUTCFullYear (sec * 1000)) \<le> 9999" using utc_year_range[OF assms] by (simp only: nat_le_iff of_nat_numeral)
  moreover have "nat (getUTCMonth (sec * 1000)) + 1 = nat (getUTCMonth (sec * 1000) + 1)"
    using utc_real[of "sec * 1000"] by (simp add: real_date_def Suc_nat_eq_nat_zadd1)
  ultimately show ?thesis
    using assms by (simp add: toISOString_def Let_def xsd_text_def pad2_def pad4_def)
qed

lemma xsd_roundtrip:
  assumes "0 \<le> sec" "sec < 253402300800"
  shows "\<exists>s. toXsdDateTime (JInt sec) = Inr s \<and> parseXsdDateTime (JString s) field = Inr sec"
proof -
  define ms where "ms = sec * 1000"
  define r where "r = nat (sec mod 86400)"
  have y: "1970 \<le> getUTCFullYear ms" "getUTCFullYear ms \<le> 9999" using utc_year_range[OF assms] by (simp_all add: ms_def)
  have rd: "real_date (getUTCFullYear ms) (getUTCMonth ms + 1) (getUTCDate ms)" by (rule utc_real)
  then have pos: "1 \<le> getUTCMonth ms + 1" "1 \<le> getUTCDate ms" by (simp_all add: real_date_def)
  have r: "r < 86400" by (simp add: r_def nat_less_iff)
  then have h: "r div 3600 < 24" by (simp add: less_mult_imp_div_less)
  have p: "parseXsdDateTime (JString (xsd_text (nat (getUTCFullYear ms)) (nat (getUTCMonth ms + 1)) (nat (getUTCDate ms))
        (r div 3600) (r div 60 mod 60) (r mod 60))) field
      = Inr ((ms div ms_per_day) * 86400 + int (r div 3600) * 3600 + int (r div 60 mod 60) * 60 + int (r mod 60))"
    using parse_xsd_text[of "nat (getUTCFullYear ms)" "nat (getUTCMonth ms + 1)" "nat (getUTCDate ms)" "r div 3600" "r div 60 mod 60" "r mod 60" field]
      y pos rd h utc_day_number[of ms] by simp
  have "r = r div 3600 * 3600 + r div 60 mod 60 * 60 + r mod 60"
  proof -
    have "r = 60 * (r div 60) + r mod 60" "r div 60 = 60 * (r div 3600) + r div 60 mod 60"
      using mult_div_mod_eq[of 60 r] mult_div_mod_eq[of 60 "r div 60"] by (simp_all add: div_mult2_eq[symmetric])
    then show ?thesis by linarith
  qed
  then have "int (r div 3600) * 3600 + int (r div 60 mod 60) * 60 + int (r mod 60) = int r" by linarith
  moreover have "ms div ms_per_day = sec div 86400" unfolding ms_def using div_mult_mult2[of 1000 sec 86400] by simp
  moreover have "int r = sec mod 86400" by (simp add: r_def)
  ultimately have "(ms div ms_per_day) * 86400 + int (r div 3600) * 3600 + int (r div 60 mod 60) * 60 + int (r mod 60) = sec"
    using mult_div_mod_eq[of 86400 sec] by linarith
  then show ?thesis using toXsd_text[OF assms] p unfolding ms_def[symmetric] r_def[symmetric] by simp
qed


section \<open>The signature\<close>

text \<open>
  Ed25519 of the platform, on keys in their DER form; \<open>None\<close> where importing the key throws.
  \<open>ed_public\<close> is the public key of a seed.
\<close>

record ed25519 =
  ed_public :: "bytes \<Rightarrow> bytes"
  ed_sign :: "bytes \<Rightarrow> bytes \<Rightarrow> bytes option"
  ed_verify :: "bytes \<Rightarrow> bytes \<Rightarrow> bytes \<Rightarrow> bool option"

definition hex_const :: "string \<Rightarrow> bytes" where
  "hex_const s = (case ref_unhex s of None \<Rightarrow> [] | Some b \<Rightarrow> b)"

definition PKCS8_PROLOGUE :: bytes where
  "PKCS8_PROLOGUE = hex_const ''302e020100300506032b657004220420''"

definition SPKI_PROLOGUE :: bytes where
  "SPKI_PROLOGUE = hex_const ''302a300506032b6570032100''"

text \<open>The documented behaviour: a signature under a seed verifies under the seed's public key.\<close>

definition ed25519_ok :: "ed25519 \<Rightarrow> bool" where
  "ed25519_ok E = (\<forall>seed msg. length seed = 32 \<longrightarrow> length (ed_public E seed) = 32 \<and>
     (\<exists>sig. ed_sign E (PKCS8_PROLOGUE @ seed) msg = Some sig \<and> length sig = 64
       \<and> ed_verify E (SPKI_PROLOGUE @ ed_public E seed) msg sig = Some True))"

definition STATUS_LIST_CRYPTOSUITE :: string where
  "STATUS_LIST_CRYPTOSUITE = ''stellaronramp-eddsa-jcs-2026''"

definition STATUS_LIST_DOMAIN :: string where
  "STATUS_LIST_DOMAIN = ''stellaronramp.status-list.pub.v1''"

definition VC_V2_CONTEXT :: string where
  "VC_V2_CONTEXT = ''https://www.w3.org/ns/credentials/v2''"

definition BITSTRING_STATUS_LIST_CREDENTIAL_TYPE :: string where
  "BITSTRING_STATUS_LIST_CREDENTIAL_TYPE = ''BitstringStatusListCredential''"

definition BITSTRING_STATUS_LIST_TYPE :: string where
  "BITSTRING_STATUS_LIST_TYPE = ''BitstringStatusList''"

text \<open>The rest pattern \<open>{ k: _, ...rest }\<close> and the spread \<open>{ ...obj, k: v }\<close>.\<close>

fun omit :: "string \<Rightarrow> jsval \<Rightarrow> jsval" where
  "omit k (JObject kvs) = JObject (filter (\<lambda>e. fst e \<noteq> k) kvs)"
| "omit k _ = JObject []"

fun with_entry :: "string \<Rightarrow> jsval \<Rightarrow> jsval \<Rightarrow> jsval" where
  "with_entry k v (JObject kvs) = JObject (put_entry k v kvs)"
| "with_entry k v _ = JObject [(k, v)]"

definition statusListSigningInput :: "noble \<Rightarrow> jsval \<Rightarrow> jsval \<Rightarrow> status_credential_error + bytes" where
  "statusListSigningInput N doc proofConfig =
     ebind (map_err SC_Canonical (canonicalJson proofConfig)) (\<lambda>cfg.
     ebind (map_err SC_Canonical (canonicalJson (omit ''proof'' doc))) (\<lambda>unsigned.
       Inr (utf8ToBytes N STATUS_LIST_DOMAIN @ sha256 N (utf8ToBytes N cfg) @ sha256 N (utf8ToBytes N unsigned))))"

definition encodeProofValue :: "bytes \<Rightarrow> string" where
  "encodeProofValue signature = ''u'' @ base64urlEncode signature"

definition decodeProofValue :: "jsval \<Rightarrow> status_credential_error + bytes" where
  "decodeProofValue v = (case js_string v of None \<Rightarrow> Inl SC_ProofValueEmpty
     | Some s \<Rightarrow> (case s of [] \<Rightarrow> Inl SC_ProofValueEmpty
       | c # rest \<Rightarrow> if c \<noteq> CHR ''u'' then Inl (SC_ProofValuePrefix c)
           else ebind (map_err SC_ProofValueEncoding (base64urlDecode rest)) (\<lambda>bs.
             if length bs \<noteq> 64 then Inl (SC_ProofValueLength (length bs)) else Inr bs)))"

record signing_key =
  sk_seed :: "bytes option"
  sk_pkcs8Der :: "bytes option"

definition assertSeed :: "bytes option \<Rightarrow> status_credential_error + bytes" where
  "assertSeed seed = (case seed of None \<Rightarrow> Inl SC_BadSigningKey
     | Some s \<Rightarrow> if length s \<noteq> 32 then Inl SC_BadSigningKey else Inr s)"

definition private_key_der :: "signing_key \<Rightarrow> status_credential_error + bytes" where
  "private_key_der key = (case sk_pkcs8Der key of Some der \<Rightarrow> Inr der
     | None \<Rightarrow> ebind (assertSeed (sk_seed key)) (\<lambda>s. Inr (PKCS8_PROLOGUE @ s)))"

definition signStatusListCredential ::
  "noble \<Rightarrow> ed25519 \<Rightarrow> jsval \<Rightarrow> signing_key \<Rightarrow> jsval \<Rightarrow> status_credential_error + jsval" where
  "signStatusListCredential N E doc key proofConfig =
     ebind (private_key_der key) (\<lambda>der.
     ebind (statusListSigningInput N doc proofConfig) (\<lambda>input.
     case ed_sign E der input of None \<Rightarrow> Inl SC_KeyRefused
     | Some sig \<Rightarrow> Inr (with_entry ''proof'' (with_entry ''proofValue'' (JString (encodeProofValue sig)) proofConfig) doc)))"

section \<open>The shape of a document\<close>

definition nonempty_string :: "jsval \<Rightarrow> bool" where
  "nonempty_string v = (case v of JString s \<Rightarrow> s \<noteq> [] | _ \<Rightarrow> False)"

fun js_includes :: "jsval \<Rightarrow> string \<Rightarrow> bool" where
  "js_includes (JArray vs) s = (JString s \<in> set vs)"
| "js_includes _ s = False"

definition assertDocumentShape :: "jsval \<Rightarrow> status_credential_error + jsval" where
  "assertDocumentShape doc =
     (if \<not> is_object doc then Inl SC_NotObject
      else if \<not> js_includes (jget ''@context'' doc) VC_V2_CONTEXT then Inl SC_Context
      else if \<not> js_includes (jget ''type'' doc) BITSTRING_STATUS_LIST_CREDENTIAL_TYPE then Inl SC_Type
      else case find (\<lambda>k. \<not> nonempty_string (jget k doc)) [''id'', ''issuer'', ''validFrom'', ''validUntil''] of
        Some k \<Rightarrow> Inl (SC_MissingField k)
      | None \<Rightarrow> (let sub = jget ''credentialSubject'' doc in
          if \<not> is_object sub then Inl SC_NoSubject
          else if jget ''type'' sub \<noteq> JString BITSTRING_STATUS_LIST_TYPE then Inl SC_SubjectType
          else if js_string (jget ''statusPurpose'' sub) = None \<or> js_string (jget ''encodedList'' sub) = None
          then Inl SC_SubjectFields
          else Inr doc))"

record pinned_key =
  pk_publicKeyRaw :: bytes
  pk_issuer :: string
  pk_verificationMethod :: "string option"

definition verifyStatusListCredential ::
  "noble \<Rightarrow> ed25519 \<Rightarrow> jsval \<Rightarrow> pinned_key \<Rightarrow> status_credential_error + jsval" where
  "verifyStatusListCredential N E document expected =
     ebind (assertDocumentShape document) (\<lambda>doc.
     let prf = jget ''proof'' doc in
     if prf = JUndefined then Inl SC_Unsigned
     else if jget ''type'' prf \<noteq> JString ''DataIntegrityProof'' then Inl SC_ProofType
     else if jget ''cryptosuite'' prf \<noteq> JString STATUS_LIST_CRYPTOSUITE then Inl SC_Cryptosuite
     else if jget ''proofPurpose'' prf \<noteq> JString ''assertionMethod'' then Inl SC_ProofPurpose
     else if jget ''issuer'' doc \<noteq> JString (pk_issuer expected) then Inl SC_WrongIssuer
     else if (case pk_verificationMethod expected of None \<Rightarrow> False
              | Some vm \<Rightarrow> jget ''verificationMethod'' prf \<noteq> JString vm) then Inl SC_WrongMethod
     else if length (pk_publicKeyRaw expected) \<noteq> 32 then Inl SC_NoPinnedKey
     else ebind (decodeProofValue (jget ''proofValue'' prf)) (\<lambda>signature.
       ebind (statusListSigningInput N doc (omit ''proofValue'' prf)) (\<lambda>input.
       case ed_verify E (SPKI_PROLOGUE @ pk_publicKeyRaw expected) input signature of
         None \<Rightarrow> Inl SC_KeyRefused
       | Some ok \<Rightarrow> if \<not> ok then Inl SC_BadSignature else Inr doc)))"

fun size_field :: "jsval \<Rightarrow> jsnum option" where
  "size_field JUndefined = None"
| "size_field (JNum x) = Some x"
| "size_field _ = Some JNaN"

definition text_field :: "jsval \<Rightarrow> string" where
  "text_field v = (case js_string v of None \<Rightarrow> [] | Some s \<Rightarrow> s)"

definition toBitstringStatusList :: "jsval \<Rightarrow> bitstring_status_list" where
  "toBitstringStatusList doc = (let sub = jget ''credentialSubject'' doc in
     \<lparr> statusPurpose = text_field (jget ''statusPurpose'' sub), encodedList = text_field (jget ''encodedList'' sub),
       statusSize = size_field (jget ''statusSize'' sub), statusMessage = jget ''statusMessage'' sub \<rparr>)"

section \<open>Publishing (\<open>status/publisher.ts\<close>)\<close>

text \<open>The platform's URL parser: the parts of a URL the program reads.\<close>

record url =
  u_protocol :: string
  u_username :: string
  u_password :: string
  u_href :: string

record url_platform =
  url_parse :: "string \<Rightarrow> url option"
  url_resolve :: "string \<Rightarrow> string \<Rightarrow> url option"

definition assertHttpsUrl :: "url_platform \<Rightarrow> string \<Rightarrow> status_credential_error + url" where
  "assertHttpsUrl U raw = (if raw = [] then Inl SC_UrlEmpty
     else case url_parse U raw of None \<Rightarrow> Inl SC_UrlNotAbsolute
     | Some u \<Rightarrow> if u_protocol u \<noteq> ''https:'' then Inl (SC_UrlScheme (u_protocol u))
         else if u_username u \<noteq> [] \<or> u_password u \<noteq> [] then Inl SC_UrlCredentials
         else Inr u)"

definition DEFAULT_STATUS_LIST_VALIDITY_SECONDS :: int where
  "DEFAULT_STATUS_LIST_VALIDITY_SECONDS = 24 * 60 * 60"

record PublishStatusListRequest =
  pb_url :: string
  pb_issuer :: string
  pb_verificationMethod :: string
  pb_statusPurpose :: string
  pb_revoked :: "jsnum list"
  pb_entries :: "jsnum option"
  pb_statusSize :: "jsnum option"
  pb_validFrom :: jsnum
  pb_validUntil :: "jsnum option"
  pb_signingKey :: signing_key

fun js_add :: "jsnum \<Rightarrow> int \<Rightarrow> jsnum" where
  "js_add (JInt i) k = JInt (i + k)"
| "js_add (JFrac i) k = JFrac (i + k)"
| "js_add x k = x"

fun check_revoked :: "jsnum list \<Rightarrow> status_credential_error + unit" where
  "check_revoked [] = Inr ()"
| "check_revoked (JInt i # rest) = (if i < 0 then Inl (SC_BadRevokedIndex (JInt i)) else check_revoked rest)"
| "check_revoked (x # rest) = Inl (SC_BadRevokedIndex x)"

fun optional :: "string \<Rightarrow> jsval \<Rightarrow> (string \<times> jsval) list" where
  "optional k JUndefined = []"
| "optional k v = [(k, v)]"

definition list_subject :: "string \<Rightarrow> bitstring_status_list \<Rightarrow> jsval" where
  "list_subject listUrl l = JObject ([(''id'', JString (listUrl @ ''#list'')), (''type'', JString BITSTRING_STATUS_LIST_TYPE),
     (''statusPurpose'', JString (statusPurpose l)), (''encodedList'', JString (encodedList l))]
     @ optional ''statusSize'' (case statusSize l of None \<Rightarrow> JUndefined | Some x \<Rightarrow> JNum x)
     @ optional ''statusMessage'' (statusMessage l))"

definition unsigned_document :: "PublishStatusListRequest \<Rightarrow> bitstring_status_list \<Rightarrow> string \<Rightarrow> string \<Rightarrow> jsval" where
  "unsigned_document q l vf vu = JObject [(''@context'', JArray [JString VC_V2_CONTEXT]), (''id'', JString (pb_url q)),
     (''type'', JArray [JString ''VerifiableCredential'', JString BITSTRING_STATUS_LIST_CREDENTIAL_TYPE]),
     (''issuer'', JString (pb_issuer q)), (''validFrom'', JString vf), (''validUntil'', JString vu),
     (''credentialSubject'', list_subject (pb_url q) l)]"

definition proof_config :: "PublishStatusListRequest \<Rightarrow> string \<Rightarrow> jsval" where
  "proof_config q vf = JObject [(''type'', JString ''DataIntegrityProof''), (''cryptosuite'', JString STATUS_LIST_CRYPTOSUITE),
     (''created'', JString vf), (''verificationMethod'', JString (pb_verificationMethod q)),
     (''proofPurpose'', JString ''assertionMethod'')]"

definition publishStatusList ::
  "noble \<Rightarrow> ed25519 \<Rightarrow> gzip_platform \<Rightarrow> url_platform \<Rightarrow> PublishStatusListRequest \<Rightarrow> status_credential_error + jsval" where
  "publishStatusList N E G U q =
     ebind (assertHttpsUrl U (pb_url q)) (\<lambda>_.
     if pb_issuer q = [] then Inl SC_NoIssuer
     else if pb_verificationMethod q = [] then Inl SC_NoMethod
     else let validFrom = pb_validFrom q;
              validUntil = (case pb_validUntil q of Some x \<Rightarrow> x | None \<Rightarrow> js_add validFrom DEFAULT_STATUS_LIST_VALIDITY_SECONDS) in
     if \<not> js_isInteger validFrom \<or> js_less validFrom 0 then Inl SC_BadValidFrom
     else case (validFrom, validUntil) of
       (JInt vf, JInt vu) \<Rightarrow>
         if vu \<le> vf then Inl SC_BadValidUntil
         else ebind (check_revoked (pb_revoked q)) (\<lambda>_.
         ebind (map_err SC_Encoding (encodeStatusList G \<lparr> e_statusPurpose = pb_statusPurpose q, e_set = pb_revoked q,
                  e_entries = pb_entries q, e_statusSize = pb_statusSize q \<rparr>)) (\<lambda>l.
         ebind (toXsdDateTime validFrom) (\<lambda>from.
         ebind (toXsdDateTime validUntil) (\<lambda>until.
         signStatusListCredential N E (unsigned_document q l from until) (pb_signingKey q) (proof_config q from)))))
     | _ \<Rightarrow> Inl SC_BadValidUntil)"


section \<open>Facts\<close>

lemma domain_length: "noble_ok N \<Longrightarrow> length (utf8ToBytes N STATUS_LIST_DOMAIN) = 32"
proof -
  assume N: "noble_ok N"
  have "list_all (\<lambda>c. (of_char c :: nat) < 128) STATUS_LIST_DOMAIN" "length STATUS_LIST_DOMAIN = 32"
    by (simp_all add: STATUS_LIST_DOMAIN_def)
  then show ?thesis using noble_utf8_ascii[OF N] by metis
qed

lemma omit_with_entry: "k \<notin> fst ` set kvs \<Longrightarrow> omit k (with_entry k v (JObject kvs)) = JObject kvs"
  by (auto simp: put_entry_fresh intro: filter_True)

lemma map_of_put_entry: "map_of (put_entry k v kvs) k' = (if k' = k then Some v else map_of kvs k')"
  by (induction k v kvs rule: put_entry.induct) auto

lemma jget_with_entry: "jget k' (with_entry k v (JObject kvs)) = (if k' = k then v else jget k' (JObject kvs))"
  by (simp add: map_of_put_entry)

lemma decodeProofValue_Inr: "decodeProofValue v = Inr bs \<longleftrightarrow> v = JString (encodeProofValue bs) \<and> length bs = 64"
proof (cases v)
  case (JString s)
  show ?thesis
  proof (cases s)
    case (Cons c rest)
    then show ?thesis using JString
      by (auto simp: decodeProofValue_def encodeProofValue_def res_simps base64urlDecode_iff)
  qed (use JString in \<open>auto simp: decodeProofValue_def encodeProofValue_def\<close>)
qed (auto simp: decodeProofValue_def)

text \<open>What acceptance of a document means.\<close>

definition document_verified :: "noble \<Rightarrow> ed25519 \<Rightarrow> jsval \<Rightarrow> pinned_key \<Rightarrow> bool" where
  "document_verified N E doc expected = (let prf = jget ''proof'' doc in
     assertDocumentShape doc = Inr doc \<and> jget ''type'' prf = JString ''DataIntegrityProof''
     \<and> jget ''cryptosuite'' prf = JString STATUS_LIST_CRYPTOSUITE \<and> jget ''proofPurpose'' prf = JString ''assertionMethod''
     \<and> jget ''issuer'' doc = JString (pk_issuer expected)
     \<and> (\<forall>vm. pk_verificationMethod expected = Some vm \<longrightarrow> jget ''verificationMethod'' prf = JString vm)
     \<and> length (pk_publicKeyRaw expected) = 32
     \<and> (\<exists>sig input. jget ''proofValue'' prf = JString (encodeProofValue sig) \<and> length sig = 64
          \<and> statusListSigningInput N doc (omit ''proofValue'' prf) = Inr input
          \<and> ed_verify E (SPKI_PROLOGUE @ pk_publicKeyRaw expected) input sig = Some True))"

lemma assertDocumentShape_Inr: "assertDocumentShape d = Inr d' \<Longrightarrow> d' = d"
  by (auto simp: assertDocumentShape_def Let_def split: if_splits option.splits)

lemma verifyStatusListCredential_Inr:
  "verifyStatusListCredential N E d expected = Inr d' \<longleftrightarrow> d' = d \<and> document_verified N E d expected"
proof (cases "assertDocumentShape d")
  case (Inl e)
  then show ?thesis by (auto simp: verifyStatusListCredential_def document_verified_def Let_def)
next
  case (Inr x)
  then have x: "x = d" by (rule assertDocumentShape_Inr)
  have nu: "jget ''type'' JUndefined = JUndefined" by simp
  have vm: "(case pk_verificationMethod expected of None \<Rightarrow> False | Some vm \<Rightarrow> P vm)
      \<longleftrightarrow> \<not> (\<forall>vm. pk_verificationMethod expected = Some vm \<longrightarrow> \<not> P vm)" for P
    by (cases "pk_verificationMethod expected") auto
  have fin: "(case r of None \<Rightarrow> Inl SC_KeyRefused | Some ok \<Rightarrow> if \<not> ok then Inl SC_BadSignature else Inr d) = Inr d'
      \<longleftrightarrow> r = Some True \<and> d' = d" for r
    by (cases r) auto
  show ?thesis
    unfolding verifyStatusListCredential_def document_verified_def Inr x Let_def ebind.simps vm if_Inl_Inr ebind_Inr
      decodeProofValue_Inr fin
    using nu by auto
qed

lemma js_string_Some [simp]: "js_string v = Some s \<longleftrightarrow> v = JString s"
  by (cases v) auto

text \<open>A published document: its list and its two instants.\<close>

lemma published_document:
  assumes "publishStatusList N E G U q = Inr doc"
  obtains vf vu l vft vut where "pb_validFrom q = JInt vf" "0 \<le> vf" "vf < vu"
    "pb_validUntil q = None \<and> vu = vf + 86400 \<or> pb_validUntil q = Some (JInt vu)"
    "pb_issuer q \<noteq> []" "pb_verificationMethod q \<noteq> []" "pb_url q \<noteq> []" "is_ok (check_revoked (pb_revoked q))"
    "encodeStatusList G \<lparr> e_statusPurpose = pb_statusPurpose q, e_set = pb_revoked q,
                  e_entries = pb_entries q, e_statusSize = pb_statusSize q \<rparr> = Inr l"
    "toXsdDateTime (JInt vf) = Inr vft" "toXsdDateTime (JInt vu) = Inr vut"
    "signStatusListCredential N E (unsigned_document q l vft vut) (pb_signingKey q) (proof_config q vft) = Inr doc"
proof -
  obtain u where u: "assertHttpsUrl U (pb_url q) = Inr u" and ne: "pb_issuer q \<noteq> []" "pb_verificationMethod q \<noteq> []"
    using assms unfolding publishStatusList_def ebind_Inr if_Inl_Inr Let_def by blast
  have url: "pb_url q \<noteq> []" using u by (auto simp: assertHttpsUrl_def)
  obtain vf where vf: "pb_validFrom q = JInt vf" "0 \<le> vf"
    using assms u ne by (cases "pb_validFrom q") (auto simp: publishStatusList_def Let_def split: if_splits)
  let ?vu = "case pb_validUntil q of Some x \<Rightarrow> x | None \<Rightarrow> js_add (JInt vf) DEFAULT_STATUS_LIST_VALIDITY_SECONDS"
  have body: "(case ?vu of JInt vu \<Rightarrow> if vu \<le> vf then Inl SC_BadValidUntil
         else ebind (check_revoked (pb_revoked q)) (\<lambda>_.
         ebind (map_err SC_Encoding (encodeStatusList G \<lparr> e_statusPurpose = pb_statusPurpose q, e_set = pb_revoked q,
                  e_entries = pb_entries q, e_statusSize = pb_statusSize q \<rparr>)) (\<lambda>l.
         ebind (toXsdDateTime (JInt vf)) (\<lambda>vft.
         ebind (toXsdDateTime ?vu) (\<lambda>vut.
         signStatusListCredential N E (unsigned_document q l vft vut) (pb_signingKey q) (proof_config q vft)))))
       | _ \<Rightarrow> Inl SC_BadValidUntil) = Inr doc"
    using assms unfolding publishStatusList_def u ebind.simps Let_def vf(1) using ne vf(2) by (simp split: jsnum.splits)
  obtain vu where vu: "?vu = JInt vu" using body by (cases ?vu) auto
  have vu': "pb_validUntil q = None \<and> vu = vf + 86400 \<or> pb_validUntil q = Some (JInt vu)"
    using vu by (cases "pb_validUntil q") (auto simp: DEFAULT_STATUS_LIST_VALIDITY_SECONDS_def)
  show ?thesis
    using body unfolding vu jsnum.case if_Inl_Inr ebind_Inr map_err_Inr
    using that[OF vf _ vu' ne url] by (auto simp: is_ok_iff not_le)
qed


lemma list_subject_reads:
  "toBitstringStatusList (JObject ([(''@context'', a), (''id'', b), (''type'', c), (''issuer'', d), (''validFrom'', e), (''validUntil'', f),
     (''credentialSubject'', list_subject w l)] @ rest)) = l"
proof -
  have "size_field (jget ''statusSize'' (list_subject w l)) = statusSize l"
    by (cases "statusSize l"; cases "statusMessage l") (auto simp: list_subject_def)
  moreover have "jget ''statusMessage'' (list_subject w l) = statusMessage l"
    by (cases "statusSize l"; cases "statusMessage l") (auto simp: list_subject_def)
  ultimately show ?thesis
    by (simp add: toBitstringStatusList_def Let_def text_field_def) (simp add: list_subject_def)
qed

lemma signed_with_seed:
  assumes "ed25519_ok E" "sk_pkcs8Der key = None" "sk_seed key = Some seed"
    and "signStatusListCredential N E (JObject d) key (JObject cfg) = Inr doc"
    and "''proof'' \<notin> fst ` set d" "''proofValue'' \<notin> fst ` set cfg"
  obtains sig input where "doc = JObject (d @ [(''proof'', JObject (cfg @ [(''proofValue'', JString (encodeProofValue sig))]))])"
    "length sig = 64" "length (ed_public E seed) = 32" "statusListSigningInput N doc (JObject cfg) = Inr input"
    "ed_verify E (SPKI_PROLOGUE @ ed_public E seed) input sig = Some True"
proof -
  have seed: "length seed = 32"
    using assms(2-4) by (auto simp: signStatusListCredential_def private_key_der_def assertSeed_def res_simps split: if_splits)
  obtain input where input: "statusListSigningInput N (JObject d) (JObject cfg) = Inr input"
    using assms(4) by (auto simp: signStatusListCredential_def res_simps)
  obtain sig where sig: "ed_sign E (PKCS8_PROLOGUE @ seed) input = Some sig" "length sig = 64"
    "ed_verify E (SPKI_PROLOGUE @ ed_public E seed) input sig = Some True" "length (ed_public E seed) = 32"
    using assms(1) seed unfolding ed25519_ok_def by blast
  have doc: "doc = JObject (d @ [(''proof'', JObject (cfg @ [(''proofValue'', JString (encodeProofValue sig))]))])"
    using assms(2-4) seed input sig(1) put_entry_fresh[OF assms(5)] put_entry_fresh[OF assms(6)]
    by (simp add: signStatusListCredential_def private_key_der_def assertSeed_def)
  have "omit ''proof'' doc = omit ''proof'' (JObject d)" unfolding doc by simp
  then have "statusListSigningInput N doc (JObject cfg) = Inr input"
    using input unfolding statusListSigningInput_def by simp
  then show ?thesis using that[OF doc sig(2,4) _ sig(3)] by blast
qed

lemma toXsd_nonempty: "toXsdDateTime x = Inr s \<Longrightarrow> s \<noteq> []"
  by (cases x) (auto split: if_splits option.splits)

text \<open>A published document, entry by entry.\<close>

definition published_proof :: "PublishStatusListRequest \<Rightarrow> string \<Rightarrow> (string \<times> jsval) list" where
  "published_proof q s = [(''type'', JString ''DataIntegrityProof''), (''cryptosuite'', JString STATUS_LIST_CRYPTOSUITE),
     (''created'', JString s), (''verificationMethod'', JString (pb_verificationMethod q)),
     (''proofPurpose'', JString ''assertionMethod'')]"

definition published_body ::
  "PublishStatusListRequest \<Rightarrow> bitstring_status_list \<Rightarrow> string \<Rightarrow> string \<Rightarrow> bytes \<Rightarrow> jsval" where
  "published_body q l s t sig = JObject ([(''@context'', JArray [JString VC_V2_CONTEXT]), (''id'', JString (pb_url q)),
     (''type'', JArray [JString ''VerifiableCredential'', JString BITSTRING_STATUS_LIST_CREDENTIAL_TYPE]),
     (''issuer'', JString (pb_issuer q)), (''validFrom'', JString s), (''validUntil'', JString t),
     (''credentialSubject'', list_subject (pb_url q) l)]
     @ [(''proof'', JObject (published_proof q s @ [(''proofValue'', JString (encodeProofValue sig))]))])"

lemma published_form:
  assumes "ed25519_ok E" "publishStatusList N E G U q = Inr doc"
    and "sk_pkcs8Der (pb_signingKey q) = None" "sk_seed (pb_signingKey q) = Some seed"
  obtains vf vu l s t sig input where "pb_validFrom q = JInt vf" "0 \<le> vf" "vf < vu"
    "pb_validUntil q = None \<and> vu = vf + 86400 \<or> pb_validUntil q = Some (JInt vu)"
    "pb_issuer q \<noteq> []" "pb_url q \<noteq> []"
    "encodeStatusList G \<lparr> e_statusPurpose = pb_statusPurpose q, e_set = pb_revoked q,
                  e_entries = pb_entries q, e_statusSize = pb_statusSize q \<rparr> = Inr l"
    "toXsdDateTime (JInt vf) = Inr s" "toXsdDateTime (JInt vu) = Inr t"
    "doc = published_body q l s t sig" "length sig = 64" "length (ed_public E seed) = 32"
    "statusListSigningInput N doc (JObject (published_proof q s)) = Inr input"
    "ed_verify E (SPKI_PROLOGUE @ ed_public E seed) input sig = Some True"
proof -
  obtain vf vu l s t where p: "pb_validFrom q = JInt vf" "0 \<le> vf" "vf < vu"
    "pb_validUntil q = None \<and> vu = vf + 86400 \<or> pb_validUntil q = Some (JInt vu)" "pb_issuer q \<noteq> []" "pb_url q \<noteq> []"
    "encodeStatusList G \<lparr> e_statusPurpose = pb_statusPurpose q, e_set = pb_revoked q,
                  e_entries = pb_entries q, e_statusSize = pb_statusSize q \<rparr> = Inr l"
    "toXsdDateTime (JInt vf) = Inr s" "toXsdDateTime (JInt vu) = Inr t"
    "signStatusListCredential N E (unsigned_document q l s t) (pb_signingKey q) (proof_config q s) = Inr doc"
    by (rule published_document[OF assms(2)]) blast
  have cfg: "proof_config q s = JObject (published_proof q s)" by (simp add: proof_config_def published_proof_def)
  note sd = signed_with_seed[OF assms(1,3,4) p(10)[unfolded unsigned_document_def cfg]]
  have fresh: "''proofValue'' \<notin> fst ` set (published_proof q s)" by (simp add: published_proof_def)
  show ?thesis
    by (rule sd[OF _ fresh]) (use that p in \<open>auto simp: published_body_def\<close>)
qed

lemma published_verifies:
  assumes "ed25519_ok E" "publishStatusList N E G U q = Inr doc"
    and "sk_pkcs8Der (pb_signingKey q) = None" "sk_seed (pb_signingKey q) = Some seed"
  shows "verifyStatusListCredential N E doc \<lparr> pk_publicKeyRaw = ed_public E seed, pk_issuer = pb_issuer q,
      pk_verificationMethod = Some (pb_verificationMethod q) \<rparr> = Inr doc
    \<and> encodeStatusList G \<lparr> e_statusPurpose = pb_statusPurpose q, e_set = pb_revoked q,
                  e_entries = pb_entries q, e_statusSize = pb_statusSize q \<rparr> = Inr (toBitstringStatusList doc)"
proof -
  obtain vf vu l s t sig input where p: "pb_issuer q \<noteq> []" "pb_url q \<noteq> []"
    "encodeStatusList G \<lparr> e_statusPurpose = pb_statusPurpose q, e_set = pb_revoked q,
                  e_entries = pb_entries q, e_statusSize = pb_statusSize q \<rparr> = Inr l"
    "toXsdDateTime (JInt vf) = Inr s" "toXsdDateTime (JInt vu) = Inr t"
    and doc: "doc = published_body q l s t sig" and sig: "length sig = 64" "length (ed_public E seed) = 32"
    and input: "statusListSigningInput N doc (JObject (published_proof q s)) = Inr input"
      "ed_verify E (SPKI_PROLOGUE @ ed_public E seed) input sig = Some True"
    by (rule published_form[OF assms]) blast
  have l: "toBitstringStatusList doc = l" unfolding doc published_body_def by (rule list_subject_reads)
  have ls: "is_object (list_subject (pb_url q) l)" "jget ''type'' (list_subject (pb_url q) l) = JString BITSTRING_STATUS_LIST_TYPE"
    "jget ''statusPurpose'' (list_subject (pb_url q) l) = JString (statusPurpose l)"
    "jget ''encodedList'' (list_subject (pb_url q) l) = JString (encodedList l)"
    by (simp_all add: list_subject_def)
  have shape: "assertDocumentShape doc = Inr doc"
    using ls p(1,2) toXsd_nonempty[OF p(4)] toXsd_nonempty[OF p(5)]
    by (simp add: assertDocumentShape_def Let_def nonempty_string_def doc published_body_def)
  have "document_verified N E doc \<lparr> pk_publicKeyRaw = ed_public E seed, pk_issuer = pb_issuer q,
      pk_verificationMethod = Some (pb_verificationMethod q) \<rparr>"
  proof -
    let ?P = "JObject (published_proof q s @ [(''proofValue'', JString (encodeProofValue sig))])"
    have pr: "jget ''proof'' doc = ?P" by (simp add: doc published_body_def)
    have om: "omit ''proofValue'' ?P = JObject (published_proof q s)" by (simp add: published_proof_def)
    have iss: "jget ''issuer'' doc = JString (pb_issuer q)" by (simp add: doc published_body_def)
    have pv: "jget ''proofValue'' ?P = JString (encodeProofValue sig)" by (simp add: published_proof_def)
    have rest: "jget ''type'' ?P = JString ''DataIntegrityProof''" "jget ''cryptosuite'' ?P = JString STATUS_LIST_CRYPTOSUITE"
      "jget ''proofPurpose'' ?P = JString ''assertionMethod''" "jget ''verificationMethod'' ?P = JString (pb_verificationMethod q)"
      by (simp_all add: published_proof_def)
    show ?thesis
      unfolding document_verified_def Let_def pr om iss pv rest
      by (intro conjI exI[of _ sig] exI[of _ input]) (use shape sig input in simp_all)
  qed
  then show ?thesis unfolding verifyStatusListCredential_Inr l using p(3) by blast
qed

text \<open>A published document survives \<open>JSON.stringify\<close> and \<open>JSON.parse\<close>.\<close>

lemma list_subject_plain:
  assumes "encodeStatusList G opts = Inr l"
  shows "plain (list_subject w l)"
proof -
  have sz: "statusSize l = None \<or> (\<exists>i. statusSize l = Some (JInt i))"
    and sm: "statusMessage l = JUndefined \<or> (\<exists>p n. statusMessage l = JArray (map (default_message p) [0..<n]))"
    using assms by (auto simp: encodeStatusList_def res_simps Let_def split: if_splits; blast)+
  have "list_all plain (map (default_message p) [0..<n])" for p n
    by (simp add: list_all_iff default_message_def)
  then show ?thesis using sz sm by (elim disjE exE) (simp_all add: list_subject_def)
qed

lemma published_plain:
  "encodeStatusList G opts = Inr l \<Longrightarrow> plain (published_body q l s t sig)"
  using list_subject_plain by (simp add: published_body_def published_proof_def)

text \<open>A key pair, a URL parser and a request to publish, for the examples.\<close>

definition toy_ed :: ed25519 where
  "toy_ed = \<lparr> ed_public = (\<lambda>seed. seed), ed_sign = (\<lambda>der msg. Some (take 64 (drop 16 der @ msg @ replicate 64 0))),
     ed_verify = (\<lambda>spki msg sig. Some (sig = take 64 (drop 12 spki @ msg @ replicate 64 0))) \<rparr>"

lemma toy_ed_ok [simp]: "ed25519_ok toy_ed"
proof -
  have "length PKCS8_PROLOGUE = 16" "length SPKI_PROLOGUE = 12"
    by (simp_all add: PKCS8_PROLOGUE_def SPKI_PROLOGUE_def hex_const_def is_lower_hex_def)
  moreover have "min (length (msg :: bytes)) 32 + (32 - length msg) = 32" for msg by linarith
  ultimately show ?thesis by (simp add: ed25519_ok_def toy_ed_def)
qed

definition toy_url :: url_platform where
  "toy_url = \<lparr> url_parse = (\<lambda>s. Some \<lparr> u_protocol = ''https:'', u_username = [], u_password = [], u_href = s \<rparr>),
     url_resolve = (\<lambda>s base. Some \<lparr> u_protocol = ''https:'', u_username = [], u_password = [], u_href = s \<rparr>) \<rparr>"

definition toy_publish :: PublishStatusListRequest where
  "toy_publish = \<lparr> pb_url = ''https://i/list'', pb_issuer = ''issuer'', pb_verificationMethod = ''key-1'', pb_statusPurpose = ''revocation'',
     pb_revoked = [JInt 5], pb_entries = None, pb_statusSize = None, pb_validFrom = JInt 1000, pb_validUntil = None,
     pb_signingKey = \<lparr> sk_seed = Some (replicate 32 9), sk_pkcs8Der = None \<rparr> \<rparr>"

lemma canonical_strings: "canonical_ok (JString s)" "canonical_ok (JArray [JString s, JString t])" "canonical_ok (JArray [JString s])"
  by simp_all

lemma ascii_keys:
  "list_all printable_ascii [''@context'', ''id'', ''type'', ''issuer'', ''validFrom'', ''validUntil'', ''credentialSubject'',
     ''statusPurpose'', ''encodedList'', ''cryptosuite'', ''created'', ''verificationMethod'', ''proofPurpose'']"
  by (simp add: printable_ascii_def code_def)

lemma toy_published: "\<exists>doc. publishStatusList noble_ref toy_ed gzip_identity toy_url toy_publish = Inr doc"
proof -
  obtain l where l: "encodeStatusList gzip_identity example_opts = Inr l" using example_list by blast
  have one: "statusSize l = None" "statusMessage l = JUndefined"
    using l by (auto simp: encodeStatusList_def example_opts_def res_simps Let_def)
  obtain s where s: "toXsdDateTime (JInt 1000) = Inr s" using xsd_roundtrip[of 1000 "[]"] by (auto simp del: toXsdDateTime.simps)
  obtain t where t: "toXsdDateTime (JInt 87400) = Inr t" using xsd_roundtrip[of 87400 "[]"] by (auto simp del: toXsdDateTime.simps)
  note st = s t
  have "canonical_ok (proof_config toy_publish s)"
    using ascii_keys by (simp add: proof_config_def)
  moreover have "canonical_ok (omit ''proof'' (unsigned_document toy_publish l s t))"
    using ascii_keys one by (simp add: unsigned_document_def list_subject_def)
  ultimately obtain c1 c2 where "canonicalJson (proof_config toy_publish s) = Inr c1"
    "canonicalJson (omit ''proof'' (unsigned_document toy_publish l s t)) = Inr c2"
    using canonicalJson_ok unfolding is_ok_iff by blast
  then obtain input where "statusListSigningInput noble_ref (unsigned_document toy_publish l s t) (proof_config toy_publish s) = Inr input"
    by (simp add: statusListSigningInput_def del: omit.simps)
  moreover have "private_key_der (pb_signingKey toy_publish) = Inr (PKCS8_PROLOGUE @ replicate 32 9)"
    by (simp add: private_key_der_def assertSeed_def toy_publish_def)
  ultimately have "\<exists>doc. signStatusListCredential noble_ref toy_ed (unsigned_document toy_publish l s t) (pb_signingKey toy_publish)
      (proof_config toy_publish s) = Inr doc"
    by (simp add: signStatusListCredential_def toy_ed_def)
  moreover have "publishStatusList noble_ref toy_ed gzip_identity toy_url toy_publish
      = signStatusListCredential noble_ref toy_ed (unsigned_document toy_publish l s t) (pb_signingKey toy_publish) (proof_config toy_publish s)"
  proof -
    have v: "pb_validFrom toy_publish = JInt 1000" "pb_validUntil toy_publish = None" "pb_revoked toy_publish = [JInt 5]"
      "pb_url toy_publish \<noteq> []" "pb_issuer toy_publish \<noteq> []" "pb_verificationMethod toy_publish \<noteq> []"
      "\<lparr>e_statusPurpose = pb_statusPurpose toy_publish, e_set = [JInt 5], e_entries = pb_entries toy_publish, e_statusSize = pb_statusSize toy_publish\<rparr> = example_opts"
      by (simp_all add: toy_publish_def example_opts_def)
    show ?thesis
      using v l st by (simp add: publishStatusList_def assertHttpsUrl_def toy_url_def DEFAULT_STATUS_LIST_VALIDITY_SECONDS_def
          del: toXsdDateTime.simps)
  qed
  ultimately show ?thesis by simp
qed

section \<open>Properties\<close>

text \<open>
  The text form of an instant is exact up to the end of the year 9999: what
  \<open>toXsdDateTime\<close> writes, \<open>parseXsdDateTime\<close> reads back as the same second, and from the year
  10000 on, where the ISO form grows a sign, it reads it as no other instant either.
\<close>

theorem xsd_instant_exact:
  assumes "toXsdDateTime x = Inr s"
  shows "parseXsdDateTime (JString s) field = Inr i \<longleftrightarrow> x = JInt i \<and> i < 253402300800"
proof -
  obtain sec where sec: "x = JInt sec" "0 \<le> sec" using assms by (cases x) (auto split: if_splits)
  show ?thesis
  proof (cases "sec < 253402300800")
    case True
    then show ?thesis using xsd_roundtrip[OF sec(2) True, of field] assms sec by auto
  next
    case False
    define ms where "ms = sec * 1000"
    define n where "n = ms div ms_per_day"
    have "253402300800 * 1000 div ms_per_day \<le> n" unfolding n_def ms_def using False by (intro zdiv_mono1) auto
    then have "2932897 \<le> n" by simp
    then have "\<not> year_of_day n + 1 \<le> 10000"
      using DayFromYear_mono[of "year_of_day n + 1" 10000] year_of_day_bounds[of n] by (auto simp: DayFromYear_def[of 10000])
    then have "10000 \<le> getUTCFullYear ms" by (simp add: getUTCFullYear_def n_def)
    then have y: "\<not> nat (getUTCFullYear ms) \<le> 9999" by (simp only: nat_le_iff of_nat_numeral not_le)
    have "hd s = CHR ''+''" using assms sec y
      by (auto simp: toISOString_def Let_def ms_def[symmetric] split: if_splits)
    moreover have "\<not> is_digit CHR ''+''" by code_simp
    ultimately have "\<not> xsd_form s"
      using toXsd_nonempty[OF assms] by (cases s) (auto simp: xsd_form_def matches_def)
    then show ?thesis using False sec by (simp add: parseXsdDateTime_def)
  qed
qed

theorem xsd_instant_exact_witness:
  "\<exists>s. toXsdDateTime (JInt 1700000000) = Inr s \<and> parseXsdDateTime (JString s) ''validFrom'' = Inr 1700000000"
proof -
  obtain s where s: "toXsdDateTime (JInt 1700000000) = Inr s" using xsd_roundtrip[of 1700000000] by auto
  then show ?thesis using xsd_instant_exact[OF s, of "''validFrom''" 1700000000] by simp
qed

text \<open>
  The publisher emits what its own verifier and decoder accept: a list published with a
  seed verifies against the public key of that seed, under the request's issuer and method, and
  its bitstring decodes for the published purpose to a list whose entries are set exactly at
  the revoked indexes.
\<close>

theorem published_list_verifies:
  assumes "gzip_ok G" "ed25519_ok E" and "publishStatusList N E G U q = Inr doc"
    and "sk_pkcs8Der (pb_signingKey q) = None" "sk_seed (pb_signingKey q) = Some seed"
    and "encode_entries (pb_entries q) = Inr m" "normalizeStatusSize (pb_statusSize q) = Inr n" "m * n div 8 \<le> MAX_STATUS_LIST_BYTES"
  shows "verifyStatusListCredential N E doc \<lparr> pk_publicKeyRaw = ed_public E seed, pk_issuer = pb_issuer q,
      pk_verificationMethod = Some (pb_verificationMethod q) \<rparr> = Inr doc
    \<and> (\<exists>D. decodeStatusList G (Some (toBitstringStatusList doc)) (Some (pb_statusPurpose q)) = Inr D \<and> d_entryCount D = m
        \<and> (\<forall>i<m. \<exists>v. statusAt D (JInt (int i)) = Inr v \<and> (v \<noteq> 0 \<longleftrightarrow> JInt (int i) \<in> set (pb_revoked q))))"
  using published_verifies[OF assms(2,3,4,5)]
    encoded_list_decodes[OF assms(1), of "\<lparr> e_statusPurpose = pb_statusPurpose q, e_set = pb_revoked q,
                  e_entries = pb_entries q, e_statusSize = pb_statusSize q \<rparr>" _ m n] assms(6,7,8)
  by simp

theorem published_list_verifies_witness:
  "\<exists>doc D. publishStatusList noble_ref toy_ed gzip_identity toy_url toy_publish = Inr doc
     \<and> decodeStatusList gzip_identity (Some (toBitstringStatusList doc)) (Some ''revocation'') = Inr D
     \<and> (\<forall>i<131072. \<exists>v. statusAt D (JInt (int i)) = Inr v \<and> (v \<noteq> 0 \<longleftrightarrow> JInt (int i) \<in> set [JInt 5]))"
proof -
  obtain doc where doc: "publishStatusList noble_ref toy_ed gzip_identity toy_url toy_publish = Inr doc"
    using toy_published by blast
  have h: "sk_pkcs8Der (pb_signingKey toy_publish) = None" "sk_seed (pb_signingKey toy_publish) = Some (replicate 32 9)"
    "encode_entries (pb_entries toy_publish) = Inr 131072" "normalizeStatusSize (pb_statusSize toy_publish) = Inr 1"
    "131072 * 1 div 8 \<le> MAX_STATUS_LIST_BYTES" "pb_revoked toy_publish = [JInt 5]" "pb_statusPurpose toy_publish = ''revocation''"
    by (simp_all add: toy_publish_def MINIMUM_STATUS_LIST_ENTRIES_def MAX_STATUS_LIST_BYTES_def)
  show ?thesis
    using published_list_verifies[OF gzip_identity_ok toy_ed_ok doc h(1-5)] doc unfolding h(6,7) by blast
qed

end
