(* ===== verification/Resolver.thy ===== *)
theory Resolver
imports StatusCredential Credential
begin

text \<open>
  The dereferencer of status lists (\<open>status/resolver.ts\<close>): the pinned issuers, the capped
  fetch with its redirect rules, the verification of the fetched document, the temporal checks,
  and the cache. The network is an argument: what the origin answers to each URL during one
  call. Redirects are followed by recursion on the number left, so a call ends after at most
  \<open>maxRedirects + 1\<close> requests.
\<close>

section \<open>Errors, issuers, responses\<close>

datatype resolution_reason = R_unknown_issuer | R_issuer_undisclosed | R_insecure_url | R_redirect_downgrade | R_too_many_redirects
  | R_http_error | R_response_too_large | R_timeout | R_transport | R_malformed | R_proof_invalid | R_not_yet_valid
  | R_expired | R_stale | R_purpose_mismatch

datatype resolve_error = Resolution resolution_reason | CredentialRefused status_credential_error
  | ListRefused status_list_error

record PinnedStatusListIssuer =
  pi_issuerId :: string
  pi_url :: string
  pi_publicKeyRaw :: bytes
  pi_documentIssuer :: string
  pi_verificationMethod :: "string option"

record StatusListHttpResponse =
  hr_status :: int
  hr_location :: "string option"
  hr_body :: bytes

datatype http_outcome = HttpResponse StatusListHttpResponse | HttpAborted | HttpFailed | HttpRefused resolution_reason

section \<open>The fetching transport\<close>

text \<open>
  What \<open>fetch\<close> yields: the response head, with the \<open>content-length\<close> header as the number it
  reads as, and the chunks of the stream; or an abort by the timer, or a failure.
\<close>

record fetch_response =
  fr_status :: int
  fr_location :: "string option"
  fr_declared :: "jsnum option"
  fr_chunks :: "bytes list"

datatype fetch_outcome = Fetched fetch_response | FetchAborted | FetchFailed

fun readCapped :: "bytes list \<Rightarrow> nat \<Rightarrow> nat \<Rightarrow> bytes list \<Rightarrow> resolution_reason + bytes" where
  "readCapped [] maxBytes tot chunks = Inr (concat chunks)"
| "readCapped (c # cs) maxBytes tot chunks =
     (if tot + length c > maxBytes then Inl R_response_too_large
      else readCapped cs maxBytes (tot + length c) (chunks @ [c]))"

definition FetchStatusListHttp_get :: "(string \<Rightarrow> fetch_outcome) \<Rightarrow> nat \<Rightarrow> string \<Rightarrow> http_outcome" where
  "FetchStatusListHttp_get fetch maxBytes target = (case fetch target of
     FetchAborted \<Rightarrow> HttpAborted
   | FetchFailed \<Rightarrow> HttpFailed
   | Fetched r \<Rightarrow>
       if (case fr_declared r of None \<Rightarrow> False | Some n \<Rightarrow> js_isFinite n \<and> js_greater n (int maxBytes))
       then HttpRefused R_response_too_large
       else (case readCapped (fr_chunks r) maxBytes 0 [] of
         Inl e \<Rightarrow> HttpRefused e
       | Inr body \<Rightarrow> HttpResponse \<lparr> hr_status = fr_status r, hr_location = fr_location r, hr_body = body \<rparr>))"

lemma readCapped_Inr:
  "readCapped cs m tot chunks = Inr body \<Longrightarrow> body = concat (chunks @ cs) \<and> tot + length (concat cs) \<le> max m tot"
  by (induction cs m tot chunks rule: readCapped.induct) (auto split: if_splits)

section \<open>Configuration and state\<close>

record StatusListProvenance =
  pv_url :: string
  pv_issuerId :: string
  pv_documentAge :: int
  pv_cacheAge :: int
  pv_maxAge :: jsnum
  pv_validUntil :: int
  pv_fromCache :: bool

record CacheEntry =
  ce_document :: jsval
  ce_list :: bitstring_status_list
  ce_validFrom :: int
  ce_validUntil :: int
  ce_fetchedAt :: int

record resolver_config =
  rc_issuers :: "PinnedStatusListIssuer list"
  rc_maxAge :: "jsnum option"
  rc_cacheTtl :: "jsnum option"
  rc_maxBytes :: "nat option"
  rc_maxRedirects :: "nat option"
  rc_defaultIssuerId :: "string option"

record HardenedStatusListResolver =
  rs_issuers :: "PinnedStatusListIssuer list"
  rs_maxAge :: jsnum
  rs_cacheTtl :: jsnum
  rs_maxBytes :: nat
  rs_maxRedirects :: nat
  rs_defaultIssuerId :: "string option"
  rs_cache :: "string \<Rightarrow> CacheEntry option"
  rs_last :: "StatusListProvenance option"

definition DEFAULT_STATUS_LIST_MAX_AGE_SECONDS :: int where "DEFAULT_STATUS_LIST_MAX_AGE_SECONDS = 300"
definition DEFAULT_STATUS_LIST_CACHE_TTL_SECONDS :: int where "DEFAULT_STATUS_LIST_CACHE_TTL_SECONDS = 60"
definition MAX_STATUS_LIST_REDIRECTS :: nat where "MAX_STATUS_LIST_REDIRECTS = 3"

fun pin_issuers :: "url_platform \<Rightarrow> PinnedStatusListIssuer list \<Rightarrow> PinnedStatusListIssuer list \<Rightarrow>
    resolve_error + PinnedStatusListIssuer list" where
  "pin_issuers U [] pinned = Inr pinned"
| "pin_issuers U (p # ps) pinned = ebind (map_err CredentialRefused (assertHttpsUrl U (pi_url p))) (\<lambda>_.
     if length (pi_publicKeyRaw p) \<noteq> 32 then Inl (Resolution R_proof_invalid)
     else if pi_issuerId p \<in> pi_issuerId ` set pinned then Inl (Resolution R_unknown_issuer)
     else pin_issuers U ps (pinned @ [p]))"

definition or_default :: "'a option \<Rightarrow> 'a \<Rightarrow> 'a" where
  "or_default x d = (case x of Some a \<Rightarrow> a | None \<Rightarrow> d)"

definition new_resolver :: "url_platform \<Rightarrow> resolver_config \<Rightarrow> resolve_error + HardenedStatusListResolver" where
  "new_resolver U c = (if rc_issuers c = [] then Inl (Resolution R_unknown_issuer)
     else ebind (pin_issuers U (rc_issuers c) []) (\<lambda>pinned.
       let maxAge = or_default (rc_maxAge c) (JInt DEFAULT_STATUS_LIST_MAX_AGE_SECONDS);
           cacheTtl = or_default (rc_cacheTtl c) (JInt DEFAULT_STATUS_LIST_CACHE_TTL_SECONDS) in
       if \<not> js_isFinite maxAge \<or> js_le maxAge (JInt 0) then Inl (Resolution R_stale)
       else if js_gt cacheTtl maxAge then Inl (Resolution R_stale)
       else Inr \<lparr> rs_issuers = pinned, rs_maxAge = maxAge, rs_cacheTtl = cacheTtl,
              rs_maxBytes = or_default (rc_maxBytes c) MAX_STATUS_LIST_BYTES,
              rs_maxRedirects = or_default (rc_maxRedirects c) MAX_STATUS_LIST_REDIRECTS,
              rs_defaultIssuerId = rc_defaultIssuerId c, rs_cache = Map.empty, rs_last = None \<rparr>))"

section \<open>Fetching and verifying\<close>

text \<open>The requests made, in order, and the first response that is not a redirect.\<close>

fun fetch_loop :: "url_platform \<Rightarrow> (string \<Rightarrow> http_outcome) \<Rightarrow> nat \<Rightarrow> string \<Rightarrow> string list \<times> (resolve_error + StatusListHttpResponse)" where
  "fetch_loop U http left target = (case http target of
     HttpRefused e \<Rightarrow> ([target], Inl (Resolution e))
   | HttpAborted \<Rightarrow> ([target], Inl (Resolution R_timeout))
   | HttpFailed \<Rightarrow> ([target], Inl (Resolution R_transport))
   | HttpResponse r \<Rightarrow>
       if \<not> (300 \<le> hr_status r \<and> hr_status r < 400) then ([target], Inr r)
       else (case left of 0 \<Rightarrow> ([target], Inl (Resolution R_too_many_redirects))
         | Suc left' \<Rightarrow>
           (case hr_location r of None \<Rightarrow> ([target], Inl (Resolution R_malformed))
            | Some loc \<Rightarrow>
              if loc = [] then ([target], Inl (Resolution R_malformed))
              else (case url_resolve U loc target of None \<Rightarrow> ([target], Inl (Resolution R_malformed))
                | Some nxt \<Rightarrow>
                  if u_protocol nxt \<noteq> ''https:'' then ([target], Inl (Resolution R_redirect_downgrade))
                  else (case assertHttpsUrl U (u_href nxt) of Inl e \<Rightarrow> ([target], Inl (CredentialRefused e))
                    | Inr u \<Rightarrow> (case fetch_loop U http left' (u_href nxt) of (urls, res) \<Rightarrow> (target # urls, res)))))))"

declare fetch_loop.simps [simp del]

definition pinned_key_of :: "PinnedStatusListIssuer \<Rightarrow> pinned_key" where
  "pinned_key_of p = \<lparr> pk_publicKeyRaw = pi_publicKeyRaw p, pk_issuer = pi_documentIssuer p,
     pk_verificationMethod = pi_verificationMethod p \<rparr>"

definition verify_body ::
  "noble \<Rightarrow> ed25519 \<Rightarrow> gzip_platform \<Rightarrow> nat \<Rightarrow> PinnedStatusListIssuer \<Rightarrow> int \<Rightarrow> StatusListHttpResponse \<Rightarrow> resolve_error + CacheEntry" where
  "verify_body N E G maxBytes p now r =
     (if hr_status r \<noteq> 200 then Inl (Resolution R_http_error)
      else if length (hr_body r) > maxBytes then Inl (Resolution R_response_too_large)
      else case Option.bind (utf8_text (hr_body r)) json_parse of None \<Rightarrow> Inl (Resolution R_malformed)
      | Some parsed \<Rightarrow>
        (case verifyStatusListCredential N E parsed (pinned_key_of p) of
           Inl _ \<Rightarrow> Inl (Resolution R_proof_invalid)
         | Inr doc \<Rightarrow>
           ebind (map_err CredentialRefused (parseXsdDateTime (jget ''validFrom'' doc) ''validFrom'')) (\<lambda>vf.
           ebind (map_err CredentialRefused (parseXsdDateTime (jget ''validUntil'' doc) ''validUntil'')) (\<lambda>vu.
           if vu \<le> vf then Inl (Resolution R_malformed)
           else let l = toBitstringStatusList doc in
             ebind (map_err ListRefused (decodeStatusList G (Some l) (Some (statusPurpose l)))) (\<lambda>_.
             Inr \<lparr> ce_document = doc, ce_list = l, ce_validFrom = vf, ce_validUntil = vu, ce_fetchedAt = now \<rparr>)))))"

definition fetchAndVerify ::
  "noble \<Rightarrow> ed25519 \<Rightarrow> gzip_platform \<Rightarrow> url_platform \<Rightarrow> (string \<Rightarrow> http_outcome) \<Rightarrow> HardenedStatusListResolver
     \<Rightarrow> PinnedStatusListIssuer \<Rightarrow> int \<Rightarrow> resolve_error + CacheEntry" where
  "fetchAndVerify N E G U http rs p now =
     ebind (map_err CredentialRefused (assertHttpsUrl U (pi_url p))) (\<lambda>u.
     ebind (snd (fetch_loop U http (rs_maxRedirects rs) (u_href u))) (\<lambda>r.
     verify_body N E G (rs_maxBytes rs) p now r))"

section \<open>Resolving\<close>

definition assertTemporallyUsable :: "jsnum \<Rightarrow> CacheEntry \<Rightarrow> int \<Rightarrow> resolve_error + unit" where
  "assertTemporallyUsable maxAge entry now =
     (if now + 60 < ce_validFrom entry then Inl (Resolution R_not_yet_valid)
      else if now \<ge> ce_validUntil entry then Inl (Resolution R_expired)
      else if js_less maxAge (now - ce_validFrom entry) then Inl (Resolution R_stale)
      else Inr ())"

definition assertPurpose :: "bitstring_status_list \<Rightarrow> string \<Rightarrow> resolve_error + unit" where
  "assertPurpose l wanted = (if statusPurpose l \<noteq> wanted then Inl (Resolution R_purpose_mismatch) else Inr ())"

definition provenance :: "jsnum \<Rightarrow> string \<Rightarrow> string \<Rightarrow> CacheEntry \<Rightarrow> int \<Rightarrow> bool \<Rightarrow> StatusListProvenance" where
  "provenance maxAge target issuerId entry now fromCache = \<lparr> pv_url = target, pv_issuerId = issuerId,
     pv_documentAge = now - ce_validFrom entry, pv_cacheAge = (if fromCache then now - ce_fetchedAt entry else 0),
     pv_maxAge = maxAge, pv_validUntil = ce_validUntil entry, pv_fromCache = fromCache \<rparr>"

definition resolve ::
  "noble \<Rightarrow> ed25519 \<Rightarrow> gzip_platform \<Rightarrow> url_platform \<Rightarrow> (string \<Rightarrow> http_outcome) \<Rightarrow> int \<Rightarrow> status_list_request
     \<Rightarrow> HardenedStatusListResolver \<Rightarrow> (resolve_error + bitstring_status_list) \<times> HardenedStatusListResolver" where
  "resolve N E G U http now q rs =
     (case (case q_issuerId q of Some i \<Rightarrow> Some i | None \<Rightarrow> rs_defaultIssuerId rs) of
        None \<Rightarrow> (Inl (Resolution R_issuer_undisclosed), rs)
      | Some issuerId \<Rightarrow>
        (case find (\<lambda>p. pi_issuerId p = issuerId) (rs_issuers rs) of
           None \<Rightarrow> (Inl (Resolution R_unknown_issuer), rs)
         | Some pinned \<Rightarrow>
           (case (case rs_cache rs (pi_url pinned) of
                    Some e \<Rightarrow> if js_greater (rs_cacheTtl rs) (now - ce_fetchedAt e) then Some e else None
                  | None \<Rightarrow> None) of
              Some entry \<Rightarrow>
                (case ebind (assertTemporallyUsable (rs_maxAge rs) entry now) (\<lambda>_. assertPurpose (ce_list entry) (q_statusPurpose q)) of
                   Inl e \<Rightarrow> (Inl e, rs)
                 | Inr _ \<Rightarrow> (Inr (ce_list entry), rs\<lparr>rs_last := Some (provenance (rs_maxAge rs) (pi_url pinned) issuerId entry now True)\<rparr>))
            | None \<Rightarrow>
                (case ebind (fetchAndVerify N E G U http rs pinned now) (\<lambda>entry.
                        ebind (assertTemporallyUsable (rs_maxAge rs) entry now) (\<lambda>_.
                        ebind (assertPurpose (ce_list entry) (q_statusPurpose q)) (\<lambda>_. Inr entry))) of
                   Inl e \<Rightarrow> (Inl e, rs)
                 | Inr entry \<Rightarrow> (Inr (ce_list entry),
                     rs\<lparr>rs_cache := (rs_cache rs)(pi_url pinned \<mapsto> entry),
                        rs_last := Some (provenance (rs_maxAge rs) (pi_url pinned) issuerId entry now False)\<rparr>)))))"

definition invalidate :: "HardenedStatusListResolver \<Rightarrow> HardenedStatusListResolver" where
  "invalidate rs = rs\<lparr>rs_cache := Map.empty\<rparr>"


section \<open>The states a resolver reaches\<close>

text \<open>One step is one call, with whatever the network answers and whatever the clock says.\<close>

inductive resolver_step ::
  "noble \<Rightarrow> ed25519 \<Rightarrow> gzip_platform \<Rightarrow> url_platform \<Rightarrow> HardenedStatusListResolver \<Rightarrow> HardenedStatusListResolver \<Rightarrow> bool"
  for N E G U where
  call: "resolve N E G U http now q rs = (r, rs') \<Longrightarrow> resolver_step N E G U rs rs'"
| dropped: "resolver_step N E G U rs (invalidate rs)"

inductive_cases resolver_stepE: "resolver_step N E G U rs rs'"

inductive resolver_reachable ::
  "noble \<Rightarrow> ed25519 \<Rightarrow> gzip_platform \<Rightarrow> url_platform \<Rightarrow> resolver_config \<Rightarrow> HardenedStatusListResolver \<Rightarrow> bool"
  for N E G U c where
  created: "new_resolver U c = Inr rs \<Longrightarrow> resolver_reachable N E G U c rs"
| stepped: "resolver_reachable N E G U c rs \<Longrightarrow> resolver_step N E G U rs rs' \<Longrightarrow> resolver_reachable N E G U c rs'"

definition entry_good :: "noble \<Rightarrow> ed25519 \<Rightarrow> gzip_platform \<Rightarrow> PinnedStatusListIssuer \<Rightarrow> CacheEntry \<Rightarrow> bool" where
  "entry_good N E G p e = (document_verified N E (ce_document e) (pinned_key_of p)
     \<and> ce_list e = toBitstringStatusList (ce_document e)
     \<and> parseXsdDateTime (jget ''validFrom'' (ce_document e)) ''validFrom'' = Inr (ce_validFrom e)
     \<and> parseXsdDateTime (jget ''validUntil'' (ce_document e)) ''validUntil'' = Inr (ce_validUntil e)
     \<and> ce_validFrom e < ce_validUntil e
     \<and> is_ok (decodeStatusList G (Some (ce_list e)) (Some (statusPurpose (ce_list e)))))"

definition cache_inv :: "noble \<Rightarrow> ed25519 \<Rightarrow> gzip_platform \<Rightarrow> HardenedStatusListResolver \<Rightarrow> bool" where
  "cache_inv N E G rs = (\<forall>u e. rs_cache rs u = Some e \<longrightarrow> (\<exists>p\<in>set (rs_issuers rs). pi_url p = u \<and> entry_good N E G p e))"

lemma verify_body_good: "verify_body N E G m p now r = Inr e \<Longrightarrow> entry_good N E G p e \<and> ce_fetchedAt e = now"
  by (auto simp: verify_body_def entry_good_def res_simps verifyStatusListCredential_Inr Let_def is_ok_iff
      split: if_splits option.splits sum.splits)

lemma fetchAndVerify_good: "fetchAndVerify N E G U http rs p now = Inr e \<Longrightarrow> entry_good N E G p e \<and> ce_fetchedAt e = now"
  unfolding fetchAndVerify_def ebind_Inr using verify_body_good by blast

lemma find_issuer: "find (\<lambda>p. pi_issuerId p = i) ps = Some p \<Longrightarrow> p \<in> set ps \<and> pi_issuerId p = i"
  by (auto simp: find_Some_iff in_set_conv_nth)

text \<open>The two ways a call can succeed, and what becomes of the cache.\<close>

definition asked_issuer :: "HardenedStatusListResolver \<Rightarrow> status_list_request \<Rightarrow> string option" where
  "asked_issuer rs q = (case q_issuerId q of Some i \<Rightarrow> Some i | None \<Rightarrow> rs_defaultIssuerId rs)"

lemma resolve_outcome:
  assumes "resolve N E G U http now q rs = (r, rs')"
  shows "(\<exists>e. r = Inl e \<and> rs' = rs) \<or>
    (\<exists>p entry. asked_issuer rs q = Some (pi_issuerId p) \<and> p \<in> set (rs_issuers rs) \<and> r = Inr (ce_list entry)
      \<and> assertTemporallyUsable (rs_maxAge rs) entry now = Inr () \<and> assertPurpose (ce_list entry) (q_statusPurpose q) = Inr ()
      \<and> ((rs_cache rs (pi_url p) = Some entry \<and> rs_cache rs' = rs_cache rs)
         \<or> (fetchAndVerify N E G U http rs p now = Inr entry \<and> rs_cache rs' = (rs_cache rs)(pi_url p \<mapsto> entry)))
      \<and> rs_issuers rs' = rs_issuers rs \<and> rs_maxAge rs' = rs_maxAge rs)"
proof (cases "asked_issuer rs q")
  case None
  show ?thesis using assms[unfolded resolve_def asked_issuer_def[symmetric] None option.case] by auto
next
  case (Some i)
  note i = Some
  show ?thesis
  proof (cases "find (\<lambda>p. pi_issuerId p = i) (rs_issuers rs)")
    case None
    have "r = Inl (Resolution R_unknown_issuer) \<and> rs' = rs"
      using assms[unfolded resolve_def asked_issuer_def[symmetric] i option.case None] by simp
    then show ?thesis by blast
  next
    case (Some p)
    note p = find_issuer[OF Some]
    define hit where "hit = (case rs_cache rs (pi_url p) of
        Some e \<Rightarrow> if js_greater (rs_cacheTtl rs) (now - ce_fetchedAt e) then Some e else None | None \<Rightarrow> None)"
    note a = assms[unfolded resolve_def asked_issuer_def[symmetric] i option.case Some hit_def[symmetric]]
    show ?thesis
    proof (cases hit)
      case (Some entry)
      then have "rs_cache rs (pi_url p) = Some entry" unfolding hit_def by (auto split: option.splits if_splits)
      then show ?thesis using a Some p i
        by (cases "ebind (assertTemporallyUsable (rs_maxAge rs) entry now) (\<lambda>_. assertPurpose (ce_list entry) (q_statusPurpose q))")
          (auto simp: res_simps)
    next
      case None
      note a' = a[unfolded None option.case]
      show ?thesis
      proof (cases "ebind (fetchAndVerify N E G U http rs p now) (\<lambda>entry.
                        ebind (assertTemporallyUsable (rs_maxAge rs) entry now) (\<lambda>_.
                        ebind (assertPurpose (ce_list entry) (q_statusPurpose q)) (\<lambda>_. Inr entry)))")
        case (Inl e)
        then show ?thesis using a' by auto
      next
        case (Inr entry)
        then have "fetchAndVerify N E G U http rs p now = Inr entry" "assertTemporallyUsable (rs_maxAge rs) entry now = Inr ()"
          "assertPurpose (ce_list entry) (q_statusPurpose q) = Inr ()" by (auto simp: res_simps)
        moreover have "r = Inr (ce_list entry)" "rs' = rs\<lparr>rs_cache := (rs_cache rs)(pi_url p \<mapsto> entry),
            rs_last := Some (provenance (rs_maxAge rs) (pi_url p) i entry now False)\<rparr>" using a' Inr by simp_all
        ultimately show ?thesis using p i by (intro disjI2 exI[of _ p] exI[of _ entry]) simp
      qed
    qed
  qed
qed

lemma cache_inv_step: "resolver_step N E G U rs rs' \<Longrightarrow> cache_inv N E G rs \<Longrightarrow> cache_inv N E G rs' \<and> rs_issuers rs' = rs_issuers rs"
proof (elim resolver_stepE)
  fix http now q r
  assume inv: "cache_inv N E G rs" and "resolve N E G U http now q rs = (r, rs')"
  from resolve_outcome[OF this(2)] show ?thesis
  proof (elim disjE exE conjE)
    fix p entry
    assume "p \<in> set (rs_issuers rs)" "fetchAndVerify N E G U http rs p now = Inr entry"
      "rs_cache rs' = (rs_cache rs)(pi_url p \<mapsto> entry)" "rs_issuers rs' = rs_issuers rs"
    then show ?thesis using inv fetchAndVerify_good unfolding cache_inv_def by (auto split: if_splits)
  qed (use inv in \<open>simp_all add: cache_inv_def\<close>)
qed (simp add: cache_inv_def invalidate_def)

lemma pin_issuers_Inr: "pin_issuers U ps pinned = Inr qs \<Longrightarrow> qs = pinned @ ps
    \<and> (\<forall>p\<in>set ps. \<exists>u. assertHttpsUrl U (pi_url p) = Inr u \<and> length (pi_publicKeyRaw p) = 32)
    \<and> (distinct (map pi_issuerId pinned) \<longrightarrow> distinct (map pi_issuerId qs))"
proof (induction U ps pinned rule: pin_issuers.induct)
  case (2 U p ps pinned)
  then obtain u where u: "assertHttpsUrl U (pi_url p) = Inr u" "length (pi_publicKeyRaw p) = 32"
    "pi_issuerId p \<notin> pi_issuerId ` set pinned" "pin_issuers U ps (pinned @ [p]) = Inr qs"
    by (auto simp: res_simps split: if_splits)
  have IH: "qs = (pinned @ [p]) @ ps \<and> (\<forall>p\<in>set ps. \<exists>u. assertHttpsUrl U (pi_url p) = Inr u \<and> length (pi_publicKeyRaw p) = 32)
      \<and> (distinct (map pi_issuerId (pinned @ [p])) \<longrightarrow> distinct (map pi_issuerId qs))"
    using 2(1) u(2-4) by blast
  have d: "distinct (map pi_issuerId pinned) \<longrightarrow> distinct (map pi_issuerId (pinned @ [p]))" using u(3) by simp
  show ?case
  proof (intro conjI)
    show "qs = pinned @ p # ps" using IH by simp
    show "\<forall>x\<in>set (p # ps). \<exists>u. assertHttpsUrl U (pi_url x) = Inr u \<and> length (pi_publicKeyRaw x) = 32"
      using IH u(1,2) by auto
    show "distinct (map pi_issuerId pinned) \<longrightarrow> distinct (map pi_issuerId qs)" using IH d by blast
  qed
qed simp

lemma new_resolver_Inr:
  "new_resolver U c = Inr rs \<Longrightarrow> rs_issuers rs = rc_issuers c \<and> rs_cache rs = Map.empty
    \<and> (\<exists>m. pin_issuers U (rc_issuers c) [] = Inr m)"
  using pin_issuers_Inr[of U "rc_issuers c" "[]"] by (auto simp: new_resolver_def res_simps Let_def split: if_splits)

lemma reachable_inv: "resolver_reachable N E G U c rs \<Longrightarrow> cache_inv N E G rs \<and> rs_issuers rs = rc_issuers c"
proof (induction rule: resolver_reachable.induct)
  case (created rs)
  then show ?case using new_resolver_Inr[OF created] by (simp add: cache_inv_def)
next
  case (stepped rs rs')
  then show ?case using cache_inv_step by metis
qed

text \<open>What a resolved list is.\<close>

definition resolution_contract ::
  "noble \<Rightarrow> ed25519 \<Rightarrow> gzip_platform \<Rightarrow> jsnum \<Rightarrow> PinnedStatusListIssuer \<Rightarrow> int \<Rightarrow> string \<Rightarrow> bitstring_status_list \<Rightarrow> bool" where
  "resolution_contract N E G maxAge p now wanted l = (\<exists>doc vf vu.
     document_verified N E doc (pinned_key_of p) \<and> l = toBitstringStatusList doc \<and> statusPurpose l = wanted
     \<and> parseXsdDateTime (jget ''validFrom'' doc) ''validFrom'' = Inr vf
     \<and> parseXsdDateTime (jget ''validUntil'' doc) ''validUntil'' = Inr vu
     \<and> vf \<le> now + 60 \<and> now < vu \<and> \<not> js_less maxAge (now - vf)
     \<and> is_ok (decodeStatusList G (Some l) (Some wanted)))"

lemma usable_contract:
  "entry_good N E G p e \<Longrightarrow> assertTemporallyUsable m e now = Inr () \<Longrightarrow> assertPurpose (ce_list e) w = Inr ()
   \<Longrightarrow> resolution_contract N E G m p now w (ce_list e)"
  unfolding resolution_contract_def entry_good_def assertTemporallyUsable_def assertPurpose_def
  by (intro exI[of _ "ce_document e"] exI[of _ "ce_validFrom e"] exI[of _ "ce_validUntil e"]) (auto split: if_splits)

lemma resolve_contract:
  assumes "cache_inv N E G rs" and "resolve N E G U http now q rs = (Inr l, rs')"
  shows "\<exists>p\<in>set (rs_issuers rs). \<exists>p'\<in>set (rs_issuers rs). asked_issuer rs q = Some (pi_issuerId p) \<and> pi_url p' = pi_url p
    \<and> resolution_contract N E G (rs_maxAge rs) p' now (q_statusPurpose q) l
    \<and> (distinct (map pi_url (rs_issuers rs)) \<or> rs_cache rs (pi_url p) = None \<longrightarrow> p' = p)"
proof -
  obtain p entry where p: "asked_issuer rs q = Some (pi_issuerId p)" "p \<in> set (rs_issuers rs)" "l = ce_list entry"
    "assertTemporallyUsable (rs_maxAge rs) entry now = Inr ()" "assertPurpose (ce_list entry) (q_statusPurpose q) = Inr ()"
    "rs_cache rs (pi_url p) = Some entry \<or> fetchAndVerify N E G U http rs p now = Inr entry"
    using resolve_outcome[OF assms(2)] by auto
  obtain p' where p': "p' \<in> set (rs_issuers rs)" "pi_url p' = pi_url p" "entry_good N E G p' entry"
    "rs_cache rs (pi_url p) = None \<Longrightarrow> p' = p"
    using p(6)
  proof
    assume c: "rs_cache rs (pi_url p) = Some entry"
    then obtain x where "x \<in> set (rs_issuers rs)" "pi_url x = pi_url p" "entry_good N E G x entry"
      using assms(1) unfolding cache_inv_def by blast
    then show thesis using that[of x] c by simp
  next
    assume "fetchAndVerify N E G U http rs p now = Inr entry"
    then show thesis using that[of p] p(2) fetchAndVerify_good by blast
  qed
  have "p' = p" if "distinct (map pi_url (rs_issuers rs))" using that p(2) p'(1,2) by (metis inj_on_eq_iff distinct_map)
  moreover have "resolution_contract N E G (rs_maxAge rs) p' now (q_statusPurpose q) l"
    using usable_contract[OF p'(3) p(4,5)] p(3) by simp
  ultimately show ?thesis using p(1,2) p'(1,2,4) by (intro bexI[of _ p] bexI[of _ p'] conjI impI) auto
qed

section \<open>The requests of one call\<close>

lemma fetch_loop_urls:
  "fetch_loop U http left target = (urls, res) \<Longrightarrow> length urls \<le> Suc left \<and> urls \<noteq> [] \<and> hd urls = target
     \<and> (\<forall>x\<in>set (tl urls). \<exists>u. assertHttpsUrl U x = Inr u)"
proof (induction left arbitrary: target urls res)
  case 0
  then show ?case by (subst (asm) fetch_loop.simps) (auto split: http_outcome.splits if_splits)
next
  case (Suc left)
  show ?case
  proof (cases "\<exists>(nxt :: url) u r. http target = HttpResponse r \<and> assertHttpsUrl U (u_href nxt) = Inr u
      \<and> fetch_loop U http (Suc left) target = (case fetch_loop U http left (u_href nxt) of (urls, res) \<Rightarrow> (target # urls, res))")
    case True
    then obtain nxt :: url and u where n: "assertHttpsUrl U (u_href nxt) = Inr u"
      "fetch_loop U http (Suc left) target = (case fetch_loop U http left (u_href nxt) of (urls, res) \<Rightarrow> (target # urls, res))"
      by blast
    obtain us rr where us: "fetch_loop U http left (u_href nxt) = (us, rr)" by fastforce
    note IH = Suc.IH[OF us]
    have "urls = target # us" using Suc.prems n(2) us by simp
    then show ?thesis using IH n(1) by (cases us) auto
  next
    case False
    have "\<exists>r. fetch_loop U http (Suc left) target = ([target], r)"
      using False by (subst fetch_loop.simps, subst (asm) fetch_loop.simps)
        (auto split: http_outcome.splits option.splits sum.splits)
    then show ?thesis using Suc.prems by auto
  qed
qed

section \<open>An honest origin\<close>
text \<open>An origin that serves one document at one URL, and knows no other.\<close>

definition honest_origin :: "string \<Rightarrow> jsval \<Rightarrow> string \<Rightarrow> http_outcome" where
  "honest_origin target doc u = (if u = target
     then HttpResponse \<lparr> hr_status = 200, hr_location = None, hr_body = ref_utf8 (json_stringify doc) \<rparr>
     else HttpFailed)"

lemma resolve_published:
  assumes "gzip_ok G" "ed25519_ok E" "publishStatusList N E G U pub = Inr doc"
    and "sk_pkcs8Der (pb_signingKey pub) = None" "sk_seed (pb_signingKey pub) = Some seed"
    and "encode_entries (pb_entries pub) = Inr m" "normalizeStatusSize (pb_statusSize pub) = Inr n" "m * n div 8 \<le> MAX_STATUS_LIST_BYTES"
    and pin: "find (\<lambda>p. pi_issuerId p = i) (rs_issuers rs) = Some p" "q_issuerId q = Some i" "q_statusPurpose q = pb_statusPurpose pub"
      "pi_publicKeyRaw p = ed_public E seed" "pi_documentIssuer p = pb_issuer pub" "pi_verificationMethod p = Some (pb_verificationMethod pub)"
    and "assertHttpsUrl U (pi_url p) = Inr u" "rs_cache rs (pi_url p) = None"
    and "length (ref_utf8 (json_stringify doc)) \<le> rs_maxBytes rs"
    and inst: "pb_validFrom pub = JInt vf" "pb_validUntil pub = None" "vf < 253402214400" "vf \<le> now + 60" "now < vf + 86400"
      "\<not> js_less (rs_maxAge rs) (now - vf)"
  shows "fst (resolve N E G U (honest_origin (u_href u) doc) now q rs) = Inr (toBitstringStatusList doc)"
proof -
  obtain l s t sig where f: "0 \<le> vf" "encodeStatusList G \<lparr> e_statusPurpose = pb_statusPurpose pub, e_set = pb_revoked pub,
                  e_entries = pb_entries pub, e_statusSize = pb_statusSize pub \<rparr> = Inr l"
    "toXsdDateTime (JInt vf) = Inr s" "toXsdDateTime (JInt (vf + 86400)) = Inr t" "doc = published_body pub l s t sig"
    by (rule published_form[OF assms(2,3,4,5)]) (use inst(1,2) in auto)
  note pv = published_verifies[OF assms(2,3,4,5)]
  have key: "pinned_key_of p = \<lparr> pk_publicKeyRaw = ed_public E seed, pk_issuer = pb_issuer pub,
      pk_verificationMethod = Some (pb_verificationMethod pub) \<rparr>"
    using pin by (simp add: pinned_key_of_def)
  have tx: "Option.bind (utf8_text (ref_utf8 (json_stringify doc))) json_parse = Some doc"
    using utf8_text_ref json_parse_stringify[OF published_plain[OF f(2)]] f(5) by simp
  have vf: "parseXsdDateTime (jget ''validFrom'' doc) ''validFrom'' = Inr vf"
    using xsd_roundtrip[of vf "''validFrom''"] f(1,3,5) inst(3) by (auto simp: published_body_def simp del: toXsdDateTime.simps)
  have vu: "parseXsdDateTime (jget ''validUntil'' doc) ''validUntil'' = Inr (vf + 86400)"
    using xsd_roundtrip[of "vf + 86400" "''validUntil''"] f(1,4,5) inst(3) by (auto simp: published_body_def simp del: toXsdDateTime.simps)
  obtain D where D: "decodeStatusList G (Some (toBitstringStatusList doc)) (Some (pb_statusPurpose pub)) = Inr D"
    using encoded_list_decodes[OF assms(1) conjunct2[OF pv], of m n] assms(6,7,8) by (simp) blast
  have purpose: "statusPurpose (toBitstringStatusList doc) = pb_statusPurpose pub"
    using conjunct2[OF pv] by (auto elim: encodeStatusList_Inr)
  let ?e = "\<lparr> ce_document = doc, ce_list = toBitstringStatusList doc, ce_validFrom = vf, ce_validUntil = vf + 86400, ce_fetchedAt = now \<rparr>"
  let ?r = "\<lparr> hr_status = 200, hr_location = None, hr_body = ref_utf8 (json_stringify doc) \<rparr>"
  have "snd (fetch_loop U (honest_origin (u_href u) doc) (rs_maxRedirects rs) (u_href u)) = Inr ?r"
    by (subst fetch_loop.simps) (simp add: honest_origin_def)
  moreover have "verify_body N E G (rs_maxBytes rs) p now ?r = Inr ?e"
    using assms(17) tx pv vf vu D purpose by (simp add: verify_body_def key Let_def)
  ultimately have "fetchAndVerify N E G U (honest_origin (u_href u) doc) rs p now = Inr ?e"
    using assms(15) by (simp add: fetchAndVerify_def)
  moreover have "assertTemporallyUsable (rs_maxAge rs) ?e now = Inr ()"
    using inst by (simp add: assertTemporallyUsable_def)
  moreover have "assertPurpose (toBitstringStatusList doc) (q_statusPurpose q) = Inr ()"
    using purpose pin(3) by (simp add: assertPurpose_def)
  ultimately show ?thesis using pin(1,2) assms(16) by (simp add: resolve_def)
qed

text \<open>
  The cache is keyed by URL, not by issuer. Where two pinned issuers share a URL, a document
  verified for the one answers a question about the other, whose own key and issuer name never
  enter: the constructor refuses a repeated issuer, not a repeated URL.
\<close>

lemma shared_url_serves_other_issuer:
  assumes "rs_cache rs (pi_url a) = Some entry" "js_greater (rs_cacheTtl rs) (now - ce_fetchedAt entry)"
    and "assertTemporallyUsable (rs_maxAge rs) entry now = Inr ()" "statusPurpose (ce_list entry) = q_statusPurpose q"
    and "q_issuerId q = Some (pi_issuerId b)" "rs_issuers rs = [a, b]" "pi_issuerId a \<noteq> pi_issuerId b" "pi_url b = pi_url a"
    and "pi_publicKeyRaw b \<noteq> pi_publicKeyRaw a" "pi_documentIssuer b \<noteq> pi_documentIssuer a" "entry_good N E G a entry"
  shows "fst (resolve N E G U http now q rs) = Inr (ce_list entry)
    \<and> \<not> document_verified N E (ce_document entry) (pinned_key_of b)"
proof
  show "fst (resolve N E G U http now q rs) = Inr (ce_list entry)"
    using assms by (simp add: resolve_def assertPurpose_def)
  show "\<not> document_verified N E (ce_document entry) (pinned_key_of b)"
    using assms(10,11) by (auto simp: entry_good_def document_verified_def Let_def pinned_key_of_def)
qed

text \<open>A resolver for the example publisher, one hundred seconds after it published.\<close>

definition toy_pin :: PinnedStatusListIssuer where
  "toy_pin = \<lparr> pi_issuerId = ''i'', pi_url = ''https://i/list'', pi_publicKeyRaw = replicate 32 9, pi_documentIssuer = ''issuer'',
     pi_verificationMethod = Some ''key-1'' \<rparr>"

definition toy_config :: "nat \<Rightarrow> resolver_config" where
  "toy_config maxBytes = \<lparr> rc_issuers = [toy_pin], rc_maxAge = None, rc_cacheTtl = None, rc_maxBytes = Some maxBytes,
     rc_maxRedirects = None, rc_defaultIssuerId = None \<rparr>"

definition toy_question :: status_list_request where
  "toy_question = \<lparr> q_revocationIndex = JInt 5, q_issuerId = Some ''i'', q_statusPurpose = ''revocation'' \<rparr>"

definition toy_resolver :: "nat \<Rightarrow> HardenedStatusListResolver" where
  "toy_resolver k = \<lparr> rs_issuers = [toy_pin], rs_maxAge = JInt 300, rs_cacheTtl = JInt 60, rs_maxBytes = k,
    rs_maxRedirects = 3, rs_defaultIssuerId = None, rs_cache = Map.empty, rs_last = None \<rparr>"

lemma toy_resolver_new: "new_resolver toy_url (toy_config k) = Inr (toy_resolver k)"
  by (simp add: new_resolver_def toy_config_def toy_resolver_def assertHttpsUrl_def toy_url_def toy_pin_def or_default_def Let_def js_gt_def
      DEFAULT_STATUS_LIST_MAX_AGE_SECONDS_def DEFAULT_STATUS_LIST_CACHE_TTL_SECONDS_def MAX_STATUS_LIST_REDIRECTS_def)

lemmas toy_facts = toy_publish_def toy_resolver_def toy_config_def toy_pin_def toy_question_def toy_ed_def assertHttpsUrl_def
  toy_url_def MINIMUM_STATUS_LIST_ENTRIES_def MAX_STATUS_LIST_BYTES_def

lemma toy_resolves:
  "\<exists>doc maxBytes rs. publishStatusList noble_ref toy_ed gzip_identity toy_url toy_publish = Inr doc
     \<and> new_resolver toy_url (toy_config maxBytes) = Inr rs
     \<and> fst (resolve noble_ref toy_ed gzip_identity toy_url (honest_origin ''https://i/list'' doc) 1100 toy_question rs)
         = Inr (toBitstringStatusList doc)"
proof -
  obtain doc where doc: "publishStatusList noble_ref toy_ed gzip_identity toy_url toy_publish = Inr doc"
    using toy_published by blast
  define k where "k = length (ref_utf8 (json_stringify doc))"
  have "fst (resolve noble_ref toy_ed gzip_identity toy_url
      (honest_origin (u_href \<lparr> u_protocol = ''https:'', u_username = [], u_password = [], u_href = ''https://i/list'' \<rparr>) doc) 1100 toy_question (toy_resolver k))
         = Inr (toBitstringStatusList doc)"
    by (rule resolve_published[OF gzip_identity_ok toy_ed_ok doc, where seed = "replicate 32 9" and m = 131072 and n = 1
          and i = "''i''" and p = toy_pin and vf = 1000]) (simp_all add: toy_facts k_def)
  then show ?thesis using doc toy_resolver_new by auto
qed


section \<open>Properties\<close>

text \<open>
  C13. One fetch makes at most \<open>maxRedirects + 1\<close> requests, starts at the pinned URL, and every
  further URL it asks is an https URL without credentials, whatever the origins answer: the
  redirect loop ends and no hop is downgraded.
\<close>

theorem fetch_bounded_https:
  "case fetch_loop U http (rs_maxRedirects rs) target of (urls, res) \<Rightarrow>
     length urls \<le> rs_maxRedirects rs + 1 \<and> hd urls = target \<and> list_all (\<lambda>x. is_ok (assertHttpsUrl U x)) (tl urls)"
  using fetch_loop_urls by (auto simp: list_all_iff is_ok_iff split: prod.split)

text \<open>
  C14. In every state a resolver reaches, through any calls against any network, what it returns
  was signed by the key pinned for an issuer at the URL of the issuer asked for, carries that
  issuer's name and the purpose asked for, decodes, has begun, has not expired, and is no older than
  the verifier's own bound. That issuer is the one asked for wherever the pinned URLs are distinct,
  and wherever the URL was not in the cache; the cache is keyed by URL, so where two pinned issuers
  share one, a cached list of the other can answer.
\<close>

theorem resolved_list_authentic:
  assumes "resolver_reachable N E G U c rs" and "resolve N E G U http now q rs = (Inr l, rs')"
  shows "\<exists>p\<in>set (rc_issuers c). \<exists>p'\<in>set (rc_issuers c). asked_issuer rs q = Some (pi_issuerId p) \<and> pi_url p' = pi_url p
    \<and> resolution_contract N E G (rs_maxAge rs) p' now (q_statusPurpose q) l
    \<and> (distinct (map pi_url (rc_issuers c)) \<or> rs_cache rs (pi_url p) = None \<longrightarrow> p' = p)"
  using resolve_contract[OF _ assms(2)] reachable_inv[OF assms(1)] by metis

lemma resolved_list_authentic_witness:
  "\<exists>l rs. \<exists>p\<in>set (rc_issuers (toy_config 0)). asked_issuer rs toy_question = Some (pi_issuerId p)
    \<and> resolution_contract noble_ref toy_ed gzip_identity (rs_maxAge rs) p 1100 (q_statusPurpose toy_question) l"
proof -
  obtain doc k rs rs' where "new_resolver toy_url (toy_config k) = Inr rs"
    and "resolve noble_ref toy_ed gzip_identity toy_url (honest_origin ''https://i/list'' doc) 1100 toy_question rs
         = (Inr (toBitstringStatusList doc), rs')"
    using toy_resolves by (metis prod.collapse)
  from resolved_list_authentic[OF created[OF this(1)] this(2)]
  obtain p where "p\<in>set (rc_issuers (toy_config k))" "asked_issuer rs toy_question = Some (pi_issuerId p)"
    "resolution_contract noble_ref toy_ed gzip_identity (rs_maxAge rs) p 1100 (q_statusPurpose toy_question) (toBitstringStatusList doc)"
    by (auto simp: toy_config_def)
  then show ?thesis unfolding toy_config_def by auto
qed

text \<open>
  C15. Where the origin serves the published document, a fresh resolver that pins its issuer
  returns the published list, and reading index \<open>i\<close> of it says revoked exactly when \<open>i\<close> was among
  the published revoked indexes: signing, the JSON text, the fetch, the proof, the multibase, gzip
  and bit packing all invert.
\<close>

theorem published_bit_resolves:
  assumes "gzip_ok G" "ed25519_ok E" "publishStatusList N E G U pub = Inr doc"
    and "sk_pkcs8Der (pb_signingKey pub) = None" "sk_seed (pb_signingKey pub) = Some seed"
    and "encode_entries (pb_entries pub) = Inr m" "normalizeStatusSize (pb_statusSize pub) = Inr n" "m * n div 8 \<le> MAX_STATUS_LIST_BYTES"
    and "new_resolver U c = Inr rs" "find (\<lambda>p. pi_issuerId p = i) (rc_issuers c) = Some p" "assertHttpsUrl U (pi_url p) = Inr u"
    and "pi_publicKeyRaw p = ed_public E seed" "pi_documentIssuer p = pb_issuer pub" "pi_verificationMethod p = Some (pb_verificationMethod pub)"
    and "q_issuerId q = Some i" "q_statusPurpose q = pb_statusPurpose pub" "length (ref_utf8 (json_stringify doc)) \<le> rs_maxBytes rs"
    and "pb_validFrom pub = JInt vf" "pb_validUntil pub = None" "vf < 253402214400" "vf \<le> now + 60" "now < vf + 86400"
      "\<not> js_less (rs_maxAge rs) (now - vf)"
  shows "\<exists>l D. fst (resolve N E G U (honest_origin (u_href u) doc) now q rs) = Inr l
    \<and> decodeStatusList G (Some l) (Some (q_statusPurpose q)) = Inr D
    \<and> (\<forall>j<m. \<exists>v. statusAt D (JInt (int j)) = Inr v \<and> (v \<noteq> 0 \<longleftrightarrow> JInt (int j) \<in> set (pb_revoked pub)))"
proof -
  have rs: "rs_issuers rs = rc_issuers c" "rs_cache rs = Map.empty" using new_resolver_Inr[OF assms(9)] by auto
  have "fst (resolve N E G U (honest_origin (u_href u) doc) now q rs) = Inr (toBitstringStatusList doc)"
    by (rule resolve_published[OF assms(1-8)]) (use assms(10-) rs in simp_all)
  moreover note encoded_list_decodes[OF assms(1) conjunct2[OF published_verifies[OF assms(2,3,4,5)]], of m n]
  ultimately show ?thesis using assms(6-8,16) by simp blast
qed

lemma published_bit_resolves_witness:
  "\<exists>doc k rs l D. new_resolver toy_url (toy_config k) = Inr rs
    \<and> fst (resolve noble_ref toy_ed gzip_identity toy_url (honest_origin ''https://i/list'' doc) 1100 toy_question rs) = Inr l
    \<and> decodeStatusList gzip_identity (Some l) (Some ''revocation'') = Inr D
    \<and> (\<forall>j<131072. \<exists>v. statusAt D (JInt (int j)) = Inr v \<and> (v \<noteq> 0 \<longleftrightarrow> JInt (int j) \<in> set (pb_revoked toy_publish)))"
proof -
  obtain doc where doc: "publishStatusList noble_ref toy_ed gzip_identity toy_url toy_publish = Inr doc"
    using toy_published by blast
  define k where "k = length (ref_utf8 (json_stringify doc))"
  have rs: "new_resolver toy_url (toy_config k) = Inr (toy_resolver k)" by (rule toy_resolver_new)
  let ?u = "\<lparr> u_protocol = ''https:'', u_username = [], u_password = [], u_href = ''https://i/list'' \<rparr>"
  have "\<exists>l D. fst (resolve noble_ref toy_ed gzip_identity toy_url (honest_origin (u_href ?u) doc) 1100 toy_question (toy_resolver k)) = Inr l
    \<and> decodeStatusList gzip_identity (Some l) (Some (q_statusPurpose toy_question)) = Inr D
    \<and> (\<forall>j<131072. \<exists>v. statusAt D (JInt (int j)) = Inr v \<and> (v \<noteq> 0 \<longleftrightarrow> JInt (int j) \<in> set (pb_revoked toy_publish)))"
    by (rule published_bit_resolves[OF gzip_identity_ok toy_ed_ok doc _ _ _ _ _ rs, where seed = "replicate 32 9" and n = 1
          and i = "''i''" and p = toy_pin and vf = 1000])
      (simp_all add: toy_facts k_def)
  moreover have "u_href ?u = ''https://i/list''" "q_statusPurpose toy_question = ''revocation''" by (simp_all add: toy_question_def)
  ultimately show ?thesis using rs by metis
qed

end
