(* ===== verification/CredentialStore.thy ===== *)
theory CredentialStore
imports Credential "HOL-Library.AList"
begin

text \<open>
  Holder-side custody: the in-memory store of the SDK (\<open>sdk/src/store.ts\<close>) and the JSON-file
  stores of the portal (\<open>scripts/onboard/durable.ts\<close>), of credentials and of revoked indexes.
  A JS \<open>Map\<close> is the list of its entries in insertion order. Values do not change once made, so
  the copies the code takes at the boundary are the values themselves. A file is the value that was
  written to it: writing \<open>JSON.stringify\<close> of a value and parsing it back gives the value.
\<close>

section \<open>The \<open>Map\<close> of the language\<close>

definition map_set :: "'k \<Rightarrow> 'v \<Rightarrow> ('k \<times> 'v) list \<Rightarrow> ('k \<times> 'v) list" where
  "map_set k v m = AList.update k v m"

definition map_get :: "('k \<times> 'v) list \<Rightarrow> 'k \<Rightarrow> 'v option" where
  "map_get m = map_of m"

definition map_delete :: "'k \<Rightarrow> ('k \<times> 'v) list \<Rightarrow> ('k \<times> 'v) list" where
  "map_delete k m = AList.delete k m"

interpretation js_map: keyed_store map_set map_get map_delete
  by unfold_locales (auto simp: map_set_def map_get_def map_delete_def update_conv' delete_conv')

lemma map_set_keys: "distinct (map fst m) \<Longrightarrow> distinct (map fst (map_set k v m))"
  "fst ` set (map_set k v m) = insert k (fst ` set m)"
  by (simp_all add: map_set_def distinct_update dom_update)

lemma map_delete_keys: "distinct (map fst m) \<Longrightarrow> distinct (map fst (map_delete k m))"
  "fst ` set (map_delete k m) = fst ` set m - {k}"
  by (simp add: map_delete_def distinct_delete) (auto simp: map_delete_def AList.delete_eq)

lemma map_get_absent: "k \<notin> fst ` set m \<Longrightarrow> map_get m k = None \<and> map_delete k m = m"
  by (auto simp: map_get_def map_delete_def map_of_eq_None_iff delete_idem)

lemma map_set_fresh: "k \<notin> fst ` set m \<Longrightarrow> map_set k v m = m @ [(k, v)]"
  unfolding map_set_def by (induction m) auto

lemma map_set_subset: "set (map_set k v m) \<subseteq> insert (k, v) (set m)"
  unfolding map_set_def by (induction m) auto

lemma map_delete_subset: "set (map_delete k m) \<subseteq> set m"
  unfolding map_delete_def AList.delete_eq by auto

text \<open>The entries in \<open>m\<close> agree with their keys.\<close>

definition keyed_by :: "('v \<Rightarrow> 'k) \<Rightarrow> ('k \<times> 'v) list \<Rightarrow> bool" where
  "keyed_by f m = (distinct (map fst m) \<and> (\<forall>(k, v)\<in>set m. f v = k))"

lemma keyed_by_set: "keyed_by f m \<Longrightarrow> keyed_by f (map_set (f v) v m)"
  using map_set_subset[of "f v" v m] map_set_keys(1)[of m "f v" v] unfolding keyed_by_def by blast

lemma keyed_by_delete: "keyed_by f m \<Longrightarrow> keyed_by f (map_delete k m)"
  using map_delete_subset[of k m] map_delete_keys(1)[of m k] unfolding keyed_by_def by blast

section \<open>Records\<close>

record StoredCredential =
  st_credential :: credential
  st_salt :: bytes
  st_walletAddress :: string
  st_storedAt :: jsnum

datatype store_error = NotAStrkey | SaltWidth nat | NotACredentialFile | NotAStatusListFile | StoreWriteFailed
  | StoredCredentialRefused credential_error

definition normalizeRecord :: "StoredCredential \<Rightarrow> store_error + StoredCredential" where
  "normalizeRecord r = (if \<not> is_wallet_address (st_walletAddress r) then Inl NotAStrkey
     else if length (st_salt r) \<noteq> SUBJECT_BINDING_SALT_BYTES then Inl (SaltWidth (length (st_salt r)))
     else Inr r)"

section \<open>The in-memory store\<close>

type_synonym InMemoryCredentialStore = "(string \<times> StoredCredential) list"

definition InMemory_put :: "StoredCredential \<Rightarrow> InMemoryCredentialStore \<Rightarrow> store_error + InMemoryCredentialStore" where
  "InMemory_put r s = ebind (normalizeRecord r) (\<lambda>n. Inr (map_set (st_walletAddress n) n s))"

definition InMemory_get :: "InMemoryCredentialStore \<Rightarrow> string \<Rightarrow> StoredCredential option" where
  "InMemory_get s w = map_get s w"

definition InMemory_delete :: "string \<Rightarrow> InMemoryCredentialStore \<Rightarrow> bool \<times> InMemoryCredentialStore" where
  "InMemory_delete w s = (map_get s w \<noteq> None, map_delete w s)"

definition InMemory_list :: "InMemoryCredentialStore \<Rightarrow> StoredCredential list" where
  "InMemory_list s = map snd s"

definition InMemory_size :: "InMemoryCredentialStore \<Rightarrow> nat" where
  "InMemory_size s = length s"

section \<open>The credential file\<close>

text \<open>
  \<open>Buffer.toString('hex')\<close> writes two lower-case digits per byte; \<open>Buffer.from(s, 'hex')\<close> reads
  pairs of digits of either case and stops at the first pair that is not one.
\<close>

definition hex_nibble :: "char \<Rightarrow> nat option" where
  "hex_nibble c = (let k = of_char c in if 48 \<le> k \<and> k < 58 then Some (k - 48)
     else if 97 \<le> k \<and> k < 103 then Some (k - 87) else if 65 \<le> k \<and> k < 71 then Some (k - 55) else None)"

fun buffer_from_hex :: "string \<Rightarrow> bytes" where
  "buffer_from_hex (a # b # r) = (case (hex_nibble a, hex_nibble b) of
     (Some x, Some y) \<Rightarrow> word_of_nat (16 * x + y) # buffer_from_hex r | _ \<Rightarrow> [])"
| "buffer_from_hex _ = []"

lemma hex_nibble_char: "d < 16 \<Longrightarrow> hex_nibble (nibble_char d) = Some d"
  by (auto simp: hex_nibble_def nibble_char_def Let_def)

lemma buffer_hex: "buffer_from_hex (ref_hex b) = b"
proof (induction b)
  case (Cons x b)
  have "unat x < 256" by (rule unat_lt2p_8)
  then have "unat x div 16 < 16" "16 * (unat x div 16) + unat x mod 16 = unat x" by (auto simp: less_mult_imp_div_less)
  then show ?case using Cons by (simp add: hex_nibble_char)
qed simp

record PersistedCredential =
  ps_walletAddress :: string
  ps_credential :: serialized_credential
  ps_saltHex :: string
  ps_storedAt :: jsnum

record CredentialFile =
  cf_version :: jsnum
  cf_credentials :: "PersistedCredential list"

record JsonFileCredentialStore =
  jc_records :: "(string \<times> PersistedCredential) list"
  jc_file :: "CredentialFile option"

definition JsonFileStore_open :: "CredentialFile option \<Rightarrow> store_error + JsonFileCredentialStore" where
  "JsonFileStore_open raw = (case raw of
     None \<Rightarrow> Inr \<lparr> jc_records = [], jc_file = None \<rparr>
   | Some f \<Rightarrow> if cf_version f \<noteq> JInt 1 then Inl NotACredentialFile
       else Inr \<lparr> jc_records = fold (\<lambda>rcd. map_set (ps_walletAddress rcd) rcd) (cf_credentials f) [], jc_file = Some f \<rparr>)"

text \<open>A write that fails throws, with the change already made in memory.\<close>

definition store_flush :: "bool \<Rightarrow> 'a \<Rightarrow> JsonFileCredentialStore \<Rightarrow> (store_error + 'a) \<times> JsonFileCredentialStore" where
  "store_flush write_ok a s = (if write_ok
     then (Inr a, s\<lparr>jc_file := Some \<lparr> cf_version = JInt 1, cf_credentials = map snd (jc_records s) \<rparr>\<rparr>)
     else (Inl StoreWriteFailed, s))"

definition persisted_form :: "noble \<Rightarrow> StoredCredential \<Rightarrow> PersistedCredential" where
  "persisted_form N r = \<lparr> ps_walletAddress = st_walletAddress r, ps_credential = serializeCredential N (st_credential r),
     ps_saltHex = ref_hex (st_salt r), ps_storedAt = st_storedAt r \<rparr>"

definition toStored :: "noble \<Rightarrow> PersistedCredential \<Rightarrow> store_error + StoredCredential" where
  "toStored N rcd = ebind (map_err StoredCredentialRefused (deserializeCredential N (ps_credential rcd))) (\<lambda>c.
     Inr \<lparr> st_credential = c, st_salt = buffer_from_hex (ps_saltHex rcd), st_walletAddress = ps_walletAddress rcd,
           st_storedAt = ps_storedAt rcd \<rparr>)"

definition JsonFile_put :: "noble \<Rightarrow> bool \<Rightarrow> StoredCredential \<Rightarrow> JsonFileCredentialStore \<Rightarrow> (store_error + unit) \<times> JsonFileCredentialStore" where
  "JsonFile_put N write_ok r s = (if length (st_salt r) \<noteq> 32 then (Inl (SaltWidth (length (st_salt r))), s)
     else store_flush write_ok () (s\<lparr>jc_records := map_set (st_walletAddress r) (persisted_form N r) (jc_records s)\<rparr>))"

definition JsonFile_get :: "noble \<Rightarrow> JsonFileCredentialStore \<Rightarrow> string \<Rightarrow> store_error + StoredCredential option" where
  "JsonFile_get N s w = (case map_get (jc_records s) w of None \<Rightarrow> Inr None
     | Some rcd \<Rightarrow> ebind (toStored N rcd) (\<lambda>r. Inr (Some r)))"

definition JsonFile_delete :: "bool \<Rightarrow> string \<Rightarrow> JsonFileCredentialStore \<Rightarrow> (store_error + bool) \<times> JsonFileCredentialStore" where
  "JsonFile_delete write_ok w s = (let had = map_get (jc_records s) w \<noteq> None; s1 = s\<lparr>jc_records := map_delete w (jc_records s)\<rparr> in
     if had then store_flush write_ok True s1 else (Inr False, s1))"

definition JsonFile_list :: "noble \<Rightarrow> JsonFileCredentialStore \<Rightarrow> store_error + StoredCredential list" where
  "JsonFile_list N s = mapE (toStored N) (map snd (jc_records s))"

definition JsonFile_size :: "JsonFileCredentialStore \<Rightarrow> nat" where
  "JsonFile_size s = length (jc_records s)"

lemma toStored_persisted: "noble_ok N \<Longrightarrow> toStored N (persisted_form N r) = Inr r"
  by (simp add: toStored_def persisted_form_def deserializeCredential_def serializeCredential_def buffer_hex)

section \<open>Custody across restarts\<close>

text \<open>
  What a store promises: two maps from wallets to records, the one the process sees and the one a
  restart comes back to. They differ only while a write has failed.
\<close>

datatype store_event = Put StoredCredential bool | Delete string bool | RestartStore

fun store_step :: "noble \<Rightarrow> store_event \<Rightarrow> JsonFileCredentialStore \<Rightarrow> JsonFileCredentialStore" where
  "store_step N (Put r ok) s = snd (JsonFile_put N ok r s)"
| "store_step N (Delete w ok) s = snd (JsonFile_delete ok w s)"
| "store_step N RestartStore s = (case JsonFileStore_open (jc_file s) of Inl e \<Rightarrow> s | Inr s' \<Rightarrow> s')"

type_synonym custody = "(string \<Rightarrow> StoredCredential option) \<times> (string \<Rightarrow> StoredCredential option)"

fun custody_step :: "store_event \<Rightarrow> custody \<Rightarrow> custody" where
  "custody_step (Put r ok) (mem, disk) = (if length (st_salt r) \<noteq> 32 then (mem, disk)
     else (mem(st_walletAddress r \<mapsto> r), if ok then mem(st_walletAddress r \<mapsto> r) else disk))"
| "custody_step (Delete w ok) (mem, disk) = (mem(w := None), if mem w \<noteq> None \<and> ok then mem(w := None) else disk)"
| "custody_step RestartStore (mem, disk) = (disk, disk)"

text \<open>The records a list of persisted ones stands for.\<close>

definition custody_of :: "noble \<Rightarrow> (string \<times> PersistedCredential) list \<Rightarrow> string \<Rightarrow> StoredCredential option" where
  "custody_of N m w = (case map_get m w of None \<Rightarrow> None | Some rcd \<Rightarrow> (case toStored N rcd of Inl e \<Rightarrow> None | Inr r \<Rightarrow> Some r))"

definition good_records :: "noble \<Rightarrow> (string \<times> PersistedCredential) list \<Rightarrow> bool" where
  "good_records N m = (keyed_by ps_walletAddress m \<and> (\<forall>(k, rcd)\<in>set m. \<exists>r. toStored N rcd = Inr r))"

definition file_records :: "JsonFileCredentialStore \<Rightarrow> (string \<times> PersistedCredential) list" where
  "file_records s = (case jc_file s of None \<Rightarrow> [] | Some f \<Rightarrow> map (\<lambda>rcd. (ps_walletAddress rcd, rcd)) (cf_credentials f))"

definition store_sim :: "noble \<Rightarrow> JsonFileCredentialStore \<Rightarrow> custody \<Rightarrow> bool" where
  "store_sim N s c = (good_records N (jc_records s) \<and> good_records N (file_records s)
     \<and> (\<forall>f. jc_file s = Some f \<longrightarrow> cf_version f = JInt 1)
     \<and> custody_of N (jc_records s) = fst c \<and> custody_of N (file_records s) = snd c)"

lemma fold_map_set:
  "distinct (map fst (m @ map (\<lambda>v. (f v, v)) vs)) \<Longrightarrow> fold (\<lambda>v. map_set (f v) v) vs m = m @ map (\<lambda>v. (f v, v)) vs"
proof (induction vs arbitrary: m)
  case (Cons v vs)
  then have "f v \<notin> fst ` set m" by auto
  then have "map_set (f v) v m = m @ [(f v, v)]" by (rule map_set_fresh)
  then show ?case using Cons by simp
qed simp

lemma keyed_entries: "keyed_by f m \<Longrightarrow> map (\<lambda>v. (f v, v)) (map snd m) = m"
  unfolding keyed_by_def by (induction m) auto

lemma open_file_records:
  assumes "store_sim N s c"
  shows "\<exists>s'. JsonFileStore_open (jc_file s) = Inr s' \<and> jc_records s' = file_records s \<and> jc_file s' = jc_file s"
proof (cases "jc_file s")
  case (Some f)
  have "keyed_by ps_walletAddress (file_records s)" using assms by (simp add: store_sim_def good_records_def)
  then have "distinct (map fst (map (\<lambda>rcd. (ps_walletAddress rcd, rcd)) (cf_credentials f)))"
    using Some by (simp add: keyed_by_def file_records_def)
  then have "fold (\<lambda>rcd. map_set (ps_walletAddress rcd) rcd) (cf_credentials f) [] = file_records s"
    using fold_map_set[of "[]" ps_walletAddress "cf_credentials f"] Some by (simp add: file_records_def)
  moreover have "cf_version f = JInt 1" using assms Some by (simp add: store_sim_def)
  ultimately show ?thesis using Some by (simp add: JsonFileStore_open_def)
qed (simp add: JsonFileStore_open_def file_records_def)

lemma good_records_set:
  assumes "noble_ok N" "good_records N m"
  shows "good_records N (map_set (st_walletAddress r) (persisted_form N r) m)"
    and "custody_of N (map_set (st_walletAddress r) (persisted_form N r) m) = (custody_of N m)(st_walletAddress r \<mapsto> r)"
proof -
  have key: "ps_walletAddress (persisted_form N r) = st_walletAddress r" by (simp add: persisted_form_def)
  note map_set_subset[of "st_walletAddress r" "persisted_form N r" m]
  then show "good_records N (map_set (st_walletAddress r) (persisted_form N r) m)"
    using assms keyed_by_set[of ps_walletAddress m "persisted_form N r"] toStored_persisted[OF assms(1)]
    unfolding good_records_def key by fastforce
  show "custody_of N (map_set (st_walletAddress r) (persisted_form N r) m) = (custody_of N m)(st_walletAddress r \<mapsto> r)"
    by (rule ext) (simp add: custody_of_def js_map.get_put toStored_persisted[OF assms(1)])
qed

lemma good_records_delete:
  assumes "good_records N m"
  shows "good_records N (map_delete w m)" and "custody_of N (map_delete w m) = (custody_of N m)(w := None)"
proof -
  show "good_records N (map_delete w m)"
    using assms keyed_by_delete[of ps_walletAddress m w] map_delete_subset[of w m] by (auto simp: good_records_def)
  show "custody_of N (map_delete w m) = (custody_of N m)(w := None)"
    by (rule ext) (simp add: custody_of_def js_map.get_remove)
qed

lemma custody_of_some: "good_records N m \<Longrightarrow> custody_of N m w \<noteq> None \<longleftrightarrow> map_get m w \<noteq> None"
proof -
  assume g: "good_records N m"
  have "map_get m w = Some rcd \<Longrightarrow> \<exists>r. toStored N rcd = Inr r" for rcd
    using g map_of_SomeD[of m w rcd] by (auto simp: good_records_def map_get_def)
  then show ?thesis by (force simp: custody_of_def split: option.splits sum.splits)
qed

lemma flush_sim:
  assumes "good_records N (jc_records s)" "good_records N (file_records s)" "\<forall>f. jc_file s = Some f \<longrightarrow> cf_version f = JInt 1"
  shows "store_sim N (snd (store_flush ok a s)) (custody_of N (jc_records s), if ok then custody_of N (jc_records s) else custody_of N (file_records s))"
proof (cases ok)
  case True
  have "file_records (snd (store_flush ok a s)) = jc_records s"
    using keyed_entries[of ps_walletAddress "jc_records s"] assms(1) True
    by (simp add: store_flush_def file_records_def good_records_def)
  then show ?thesis using assms(1) True by (simp add: store_sim_def store_flush_def)
qed (use assms in \<open>simp add: store_sim_def store_flush_def\<close>)

lemma store_step_sim:
  assumes N: "noble_ok N" and sim: "store_sim N s c"
  shows "store_sim N (store_step N e s) (custody_step e c)"
proof -
  obtain mem disk where c: "c = (mem, disk)" by (cases c)
  have g: "good_records N (jc_records s)" "good_records N (file_records s)" "\<forall>f. jc_file s = Some f \<longrightarrow> cf_version f = JInt 1"
    "custody_of N (jc_records s) = mem" "custody_of N (file_records s) = disk"
    using sim by (simp_all add: store_sim_def c)
  have same_file: "file_records (s\<lparr>jc_records := m\<rparr>) = file_records s" for m by (simp add: file_records_def)
  show ?thesis
  proof (cases e)
    case (Put r ok)
    let ?s = "s\<lparr>jc_records := map_set (st_walletAddress r) (persisted_form N r) (jc_records s)\<rparr>"
    note st = good_records_set[OF N g(1), of r]
    have "store_sim N (snd (store_flush ok () ?s)) (custody_of N (jc_records ?s), if ok then custody_of N (jc_records ?s) else custody_of N (file_records ?s))"
      by (rule flush_sim) (use st g same_file in simp_all)
    then show ?thesis using Put c g same_file st sim by (auto simp: JsonFile_put_def)
  next
    case (Delete w ok)
    let ?s = "s\<lparr>jc_records := map_delete w (jc_records s)\<rparr>"
    note dl = good_records_delete[OF g(1), of w]
    have "store_sim N (snd (store_flush ok True ?s)) (custody_of N (jc_records ?s), if ok then custody_of N (jc_records ?s) else custody_of N (file_records ?s))"
      by (rule flush_sim) (use dl g same_file in simp_all)
    moreover have "store_sim N ?s (custody_of N (jc_records ?s), disk)"
      using dl g same_file by (simp add: store_sim_def)
    moreover have "mem w \<noteq> None \<longleftrightarrow> map_get (jc_records s) w \<noteq> None" using custody_of_some[OF g(1)] g(4) by blast
    ultimately show ?thesis using Delete c g same_file dl by (auto simp: JsonFile_delete_def Let_def)
  next
    case RestartStore
    obtain s' where "JsonFileStore_open (jc_file s) = Inr s'" "jc_records s' = file_records s" "jc_file s' = jc_file s"
      using open_file_records[OF sim] by blast
    then show ?thesis using RestartStore c g by (simp add: store_sim_def file_records_def[of s'] file_records_def[of s, symmetric])
  qed
qed

lemma store_run_sim: "noble_ok N \<Longrightarrow> store_sim N s c \<Longrightarrow> store_sim N (fold (store_step N) es s) (fold custody_step es c)"
  by (induction es arbitrary: s c) (simp_all add: store_step_sim)

text \<open>While every write succeeds, a restart loses nothing.\<close>

fun written :: "store_event \<Rightarrow> bool" where
  "written (Put r ok) = ok" | "written (Delete w ok) = ok" | "written RestartStore = True"

lemma custody_all_written: "list_all written es \<Longrightarrow> fst c = snd c \<Longrightarrow> fst (fold custody_step es c) = snd (fold custody_step es c)"
proof (induction es arbitrary: c)
  case (Cons e es)
  have "fst (custody_step e c) = snd (custody_step e c)"
    using Cons.prems by (cases c; cases e) (auto simp: fun_upd_idem)
  then show ?case using Cons by simp
qed simp

text \<open>The in-memory store keeps the same promise within one process, for well-formed records.\<close>

lemma InMemory_put_get: "InMemory_put r s = Inr s' \<Longrightarrow>
    InMemory_get s' = (InMemory_get s)(st_walletAddress r \<mapsto> r) \<and> is_wallet_address (st_walletAddress r) \<and> length (st_salt r) = 32"
  by (auto simp: InMemory_put_def InMemory_get_def normalizeRecord_def res_simps SUBJECT_BINDING_SALT_BYTES_def
      js_map.get_put split: if_splits)

lemma InMemory_delete_get: "InMemory_get (snd (InMemory_delete w s)) = (InMemory_get s)(w := None)
    \<and> (fst (InMemory_delete w s) \<longleftrightarrow> InMemory_get s w \<noteq> None)"
  by (auto simp: InMemory_delete_def InMemory_get_def js_map.get_remove)

section \<open>The file of revoked indexes\<close>

record StatusListFile =
  sl_version :: jsnum
  sl_revoked :: "jsnum list"

record JsonFileStatusListStore =
  sv_revoked :: "int list"
  sv_file :: "StatusListFile option"

fun keep_index :: "jsnum \<Rightarrow> int list \<Rightarrow> int list" where
  "keep_index (JInt i) s = (if 0 \<le> i \<and> i \<notin> set s then s @ [i] else s)"
| "keep_index _ s = s"

definition StatusListStore_open :: "StatusListFile option \<Rightarrow> store_error + JsonFileStatusListStore" where
  "StatusListStore_open raw = (case raw of None \<Rightarrow> Inr \<lparr> sv_revoked = [], sv_file = None \<rparr>
     | Some f \<Rightarrow> if sl_version f \<noteq> JInt 1 then Inl NotAStatusListFile
       else Inr \<lparr> sv_revoked = fold keep_index (sl_revoked f) [], sv_file = Some f \<rparr>)"

definition revokedIndexes :: "JsonFileStatusListStore \<Rightarrow> int list" where
  "revokedIndexes s = sort (sv_revoked s)"

text \<open>A write that fails throws, with the change already made in memory. Clearing an index that memory does not
  hold writes nothing, also when an earlier clearing failed to reach the file.\<close>

definition status_flush :: "bool \<Rightarrow> JsonFileStatusListStore \<Rightarrow> (store_error + unit) \<times> JsonFileStatusListStore" where
  "status_flush write_ok s = (if write_ok
     then (Inr (), s\<lparr>sv_file := Some \<lparr> sl_version = JInt 1, sl_revoked = map JInt (revokedIndexes s) \<rparr>\<rparr>)
     else (Inl StoreWriteFailed, s))"

definition revoke :: "bool \<Rightarrow> int \<Rightarrow> JsonFileStatusListStore \<Rightarrow> (store_error + unit) \<times> JsonFileStatusListStore" where
  "revoke write_ok i s =
     status_flush write_ok (s\<lparr>sv_revoked := (if i \<in> set (sv_revoked s) then sv_revoked s else sv_revoked s @ [i])\<rparr>)"

definition clear_index :: "bool \<Rightarrow> int \<Rightarrow> JsonFileStatusListStore \<Rightarrow> (store_error + unit) \<times> JsonFileStatusListStore" where
  "clear_index write_ok i s = (if i \<in> set (sv_revoked s)
     then status_flush write_ok (s\<lparr>sv_revoked := remove1 i (sv_revoked s)\<rparr>) else (Inr (), s))"

text \<open>The flag of an event says whether the file could be written. The specification keeps two sets: what is
  revoked in memory, and what the file says.\<close>

datatype status_event = Revoke nat bool | ClearIndex nat bool | RestartStatus

fun status_step :: "status_event \<Rightarrow> JsonFileStatusListStore \<Rightarrow> JsonFileStatusListStore" where
  "status_step (Revoke i ok) s = snd (revoke ok (int i) s)"
| "status_step (ClearIndex i ok) s = snd (clear_index ok (int i) s)"
| "status_step RestartStatus s = (case StatusListStore_open (sv_file s) of Inl e \<Rightarrow> s | Inr s' \<Rightarrow> s')"

fun revoked_step :: "status_event \<Rightarrow> int set \<times> int set \<Rightarrow> int set \<times> int set" where
  "revoked_step (Revoke i ok) (mem, disk) = (insert (int i) mem, if ok then insert (int i) mem else disk)"
| "revoked_step (ClearIndex i ok) (mem, disk) =
     (if int i \<in> mem then (mem - {int i}, if ok then mem - {int i} else disk) else (mem, disk))"
| "revoked_step RestartStatus (mem, disk) = (disk, disk)"

definition revoked_after :: "status_event list \<Rightarrow> int set" where
  "revoked_after es = fst (fold revoked_step es ({}, {}))"

text \<open>While every write succeeds, the indexes revoked are those whose last event is a revocation.\<close>

fun status_written :: "status_event \<Rightarrow> bool" where
  "status_written (Revoke i ok) = ok" | "status_written (ClearIndex i ok) = ok" | "status_written RestartStatus = True"

fun last_revoked :: "nat \<Rightarrow> status_event list \<Rightarrow> bool" where
  "last_revoked i [] = False"
| "last_revoked i (Revoke j ok # newest_first) = (j = i \<or> last_revoked i newest_first)"
| "last_revoked i (ClearIndex j ok # newest_first) = (j \<noteq> i \<and> last_revoked i newest_first)"
| "last_revoked i (RestartStatus # newest_first) = last_revoked i newest_first"

lemma revoked_written:
  "list_all status_written es \<Longrightarrow> \<exists>R. fold revoked_step es ({}, {}) = (R, R) \<and> (\<forall>i. int i \<in> R \<longleftrightarrow> last_revoked i (rev es))"
proof (induction es rule: rev_induct)
  case (snoc e es)
  then obtain R where R: "fold revoked_step es ({}, {}) = (R, R)" "\<And>i. int i \<in> R \<longleftrightarrow> last_revoked i (rev es)" by auto
  show ?case
  proof (cases e)
    case (ClearIndex j ok)
    then have "R - {int j} = R" if "int j \<notin> R" using that by simp
    then show ?thesis using ClearIndex snoc.prems R by (intro exI[of _ "R - {int j}"]) auto
  qed (use snoc.prems R in auto)
qed simp

lemma revoked_after_written:
  assumes "list_all status_written es"
  shows "int i \<in> revoked_after es \<longleftrightarrow> last_revoked i (rev es)"
proof -
  obtain R where R: "fold revoked_step es ({}, {}) = (R, R)" "\<And>i. int i \<in> R \<longleftrightarrow> last_revoked i (rev es)"
    using revoked_written[OF assms] by blast
  show ?thesis unfolding revoked_after_def R(1) fst_conv by (rule R(2))
qed

definition status_sim :: "JsonFileStatusListStore \<Rightarrow> int set \<times> int set \<Rightarrow> bool" where
  "status_sim s c = (distinct (sv_revoked s) \<and> set (sv_revoked s) = fst c \<and> (\<forall>i\<in>fst c. 0 \<le> i)
     \<and> (case sv_file s of None \<Rightarrow> snd c = {}
        | Some f \<Rightarrow> sl_version f = JInt 1 \<and> (\<exists>is. sl_revoked f = map JInt is \<and> distinct is \<and> set is = snd c \<and> (\<forall>i\<in>snd c. 0 \<le> i))))"

lemma fold_keep_index:
  "distinct (acc @ is) \<Longrightarrow> \<forall>i\<in>set is. 0 \<le> i \<Longrightarrow> fold keep_index (map JInt is) acc = acc @ is"
  by (induction "is" arbitrary: acc) auto

lemma status_flush_sim:
  assumes "distinct (sv_revoked s)" "\<forall>i\<in>set (sv_revoked s). 0 \<le> i" "status_sim t (mem, disk)" "sv_file s = sv_file t"
  shows "status_sim (snd (status_flush ok s)) (set (sv_revoked s), if ok then set (sv_revoked s) else disk)"
proof (cases ok)
  case True
  then show ?thesis using assms(1,2)
    by (auto simp: status_flush_def status_sim_def revokedIndexes_def intro!: exI[of _ "sort (sv_revoked s)"])
qed (use assms in \<open>auto simp: status_flush_def status_sim_def split: option.splits\<close>)

lemma status_step_sim:
  assumes sim: "status_sim s c"
  shows "status_sim (status_step e s) (revoked_step e c)"
proof -
  obtain mem disk where c: "c = (mem, disk)" by (cases c)
  have s: "distinct (sv_revoked s)" "set (sv_revoked s) = mem" "\<forall>i\<in>mem. 0 \<le> i" using sim by (auto simp: status_sim_def c)
  show ?thesis
  proof (cases e)
    case (Revoke i ok)
    then show ?thesis
      using status_flush_sim[OF _ _ sim[unfolded c], of "s\<lparr>sv_revoked := (if int i \<in> mem then sv_revoked s else sv_revoked s @ [int i])\<rparr>" ok] s
      by (auto simp: c revoke_def insert_absorb split: if_splits)
  next
    case (ClearIndex i ok)
    then show ?thesis
      using status_flush_sim[OF _ _ sim[unfolded c], of "s\<lparr>sv_revoked := remove1 (int i) (sv_revoked s)\<rparr>" ok] s sim
      by (auto simp: c clear_index_def)
  next
    case RestartStatus
    show ?thesis
    proof (cases "sv_file s")
      case (Some f)
      then obtain js where "sl_version f = JInt 1" "sl_revoked f = map JInt js" "distinct js" "set js = disk" "\<forall>i\<in>disk. 0 \<le> i"
        using sim by (auto simp: status_sim_def c)
      then show ?thesis using Some RestartStatus fold_keep_index[of "[]" js]
        by (auto simp: status_sim_def StatusListStore_open_def c)
    qed (use sim RestartStatus in \<open>simp add: status_sim_def StatusListStore_open_def c\<close>)
  qed
qed

lemma status_run_sim: "status_sim s c \<Longrightarrow> status_sim (fold status_step es s) (fold revoked_step es c)"
  by (induction es arbitrary: s c) (simp_all add: status_step_sim)

lemma revokedIndexes_run:
  "revokedIndexes (fold status_step es \<lparr> sv_revoked = [], sv_file = None \<rparr>) = sorted_list_of_set (revoked_after es)"
proof -
  define s where "s = fold status_step es \<lparr> sv_revoked = [], sv_file = None \<rparr>"
  have "status_sim s (fold revoked_step es ({}, {}))"
    unfolding s_def by (rule status_run_sim) (simp add: status_sim_def)
  then have "distinct (sv_revoked s)" "revoked_after es = set (sv_revoked s)" by (simp_all add: status_sim_def revoked_after_def)
  then show ?thesis
    unfolding s_def[symmetric] by (simp add: revokedIndexes_def sorted_list_of_set_sort_remdups distinct_remdups_id)
qed

lemma revokedIndexes_set:
  "set (revokedIndexes (fold status_step es \<lparr> sv_revoked = [], sv_file = None \<rparr>)) = revoked_after es"
  using status_run_sim[of "\<lparr> sv_revoked = [], sv_file = None \<rparr>" "({}, {})" es]
  by (simp add: status_sim_def revokedIndexes_def revoked_after_def)

section \<open>Property\<close>

text \<open>
  C16. The credential file store refines a pair of maps from wallets to records, over any sequence
  of puts, deletes, failed writes and restarts from an empty store: reading gives exactly the
  record last put (credential, salt and all), and after a restart exactly what was last written.
  A record whose salt is not 32 bytes never enters.
\<close>

theorem credential_store_refines:
  assumes "noble_ok N" and "JsonFileStore_open None = Inr s0"
  shows "let s = fold (store_step N) es s0; c = fold custody_step es (Map.empty, Map.empty) in
     JsonFile_get N s w = Inr (fst c w) \<and> JsonFile_get N (store_step N RestartStore s) w = Inr (snd c w)"
proof -
  define s where "s = fold (store_step N) es s0"
  define c where "c = fold custody_step es (Map.empty, Map.empty)"
  have "store_sim N s0 (Map.empty, Map.empty)"
    using assms(2) by (auto simp: JsonFileStore_open_def store_sim_def good_records_def keyed_by_def file_records_def
        custody_of_def map_get_def fun_eq_iff)
  then have sim: "store_sim N s c" unfolding s_def c_def by (rule store_run_sim[OF assms(1)])
  have read: "JsonFile_get N t w = Inr (custody_of N (jc_records t) w)" if "good_records N (jc_records t)" for t
  proof (cases "map_get (jc_records t) w")
    case (Some rcd)
    then have "\<exists>r. toStored N rcd = Inr r" using that map_of_SomeD[of "jc_records t" w rcd]
      by (auto simp: good_records_def map_get_def)
    then show ?thesis using Some by (auto simp: JsonFile_get_def custody_of_def)
  qed (simp add: JsonFile_get_def custody_of_def)
  have "store_sim N (store_step N RestartStore s) (snd c, snd c)"
    using store_step_sim[OF assms(1) sim, of RestartStore] by (cases c) simp
  then show ?thesis using sim read unfolding s_def[symmetric] c_def[symmetric] Let_def by (simp add: store_sim_def)
qed

definition toy_custody :: StoredCredential where
  "toy_custody = \<lparr> st_credential = \<lparr> c_schemaVersion = ''v'', c_messages = [''m''], c_signature = [1], c_issuerPublicKey = [2],
     c_claims = Map.empty \<rparr>, st_salt = replicate 32 7, st_walletAddress = ''w'', st_storedAt = JInt 5 \<rparr>"

theorem credential_store_refines_witness:
  "let s = fold (store_step noble_ref) [Put toy_custody True, Delete ''w'' False] \<lparr> jc_records = [], jc_file = None \<rparr> in
     JsonFile_get noble_ref s ''w'' = Inr None \<and> JsonFile_get noble_ref (store_step noble_ref RestartStore s) ''w'' = Inr (Some toy_custody)"
proof -
  have "JsonFileStore_open None = Inr \<lparr> jc_records = [], jc_file = None \<rparr>" by (simp add: JsonFileStore_open_def)
  note run = credential_store_refines[OF noble_ref_ok this, of "[Put toy_custody True, Delete ''w'' False]" "''w''"]
  have "fold custody_step [Put toy_custody True, Delete ''w'' False] (Map.empty, Map.empty) = (Map.empty, [''w'' \<mapsto> toy_custody])"
    by (simp add: toy_custody_def fun_eq_iff)
  then show ?thesis using run by (simp only: Let_def fst_conv snd_conv fun_upd_same)
qed

end
