(* ===== verification/Jws.thy ===== *)
theory Jws
imports Json Base64url Interfaces
begin

text \<open>
  Compact JWS, signed and verified (\<open>gateway/src/auth/jws.ts\<close>). The asymmetric primitives of
  \<open>node:crypto\<close> are a parameter; keys are what \<open>KeyObject\<close> exposes of them. The replay store is a
  parameter too: one first-sight operation on its state. Text is handled in its UTF-8 bytes.
\<close>

section \<open>Keys and primitives\<close>

datatype jws_error = J_malformed_token | J_bad_header | J_alg_not_es256 | J_alg_not_eddsa | J_not_an_ec_p256_key
  | J_not_an_okp_ed25519_key | J_signature_length | J_signature_mismatch | J_payload_malformed | J_claim_absent string
  | J_claim_type string | J_invalid_window | J_unknown_claim string | J_issuer_mismatch | J_audience_mismatch
  | J_token_not_yet_valid | J_token_expired | J_replay_detected

datatype jws_alg = ES256 | EdDSA

text \<open>\<open>type\<close>, \<open>asymmetricKeyType\<close>, the curve in the JWK of the public half, and the material.\<close>

record key_object =
  ko_type :: string
  ko_family :: string
  ko_crv :: string
  ko_material :: bytes

record node_crypto =
  nc_public :: "key_object \<Rightarrow> key_object"
  nc_sign :: "key_object \<Rightarrow> bytes \<Rightarrow> bytes"
  nc_verify :: "key_object \<Rightarrow> bytes \<Rightarrow> bytes \<Rightarrow> bool"

definition keyAlgorithm :: "key_object \<Rightarrow> jws_error + jws_alg" where
  "keyAlgorithm key = (if ko_type key \<noteq> ''public'' \<and> ko_type key \<noteq> ''private'' then Inl J_not_an_ec_p256_key
     else if ko_family key = ''ed25519'' then Inr EdDSA
     else if ko_family key \<noteq> ''ec'' then Inl J_not_an_ec_p256_key
     else if ko_crv key \<noteq> ''P-256'' then Inl J_not_an_ec_p256_key
     else Inr ES256)"

definition assertEs256Key :: "key_object \<Rightarrow> jws_error + unit" where
  "assertEs256Key key = ebind (keyAlgorithm key) (\<lambda>alg. if alg \<noteq> ES256 then Inl J_not_an_okp_ed25519_key else Inr ())"

definition PROTECTED_HEADER_JSON :: string where
  "PROTECTED_HEADER_JSON = ''{\"alg\":\"ES256\",\"typ\":\"JWT\"}''"

definition EDDSA_PROTECTED_HEADER_JSON :: string where
  "EDDSA_PROTECTED_HEADER_JSON = ''{\"alg\":\"EdDSA\",\"typ\":\"JWT\"}''"

definition frozenHeaderB64 :: "jws_alg \<Rightarrow> string" where
  "frozenHeaderB64 alg = base64urlEncode (ref_utf8 (case alg of ES256 \<Rightarrow> PROTECTED_HEADER_JSON | EdDSA \<Rightarrow> EDDSA_PROTECTED_HEADER_JSON))"

section \<open>base64url of the platform\<close>

text \<open>
  On characters of the alphabet \<open>Buffer.from(s, 'base64url')\<close> keeps the whole bytes and drops the
  bits that are left over, whatever they are.
\<close>

definition node_base64url :: "string \<Rightarrow> bytes" where
  "node_base64url s = (case b64_loop s 0 0 [] of Inr (acc, bits, out) \<Rightarrow> out | Inl e \<Rightarrow> [])"

definition b64urlDecodeStrict :: "string \<Rightarrow> jws_error + bytes" where
  "b64urlDecodeStrict segment = (if segment = [] \<or> \<not> list_all (\<lambda>c. B64URL_REVERSE c \<noteq> None) segment
     then Inl J_malformed_token else Inr (node_base64url segment))"

section \<open>DER and \<open>r || s\<close>\<close>

text \<open>Leading zero bytes dropped, but never the last byte.\<close>

fun strip_zeros :: "bytes \<Rightarrow> bytes" where
  "strip_zeros (x # y # r) = (if x = 0 then strip_zeros (y # r) else x # y # r)"
| "strip_zeros bs = bs"

text \<open>One INTEGER at an offset: its 32-byte big-endian form and the offset behind it.\<close>

definition der_integer :: "bytes \<Rightarrow> nat \<Rightarrow> jws_error + (bytes \<times> nat)" where
  "der_integer der off =
     (if off + 2 > length der \<or> der ! off \<noteq> 0x02 then Inl J_signature_length
      else let intLen = unat (der ! (off + 1)) in
        if der ! (off + 1) AND 0x80 \<noteq> 0 \<or> intLen = 0 \<or> intLen > 33 then Inl J_signature_length
        else if off + 2 + intLen > length der then Inl J_signature_length
        else let mag = strip_zeros (take intLen (drop (off + 2) der)) in
          if length mag > 32 then Inl J_signature_length
          else Inr (replicate (32 - length mag) 0 @ mag, off + 2 + intLen))"

definition derToRaw :: "bytes \<Rightarrow> jws_error + bytes" where
  "derToRaw der =
     (if length der < 8 \<or> length der > 72 then Inl J_signature_length
      else if der ! 0 \<noteq> 0x30 then Inl J_signature_length
      else if der ! 1 AND 0x80 \<noteq> 0 then Inl J_signature_length
      else if unat (der ! 1) + 2 \<noteq> length der then Inl J_signature_length
      else ebind (der_integer der 2) (\<lambda>(r, off).
           ebind (der_integer der off) (\<lambda>(s, off').
           if off' \<noteq> length der then Inl J_signature_length else Inr (r @ s))))"

definition raw_integer :: "bytes \<Rightarrow> jws_error + bytes" where
  "raw_integer half = (let v = strip_zeros half in
     if v = [0] then Inl J_signature_length
     else let body = (if hd v \<ge> 0x80 then 0 # v else v) in Inr ([0x02, word_of_nat (length body)] @ body))"

definition rawToDer :: "bytes \<Rightarrow> jws_error + bytes" where
  "rawToDer raw = ebind (raw_integer (take 32 raw)) (\<lambda>r. ebind (raw_integer (take 32 (drop 32 raw))) (\<lambda>s.
     let body = r @ s in Inr ([0x30, word_of_nat (length body)] @ body)))"

section \<open>Claims\<close>

definition check_string_claim :: "jsval \<Rightarrow> string \<Rightarrow> jws_error + unit" where
  "check_string_claim claims key = (case jget key claims of JUndefined \<Rightarrow> Inl (J_claim_absent key)
     | JString s \<Rightarrow> if s = [] then Inl (J_claim_type key) else Inr ()
     | _ \<Rightarrow> Inl (J_claim_type key))"

definition check_time_claim :: "jsval \<Rightarrow> string \<Rightarrow> jws_error + unit" where
  "check_time_claim claims key = (case jget key claims of JUndefined \<Rightarrow> Inl (J_claim_absent key)
     | JNum x \<Rightarrow> if js_isSafeInteger x then Inr () else Inl (J_claim_type key)
     | _ \<Rightarrow> Inl (J_claim_type key))"

fun check_each :: "('a \<Rightarrow> 'e + unit) \<Rightarrow> 'a list \<Rightarrow> 'e + unit" where
  "check_each f [] = Inr ()"
| "check_each f (x # xs) = ebind (f x) (\<lambda>_. check_each f xs)"

definition checkRequiredClaims :: "jsval \<Rightarrow> jws_error + unit" where
  "checkRequiredClaims claims = ebind (check_each (check_string_claim claims) [''iss'', ''sub'', ''aud''])
     (\<lambda>_. check_each (check_time_claim claims) [''iat'', ''nbf'', ''exp''])"

text \<open>\<open>key in ordered\<close> also finds what every object inherits.\<close>

definition inherited_keys :: "string list" where
  "inherited_keys = [''constructor'', ''__defineGetter__'', ''__defineSetter__'', ''hasOwnProperty'', ''__lookupGetter__'',
     ''__lookupSetter__'', ''isPrototypeOf'', ''propertyIsEnumerable'', ''toString'', ''valueOf'', ''__proto__'', ''toLocaleString'']"

fun js_keys :: "jsval \<Rightarrow> string list" where
  "js_keys (JObject kvs) = map fst kvs"
| "js_keys _ = []"

fun time_of :: "jsval \<Rightarrow> int" where
  "time_of (JNum (JInt i)) = i"
| "time_of _ = 0"

definition ordered_claims :: "jsval \<Rightarrow> (string \<times> jsval) list" where
  "ordered_claims claims = map (\<lambda>k. (k, jget k claims)) [''iss'', ''sub'', ''aud'', ''iat'', ''nbf'', ''exp'']
     @ (if jget ''jti'' claims = JUndefined then [] else [(''jti'', jget ''jti'' claims)])"

definition serializeClaims :: "jsval \<Rightarrow> jws_error + string" where
  "serializeClaims claims = ebind (checkRequiredClaims claims) (\<lambda>_.
     if time_of (jget ''nbf'' claims) \<ge> time_of (jget ''exp'' claims) then Inl J_invalid_window
     else let ordered = ordered_claims claims in
       case find (\<lambda>key. key \<notin> fst ` set ordered \<and> key \<notin> set inherited_keys \<and> key \<noteq> ''jti'') (js_keys claims) of
         Some key \<Rightarrow> Inl (J_unknown_claim key)
       | None \<Rightarrow> Inr (json_stringify (JObject ordered)))"

section \<open>Signing\<close>

text \<open>\<open>Buffer.from(s, 'ascii')\<close> keeps the low byte of each character.\<close>

definition ascii_bytes :: "string \<Rightarrow> bytes" where
  "ascii_bytes s = map (\<lambda>c. word_of_nat (of_char c)) s"

definition signing_input :: "jws_alg \<Rightarrow> string \<Rightarrow> string" where
  "signing_input alg payload = frozenHeaderB64 alg @ ''.'' @ payload"

definition signJws :: "node_crypto \<Rightarrow> key_object \<Rightarrow> jsval \<Rightarrow> jws_error + string" where
  "signJws C privateKey claims = ebind (keyAlgorithm privateKey) (\<lambda>alg. ebind (serializeClaims claims) (\<lambda>claimsJson.
     let signingInput = signing_input alg (base64urlEncode (ref_utf8 claimsJson));
         sig = nc_sign C privateKey (ascii_bytes signingInput) in
     case alg of
       EdDSA \<Rightarrow> if length sig \<noteq> 64 then Inl J_signature_length else Inr (signingInput @ ''.'' @ base64urlEncode sig)
     | ES256 \<Rightarrow> ebind (derToRaw sig) (\<lambda>raw. Inr (signingInput @ ''.'' @ base64urlEncode raw))))"

section \<open>Verifying\<close>

fun split_on :: "char \<Rightarrow> string \<Rightarrow> string list" where
  "split_on d [] = [[]]"
| "split_on d (c # s) = (if c = d then [] # split_on d s
     else case split_on d s of [] \<Rightarrow> [[c]] | p # ps \<Rightarrow> (c # p) # ps)"

definition parseProtectedHeader :: "bytes \<Rightarrow> jws_error + jsval" where
  "parseProtectedHeader headerBytes = (case Option.bind (utf8_text headerBytes) json_parse of
     None \<Rightarrow> Inl J_bad_header
   | Some parsed \<Rightarrow>
       if \<not> is_object parsed then Inl J_bad_header
       else if \<exists>k\<in>set [''jwk'', ''jku'', ''x5u'', ''x5c'']. k \<in> set (js_keys parsed) then Inl J_bad_header
       else if ''crit'' \<in> set (js_keys parsed) then Inl J_bad_header
       else Inr (jget ''alg'' parsed))"

record VerifyJwsOptions =
  jo_publicKey :: key_object
  jo_now :: jsnum
  jo_issuer :: string
  jo_audience :: string
  jo_sep10 :: bool
  jo_replay :: "string option"

record VerifiedJws =
  vj_iss :: string
  vj_sub :: string
  vj_aud :: "string option"
  vj_iat :: int
  vj_nbf :: "int option"
  vj_exp :: int
  vj_jti :: "string option"

definition verify_header :: "jws_alg \<Rightarrow> string \<Rightarrow> jws_error + unit" where
  "verify_header expectedAlg headerB64 = (if headerB64 = frozenHeaderB64 expectedAlg then Inr ()
     else ebind (b64urlDecodeStrict headerB64) (\<lambda>hb. ebind (parseProtectedHeader hb) (\<lambda>alg.
       if alg \<noteq> JString (case expectedAlg of ES256 \<Rightarrow> ''ES256'' | EdDSA \<Rightarrow> ''EdDSA'')
       then Inl (case expectedAlg of ES256 \<Rightarrow> J_alg_not_es256 | EdDSA \<Rightarrow> J_alg_not_eddsa)
       else Inl J_bad_header)))"

definition verify_signature :: "node_crypto \<Rightarrow> jws_alg \<Rightarrow> key_object \<Rightarrow> string \<Rightarrow> string \<Rightarrow> jws_error + unit" where
  "verify_signature C expectedAlg publicKey signingInput signatureB64 =
     ebind (b64urlDecodeStrict signatureB64) (\<lambda>signature.
     if length signature \<noteq> 64 then Inl J_signature_length
     else ebind (case expectedAlg of ES256 \<Rightarrow> rawToDer signature | EdDSA \<Rightarrow> Inr signature) (\<lambda>sig.
     if nc_verify C publicKey (ascii_bytes signingInput) sig then Inr () else Inl J_signature_mismatch))"

definition parse_payload :: "string \<Rightarrow> jws_error + jsval" where
  "parse_payload payloadB64 = ebind (b64urlDecodeStrict payloadB64) (\<lambda>bs.
     case Option.bind (utf8_text bs) json_parse of None \<Rightarrow> Inl J_payload_malformed
     | Some parsed \<Rightarrow> if is_object parsed then Inr parsed else Inl J_payload_malformed)"

definition when_present :: "(jsval \<Rightarrow> string \<Rightarrow> jws_error + unit) \<Rightarrow> jsval \<Rightarrow> string \<Rightarrow> jws_error + unit" where
  "when_present chk bag key = (if jget key bag = JUndefined then Inr () else chk bag key)"

definition verify_claim_types :: "bool \<Rightarrow> jsval \<Rightarrow> jws_error + unit" where
  "verify_claim_types sep10 bag =
     ebind (check_each (check_string_claim bag) (if sep10 then [''iss'', ''sub''] else [''iss'', ''sub'', ''aud''])) (\<lambda>_.
     ebind (check_each (check_time_claim bag) (if sep10 then [''iat'', ''exp''] else [''iat'', ''nbf'', ''exp''])) (\<lambda>_.
     if \<not> sep10 then Inr ()
     else ebind (when_present check_string_claim bag ''aud'') (\<lambda>_. when_present check_time_claim bag ''nbf'')))"

definition opt_time :: "jsval \<Rightarrow> int option" where
  "opt_time v = (case v of JNum (JInt i) \<Rightarrow> Some i | _ \<Rightarrow> None)"

definition verify_claims :: "VerifyJwsOptions \<Rightarrow> jsval \<Rightarrow> jws_error + unit" where
  "verify_claims opts bag = ebind (verify_claim_types (jo_sep10 opts) bag) (\<lambda>_.
     if jget ''iss'' bag \<noteq> JString (jo_issuer opts) then Inl J_issuer_mismatch
     else if (\<not> jo_sep10 opts \<or> jget ''aud'' bag \<noteq> JUndefined) \<and> jget ''aud'' bag \<noteq> JString (jo_audience opts)
       then Inl J_audience_mismatch
     else if (case opt_time (jget ''nbf'' bag) of None \<Rightarrow> False | Some nbf \<Rightarrow> js_less (jo_now opts) nbf)
       then Inl J_token_not_yet_valid
     else if js_le (JInt (time_of (jget ''exp'' bag))) (jo_now opts) then Inl J_token_expired
     else Inr ())"

definition verified_claims :: "jsval \<Rightarrow> string option \<Rightarrow> VerifiedJws" where
  "verified_claims bag jti = \<lparr> vj_iss = (case jget ''iss'' bag of JString s \<Rightarrow> s | _ \<Rightarrow> []),
     vj_sub = (case jget ''sub'' bag of JString s \<Rightarrow> s | _ \<Rightarrow> []), vj_aud = js_string (jget ''aud'' bag),
     vj_iat = time_of (jget ''iat'' bag), vj_nbf = opt_time (jget ''nbf'' bag), vj_exp = time_of (jget ''exp'' bag), vj_jti = jti \<rparr>"

text \<open>The store answers whether \<open>(provider, jti)\<close> is seen for the first time, and records it.\<close>

definition verify_jti ::
  "(jsnum \<Rightarrow> 's \<Rightarrow> string \<times> string \<Rightarrow> bool \<times> 's) \<Rightarrow> VerifyJwsOptions \<Rightarrow> jsval \<Rightarrow> 's \<Rightarrow> (jws_error + string option) \<times> 's" where
  "verify_jti firstSight opts bag st = (case jo_replay opts of
     Some provider \<Rightarrow>
       (case jget ''jti'' bag of
          JString jti \<Rightarrow> if jti = [] then (Inl (J_claim_absent ''jti''), st)
            else (case firstSight (jo_now opts) st (provider, jti) of (first, st') \<Rightarrow>
              (if first then Inr (Some jti) else Inl J_replay_detected, st'))
        | _ \<Rightarrow> (Inl (J_claim_absent ''jti''), st))
   | None \<Rightarrow>
       (case jget ''jti'' bag of
          JUndefined \<Rightarrow> (Inr None, st)
        | JString jti \<Rightarrow> (if jti = [] then Inl (J_claim_type ''jti'') else Inr (Some jti), st)
        | _ \<Rightarrow> (Inl (J_claim_type ''jti''), st)))"

definition verify_stateless :: "node_crypto \<Rightarrow> string \<Rightarrow> VerifyJwsOptions \<Rightarrow> jws_error + jsval" where
  "verify_stateless C token opts = ebind (keyAlgorithm (jo_publicKey opts)) (\<lambda>expectedAlg.
     case split_on CHR ''.'' token of
       [headerB64, payloadB64, signatureB64] \<Rightarrow>
         ebind (verify_header expectedAlg headerB64) (\<lambda>_.
         ebind (verify_signature C expectedAlg (jo_publicKey opts) (headerB64 @ ''.'' @ payloadB64) signatureB64) (\<lambda>_.
         ebind (parse_payload payloadB64) (\<lambda>bag.
         ebind (verify_claims opts bag) (\<lambda>_. Inr bag))))
     | _ \<Rightarrow> Inl J_malformed_token)"

definition verifyJws ::
  "node_crypto \<Rightarrow> (jsnum \<Rightarrow> 's \<Rightarrow> string \<times> string \<Rightarrow> bool \<times> 's) \<Rightarrow> string \<Rightarrow> VerifyJwsOptions \<Rightarrow> 's \<Rightarrow> (jws_error + VerifiedJws) \<times> 's" where
  "verifyJws C firstSight token opts st = (case verify_stateless C token opts of
     Inl e \<Rightarrow> (Inl e, st)
   | Inr bag \<Rightarrow> (case verify_jti firstSight opts bag st of (r, st') \<Rightarrow> (ebind r (\<lambda>jti. Inr (verified_claims bag jti)), st')))"

section \<open>DER against its definition\<close>

text \<open>
  The value \<open>SEQUENCE { r INTEGER, s INTEGER }\<close> of two scalars in DER, from the numbers: the
  shortest big-endian form, with a zero byte before a first byte of 128 or more.
\<close>

function be_nat :: "nat \<Rightarrow> bytes" where
  "be_nat n = (if n < 256 then [word_of_nat n] else be_nat (n div 256) @ [word_of_nat (n mod 256)])"
  by pat_completeness auto
termination by (relation "measure id") auto

declare be_nat.simps [simp del]

definition be32 :: "nat \<Rightarrow> bytes" where
  "be32 n = replicate (32 - length (be_nat n)) 0 @ be_nat n"

definition der_number :: "nat \<Rightarrow> bytes" where
  "der_number n = (let v = be_nat n; body = (if hd v \<ge> 0x80 then 0 # v else v) in [0x02, word_of_nat (length body)] @ body)"

definition ecdsa_der :: "nat \<Rightarrow> nat \<Rightarrow> bytes" where
  "ecdsa_der r s = (let body = der_number r @ der_number s in [0x30, word_of_nat (length body)] @ body)"

lemma be_nat_length: "n < 256 ^ Suc k \<Longrightarrow> be_nat n \<noteq> [] \<and> length (be_nat n) \<le> Suc k"
proof (induction k arbitrary: n)
  case (Suc k)
  have "n div 256 < 256 ^ Suc k" using Suc.prems by (simp add: less_mult_imp_div_less mult.commute)
  then show ?case using Suc.IH by (subst be_nat.simps) (auto simp: be_nat.simps[of n])
qed (simp add: be_nat.simps)

lemma be_nat_hd: "0 < n \<Longrightarrow> hd (be_nat n) \<noteq> 0"
proof (induction n rule: be_nat.induct)
  case (1 n)
  show ?case
  proof (cases "n < 256")
    case True
    then have "unat (word_of_nat n :: byte) = n" by (intro unat_word8_of_nat)
    then have "word_of_nat n \<noteq> (0 :: byte)" using 1(2) by (metis less_numeral_extra(3) unat_0)
    then show ?thesis using True by (simp add: be_nat.simps[of n])
  next
    case False
    then have "0 < n div 256" by (simp add: div_greater_zero_iff)
    moreover have "be_nat (n div 256) \<noteq> []" by (subst be_nat.simps) simp
    ultimately show ?thesis using 1(1) False by (simp add: be_nat.simps[of n])
  qed
qed

lemma strip_zeros_lead: "v \<noteq> [] \<Longrightarrow> hd v \<noteq> 0 \<Longrightarrow> strip_zeros (replicate k 0 @ v) = v"
proof (induction k)
  case 0
  then show ?case by (cases v rule: strip_zeros.cases) auto
next
  case (Suc k)
  then show ?case by (cases "replicate k (0 :: byte) @ v") auto
qed

lemma be_nat_32: "n < 2 ^ 256 \<Longrightarrow> be_nat n \<noteq> [] \<and> length (be_nat n) \<le> 32"
  using be_nat_length[of n 31] by simp

lemma be32_facts: "n < 2 ^ 256 \<Longrightarrow> length (be32 n) = 32" "n < 2 ^ 256 \<Longrightarrow> 0 < n \<Longrightarrow> strip_zeros (be32 n) = be_nat n"
  using be_nat_32[of n] be_nat_hd[of n] strip_zeros_lead unfolding be32_def by auto

lemma raw_integer_number: "0 < n \<Longrightarrow> n < 2 ^ 256 \<Longrightarrow> raw_integer (be32 n) = Inr (der_number n)"
  using be_nat_hd[of n] be32_facts(2)[of n] by (auto simp: raw_integer_def der_number_def Let_def)

lemma rawToDer_exact:
  assumes "0 < r" "r < 2 ^ 256" "0 < s" "s < 2 ^ 256"
  shows "rawToDer (be32 r @ be32 s) = Inr (ecdsa_der r s)"
  using assms by (simp add: rawToDer_def be32_facts raw_integer_number ecdsa_der_def Let_def)

lemma small_byte: "n < 128 \<Longrightarrow> unat (word_of_nat n :: byte) = n \<and> (word_of_nat n :: byte) AND 0x80 = 0"
proof -
  assume n: "n < 128"
  then have u: "unat (word_of_nat n :: byte) = n" by (intro unat_word8_of_nat) simp
  have "drop_bit 7 n = 0" using n by (simp add: drop_bit_eq_div)
  then have "\<not> bit n 7" by (simp add: bit_iff_odd_drop_bit)
  then have "(word_of_nat n :: byte) AND 0x80 = 0"
    using and_exp_eq_0_iff_not_bit[of "word_of_nat n :: byte" 7] by (simp add: bit_simps)
  then show ?thesis using u by simp
qed

lemma der_number_form:
  assumes "0 < n" "n < 2 ^ 256"
  obtains body where "der_number n = [2, word_of_nat (length body)] @ body" "1 \<le> length body" "length body \<le> 33"
    "strip_zeros body = be_nat n"
proof -
  have "strip_zeros (be_nat n) = be_nat n" "strip_zeros (0 # be_nat n) = be_nat n"
    using strip_zeros_lead[of "be_nat n" 0] strip_zeros_lead[of "be_nat n" 1] be_nat_32[OF assms(2)] be_nat_hd[OF assms(1)] by auto
  then show thesis using that[of "if hd (be_nat n) \<ge> 0x80 then 0 # be_nat n else be_nat n"] be_nat_32[OF assms(2)]
    by (auto simp: der_number_def Let_def Suc_le_eq)
qed

lemma der_integer_number:
  assumes "0 < n" "n < 2 ^ 256"
  shows "der_integer (pre @ der_number n @ rest) (length pre) = Inr (be32 n, length pre + length (der_number n))"
proof -
  obtain body where b: "der_number n = [2, word_of_nat (length body)] @ body" "1 \<le> length body" "length body \<le> 33"
    "strip_zeros body = be_nat n" by (rule der_number_form[OF assms])
  note sm = small_byte[of "length body"]
  have l: "length (be_nat n) \<le> 32" using be_nat_32[OF assms(2)] by blast
  have "body \<noteq> []" using b(2) by auto
  then show ?thesis using b sm l
    by (simp add: der_integer_def Let_def nth_append be32_def)
qed

lemma der_number_length: "0 < n \<Longrightarrow> n < 2 ^ 256 \<Longrightarrow> 3 \<le> length (der_number n) \<and> length (der_number n) \<le> 35"
  by (erule (1) der_number_form) auto

lemma derToRaw_exact:
  assumes "0 < r" "r < 2 ^ 256" "0 < s" "s < 2 ^ 256"
  shows "derToRaw (ecdsa_der r s) = Inr (be32 r @ be32 s)"
proof -
  define head :: bytes where "head = [0x30, word_of_nat (length (der_number r @ der_number s))]"
  have l: "3 \<le> length (der_number r)" "length (der_number r) \<le> 35" "3 \<le> length (der_number s)" "length (der_number s) \<le> 35"
    using der_number_length assms by auto
  have e: "ecdsa_der r s = head @ der_number r @ der_number s" by (simp add: ecdsa_der_def head_def Let_def)
  have a: "der_integer (ecdsa_der r s) 2 = Inr (be32 r, 2 + length (der_number r))"
    using der_integer_number[OF assms(1,2), of head "der_number s"] unfolding e by (simp add: head_def numeral_2_eq_2)
  have b: "der_integer (ecdsa_der r s) (2 + length (der_number r)) = Inr (be32 s, length (ecdsa_der r s))"
    using der_integer_number[OF assms(3,4), of "head @ der_number r" "[]"] unfolding e by (simp add: head_def)
  have n: "length (ecdsa_der r s) = 2 + (length (der_number r) + length (der_number s))" by (simp add: e head_def)
  have h: "ecdsa_der r s ! 0 = 0x30" "ecdsa_der r s ! 1 = word_of_nat (length (der_number r) + length (der_number s))"
    by (simp_all add: e head_def)
  show ?thesis
    using l small_byte[of "length (der_number r) + length (der_number s)"] b[unfolded n] unfolding derToRaw_def n h a by simp
qed

section \<open>Segments\<close>

lemma split_on_join: "split_on d s = p # ps \<Longrightarrow> s = p @ concat (map (\<lambda>q. d # q) ps)"
proof (induction s arbitrary: p ps)
  case (Cons c s)
  obtain q qs where q: "split_on d s = q # qs" by (cases "split_on d s") (cases s; auto split: list.splits if_splits)+
  have "p # ps = (if c = d then [] # q # qs else (c # q) # qs)"
    using Cons.prems unfolding split_on.simps q list.case by (rule sym)
  then show ?case using Cons.IH[OF q, symmetric] by (auto split: if_splits)
qed simp

lemma split_on_none: "d \<notin> set a \<Longrightarrow> split_on d a = [a]"
  by (induction a) auto

lemma split_on_append: "d \<notin> set a \<Longrightarrow> split_on d (a @ d # b) = a # split_on d b"
  by (induction a) auto

lemma b64_loop_chars: "b64_loop s acc bits out = Inr r \<Longrightarrow> list_all (\<lambda>c. B64URL_REVERSE c \<noteq> None) s"
  by (induction s arbitrary: acc bits out) (auto simp: Let_def split: option.splits if_splits)

lemma b64_encode_loop: "\<exists>acc bits. b64_loop (base64urlEncode bs) 0 0 [] = Inr (acc, bits, bs)"
proof -
  have "base64urlDecode (base64urlEncode bs) = Inr bs" by (simp add: base64urlDecode_iff)
  then show ?thesis by (auto simp: base64urlDecode_def Let_def res_simps split: if_splits)
qed

lemma b64_encode_chars: "list_all (\<lambda>c. B64URL_REVERSE c \<noteq> None) (base64urlEncode bs)" "CHR ''.'' \<notin> set (base64urlEncode bs)"
proof -
  show all: "list_all (\<lambda>c. B64URL_REVERSE c \<noteq> None) (base64urlEncode bs)"
    using b64_encode_loop b64_loop_chars by blast
  have "B64URL_REVERSE CHR ''.'' = None" by (simp add: B64URL_REVERSE_def B64URL_ALPHABET_def)
  then show "CHR ''.'' \<notin> set (base64urlEncode bs)" using all by (auto simp: list_all_iff)
qed

lemma strict_encode: "bs \<noteq> [] \<Longrightarrow> b64urlDecodeStrict (base64urlEncode bs) = Inr bs"
proof -
  assume "bs \<noteq> []"
  then have "base64urlEncode bs \<noteq> []" by (cases bs rule: base64urlEncode.cases) (auto simp: Let_def)
  then show ?thesis using b64_encode_loop[of bs] b64_encode_chars(1)[of bs]
    by (auto simp: b64urlDecodeStrict_def node_base64url_def)
qed

section \<open>What acceptance means\<close>

lemma check_string_claim_ok: "check_string_claim b k = Inr () \<longleftrightarrow> (\<exists>s. jget k b = JString s \<and> s \<noteq> [])"
  by (auto simp: check_string_claim_def split: jsval.splits)

lemma check_time_claim_ok: "check_time_claim b k = Inr () \<longleftrightarrow> (\<exists>i. jget k b = JNum (JInt i) \<and> \<bar>i\<bar> \<le> MAX_SAFE_INTEGER)"
proof (cases "jget k b")
  case (JNum x)
  then show ?thesis by (cases x) (simp_all add: check_time_claim_def)
qed (simp_all add: check_time_claim_def)

lemma check_each_ok: "check_each f xs = Inr () \<longleftrightarrow> (\<forall>x\<in>set xs. f x = Inr ())"
  by (induction xs) (auto simp: res_simps)

text \<open>A verified token: the key's own algorithm, the signature over what was parsed, and the claims asked for.\<close>

definition claims_accepted :: "VerifyJwsOptions \<Rightarrow> VerifiedJws \<Rightarrow> bool" where
  "claims_accepted opts v = (vj_iss v = jo_issuer opts \<and> vj_sub v \<noteq> []
     \<and> (vj_aud v = Some (jo_audience opts) \<or> (jo_sep10 opts \<and> vj_aud v = None))
     \<and> (vj_nbf v \<noteq> None \<or> jo_sep10 opts) \<and> (\<exists>start. start = (case vj_nbf v of None \<Rightarrow> False | Some n \<Rightarrow> js_less (jo_now opts) n) \<and> \<not> start)
     \<and> \<not> js_le (JInt (vj_exp v)) (jo_now opts))"

definition jws_authentic :: "node_crypto \<Rightarrow> string \<Rightarrow> VerifyJwsOptions \<Rightarrow> jsval \<Rightarrow> bool" where
  "jws_authentic C token opts bag = (\<exists>alg payload sg raw sig. keyAlgorithm (jo_publicKey opts) = Inr alg
     \<and> token = signing_input alg payload @ ''.'' @ sg \<and> b64urlDecodeStrict sg = Inr raw \<and> length raw = 64
     \<and> (case alg of ES256 \<Rightarrow> rawToDer raw = Inr sig | EdDSA \<Rightarrow> sig = raw)
     \<and> nc_verify C (jo_publicKey opts) (ascii_bytes (signing_input alg payload)) sig
     \<and> parse_payload payload = Inr bag)"

lemma verify_header_ok: "verify_header alg h = Inr () \<longleftrightarrow> h = frozenHeaderB64 alg"
  by (auto simp: verify_header_def res_simps)

lemma verify_stateless_Inr:
  assumes "verify_stateless C token opts = Inr bag"
  shows "jws_authentic C token opts bag \<and> verify_claims opts bag = Inr ()"
proof -
  obtain alg where alg: "keyAlgorithm (jo_publicKey opts) = Inr alg" using assms by (auto simp: verify_stateless_def res_simps)
  note a = assms[unfolded verify_stateless_def alg ebind.simps]
  obtain h p sg where segs: "split_on CHR ''.'' token = [h, p, sg]"
    using a by (auto split: list.splits)
  note b = a[unfolded segs list.case, simplified res_simps]
  have h: "h = frozenHeaderB64 alg" using b verify_header_ok by auto
  have t: "token = signing_input alg p @ ''.'' @ sg" using split_on_join[OF segs] h by (simp add: signing_input_def)
  have "verify_signature C alg (jo_publicKey opts) (signing_input alg p) sg = Inr ()" using b h by (auto simp: signing_input_def)
  then obtain raw sig where s: "b64urlDecodeStrict sg = Inr raw" "length raw = 64"
    "(case alg of ES256 \<Rightarrow> rawToDer raw | EdDSA \<Rightarrow> Inr raw) = Inr sig"
    "nc_verify C (jo_publicKey opts) (ascii_bytes (signing_input alg p)) sig"
    by (auto simp: verify_signature_def res_simps split: if_splits)
  moreover have "parse_payload p = Inr bag" "verify_claims opts bag = Inr ()" using b by (auto simp: res_simps)
  ultimately show ?thesis using alg t unfolding jws_authentic_def by (cases alg) fastforce+
qed

lemma verify_claims_accepted:
  assumes "verify_claims opts bag = Inr ()"
  shows "claims_accepted opts (verified_claims bag jti)"
proof -
  have types: "verify_claim_types (jo_sep10 opts) bag = Inr ()"
    and iss: "jget ''iss'' bag = JString (jo_issuer opts)"
    and aud: "jget ''aud'' bag = JString (jo_audience opts) \<or> (jo_sep10 opts \<and> jget ''aud'' bag = JUndefined)"
    and nbf: "\<not> (case opt_time (jget ''nbf'' bag) of None \<Rightarrow> False | Some n \<Rightarrow> js_less (jo_now opts) n)"
    and ex: "\<not> js_le (JInt (time_of (jget ''exp'' bag))) (jo_now opts)"
    using assms by (auto simp: verify_claims_def res_simps split: if_splits)
  have sub: "\<exists>s. jget ''sub'' bag = JString s \<and> s \<noteq> []"
    using types by (auto simp: verify_claim_types_def res_simps check_each_ok check_string_claim_ok split: if_splits)
  have n: "opt_time (jget ''nbf'' bag) \<noteq> None \<or> jo_sep10 opts"
    using types by (auto simp: verify_claim_types_def res_simps check_each_ok check_time_claim_ok opt_time_def split: if_splits)
  show ?thesis using iss aud nbf ex sub n by (auto simp: claims_accepted_def verified_claims_def)
qed

lemma verified_claims_jti [simp]: "vj_jti (verified_claims bag jti) = jti"
  by (simp add: verified_claims_def)

lemma verifyJws_cases:
  "case verifyJws C firstSight token opts st of
     (Inl e, st') \<Rightarrow> e = J_replay_detected \<or> st' = st
   | (Inr v, st') \<Rightarrow> (\<exists>bag. jws_authentic C token opts bag \<and> v = verified_claims bag (vj_jti v)) \<and> claims_accepted opts v
       \<and> (case jo_replay opts of None \<Rightarrow> st' = st
          | Some provider \<Rightarrow> (\<exists>jti. vj_jti v = Some jti \<and> jti \<noteq> [] \<and> firstSight (jo_now opts) st (provider, jti) = (True, st')))"
proof (cases "verify_stateless C token opts")
  case (Inr bag)
  note ok = verify_stateless_Inr[OF Inr]
  obtain r st' where j: "verify_jti firstSight opts bag st = (r, st')" by fastforce
  have v: "verifyJws C firstSight token opts st = (ebind r (\<lambda>jti. Inr (verified_claims bag jti)), st')"
    using Inr j by (simp add: verifyJws_def)
  show ?thesis
  proof (cases r)
    case (Inl e)
    then have "e = J_replay_detected \<or> st' = st"
      using j by (auto simp: verify_jti_def split: option.splits jsval.splits if_splits prod.splits)
    then show ?thesis using v Inl by simp
  next
    case (Inr jti)
    then have "(case jo_replay opts of None \<Rightarrow> st' = st
       | Some provider \<Rightarrow> \<exists>t. jti = Some t \<and> t \<noteq> [] \<and> firstSight (jo_now opts) st (provider, t) = (True, st'))"
      using j by (auto simp: verify_jti_def split: option.splits jsval.splits if_splits prod.splits)
    moreover have "\<exists>b. jws_authentic C token opts b \<and> verified_claims bag jti = verified_claims b jti" using ok by blast
    ultimately show ?thesis using v Inr verify_claims_accepted ok by (simp split: option.splits) 
  qed
qed (simp add: verifyJws_def)

section \<open>Signed tokens verify\<close>

text \<open>
  The documented behaviour of the primitives: the public half of a signing key speaks the same
  algorithm and verifies what the key signs; Ed25519 signatures are 64 bytes, ECDSA signatures are
  the DER of two scalars.
\<close>

definition crypto_ok :: "node_crypto \<Rightarrow> bool" where
  "crypto_ok C = (\<forall>k alg msg. ko_type k = ''private'' \<longrightarrow> keyAlgorithm k = Inr alg \<longrightarrow>
     keyAlgorithm (nc_public C k) = Inr alg \<and> nc_verify C (nc_public C k) msg (nc_sign C k msg)
     \<and> (case alg of EdDSA \<Rightarrow> length (nc_sign C k msg) = 64
        | ES256 \<Rightarrow> (\<exists>r s. 0 < r \<and> r < 2 ^ 256 \<and> 0 < s \<and> s < 2 ^ 256 \<and> nc_sign C k msg = ecdsa_der r s)))"

lemma serializeClaims_Inr:
  "serializeClaims claims = Inr text_form \<Longrightarrow> checkRequiredClaims claims = Inr ()
     \<and> time_of (jget ''nbf'' claims) < time_of (jget ''exp'' claims) \<and> text_form = json_stringify (JObject (ordered_claims claims))"
  by (auto simp: serializeClaims_def res_simps Let_def split: if_splits option.splits)

lemma signed_form:
  assumes "crypto_ok C" "ko_type k = ''private''" "signJws C k claims = Inr token"
  obtains alg payload sg raw sig where "keyAlgorithm (nc_public C k) = Inr alg"
    "serializeClaims claims = Inr payload" "token = signing_input alg (base64urlEncode (ref_utf8 payload)) @ ''.'' @ base64urlEncode raw"
    "length raw = 64" "(case alg of ES256 \<Rightarrow> rawToDer raw | EdDSA \<Rightarrow> Inr raw) = Inr sig"
    "nc_verify C (nc_public C k) (ascii_bytes (signing_input alg (base64urlEncode (ref_utf8 payload)))) sig"
proof -
  obtain alg payload where a: "keyAlgorithm k = Inr alg" "serializeClaims claims = Inr payload"
    using assms(3) by (auto simp: signJws_def res_simps)
  define input where "input = signing_input alg (base64urlEncode (ref_utf8 payload))"
  note t = assms(3)[unfolded signJws_def a ebind.simps Let_def input_def[symmetric]]
  note c = assms(1)[unfolded crypto_ok_def, rule_format, OF assms(2) a(1), of "ascii_bytes input"]
  show thesis
  proof (cases alg)
    case EdDSA
    show thesis using that[of alg payload "nc_sign C k (ascii_bytes input)" "nc_sign C k (ascii_bytes input)"] a t c EdDSA
      by (simp add: input_def split: if_splits)
  next
    case ES256
    obtain r s where rs: "0 < r" "r < 2 ^ 256" "0 < s" "s < 2 ^ 256" "nc_sign C k (ascii_bytes input) = ecdsa_der r s"
      using c ES256 by auto
    show thesis using that[of alg payload "be32 r @ be32 s" "ecdsa_der r s"] a t c ES256 rs
        derToRaw_exact[OF rs(1-4)] rawToDer_exact[OF rs(1-4)]
      by (simp add: input_def be32_facts)
  qed
qed

lemma ordered_claims_get:
  "k \<in> set [''iss'', ''sub'', ''aud'', ''iat'', ''nbf'', ''exp'', ''jti''] \<Longrightarrow> jget k (JObject (ordered_claims claims)) = jget k claims"
  by (auto simp: ordered_claims_def)

lemma required_facts:
  assumes "checkRequiredClaims claims = Inr ()"
  obtains iss sub aud iat nbf ex where "jget ''iss'' claims = JString iss" "jget ''sub'' claims = JString sub" "jget ''aud'' claims = JString aud"
    "jget ''iat'' claims = JNum (JInt iat)" "jget ''nbf'' claims = JNum (JInt nbf)" "jget ''exp'' claims = JNum (JInt ex)"
  using assms by (auto simp: checkRequiredClaims_def res_simps check_each_ok check_string_claim_ok check_time_claim_ok)

lemma ordered_plain:
  assumes "checkRequiredClaims claims = Inr ()" "jget ''jti'' claims = JUndefined \<or> (\<exists>j. jget ''jti'' claims = JString j \<and> j \<noteq> [])"
  shows "plain (JObject (ordered_claims claims))"
  by (rule required_facts[OF assms(1)]) (use assms(2) in \<open>auto simp: ordered_claims_def\<close>)

text \<open>What \<open>serializeClaims\<close> admitted passes the checks of the other side.\<close>

lemma signed_claims_pass:
  assumes "checkRequiredClaims claims = Inr ()" and "jget ''iss'' claims = JString (jo_issuer opts)"
    and "jget ''aud'' claims = JString (jo_audience opts)" and "jo_now opts = JInt t"
    and "time_of (jget ''nbf'' claims) \<le> t" "t < time_of (jget ''exp'' claims)"
  shows "verify_claims opts (JObject (ordered_claims claims)) = Inr ()"
proof -
  define bag where "bag = JObject (ordered_claims claims)"
  have g: "jget k bag = jget k claims" if "k \<in> set [''iss'', ''sub'', ''aud'', ''iat'', ''nbf'', ''exp'', ''jti'']" for k
    unfolding bag_def by (rule ordered_claims_get[OF that])
  have chk: "\<forall>k\<in>set [''iss'', ''sub'', ''aud'']. check_string_claim bag k = Inr ()"
    "\<forall>k\<in>set [''iat'', ''nbf'', ''exp'']. check_time_claim bag k = Inr ()"
    using assms(1) g by (auto simp: checkRequiredClaims_def res_simps check_each_ok check_string_claim_ok check_time_claim_ok)
  have "verify_claim_types (jo_sep10 opts) bag = Inr ()"
    using chk by (auto simp: verify_claim_types_def res_simps check_each_ok when_present_def)
  moreover have "opt_time (jget ''nbf'' bag) = Some (time_of (jget ''nbf'' claims))"
    by (rule required_facts[OF assms(1)]) (simp add: g opt_time_def)
  ultimately show ?thesis unfolding bag_def[symmetric] verify_claims_def using assms(2-6) g by simp
qed

lemma ref_utf8_nonempty: "s \<noteq> [] \<Longrightarrow> ref_utf8 s \<noteq> []"
  by (cases s) (auto simp: Let_def)

lemma signed_stateless:
  assumes "crypto_ok C" "ko_type k = ''private''" "signJws C k claims = Inr token"
    and "jget ''jti'' claims = JUndefined \<or> (\<exists>j. jget ''jti'' claims = JString j \<and> j \<noteq> [])"
    and "jo_publicKey opts = nc_public C k" and "jget ''iss'' claims = JString (jo_issuer opts)"
    and "jget ''aud'' claims = JString (jo_audience opts)" and "jo_now opts = JInt t"
    and "time_of (jget ''nbf'' claims) \<le> t" "t < time_of (jget ''exp'' claims)"
  shows "verify_stateless C token opts = Inr (JObject (ordered_claims claims))"
proof -
  obtain alg payload raw sig where f: "keyAlgorithm (nc_public C k) = Inr alg"
    "serializeClaims claims = Inr payload" "token = signing_input alg (base64urlEncode (ref_utf8 payload)) @ ''.'' @ base64urlEncode raw"
    "length raw = 64" "(case alg of ES256 \<Rightarrow> rawToDer raw | EdDSA \<Rightarrow> Inr raw) = Inr sig"
    "nc_verify C (nc_public C k) (ascii_bytes (signing_input alg (base64urlEncode (ref_utf8 payload)))) sig"
    by (rule signed_form[OF assms(1-3)])
  define seg where "seg = base64urlEncode (ref_utf8 payload)"
  have dots: "CHR ''.'' \<notin> set (frozenHeaderB64 alg)" "CHR ''.'' \<notin> set seg" "CHR ''.'' \<notin> set (base64urlEncode raw)"
    by (simp_all add: frozenHeaderB64_def seg_def b64_encode_chars)
  have segs: "split_on CHR ''.'' token = [frozenHeaderB64 alg, seg, base64urlEncode raw]"
    unfolding f(3) signing_input_def seg_def[symmetric] using dots by (simp add: split_on_append split_on_none)
  note s = serializeClaims_Inr[OF f(2)]
  have "payload \<noteq> []" using s by simp
  then have dec: "b64urlDecodeStrict seg = Inr (ref_utf8 payload)" unfolding seg_def by (intro strict_encode ref_utf8_nonempty)
  have "Option.bind (utf8_text (ref_utf8 payload)) json_parse = Some (JObject (ordered_claims claims))"
    using s json_parse_stringify[OF ordered_plain[OF _ assms(4)]] by (simp add: utf8_text_ref del: json_stringify.simps)
  then have pay: "parse_payload seg = Inr (JObject (ordered_claims claims))" by (simp add: parse_payload_def dec)
  have "raw \<noteq> []" using f(4) by auto
  then have sg: "verify_signature C alg (nc_public C k) (frozenHeaderB64 alg @ ''.'' @ seg) (base64urlEncode raw) = Inr ()"
    using f(4-6) by (simp add: verify_signature_def strict_encode signing_input_def seg_def)
  show ?thesis
    unfolding verify_stateless_def assms(5) f(1) ebind.simps segs list.case
    using sg pay signed_claims_pass[OF _ assms(6-10)] s by (simp add: verify_header_def)
qed

section \<open>Properties\<close>

text \<open>
  On the DER of two non-zero 256-bit scalars \<open>derToRaw\<close> yields exactly their two 32-byte
  big-endian halves, and \<open>rawToDer\<close> turns these back into the same DER, sign bytes and short
  scalars included.
\<close>

theorem der_raw_exact:
  assumes "0 < r" "r < 2 ^ 256" "0 < s" "s < 2 ^ 256"
  shows "derToRaw (ecdsa_der r s) = Inr (be32 r @ be32 s) \<and> rawToDer (be32 r @ be32 s) = Inr (ecdsa_der r s)"
  using derToRaw_exact[OF assms] rawToDer_exact[OF assms] by blast

theorem der_raw_exact_witness:
  "derToRaw [0x30, 7, 2, 1, 1, 2, 2, 0, 200] = Inr (be32 1 @ be32 200)"
proof -
  have "ecdsa_der 1 200 = [0x30, 7, 2, 1, 1, 2, 2, 0, 200]" by (simp add: ecdsa_der_def der_number_def be_nat.simps Let_def word_le_nat_alt)
  then show ?thesis using der_raw_exact[of 1 200] by simp
qed

text \<open>
  C17. A token that \<open>signJws\<close> issues verifies under the public half of its key, for either
  algorithm and either claim policy, at every instant of its window, for its own issuer and
  audience, and gives back the claims that were signed.
\<close>

theorem signed_token_verifies:
  assumes "crypto_ok C" "ko_type k = ''private''" "signJws C k claims = Inr token"
    and "jget ''jti'' claims = JUndefined \<or> (\<exists>j. jget ''jti'' claims = JString j \<and> j \<noteq> [])"
    and "jo_publicKey opts = nc_public C k" and "jget ''iss'' claims = JString (jo_issuer opts)"
    and "jget ''aud'' claims = JString (jo_audience opts)" and "jo_now opts = JInt t"
    and "time_of (jget ''nbf'' claims) \<le> t" "t < time_of (jget ''exp'' claims)" and "jo_replay opts = None"
  shows "verifyJws C firstSight token opts st = (Inr (verified_claims claims (js_string (jget ''jti'' claims))), st)"
proof -
  let ?bag = "JObject (ordered_claims claims)"
  have g: "jget x ?bag = jget x claims" if "x \<in> set [''iss'', ''sub'', ''aud'', ''iat'', ''nbf'', ''exp'', ''jti'']" for x
    by (rule ordered_claims_get[OF that])
  have "verified_claims ?bag j = verified_claims claims j" for j
    unfolding verified_claims_def using g by simp
  moreover have "verify_jti firstSight opts ?bag st = (Inr (js_string (jget ''jti'' claims)), st)"
    using assms(4,11) g[of "''jti''"] by (auto simp: verify_jti_def)
  ultimately show ?thesis using signed_stateless[OF assms(1-10)] by (simp add: verifyJws_def)
qed

definition toy_crypto :: node_crypto where
  "toy_crypto = \<lparr> nc_public = (\<lambda>k. k\<lparr>ko_type := ''public''\<rparr>),
     nc_sign = (\<lambda>k msg. if ko_family k = ''ed25519'' then take 64 (msg @ replicate 64 7) else ecdsa_der 1 200),
     nc_verify = (\<lambda>k msg sig. sig = (if ko_family k = ''ed25519'' then take 64 (msg @ replicate 64 7) else ecdsa_der 1 200)) \<rparr>"

lemma toy_crypto_ok: "crypto_ok toy_crypto"
proof -
  have "\<exists>r s. 0 < r \<and> r < 2 ^ 256 \<and> 0 < s \<and> s < 2 ^ 256 \<and> ecdsa_der 1 200 = ecdsa_der r s"
    by (rule exI[of _ 1], rule exI[of _ 200]) simp
  then show ?thesis unfolding crypto_ok_def toy_crypto_def by (auto simp: keyAlgorithm_def split: jws_alg.splits if_splits)
qed

definition toy_key :: key_object where
  "toy_key = \<lparr> ko_type = ''private'', ko_family = ''ed25519'', ko_crv = ''Ed25519'', ko_material = [1] \<rparr>"

definition toy_jwt :: jsval where
  "toy_jwt = JObject [(''iss'', JString ''gw''), (''sub'', JString ''G''), (''aud'', JString ''app''), (''iat'', JNum (JInt 100)),
     (''nbf'', JNum (JInt 100)), (''exp'', JNum (JInt 400)), (''jti'', JString ''1'')]"

definition toy_jwt_options :: "string option \<Rightarrow> VerifyJwsOptions" where
  "toy_jwt_options replay = \<lparr> jo_publicKey = toy_key\<lparr>ko_type := ''public''\<rparr>, jo_now = JInt 200, jo_issuer = ''gw'',
     jo_audience = ''app'', jo_sep10 = False, jo_replay = replay \<rparr>"

lemma toy_key_facts: "nc_public toy_crypto toy_key = toy_key\<lparr>ko_type := ''public''\<rparr>" "ko_type toy_key = ''private''"
  by (simp_all add: toy_crypto_def toy_key_def)

lemma toy_signs: "\<exists>token. signJws toy_crypto toy_key toy_jwt = Inr token"
proof -
  have "checkRequiredClaims toy_jwt = Inr ()"
    by (simp add: checkRequiredClaims_def check_string_claim_def check_time_claim_def toy_jwt_def)
  then have "serializeClaims toy_jwt = Inr (json_stringify (JObject (ordered_claims toy_jwt)))"
    by (simp add: serializeClaims_def toy_jwt_def ordered_claims_def del: json_stringify.simps)
  moreover have "keyAlgorithm toy_key = Inr EdDSA" by (simp add: keyAlgorithm_def toy_key_def)
  ultimately show ?thesis by (simp add: signJws_def Let_def toy_crypto_def toy_key_def)
qed

lemma toy_stateless:
  "signJws toy_crypto toy_key toy_jwt = Inr token
     \<Longrightarrow> verify_stateless toy_crypto token (toy_jwt_options replay) = Inr (JObject (ordered_claims toy_jwt))"
  by (rule signed_stateless[OF toy_crypto_ok, where t = 200 and k = toy_key and claims = toy_jwt]) (simp_all add: toy_jwt_def toy_jwt_options_def toy_key_facts)

theorem signed_token_verifies_witness:
  "\<exists>token. signJws toy_crypto toy_key toy_jwt = Inr token
     \<and> verifyJws toy_crypto (\<lambda>now s k. (True, s)) token (toy_jwt_options None) () = (Inr (verified_claims toy_jwt (Some ''1'')), ())"
proof -
  obtain token where t: "signJws toy_crypto toy_key toy_jwt = Inr token" using toy_signs by blast
  have "verifyJws toy_crypto (\<lambda>now s k. (True, s)) token (toy_jwt_options None) ()
      = (Inr (verified_claims toy_jwt (js_string (jget ''jti'' toy_jwt))), ())"
    by (rule signed_token_verifies[OF toy_crypto_ok _ t, where t = 200])
      (simp_all add: toy_jwt_def toy_jwt_options_def toy_key_facts)
  then show ?thesis using t by (simp add: toy_jwt_def)
qed

text \<open>
  C18. Every accepted token carries the header of the configured key's own algorithm, a 64-byte
  signature of that key over the very segments its claims were parsed from, the issuer asked for,
  a matching audience and an open window, under either policy; with a replay hook its \<open>jti\<close> was
  seen for the first time. A refusal other than of a replay leaves the replay store as it was.
\<close>

theorem verifyJws_sound:
  "case verifyJws C firstSight token opts st of
     (Inl e, st') \<Rightarrow> e = J_replay_detected \<or> st' = st
   | (Inr v, st') \<Rightarrow> (\<exists>bag. jws_authentic C token opts bag \<and> v = verified_claims bag (vj_jti v)) \<and> claims_accepted opts v
       \<and> (case jo_replay opts of None \<Rightarrow> st' = st
          | Some provider \<Rightarrow> (\<exists>jti. vj_jti v = Some jti \<and> jti \<noteq> [] \<and> firstSight (jo_now opts) st (provider, jti) = (True, st')))"
  by (rule verifyJws_cases)

text \<open>One verification against a replay store, for a run of them.\<close>

definition jws_step ::
  "node_crypto \<Rightarrow> ('s \<Rightarrow> string \<times> string \<Rightarrow> bool \<times> 's) \<Rightarrow> string \<times> string \<times> VerifyJwsOptions \<Rightarrow> 's \<Rightarrow> (string \<times> string) option \<times> 's" where
  "jws_step C use_key q st = (case q of (token, provider, opts) \<Rightarrow>
     (case verifyJws C (\<lambda>now. use_key) token (opts\<lparr>jo_replay := Some provider\<rparr>) st of
        (Inl e, st') \<Rightarrow> (None, st')
      | (Inr v, st') \<Rightarrow> (map_option (\<lambda>jti. (provider, jti)) (vj_jti v), st')))"

lemma jws_step_guarded:
  "jws_step C use_key q st = (r, st') \<Longrightarrow>
     (r = None \<and> st' = st) \<or> (\<exists>k b. use_key st k = (b, st') \<and> r = (if b then Some k else None))"
proof -
  assume step: "jws_step C use_key q st = (r, st')"
  obtain token provider opts where q: "q = (token, provider, opts)" by (cases q)
  let ?o = "opts\<lparr>jo_replay := Some provider\<rparr>"
  show ?thesis
  proof (cases "verify_stateless C token ?o")
    case (Inl e)
    then show ?thesis using step by (simp add: jws_step_def verifyJws_def q)
  next
    case (Inr bag)
    show ?thesis
    proof (cases "\<exists>j. jget ''jti'' bag = JString j \<and> j \<noteq> []")
      case True
      then obtain j where j: "jget ''jti'' bag = JString j" "j \<noteq> []" by blast
      obtain b s where u: "use_key st (provider, j) = (b, s)" by fastforce
      have "r = (if b then Some (provider, j) else None) \<and> st' = s"
        using step Inr j u by (auto simp: jws_step_def verifyJws_def verify_jti_def q)
      then show ?thesis using u by blast
    next
      case False
      then show ?thesis using step Inr by (auto simp: jws_step_def verifyJws_def verify_jti_def q split: jsval.splits)
    qed
  qed
qed

text \<open>
  With a first-sight store, over any sequence of tokens and options that name a provider, no
  \<open>jti\<close> is accepted twice for a provider, nor one that the store had seen before.
\<close>

theorem jti_accepted_once:
  assumes "single_use use_key seen"
  shows "distinct (run_guarded (jws_step C use_key) qs st) \<and> set (run_guarded (jws_step C use_key) qs st) \<inter> seen st = {}"
  by (rule single_use.run_guarded_distinct[OF assms]) (rule jws_step_guarded)

theorem jti_accepted_once_witness:
  "\<exists>token. run_guarded (jws_step toy_crypto (\<lambda>s k. (k \<notin> s, insert k s))) [(token, ''p'', toy_jwt_options None), (token, ''p'', toy_jwt_options None)] {}
     = [(''p'', ''1'')]"
proof -
  let ?use = "\<lambda>s (k :: string \<times> string). (k \<notin> s, insert k s)"
  obtain token where t: "signJws toy_crypto toy_key toy_jwt = Inr token" using toy_signs by blast
  let ?q = "(token, ''p'', toy_jwt_options None)"
  have opts: "(toy_jwt_options None)\<lparr>jo_replay := Some ''p''\<rparr> = toy_jwt_options (Some ''p'')" by (simp add: toy_jwt_options_def)
  have first: "jws_step toy_crypto ?use ?q {} = (Some (''p'', ''1''), {(''p'', ''1'')})"
    using toy_stateless[OF t, of "Some ''p''"]
    by (simp add: jws_step_def opts verifyJws_def verify_jti_def) (simp add: toy_jwt_options_def ordered_claims_def toy_jwt_def)
  have "single_use ?use (\<lambda>s. s)" by unfold_locales auto
  from jti_accepted_once[OF this, of toy_crypto "[?q, ?q]" "{}"]
  have "distinct (run_guarded (jws_step toy_crypto ?use) [?q, ?q] {})" by blast
  moreover obtain r s where second: "jws_step toy_crypto ?use ?q {(''p'', ''1'')} = (r, s)" by fastforce
  moreover have "r = None \<or> r = Some (''p'', ''1'')"
    using second toy_stateless[OF t, of "Some ''p''"]
    by (auto simp: jws_step_def opts verifyJws_def verify_jti_def toy_jwt_options_def ordered_claims_def toy_jwt_def split: if_splits)
  ultimately have "run_guarded (jws_step toy_crypto ?use) [?q, ?q] {} = [(''p'', ''1'')]"
    using first by (auto split: option.splits)
  then show ?thesis by blast
qed

end
