(* ===== verification/ChainState.thy ===== *)
theory ChainState
imports Points Binding
begin

text \<open>
  What the program reads off the chain before it signs or submits: the contract errors it decodes
  from whatever the RPC layer threw (\<open>gateway/src/chain/errors.ts\<close>), the subject's record and
  revocation epoch (\<open>chain/epoch.ts\<close>), the issuer preflight (\<open>sdk/src/attest/registry.ts\<close>) and the
  expiry clamps (\<open>sdk/src/expiry.ts\<close>). What a simulation answers is an argument.
\<close>

section \<open>Contract error codes\<close>

datatype kyc_gate_error = AlreadyInitialized | NotInitialized | NoClaimRecord | Expired | NonceAlreadyUsed | InvalidProof
  | UntrustedIssuer | StaleAttestation | EmptyClaims | ExpiryTooFar | SubjectRevoked | RevocationEpochMismatch

fun KYC_GATE_ERRORS :: "kyc_gate_error \<Rightarrow> nat" where
  "KYC_GATE_ERRORS AlreadyInitialized = 1"
| "KYC_GATE_ERRORS NotInitialized = 2"
| "KYC_GATE_ERRORS NoClaimRecord = 3"
| "KYC_GATE_ERRORS Expired = 4"
| "KYC_GATE_ERRORS NonceAlreadyUsed = 5"
| "KYC_GATE_ERRORS InvalidProof = 6"
| "KYC_GATE_ERRORS UntrustedIssuer = 7"
| "KYC_GATE_ERRORS StaleAttestation = 10"
| "KYC_GATE_ERRORS EmptyClaims = 12"
| "KYC_GATE_ERRORS ExpiryTooFar = 13"
| "KYC_GATE_ERRORS SubjectRevoked = 14"
| "KYC_GATE_ERRORS RevocationEpochMismatch = 15"

definition gate_errors :: "kyc_gate_error list" where
  "gate_errors = [AlreadyInitialized, NotInitialized, NoClaimRecord, Expired, NonceAlreadyUsed, InvalidProof,
     UntrustedIssuer, StaleAttestation, EmptyClaims, ExpiryTooFar, SubjectRevoked, RevocationEpochMismatch]"

definition kycGateErrorName :: "nat \<Rightarrow> kyc_gate_error option" where
  "kycGateErrorName k = find (\<lambda>e. KYC_GATE_ERRORS e = k) gate_errors"

lemma kycGateErrorName_iff: "kycGateErrorName k = Some e \<longleftrightarrow> KYC_GATE_ERRORS e = k"
proof
  show "kycGateErrorName k = Some e \<Longrightarrow> KYC_GATE_ERRORS e = k" by (auto simp: kycGateErrorName_def find_Some_iff)
  show "KYC_GATE_ERRORS e = k \<Longrightarrow> kycGateErrorName k = Some e" by (cases e) (auto simp: kycGateErrorName_def gate_errors_def)
qed

text \<open>The pattern \<open>Error\(Contract,\s*#(\d+)\)\<close> at the head of a text: the number and what follows.\<close>

definition js_space :: "char \<Rightarrow> bool" where
  "js_space c = ((of_char c :: nat) \<in> {9, 10, 11, 12, 13, 32, 160})"

definition match_contract_error :: "string \<Rightarrow> (nat \<times> string) option" where
  "match_contract_error s = (if take 15 s \<noteq> ''Error(Contract,'' then None
     else (case dropWhile js_space (drop 15 s) of [] \<Rightarrow> None
       | c # t \<Rightarrow> if c \<noteq> CHR ''#'' \<or> takeWhile is_digit t = [] then None
           else (case dropWhile is_digit t of [] \<Rightarrow> None
             | d # u \<Rightarrow> if d = CHR '')'' then Some (undec (takeWhile is_digit t), u) else None)))"

lemma length_dropWhile_le': "length (dropWhile P xs) \<le> length xs"
  by (induction xs) auto

lemma match_shorter: "match_contract_error s = Some (n, r) \<Longrightarrow> length r < length s"
proof -
  assume a: "match_contract_error s = Some (n, r)"
  then obtain c t d where r: "dropWhile js_space (drop 15 s) = c # t" "dropWhile is_digit t = d # r"
    by (auto simp: match_contract_error_def split: if_splits list.splits)
  have "length (c # t) \<le> length s" using length_dropWhile_le'[of js_space "drop 15 s"] r(1) by simp
  moreover have "length (d # r) \<le> length t" using length_dropWhile_le'[of is_digit t] r(2) by simp
  ultimately show ?thesis by simp
qed

function contract_codes :: "string \<Rightarrow> nat list" where
  "contract_codes s = (case match_contract_error s of Some (n, r) \<Rightarrow> n # contract_codes r
     | None \<Rightarrow> (case s of [] \<Rightarrow> [] | c # t \<Rightarrow> contract_codes t))"
  by pat_completeness auto
termination by (relation "measure length") (auto dest: match_shorter)

declare contract_codes.simps [simp del]

text \<open>
  A thrown value as the search sees it. An object that was met before on the way is \<open>ThrownSeen\<close>;
  the text of an object is what \<open>String()\<close> makes of it.
\<close>

datatype thrown = ThrownNothing | ThrownSeen | ThrownText string | ThrownPrimitive string
  | ThrownObject "string option" "string option" "thrown list" "thrown option" string

fun opt_list :: "'a option \<Rightarrow> 'a list" where
  "opt_list None = []" | "opt_list (Some x) = [x]"

text \<open>The strings worth searching; the first argument is what the depth bound leaves.\<close>

fun candidateStrings :: "nat \<Rightarrow> thrown \<Rightarrow> string list" where
  "candidateStrings 0 err = []"
| "candidateStrings (Suc k) ThrownNothing = []"
| "candidateStrings (Suc k) ThrownSeen = []"
| "candidateStrings (Suc k) (ThrownText s) = [s]"
| "candidateStrings (Suc k) (ThrownPrimitive s) = [s]"
| "candidateStrings (Suc k) (ThrownObject msg er events cause shown) =
     opt_list msg @ opt_list er @ concat (map (candidateStrings k) events)
     @ (case cause of None \<Rightarrow> [] | Some c \<Rightarrow> candidateStrings k c) @ [shown]"

definition mentioned_codes :: "thrown \<Rightarrow> nat list" where
  "mentioned_codes err = filter (\<lambda>n. int n \<le> MAX_SAFE_INTEGER) (concat (map contract_codes (candidateStrings 9 err)))"

definition decodeContractErrorCode :: "thrown \<Rightarrow> nat option" where
  "decodeContractErrorCode err = (case remdups (mentioned_codes err) of [n] \<Rightarrow> Some n | _ \<Rightarrow> None)"

definition isKycGateError :: "thrown \<Rightarrow> kyc_gate_error \<Rightarrow> bool" where
  "isKycGateError err name = (decodeContractErrorCode err = Some (KYC_GATE_ERRORS name))"

definition RETRIABLE_ERROR_CODES :: "nat set" where
  "RETRIABLE_ERROR_CODES = {KYC_GATE_ERRORS RevocationEpochMismatch}"

definition isRetriableContractError :: "thrown \<Rightarrow> bool" where
  "isRetriableContractError err = (case decodeContractErrorCode err of None \<Rightarrow> False | Some k \<Rightarrow> k \<in> RETRIABLE_ERROR_CODES)"

lemma sole_member: "set xs = {n} \<Longrightarrow> distinct xs \<Longrightarrow> xs = [n]"
  by (cases xs; cases "tl xs") auto

text \<open>A code is read exactly when it is the only one mentioned.\<close>

lemma decode_sole: "decodeContractErrorCode err = Some n \<longleftrightarrow> set (mentioned_codes err) = {n}"
proof
  assume "decodeContractErrorCode err = Some n"
  then have "remdups (mentioned_codes err) = [n]" by (auto simp: decodeContractErrorCode_def split: list.splits)
  then show "set (mentioned_codes err) = {n}" by (metis list.set(1,2) set_remdups)
next
  assume "set (mentioned_codes err) = {n}"
  then have "set (remdups (mentioned_codes err)) = {n}" by simp
  moreover have "distinct (remdups (mentioned_codes err))" by simp
  ultimately have "remdups (mentioned_codes err) = [n]" by (rule sole_member)
  then show "decodeContractErrorCode err = Some n" by (simp add: decodeContractErrorCode_def)
qed

section \<open>The subject's record\<close>

text \<open>What \<open>scValToNative\<close> yields.\<close>

datatype native = NatNothing | NatNumber jsnum | NatBigint int | NatText string | NatBytes bytes | NatRecord "(string \<times> native) list"

record ClaimRecord =
  cr_claims :: nat
  cr_expiresAt :: nat
  cr_issuerId :: bytes
  cr_issuedAt :: nat
  cr_revocationEpoch :: nat
  cr_revocationIndex :: nat

datatype decode_error = NotARecord | NotU32 string | NotAnIssuerId

definition record_u32 :: "(string \<times> native) list \<Rightarrow> string \<Rightarrow> decode_error + nat" where
  "record_u32 rcd key = (case map_of rcd key of
     Some (NatNumber (JInt n)) \<Rightarrow> if 0 \<le> n \<and> n \<le> 0xffffffff then Inr (nat n) else Inl (NotU32 key)
   | Some (NatBigint n) \<Rightarrow> if 0 \<le> n \<and> n \<le> 0xffffffff then Inr (nat n) else Inl (NotU32 key)
   | _ \<Rightarrow> Inl (NotU32 key))"

definition decodeClaimRecord :: "native \<Rightarrow> decode_error + ClaimRecord" where
  "decodeClaimRecord raw = (case raw of
     NatRecord rcd \<Rightarrow>
       (case map_of rcd ''issuer_id'' of
          Some (NatBytes b) \<Rightarrow>
            if length b \<noteq> 32 then Inl NotAnIssuerId
            else ebind (record_u32 rcd ''claims'') (\<lambda>claims.
                 ebind (record_u32 rcd ''expires_at'') (\<lambda>expiresAt.
                 ebind (record_u32 rcd ''issued_at'') (\<lambda>issuedAt.
                 ebind (record_u32 rcd ''revocation_epoch'') (\<lambda>revocationEpoch.
                 ebind (record_u32 rcd ''revocation_index'') (\<lambda>revocationIndex.
                 Inr \<lparr> cr_claims = claims, cr_expiresAt = expiresAt, cr_issuerId = b, cr_issuedAt = issuedAt,
                       cr_revocationEpoch = revocationEpoch, cr_revocationIndex = revocationIndex \<rparr>)))))
        | _ \<Rightarrow> Inl NotAnIssuerId)
   | NatBytes b \<Rightarrow> Inl NotAnIssuerId
   | _ \<Rightarrow> Inl NotARecord)"

record SubjectChainState =
  sc_subject :: string
  sc_revocationEpoch :: nat
  sc_record :: "ClaimRecord option"
  sc_revoked :: bool

datatype sim_outcome = Resolves native | Rejects thrown

datatype epoch_error = AddressRefused | OtherContractError nat | NotAContractError | UndecodableRecord decode_error

definition readSubjectChainState :: "(string \<Rightarrow> bool) \<Rightarrow> (string \<Rightarrow> sim_outcome) \<Rightarrow> string \<Rightarrow> epoch_error + SubjectChainState" where
  "readSubjectChainState address_ok sim subject =
     (if \<not> address_ok subject then Inl AddressRefused
      else case sim subject of
        Rejects err \<Rightarrow>
          (case decodeContractErrorCode err of
             Some code \<Rightarrow> if code = KYC_GATE_ERRORS NoClaimRecord
               then Inr \<lparr> sc_subject = subject, sc_revocationEpoch = 0, sc_record = None, sc_revoked = False \<rparr>
               else Inl (OtherContractError code)
           | None \<Rightarrow> Inl NotAContractError)
      | Resolves raw \<Rightarrow>
          (case decodeClaimRecord raw of
             Inl e \<Rightarrow> Inl (UndecodableRecord e)
           | Inr rcd \<Rightarrow> Inr \<lparr> sc_subject = subject, sc_revocationEpoch = cr_revocationEpoch rcd, sc_record = Some rcd,
               sc_revoked = (cr_claims rcd = 0) \<rparr>))"

definition readRevocationEpoch :: "(string \<Rightarrow> bool) \<Rightarrow> (string \<Rightarrow> sim_outcome) \<Rightarrow> string \<Rightarrow> epoch_error + nat" where
  "readRevocationEpoch address_ok sim subject =
     ebind (readSubjectChainState address_ok sim subject) (\<lambda>st. Inr (sc_revocationEpoch st))"

text \<open>
  \<open>SorobanGateSimulator.simulateClaimRecord\<close>: the response of the RPC becomes a value or a throw;
  \<open>None\<close> is a request that timed out or failed, with what was thrown.
\<close>

datatype rpc_simulation = SimFailed thrown | SimError string | SimNoResult | SimResult native

definition simulateClaimRecord :: "(string \<Rightarrow> rpc_simulation) \<Rightarrow> string \<Rightarrow> sim_outcome" where
  "simulateClaimRecord rpc subject = (case rpc subject of
     SimFailed err \<Rightarrow> Rejects err
   | SimError text_of_error \<Rightarrow>
       (let msg = ''claim_record('' @ subject @ '') simulation failed: '' @ text_of_error in
        Rejects (ThrownObject (Some msg) None [] None (''Error: '' @ msg)))
   | SimNoResult \<Rightarrow>
       (let msg = ''claim_record('' @ subject @ '') simulation returned no result'' in
        Rejects (ThrownObject (Some msg) None [] None (''Error: '' @ msg)))
   | SimResult v \<Rightarrow> Resolves v)"

text \<open>What the contract returns for a record, and what it says of a subject without one.\<close>

definition u32_ok :: "nat \<Rightarrow> bool" where "u32_ok n = (n < 2 ^ 32)"

definition claim_record_ok :: "ClaimRecord \<Rightarrow> bool" where
  "claim_record_ok r = (length (cr_issuerId r) = 32 \<and> u32_ok (cr_claims r) \<and> u32_ok (cr_expiresAt r) \<and> u32_ok (cr_issuedAt r)
     \<and> u32_ok (cr_revocationEpoch r) \<and> u32_ok (cr_revocationIndex r))"

definition claim_record_value :: "ClaimRecord \<Rightarrow> native" where
  "claim_record_value r = NatRecord [(''claims'', NatNumber (JInt (int (cr_claims r)))), (''expires_at'', NatNumber (JInt (int (cr_expiresAt r)))),
     (''issued_at'', NatNumber (JInt (int (cr_issuedAt r)))), (''issuer_id'', NatBytes (cr_issuerId r)),
     (''revocation_epoch'', NatNumber (JInt (int (cr_revocationEpoch r)))), (''revocation_index'', NatNumber (JInt (int (cr_revocationIndex r))))]"

lemma decode_claim_record_value: "claim_record_ok r \<Longrightarrow> decodeClaimRecord (claim_record_value r) = Inr r"
  by (simp add: claim_record_ok_def u32_ok_def decodeClaimRecord_def claim_record_value_def record_u32_def)

lemma record_u32_Inr: "record_u32 rcd key = Inr n \<Longrightarrow> u32_ok n"
  by (auto simp: record_u32_def u32_ok_def nat_less_iff split: option.splits native.splits jsnum.splits if_splits)

lemma decodeClaimRecord_ok: "decodeClaimRecord raw = Inr r \<Longrightarrow> claim_record_ok r"
  by (auto simp: decodeClaimRecord_def claim_record_ok_def res_simps dest: record_u32_Inr
      split: native.splits option.splits if_splits)

text \<open>The text a missing record reaches the client with mentions error 3 alone.\<close>

definition host_error :: "nat \<Rightarrow> string" where
  "host_error k = ''HostError: Error(Contract, #'' @ dec k @ '')''"

lemma match_at_head: "match_contract_error (''Error(Contract, #'' @ dec k @ '')'' @ r) = Some (k, r)"
proof -
  have "takeWhile is_digit (dec k @ '')'' @ r) = dec k" "dropWhile is_digit (dec k @ '')'' @ r) = '')'' @ r"
    using dec_digits[of k] by (simp_all add: takeWhile_append2 dropWhile_append2 list_all_iff is_digit_def)
  then show ?thesis by (simp add: match_contract_error_def js_space_def)
qed

lemma no_match: "c \<noteq> CHR ''E'' \<or> take 1 t \<noteq> ''r'' \<Longrightarrow> match_contract_error (c # t) = None"
  by (cases t) (auto simp: match_contract_error_def)

lemma codes_skip: "c \<noteq> CHR ''E'' \<or> take 1 t \<noteq> ''r'' \<Longrightarrow> contract_codes (c # t) = contract_codes t"
  using no_match[of c t] by (subst contract_codes.simps) simp

lemma codes_skip_text: "CHR ''r'' \<notin> set a \<Longrightarrow> take 1 t \<noteq> ''r'' \<Longrightarrow> contract_codes (a @ t) = contract_codes t"
proof (induction a)
  case (Cons c a)
  have "take 1 (a @ t) \<noteq> ''r''" using Cons.prems by (cases a) auto
  then have "contract_codes (c # a @ t) = contract_codes (a @ t)" by (intro codes_skip disjI2)
  then show ?case using Cons by simp
qed simp

lemma codes_host_error: "contract_codes (host_error k) = [k]"
proof -
  have "match_contract_error (''Error: Error(Contract, #'' @ dec k @ '')'') = None" by (simp add: match_contract_error_def)
  then have "contract_codes (''Error: Error(Contract, #'' @ dec k @ '')'') = contract_codes (''rror: Error(Contract, #'' @ dec k @ '')'')"
    by (subst contract_codes.simps) simp
  moreover have "contract_codes (''Error(Contract, #'' @ dec k @ '')'') = [k]"
    using match_at_head[of k "[]"] by (subst contract_codes.simps) (simp add: contract_codes.simps[of "[]"] match_contract_error_def)
  ultimately show ?thesis by (simp add: host_error_def codes_skip)
qed

text \<open>A gate whose answers are those of a chain that holds these records.\<close>

definition gate_rpc :: "(string \<Rightarrow> ClaimRecord option) \<Rightarrow> string \<Rightarrow> rpc_simulation" where
  "gate_rpc chain subject = (case chain subject of None \<Rightarrow> SimError (host_error 3) | Some r \<Rightarrow> SimResult (claim_record_value r))"

lemma wallet_no_r: "is_wallet_address w \<Longrightarrow> CHR ''r'' \<notin> set w"
  by (auto simp: is_wallet_address_def is_base32_char_def Let_def list_all_iff split: list.splits)

lemma codes_claim_record:
  assumes "is_wallet_address subject"
  shows "contract_codes (''claim_record('' @ subject @ '') simulation failed: '' @ host_error k) = [k]"
proof -
  have "contract_codes (''claim_record('' @ subject @ '') simulation failed: '' @ host_error k)
      = contract_codes (subject @ '') simulation failed: '' @ host_error k)" by (simp add: codes_skip)
  also have "\<dots> = contract_codes ('') simulation failed: '' @ host_error k)"
    by (rule codes_skip_text[OF wallet_no_r[OF assms]]) simp
  also have "\<dots> = contract_codes (host_error k)" by (simp add: codes_skip)
  finally show ?thesis by (simp add: codes_host_error)
qed

lemma missing_record_code:
  assumes "is_wallet_address subject" "simulateClaimRecord (gate_rpc chain) subject = Rejects err"
  shows "decodeContractErrorCode err = Some 3"
proof -
  let ?msg = "''claim_record('' @ subject @ '') simulation failed: '' @ host_error 3"
  have err: "err = ThrownObject (Some ?msg) None [] None (''Error: '' @ ?msg)"
    using assms(2) by (simp add: simulateClaimRecord_def gate_rpc_def Let_def split: option.splits)
  have c: "contract_codes ?msg = [3]" by (rule codes_claim_record[OF assms(1)])
  have "match_contract_error (''Error: '' @ ?msg) = None" by (simp add: match_contract_error_def)
  then have "contract_codes (''Error: '' @ ?msg) = contract_codes (''rror: '' @ ?msg)" by (subst contract_codes.simps) simp
  also have "\<dots> = contract_codes ?msg" by (simp add: codes_skip)
  finally have "contract_codes (''Error: '' @ ?msg) = [3]" using c by simp
  moreover have "candidateStrings 9 err = [?msg, ''Error: '' @ ?msg]"
    using candidateStrings.simps(6)[of 8 "Some ?msg" None "[]" None "''Error: '' @ ?msg"] unfolding err by (simp del: append.simps)
  ultimately have "mentioned_codes err = [3, 3]" using c by (simp add: mentioned_codes_def del: append.simps)
  then show ?thesis by (simp add: decodeContractErrorCode_def)
qed

section \<open>Issuer preflight\<close>

datatype preflight_error = IssuerNotFound | RegistryReadFailed thrown | RegistryKeyDiffers | LocalKeyRefused point_error

definition REGISTRY_ISSUER_NOT_FOUND :: nat where "REGISTRY_ISSUER_NOT_FOUND = 3"

text \<open>The registry's answers: the active key of an issuer id, or what was thrown.\<close>

definition assertIssuerActive :: "curve \<Rightarrow> (bytes \<Rightarrow> thrown + bytes) \<Rightarrow> bytes \<Rightarrow> bytes \<Rightarrow> preflight_error + bytes" where
  "assertIssuerActive C active_key issuerId issuerPublicKeyCompressed = (case active_key issuerId of
     Inl cause \<Rightarrow> Inl (if decodeContractErrorCode cause = Some REGISTRY_ISSUER_NOT_FOUND then IssuerNotFound else RegistryReadFailed cause)
   | Inr registryKey \<Rightarrow>
       ebind (map_err LocalKeyRefused (decompressG2 C issuerPublicKeyCompressed)) (\<lambda>expected.
       if registryKey \<noteq> expected then Inl RegistryKeyDiffers else Inr registryKey))"

definition usable_key :: "bytes \<Rightarrow> bool" where
  "usable_key key = (case key of [] \<Rightarrow> True | b # r \<Rightarrow> b AND 0xe0 = 0)"

fun findSubstituteIssuer :: "(bytes \<Rightarrow> thrown + bytes) \<Rightarrow> bytes list \<Rightarrow> bytes \<Rightarrow> thrown + bytes option" where
  "findSubstituteIssuer active_key [] exclude = Inr None"
| "findSubstituteIssuer active_key (candidate # rest) exclude =
     (if candidate = exclude then findSubstituteIssuer active_key rest exclude
      else case active_key candidate of
        Inl cause \<Rightarrow>
          (case decodeContractErrorCode cause of None \<Rightarrow> Inl cause
           | Some code \<Rightarrow> if code \<noteq> REGISTRY_ISSUER_NOT_FOUND then Inl cause else findSubstituteIssuer active_key rest exclude)
      | Inr key \<Rightarrow> if usable_key key then Inr (Some candidate) else findSubstituteIssuer active_key rest exclude)"

text \<open>A substitute is another listed issuer that is active with a clear flag byte; none means none of them is.\<close>

lemma findSubstituteIssuer_sound:
  "findSubstituteIssuer active_key ids exclude = Inr r \<Longrightarrow>
     (case r of Some i \<Rightarrow> i \<in> set ids \<and> i \<noteq> exclude \<and> (\<exists>k. active_key i = Inr k \<and> usable_key k)
      | None \<Rightarrow> \<forall>i\<in>set ids. i \<noteq> exclude \<longrightarrow> (\<exists>e. active_key i = Inl e \<and> decodeContractErrorCode e = Some 3)
          \<or> (\<exists>k. active_key i = Inr k \<and> \<not> usable_key k))"
proof (induction active_key ids exclude rule: findSubstituteIssuer.induct)
  case (2 active_key candidate rest exclude)
  show ?case
  proof (cases "candidate = exclude")
    case True
    then show ?thesis using 2 by (auto split: option.splits)
  next
    case False
    show ?thesis
    proof (cases "active_key candidate")
      case (Inl cause)
      then have k: "decodeContractErrorCode cause = Some 3" "findSubstituteIssuer active_key rest exclude = Inr r"
        using 2(4) False by (auto simp: REGISTRY_ISSUER_NOT_FOUND_def split: option.splits if_splits)
      then show ?thesis using 2(2)[OF False Inl k(1)] Inl by (auto simp: REGISTRY_ISSUER_NOT_FOUND_def split: option.splits)
    next
      case (Inr key)
      then show ?thesis using 2(3)[OF False Inr] 2(4) False by (cases "usable_key key") (auto split: option.splits)
    qed
  qed
qed simp

section \<open>Expiry clamps\<close>

definition DEFAULT_EXPIRY_MARGIN_LEDGERS :: int where "DEFAULT_EXPIRY_MARGIN_LEDGERS = 720"
definition CLAIM_TTL_EXTEND_TO :: int where "CLAIM_TTL_EXTEND_TO = 2073600"
definition NONCE_MAX_TTL :: int where "NONCE_MAX_TTL = 3110399"
definition MAX_EXPIRY_HORIZON :: int where "MAX_EXPIRY_HORIZON = min CLAIM_TTL_EXTEND_TO NONCE_MAX_TTL"

datatype expiry_error = BadMargin jsnum | UnusableSequence jsnum

definition clamped_expiry :: "int \<Rightarrow> jsnum \<Rightarrow> jsnum \<Rightarrow> expiry_error + int" where
  "clamped_expiry limit sequence margin = (case margin of
     JInt m \<Rightarrow> if m \<le> 0 then Inl (BadMargin margin)
       else (case sequence of
          JInt s \<Rightarrow> if \<not> js_isSafeInteger sequence \<or> s < 0 then Inl (UnusableSequence sequence) else Inr (s + min m limit)
        | _ \<Rightarrow> Inl (UnusableSequence sequence))
   | _ \<Rightarrow> Inl (BadMargin margin))"

definition ledgerExpiryFor :: "jsnum \<Rightarrow> jsnum option \<Rightarrow> expiry_error + int" where
  "ledgerExpiryFor sequence margin = clamped_expiry PROOF_MAX_WINDOW sequence
     (case margin of None \<Rightarrow> JInt DEFAULT_EXPIRY_MARGIN_LEDGERS | Some m \<Rightarrow> m)"

definition recordExpiresAtFor :: "jsnum \<Rightarrow> jsnum \<Rightarrow> expiry_error + int" where
  "recordExpiresAtFor sequence ledgersAhead = clamped_expiry MAX_EXPIRY_HORIZON sequence ledgersAhead"

lemma clamped_expiry_Inr: "0 < limit \<Longrightarrow> clamped_expiry limit sequence margin = Inr e \<longleftrightarrow>
    (\<exists>s m. sequence = JInt s \<and> margin = JInt m \<and> 0 < m \<and> 0 \<le> s \<and> s \<le> MAX_SAFE_INTEGER \<and> e = s + min m limit)"
  by (auto simp: clamped_expiry_def split: jsnum.splits if_splits)

lemma clamped_expiry_spec:
  assumes "0 < limit"
  shows "case clamped_expiry limit sequence margin of
      Inr e \<Rightarrow> \<exists>s m. sequence = JInt s \<and> margin = JInt m \<and> 0 < m \<and> 0 \<le> s \<and> s \<le> MAX_SAFE_INTEGER
         \<and> s < e \<and> e \<le> s + limit \<and> (m \<le> limit \<longleftrightarrow> e = s + m)
    | Inl _ \<Rightarrow> \<not> (\<exists>s m. sequence = JInt s \<and> margin = JInt m \<and> 0 < m \<and> 0 \<le> s \<and> s \<le> MAX_SAFE_INTEGER)"
proof (cases "clamped_expiry limit sequence margin")
  case (Inl x)
  have "clamped_expiry limit sequence margin \<noteq> Inr e" for e using Inl by simp
  then show ?thesis unfolding clamped_expiry_Inr[OF assms] using Inl by auto
next
  case (Inr e)
  obtain s m where "sequence = JInt s" "margin = JInt m" "0 < m" "0 \<le> s" "s \<le> MAX_SAFE_INTEGER" "e = s + min m limit"
    using iffD1[OF clamped_expiry_Inr[OF assms] Inr] by blast
  then show ?thesis unfolding Inr sum.case using assms by (intro exI[of _ s] exI[of _ m]) auto
qed

section \<open>Properties\<close>

text \<open>
  The epoch read fails closed: a state without a record, at epoch 0, is returned only where
  the simulation was rejected and error 3 is the one code its text mentions; any other rejection
  and any value that does not decode is an error, and a record that is returned was decoded whole,
  with every field a 32-bit integer.
\<close>

theorem epoch_read_fail_closed:
  "case readSubjectChainState address_ok sim subject of
     Inr st \<Rightarrow> address_ok subject \<and> sc_subject st = subject \<and>
       (case sc_record st of
          None \<Rightarrow> sc_revocationEpoch st = 0 \<and> \<not> sc_revoked st \<and> (\<exists>err. sim subject = Rejects err \<and> set (mentioned_codes err) = {3})
        | Some r \<Rightarrow> sc_revocationEpoch st = cr_revocationEpoch r \<and> (sc_revoked st \<longleftrightarrow> cr_claims r = 0) \<and> claim_record_ok r
            \<and> (\<exists>raw. sim subject = Resolves raw \<and> decodeClaimRecord raw = Inr r))
   | Inl e \<Rightarrow> e = AddressRefused \<or> (\<exists>err. sim subject = Rejects err \<and> set (mentioned_codes err) \<noteq> {3})
       \<or> (\<exists>raw d. sim subject = Resolves raw \<and> decodeClaimRecord raw = Inl d)"
proof (cases "sim subject")
  case (Rejects err)
  then show ?thesis using decode_sole[of err 3]
    by (cases "decodeContractErrorCode err") (auto simp: readSubjectChainState_def)
next
  case (Resolves raw)
  then show ?thesis
    by (cases "decodeClaimRecord raw") (auto simp: readSubjectChainState_def decodeClaimRecord_ok)
qed

text \<open>
  Against a gate that answers from a set of records, the simulator and the reader together
  return exactly the subject's record and epoch: epoch 0 for a subject without one, through the
  host's error text, and the record's own epoch otherwise.
\<close>

theorem epoch_read_exact:
  assumes "is_wallet_address subject" "address_ok subject" and "\<forall>r. chain subject = Some r \<longrightarrow> claim_record_ok r"
  shows "readSubjectChainState address_ok (simulateClaimRecord (gate_rpc chain)) subject
    = Inr \<lparr> sc_subject = subject, sc_revocationEpoch = (case chain subject of None \<Rightarrow> 0 | Some r \<Rightarrow> cr_revocationEpoch r),
            sc_record = chain subject, sc_revoked = (case chain subject of None \<Rightarrow> False | Some r \<Rightarrow> cr_claims r = 0) \<rparr>"
proof (cases "chain subject")
  case None
  then obtain err where err: "simulateClaimRecord (gate_rpc chain) subject = Rejects err"
    by (auto simp: simulateClaimRecord_def gate_rpc_def Let_def)
  then show ?thesis using None assms(2) missing_record_code[OF assms(1) err] by (simp add: readSubjectChainState_def)
next
  case (Some r)
  then have "simulateClaimRecord (gate_rpc chain) subject = Resolves (claim_record_value r)"
    by (simp add: simulateClaimRecord_def gate_rpc_def)
  then show ?thesis using Some assms decode_claim_record_value[of r] by (simp add: readSubjectChainState_def)
qed

definition toy_record :: ClaimRecord where
  "toy_record = \<lparr> cr_claims = 0, cr_expiresAt = 9, cr_issuerId = replicate 32 0, cr_issuedAt = 5, cr_revocationEpoch = 2, cr_revocationIndex = 7 \<rparr>"

theorem epoch_read_exact_witness:
  "let w = CHR ''G'' # replicate 55 CHR ''E''; v = CHR ''C'' # replicate 55 CHR ''A''; chain = [w \<mapsto> toy_record] in
     readRevocationEpoch (\<lambda>_. True) (simulateClaimRecord (gate_rpc chain)) w = Inr 2
     \<and> readRevocationEpoch (\<lambda>_. True) (simulateClaimRecord (gate_rpc chain)) v = Inr 0"
proof -
  let ?w = "CHR ''G'' # replicate 55 CHR ''E''" and ?v = "CHR ''C'' # replicate 55 CHR ''A''"
  let ?chain = "[?w \<mapsto> toy_record]"
  have w: "is_wallet_address ?w" "is_wallet_address ?v" by (simp_all add: is_wallet_address_def is_base32_char_def list_all_iff)
  have r: "\<forall>r. ?chain ?w = Some r \<longrightarrow> claim_record_ok r" "\<forall>r. ?chain ?v = Some r \<longrightarrow> claim_record_ok r"
    by (simp_all add: claim_record_ok_def u32_ok_def toy_record_def)
  have "readSubjectChainState (\<lambda>_. True) (simulateClaimRecord (gate_rpc ?chain)) ?w = Inr \<lparr> sc_subject = ?w, sc_revocationEpoch = 2, sc_record = Some toy_record, sc_revoked = True \<rparr>"
    by (subst epoch_read_exact[where subject = ?w and chain = ?chain and address_ok = "\<lambda>_. True", OF w(1) TrueI r(1)]) (simp add: toy_record_def)
  moreover have "readSubjectChainState (\<lambda>_. True) (simulateClaimRecord (gate_rpc ?chain)) ?v = Inr \<lparr> sc_subject = ?v, sc_revocationEpoch = 0, sc_record = None, sc_revoked = False \<rparr>"
    by (subst epoch_read_exact[where subject = ?v and chain = ?chain and address_ok = "\<lambda>_. True", OF w(2) TrueI r(2)]) simp
  ultimately show ?thesis unfolding Let_def readRevocationEpoch_def by simp
qed

text \<open>
  The clamps give an expiry strictly after the current ledger and never past the contract's
  bound, equal to the asked margin where that is within it, and refuse exactly a margin that is
  not a positive integer or a sequence that is not a non-negative safe integer.
\<close>

theorem expiry_clamped:
  "(case ledgerExpiryFor sequence margin of
      Inr e \<Rightarrow> \<exists>s m. sequence = JInt s \<and> (case margin of None \<Rightarrow> m = 720 | Some x \<Rightarrow> x = JInt m) \<and> 0 < m \<and> 0 \<le> s \<and> s \<le> MAX_SAFE_INTEGER
         \<and> s < e \<and> e \<le> s + 17280 \<and> (m \<le> 17280 \<longleftrightarrow> e = s + m)
    | Inl _ \<Rightarrow> \<not> (\<exists>s m. sequence = JInt s \<and> (case margin of None \<Rightarrow> m = 720 | Some x \<Rightarrow> x = JInt m) \<and> 0 < m \<and> 0 \<le> s \<and> s \<le> MAX_SAFE_INTEGER))
   \<and> (case recordExpiresAtFor sequence ahead of
      Inr e \<Rightarrow> \<exists>s m. sequence = JInt s \<and> ahead = JInt m \<and> 0 < m \<and> 0 \<le> s \<and> s \<le> MAX_SAFE_INTEGER
         \<and> s < e \<and> e \<le> s + 2073600 \<and> (m \<le> 2073600 \<longleftrightarrow> e = s + m)
    | Inl _ \<Rightarrow> \<not> (\<exists>s m. sequence = JInt s \<and> ahead = JInt m \<and> 0 < m \<and> 0 \<le> s \<and> s \<le> MAX_SAFE_INTEGER))"
  (is "?P \<and> ?Q")
proof
  define m0 where "m0 = (case margin of None \<Rightarrow> JInt DEFAULT_EXPIRY_MARGIN_LEDGERS | Some m \<Rightarrow> m)"
  have m0: "(case margin of None \<Rightarrow> m = 720 | Some x \<Rightarrow> x = JInt m) \<longleftrightarrow> m0 = JInt m" for m
    by (auto simp: m0_def DEFAULT_EXPIRY_MARGIN_LEDGERS_def split: option.splits)
  have w: "PROOF_MAX_WINDOW = 17280" by (simp add: PROOF_MAX_WINDOW_def)
  show ?P
    unfolding ledgerExpiryFor_def m0_def[symmetric] m0 w by (rule clamped_expiry_spec) simp
  have h: "MAX_EXPIRY_HORIZON = 2073600" by (simp add: MAX_EXPIRY_HORIZON_def CLAIM_TTL_EXTEND_TO_def NONCE_MAX_TTL_def)
  show ?Q unfolding recordExpiresAtFor_def h by (rule clamped_expiry_spec) simp
qed

end
