(* ===== verification/Attest.thy ===== *)
theory Attest
imports Issuance Points Json
begin

text \<open>
  The call \<open>attest_bbs\<close> of \<open>packages/sdk/src/attest\<close>: the bitmap a proof may request (\<open>grants.ts\<close>),
  the twelve arguments in wire order (\<open>args.ts\<close>, \<open>scval.ts\<close>), the proof as a map ordered by symbol
  bytes (\<open>proof-scval.ts\<close>, \<open>symbol.ts\<close>), and submission with its polling loop (\<open>submit.ts\<close>). The
  answers of the RPC server are arguments.
\<close>

section \<open>The bitmap a proof supports\<close>

definition ATTEST_GRANTS :: "(nat \<times> string \<times> 32 word) list" where
  "ATTEST_GRANTS = [(CLAIM_INDEX Over18, ''over18=true'', CLAIM_OVER_18), (CLAIM_INDEX Over21, ''over21=true'', CLAIM_OVER_21),
     (CLAIM_INDEX NotSanctioned, ''notSanctioned=true'', CLAIM_NOT_SANCTIONED),
     (CLAIM_INDEX JurisdictionOk, ''jurisdictionOk=true'', CLAIM_JURISDICTION_OK)]"

text \<open>\<open>Array.prototype.indexOf\<close>; \<open>None\<close> stands for \<open>-1\<close>.\<close>

fun js_indexOf :: "'a list \<Rightarrow> 'a \<Rightarrow> nat option" where
  "js_indexOf [] x = None"
| "js_indexOf (y # ys) x = (if y = x then Some 0 else map_option Suc (js_indexOf ys x))"

definition grant :: "jsnum list \<Rightarrow> string list \<Rightarrow> 32 word \<Rightarrow> nat \<times> string \<times> 32 word \<Rightarrow> 32 word" where
  "grant idx msgs bits rule = (case rule of (i, message, b) \<Rightarrow>
     (case js_indexOf idx (JInt (int i)) of None \<Rightarrow> bits
      | Some p \<Rightarrow> if nth_opt msgs p = Some message then bits OR b else bits))"

definition deriveGrantedClaims :: "jsnum list \<Rightarrow> string list \<Rightarrow> 32 word" where
  "deriveGrantedClaims idx msgs = foldl (grant idx msgs) 0 ATTEST_GRANTS"

section \<open>Symbols in byte order\<close>

datatype attest_error = BadSymbol string | BadIssuerId string | BadNonceHex string | BadBitmap jsnum | BadRevocationIndex jsnum
  | BadExpiresAt' jsnum | BadLedgerExpiry' jsnum | BadSubject string | HexRefused | SplitRefused point_error

definition symbol_char :: "char \<Rightarrow> bool" where
  "symbol_char c = (let k = (of_char c :: nat) in (48 \<le> k \<and> k \<le> 57) \<or> (65 \<le> k \<and> k \<le> 90) \<or> (97 \<le> k \<and> k \<le> 122) \<or> k = 95)"

definition SYMBOL_CHARS :: "string \<Rightarrow> bool" where
  "SYMBOL_CHARS s = (1 \<le> length s \<and> length s \<le> 32 \<and> list_all symbol_char s)"

fun buffer_compare :: "bytes \<Rightarrow> bytes \<Rightarrow> int" where
  "buffer_compare [] [] = 0"
| "buffer_compare [] (y # ys) = -1"
| "buffer_compare (x # xs) [] = 1"
| "buffer_compare (x # xs) (y # ys) = (if x < y then -1 else if y < x then 1 else buffer_compare xs ys)"

definition compareSorobanSymbol :: "string \<Rightarrow> string \<Rightarrow> attest_error + int" where
  "compareSorobanSymbol a b = (if \<not> SYMBOL_CHARS a then Inl (BadSymbol a) else if \<not> SYMBOL_CHARS b then Inl (BadSymbol b)
     else Inr (buffer_compare (ref_utf8 a) (ref_utf8 b)))"

text \<open>\<open>fields.sort(...)\<close>: stable, by the comparator, which may refuse a name.\<close>

fun insert_field :: "string \<times> 'v \<Rightarrow> (string \<times> 'v) list \<Rightarrow> attest_error + (string \<times> 'v) list" where
  "insert_field f [] = Inr [f]"
| "insert_field f (g # gs) = ebind (compareSorobanSymbol (fst f) (fst g)) (\<lambda>c.
     if c < 0 then Inr (f # g # gs) else ebind (insert_field f gs) (\<lambda>r. Inr (g # r)))"

fun sort_fields :: "(string \<times> 'v) list \<Rightarrow> (string \<times> 'v) list \<Rightarrow> attest_error + (string \<times> 'v) list" where
  "sort_fields [] acc = Inr acc"
| "sort_fields (f # fs) acc = ebind (insert_field f acc) (sort_fields fs)"

section \<open>The arguments\<close>

datatype sc_val = ScAddress string | ScU32 jsnum | ScBytes bytes | ScVec "sc_val list" | ScSymbol string
  | ScMap "(sc_val \<times> sc_val) list"

definition bbs_fields :: "soroban_proof \<Rightarrow> (string \<times> sc_val) list" where
  "bbs_fields p = [(''a_bar'', ScBytes (p_abar p)), (''b_bar'', ScBytes (p_bbar p)), (''d'', ScBytes (p_d p)),
     (''e_hat'', ScBytes (p_eHat p)), (''r1_hat'', ScBytes (p_r1Hat p)), (''r3_hat'', ScBytes (p_r3Hat p)),
     (''m_hat'', ScVec (map ScBytes (p_mHat p))), (''challenge'', ScBytes (p_challenge p))]"

definition bbsProofScVal :: "soroban_proof \<Rightarrow> attest_error + sc_val" where
  "bbsProofScVal p = ebind (sort_fields (bbs_fields p) []) (\<lambda>fields. Inr (ScMap (map (\<lambda>f. (ScSymbol (fst f), snd f)) fields)))"

definition BBS_PROOF_FIELD_ORDER :: "string list" where
  "BBS_PROOF_FIELD_ORDER = [''a_bar'', ''b_bar'', ''challenge'', ''d'', ''e_hat'', ''m_hat'', ''r1_hat'', ''r3_hat'']"

definition u32_number :: "int \<Rightarrow> jsnum \<Rightarrow> bool" where
  "u32_number low x = (case x of JInt i \<Rightarrow> low \<le> i \<and> i \<le> 0xffffffff | _ \<Rightarrow> False)"

record AttestBbsArgsInput =
  ai_subject :: string
  ai_issuerId :: string
  ai_claimsBitmap :: jsnum
  ai_expiresAt :: jsnum
  ai_revocationEpoch :: jsnum
  ai_revocationIndex :: jsnum
  ai_proof :: bytes
  ai_disclosedIndexes :: "jsnum list"
  ai_disclosedMessages :: "string list"
  ai_nonceHex :: string
  ai_ledgerExpiry :: jsnum

definition addrScVal :: "(string \<Rightarrow> bool) \<Rightarrow> string \<Rightarrow> attest_error + sc_val" where
  "addrScVal address_ok a = (if address_ok a then Inr (ScAddress a) else Inl (BadSubject a))"

definition hex_bytes :: "noble \<Rightarrow> string \<Rightarrow> attest_error + sc_val" where
  "hex_bytes N h = (case hexToBytes N h of None \<Rightarrow> Inl HexRefused | Some b \<Rightarrow> Inr (ScBytes b))"

definition attestBbsArgs :: "noble \<Rightarrow> curve \<Rightarrow> (string \<Rightarrow> bool) \<Rightarrow> AttestBbsArgsInput \<Rightarrow> attest_error + sc_val list" where
  "attestBbsArgs N C address_ok input =
     (if \<not> hex32 (ai_issuerId input) then Inl (BadIssuerId (ai_issuerId input))
      else if \<not> hex32 (ai_nonceHex input) then Inl (BadNonceHex (ai_nonceHex input))
      else if \<not> u32_number 0 (ai_claimsBitmap input) then Inl (BadBitmap (ai_claimsBitmap input))
      else if \<not> u32_number 0 (ai_revocationIndex input) then Inl (BadRevocationIndex (ai_revocationIndex input))
      else if \<not> u32_number 1 (ai_expiresAt input) then Inl (BadExpiresAt' (ai_expiresAt input))
      else if \<not> u32_number 1 (ai_ledgerExpiry input) then Inl (BadLedgerExpiry' (ai_ledgerExpiry input))
      else ebind (addrScVal address_ok (ai_subject input)) (\<lambda>subject.
           ebind (hex_bytes N (ai_issuerId input)) (\<lambda>issuerId.
           ebind (map_err SplitRefused (splitProof C (ai_proof input))) (\<lambda>split.
           ebind (bbsProofScVal split) (\<lambda>prf.
           ebind (hex_bytes N (ai_nonceHex input)) (\<lambda>nonce.
           Inr [subject, issuerId, ScU32 (ai_claimsBitmap input), ScU32 (ai_expiresAt input), ScU32 (ai_revocationEpoch input),
                ScU32 (ai_revocationIndex input), prf, ScVec (map ScU32 (ai_disclosedIndexes input)),
                ScVec (map (\<lambda>m. ScBytes (utf8ToBytes N m)) (ai_disclosedMessages input)),
                ScBytes (utf8ToBytes N CREDENTIAL_HEADER), nonce, ScU32 (ai_ledgerExpiry input)]))))))"

section \<open>Submission\<close>

datatype ledger_key = ContractData string | OtherKey string

record LandedTx =
  lt_call :: string
  lt_hash :: string
  lt_instructions :: nat
  lt_diskReadBytes :: nat
  lt_writeBytes :: nat
  lt_writeFootprint :: string
  lt_resourceFee :: int
  lt_feeCharged :: int

record soroban_envelope =
  se_instructions :: nat
  se_diskReadBytes :: nat
  se_writeBytes :: nat
  se_readWrite :: "ledger_key list"
  se_resourceFee :: int
  se_feeCharged :: int

datatype tx_status = TxSuccess soroban_envelope | TxFailed | TxNotFound | TxThrew string

datatype submission_error = PreSubmit string | RejectedOnSubmit string | FailedOnChain | NeverConfirmed | Transport string
  | SimulationFailed string | SimulationNoResult

fun footprint_name :: "ledger_key \<Rightarrow> string" where
  "footprint_name (ContractData durability) = durability"
| "footprint_name (OtherKey kind) = kind"

fun join_plus :: "string list \<Rightarrow> string" where
  "join_plus [] = []"
| "join_plus [x] = x"
| "join_plus (x # xs) = x @ ''+'' @ join_plus xs"

definition landed_tx :: "string \<Rightarrow> string \<Rightarrow> soroban_envelope \<Rightarrow> LandedTx" where
  "landed_tx label hash e = \<lparr> lt_call = label, lt_hash = hash, lt_instructions = se_instructions e,
     lt_diskReadBytes = se_diskReadBytes e, lt_writeBytes = se_writeBytes e,
     lt_writeFootprint = join_plus (sort (map footprint_name (se_readWrite e))),
     lt_resourceFee = se_resourceFee e, lt_feeCharged = se_feeCharged e \<rparr>"

text \<open>The loop over \<open>getTransaction\<close>; the \<open>i\<close>-th call answers \<open>got i\<close>, and \<open>k\<close> calls are left.\<close>

fun poll_landed :: "nat \<Rightarrow> nat \<Rightarrow> string \<Rightarrow> string \<Rightarrow> (nat \<Rightarrow> tx_status) \<Rightarrow> submission_error + LandedTx" where
  "poll_landed 0 i label hash got = Inl NeverConfirmed"
| "poll_landed (Suc k) i label hash got = (case got i of
     TxSuccess e \<Rightarrow> Inr (landed_tx label hash e)
   | TxFailed \<Rightarrow> Inl FailedOnChain
   | TxThrew e \<Rightarrow> Inl (Transport e)
   | TxNotFound \<Rightarrow> poll_landed k (Suc i) label hash got)"

text \<open>What \<open>getAccount\<close>, \<open>prepareTransaction\<close> and \<open>sendTransaction\<close> answer: a thrown message, or the result.\<close>

datatype send_outcome = SendThrew string | SendStatus string string

record rpc_server =
  rs_account :: "string + unit"
  rs_prepare :: "string + unit"
  rs_send :: send_outcome
  rs_get :: "nat \<Rightarrow> tx_status"

definition submit_tx :: "nat \<Rightarrow> rpc_server \<Rightarrow> string \<Rightarrow> submission_error + LandedTx" where
  "submit_tx pollAttempts server label = (case rs_account server of Inl e \<Rightarrow> Inl (Transport e)
   | Inr _ \<Rightarrow> (case rs_prepare server of Inl e \<Rightarrow> Inl (PreSubmit e)
   | Inr _ \<Rightarrow> (case rs_send server of SendThrew e \<Rightarrow> Inl (RejectedOnSubmit e)
   | SendStatus status hash \<Rightarrow>
       if status = ''ERROR'' then Inl (RejectedOnSubmit status)
       else poll_landed pollAttempts 0 label hash (rs_get server))))"

datatype 'v read_outcome = ReadError string | ReadNoResult | ReadResult 'v

definition simulateRead :: "'v read_outcome \<Rightarrow> submission_error + 'v" where
  "simulateRead sim = (case sim of ReadError e \<Rightarrow> Inl (SimulationFailed e) | ReadNoResult \<Rightarrow> Inl SimulationNoResult
     | ReadResult v \<Rightarrow> Inr v)"

definition simulateError :: "'v read_outcome \<Rightarrow> string option" where
  "simulateError sim = (case sim of ReadError e \<Rightarrow> Some e | _ \<Rightarrow> None)"

section \<open>Facts\<close>

lemma js_indexOf_map:
  assumes "inj g"
  shows "js_indexOf (map g ks) (g i) = None \<longleftrightarrow> i \<notin> set ks"
    and "js_indexOf (map g ks) (g i) = Some p \<Longrightarrow> nth_opt (map f ks) p = Some (f i)"
proof (induction ks arbitrary: p)
  case (Cons k ks)
  have e: "g k = g i \<longleftrightarrow> k = i" using assms by (simp add: inj_eq)
  { case 1
    show ?case using Cons.IH(1) e by auto }
  { case 2
    then show ?case using Cons.IH(2) e by (cases "k = i") auto }
qed simp_all

lemma inj_index: "inj (JInt \<circ> int)"
  by (auto simp: inj_def)

lemma grant_disclosed:
  "grant (map (JInt \<circ> int) ks) (map ((!) ms) ks) bits (i, message, b) = (if i \<in> set ks \<and> ms ! i = message then bits OR b else bits)"
proof (cases "js_indexOf (map (JInt \<circ> int) ks) (JInt (int i))")
  case None
  then have "i \<notin> set ks" using js_indexOf_map(1)[OF inj_index, of ks i] by simp
  then show ?thesis using None by (simp add: grant_def)
next
  case (Some p)
  then have "i \<in> set ks" using js_indexOf_map(1)[OF inj_index, of ks i] by (metis comp_apply option.distinct(1))
  moreover have "nth_opt (map ((!) ms) ks) p = Some (ms ! i)" using js_indexOf_map(2)[OF inj_index, of ks i p "(!) ms"] Some by simp
  ultimately show ?thesis using Some by (simp add: grant_def)
qed

text \<open>A boolean claim as it stands in the signed messages.\<close>

lemma boolean_message:
  assumes "encodeClaims claims = Inr ms" "claims n = Some (VBool v)" "claim_kind_of n = KBool"
  shows "ms ! CLAIM_INDEX n = claim_str n @ ''='' @ (if v then ''true'' else ''false'')"
proof -
  obtain w where w: "claims n = Some w" "encodeClaim n w = Inr (ms ! CLAIM_INDEX n)" using encodeClaims_Inr(2)[OF assms(1)] by blast
  then have "encodeClaim n (VBool v) = Inr (ms ! CLAIM_INDEX n)" using assms(2) by simp
  moreover have "encodeClaim n (VBool v) = Inr (claim_str n @ ''='' @ (if v then ''true'' else ''false''))"
    using assms(3) by (cases n) (simp_all add: encodeClaim_def CLAIM_SPECS_def mk_spec_def)
  ultimately show ?thesis by simp
qed

lemma ex_claim_name: "(\<exists>n. P n) \<longleftrightarrow> P SchemaVersion \<or> P IssuerId \<or> P RevocationIndex \<or> P IssuedAt \<or> P ExpiresAt \<or> P SubjectBinding
    \<or> P Over18 \<or> P Over21 \<or> P NotSanctioned \<or> P NotPep \<or> P JurisdictionOk \<or> P LivenessOk" (is "_ \<longleftrightarrow> ?R")
proof
  assume "\<exists>n. P n"
  then obtain n where "P n" by blast
  then show ?R by (cases n) simp_all
qed blast

lemma grants_bits:
  assumes "encodeClaims (issued_claims iss i a e sb cs) = Inr ms"
  shows "bit (deriveGrantedClaims (map (JInt \<circ> int) ks) (map ((!) ms) ks)) n \<longleftrightarrow> bit (claimBitmap cs) n
     \<and> (n = 0 \<and> 6 \<in> set ks \<or> n = 1 \<and> 7 \<in> set ks \<or> n = 2 \<and> 8 \<in> set ks \<or> n = 3 \<and> 10 \<in> set ks)"
proof -
  note b = boolean_message[OF assms]
  have m: "ms ! 6 = ''over18=true'' \<longleftrightarrow> cs_over18 cs" "ms ! 7 = ''over21=true'' \<longleftrightarrow> cs_over21 cs"
    "ms ! 8 = ''notSanctioned=true'' \<longleftrightarrow> cs_notSanctioned cs" "ms ! 10 = ''jurisdictionOk=true'' \<longleftrightarrow> cs_jurisdictionOk cs"
    using b[of Over18 "cs_over18 cs"] b[of Over21 "cs_over21 cs"] b[of NotSanctioned "cs_notSanctioned cs"]
      b[of JurisdictionOk "cs_jurisdictionOk cs"] by (simp_all add: issued_claims_def)
  show ?thesis
    unfolding deriveGrantedClaims_def ATTEST_GRANTS_def foldl.simps grant_disclosed claimBitmap_bits
    using m by (auto simp: bit_or_iff)
qed

lemma insert_known: "SYMBOL_CHARS (fst f) \<Longrightarrow> SYMBOL_CHARS (fst g) \<Longrightarrow> insert_field f (g # gs)
   = (if buffer_compare (ref_utf8 (fst f)) (ref_utf8 (fst g)) < 0 then Inr (f # g # gs)
      else ebind (insert_field f gs) (\<lambda>r. Inr (g # r)))"
  by (simp add: compareSorobanSymbol_def)

lemma sorted_fields:
  "sort_fields (bbs_fields p) [] = Inr [(''a_bar'', ScBytes (p_abar p)), (''b_bar'', ScBytes (p_bbar p)),
     (''challenge'', ScBytes (p_challenge p)), (''d'', ScBytes (p_d p)), (''e_hat'', ScBytes (p_eHat p)),
     (''m_hat'', ScVec (map ScBytes (p_mHat p))), (''r1_hat'', ScBytes (p_r1Hat p)), (''r3_hat'', ScBytes (p_r3Hat p))]"
  by (simp add: bbs_fields_def insert_known SYMBOL_CHARS_def symbol_char_def word_less_nat_alt del: insert_field.simps(2))

text \<open>The loop returns a transaction exactly when the first answer other than \<open>NOT_FOUND\<close> is a success in time.\<close>

lemma poll_landed_Inr:
  "poll_landed k i label hash got = Inr tx \<longleftrightarrow>
     (\<exists>j e. i \<le> j \<and> j < i + k \<and> got j = TxSuccess e \<and> (\<forall>l. i \<le> l \<and> l < j \<longrightarrow> got l = TxNotFound) \<and> tx = landed_tx label hash e)"
  (is "_ \<longleftrightarrow> ?R k i")
proof (induction k i label hash got rule: poll_landed.induct)
  case (2 k i label hash got)
  let ?R = "\<lambda>k i. \<exists>j e. i \<le> j \<and> j < i + k \<and> got j = TxSuccess e \<and> (\<forall>l. i \<le> l \<and> l < j \<longrightarrow> got l = TxNotFound) \<and> tx = landed_tx label hash e"
  have here: "?R (Suc k) i \<Longrightarrow> got i \<noteq> TxNotFound \<Longrightarrow> \<exists>e. got i = TxSuccess e \<and> tx = landed_tx label hash e"
    by (metis le_neq_implies_less order_refl)
  show ?case
  proof (cases "got i")
    case (TxSuccess e)
    have "?R (Suc k) i \<longleftrightarrow> tx = landed_tx label hash e"
    proof
      show "?R (Suc k) i \<Longrightarrow> tx = landed_tx label hash e" using here TxSuccess by auto
      show "tx = landed_tx label hash e \<Longrightarrow> ?R (Suc k) i" using TxSuccess by (intro exI[of _ i] exI[of _ e]) auto
    qed
    then show ?thesis using TxSuccess by auto
  next
    case TxNotFound
    have "?R k (Suc i) \<longleftrightarrow> ?R (Suc k) i"
    proof
      assume "?R k (Suc i)"
      then obtain j e where j: "Suc i \<le> j" "j < Suc i + k" "got j = TxSuccess e" "\<forall>l. Suc i \<le> l \<and> l < j \<longrightarrow> got l = TxNotFound"
        "tx = landed_tx label hash e" by blast
      have "got l = TxNotFound" if "i \<le> l" "l < j" for l using that j(4) TxNotFound by (cases "l = i") auto
      then show "?R (Suc k) i" using j by (intro exI[of _ j] exI[of _ e]) auto
    next
      assume "?R (Suc k) i"
      then obtain j e where j: "i \<le> j" "j < i + Suc k" "got j = TxSuccess e" "\<forall>l. i \<le> l \<and> l < j \<longrightarrow> got l = TxNotFound"
        "tx = landed_tx label hash e" by blast
      moreover have "j \<noteq> i" using j(3) TxNotFound by auto
      ultimately show "?R k (Suc i)" by (intro exI[of _ j] exI[of _ e]) auto
    qed
    then show ?thesis using 2 TxNotFound by simp
  qed (use here in auto)
qed auto

text \<open>The contract's reading of the call: the twelve positions, with the proof's fields by name.\<close>

record gate_call =
  gc_subject :: string
  gc_issuerId :: bytes
  gc_numbers :: "jsnum list"
  gc_points :: "bytes list"
  gc_scalars :: "bytes list"
  gc_disclosed :: "(jsnum \<times> bytes) list"
  gc_header :: bytes
  gc_nonce :: bytes

fun sc_bytes :: "sc_val \<Rightarrow> bytes option" where
  "sc_bytes (ScBytes b) = Some b" | "sc_bytes _ = None"

fun sc_number :: "sc_val \<Rightarrow> jsnum option" where
  "sc_number (ScU32 n) = Some n" | "sc_number _ = None"

fun all_some :: "'a option list \<Rightarrow> 'a list option" where
  "all_some [] = Some []"
| "all_some (x # xs) = Option.bind x (\<lambda>y. map_option ((#) y) (all_some xs))"

definition proof_field :: "(sc_val \<times> sc_val) list \<Rightarrow> string \<Rightarrow> sc_val option" where
  "proof_field m k = map_of m (ScSymbol k)"

fun sc_address :: "sc_val \<Rightarrow> string option" where
  "sc_address (ScAddress a) = Some a" | "sc_address _ = None"

fun sc_vec :: "sc_val \<Rightarrow> sc_val list option" where
  "sc_vec (ScVec vs) = Some vs" | "sc_vec _ = None"

fun sc_map :: "sc_val \<Rightarrow> (sc_val \<times> sc_val) list option" where
  "sc_map (ScMap m) = Some m" | "sc_map _ = None"

definition read_bytes_field :: "(sc_val \<times> sc_val) list \<Rightarrow> string \<Rightarrow> bytes option" where
  "read_bytes_field m k = Option.bind (proof_field m k) sc_bytes"

definition read_list :: "(sc_val \<Rightarrow> 'a option) \<Rightarrow> sc_val \<Rightarrow> 'a list option" where
  "read_list f v = Option.bind (sc_vec v) (\<lambda>vs. all_some (map f vs))"

definition read_proof :: "sc_val \<Rightarrow> (bytes list \<times> bytes list) option" where
  "read_proof v = Option.bind (sc_map v) (\<lambda>m.
     Option.bind (all_some (map (read_bytes_field m) [''a_bar'', ''b_bar'', ''d''])) (\<lambda>points.
     Option.bind (all_some (map (read_bytes_field m) [''e_hat'', ''r1_hat'', ''r3_hat'', ''challenge''])) (\<lambda>heads.
     Option.bind (Option.bind (proof_field m ''m_hat'') (read_list sc_bytes)) (\<lambda>mhat.
     if length m = 8 then Some (points, heads @ mhat) else None))))"

definition read_attest_call :: "sc_val list \<Rightarrow> gate_call option" where
  "read_attest_call args = (if length args \<noteq> 12 then None
     else Option.bind (sc_address (args ! 0)) (\<lambda>subject.
          Option.bind (all_some (map sc_bytes [args ! 1, args ! 9, args ! 10])) (\<lambda>bs.
          Option.bind (all_some (map sc_number [args ! 2, args ! 3, args ! 4, args ! 5, args ! 11])) (\<lambda>numbers.
          Option.bind (read_proof (args ! 6)) (\<lambda>(points, scalars).
          Option.bind (read_list sc_number (args ! 7)) (\<lambda>idxs.
          Option.bind (read_list sc_bytes (args ! 8)) (\<lambda>msgs.
          Some \<lparr> gc_subject = subject, gc_issuerId = bs ! 0, gc_numbers = numbers, gc_points = points, gc_scalars = scalars,
                 gc_disclosed = zip idxs msgs, gc_header = bs ! 1, gc_nonce = bs ! 2 \<rparr>)))))))"

lemma all_some_map [simp]: "all_some (map (\<lambda>x. Some (f x)) xs) = Some (map f xs)"
  by (induction xs) auto

lemma all_some_bytes [simp]: "all_some (map (sc_bytes \<circ> ScBytes) bs) = Some bs"
  by (induction bs) auto

lemma all_some_numbers [simp]: "all_some (map (sc_number \<circ> ScU32) ns) = Some ns"
  by (induction ns) auto

lemma all_some_messages [simp]: "all_some (map (sc_bytes \<circ> (\<lambda>m. ScBytes (g m))) ms) = Some (map g ms)"
  by (induction ms) auto

definition input_ok :: "AttestBbsArgsInput \<Rightarrow> bool" where
  "input_ok i = (hex32 (ai_issuerId i) \<and> hex32 (ai_nonceHex i) \<and> u32_number 0 (ai_claimsBitmap i) \<and> u32_number 0 (ai_revocationIndex i)
     \<and> u32_number 1 (ai_expiresAt i) \<and> u32_number 1 (ai_ledgerExpiry i))"

text \<open>The list of arguments, as it is built.\<close>

definition call_args :: "noble \<Rightarrow> AttestBbsArgsInput \<Rightarrow> bytes \<Rightarrow> soroban_proof \<Rightarrow> bytes \<Rightarrow> sc_val list" where
  "call_args N input iss p nb = [ScAddress (ai_subject input), ScBytes iss, ScU32 (ai_claimsBitmap input),
       ScU32 (ai_expiresAt input), ScU32 (ai_revocationEpoch input), ScU32 (ai_revocationIndex input),
       ScMap (map (\<lambda>f. (ScSymbol (fst f), snd f)) [(''a_bar'', ScBytes (p_abar p)), (''b_bar'', ScBytes (p_bbar p)),
         (''challenge'', ScBytes (p_challenge p)), (''d'', ScBytes (p_d p)), (''e_hat'', ScBytes (p_eHat p)),
         (''m_hat'', ScVec (map ScBytes (p_mHat p))), (''r1_hat'', ScBytes (p_r1Hat p)), (''r3_hat'', ScBytes (p_r3Hat p))]),
       ScVec (map ScU32 (ai_disclosedIndexes input)), ScVec (map (\<lambda>m. ScBytes (utf8ToBytes N m)) (ai_disclosedMessages input)),
       ScBytes (utf8ToBytes N CREDENTIAL_HEADER), ScBytes nb, ScU32 (ai_ledgerExpiry input)]"

lemma attestBbsArgs_form:
  assumes "attestBbsArgs N C address_ok input = Inr args"
  obtains p iss nb where "input_ok input" "address_ok (ai_subject input)" "splitProof C (ai_proof input) = Inr p"
    "hexToBytes N (ai_issuerId input) = Some iss" "hexToBytes N (ai_nonceHex input) = Some nb" "args = call_args N input iss p nb"
  using assms
  by (auto simp: attestBbsArgs_def input_ok_def addrScVal_def hex_bytes_def bbsProofScVal_def sorted_fields res_simps call_args_def
      split: if_splits option.splits)

lemma hex32_decodes: "noble_ok N \<Longrightarrow> hex32 s \<Longrightarrow> \<exists>b. hexToBytes N s = Some b \<and> bytesToHex N b = s"
  unfolding noble_ok_def hex32_def by (metis even_numeral)

lemma attestBbsArgs_accepts:
  assumes "noble_ok N" "input_ok input" "address_ok (ai_subject input)" "splitProof C (ai_proof input) = Inr p"
  obtains iss nb where "attestBbsArgs N C address_ok input = Inr (call_args N input iss p nb)"
proof -
  obtain iss nb where hx: "hexToBytes N (ai_issuerId input) = Some iss" "hexToBytes N (ai_nonceHex input) = Some nb"
    using hex32_decodes[OF assms(1)] assms(2) unfolding input_ok_def by metis
  then show thesis
    using that[of iss nb] assms(2-4)
    by (simp add: attestBbsArgs_def input_ok_def addrScVal_def hex_bytes_def bbsProofScVal_def sorted_fields call_args_def)
qed

lemma read_back:
  "read_attest_call [ScAddress subject, ScBytes iss, ScU32 n1, ScU32 n2, ScU32 n3, ScU32 n4,
       ScMap (map (\<lambda>f. (ScSymbol (fst f), snd f)) [(''a_bar'', ScBytes (p_abar p)), (''b_bar'', ScBytes (p_bbar p)),
         (''challenge'', ScBytes (p_challenge p)), (''d'', ScBytes (p_d p)), (''e_hat'', ScBytes (p_eHat p)),
         (''m_hat'', ScVec (map ScBytes (p_mHat p))), (''r1_hat'', ScBytes (p_r1Hat p)), (''r3_hat'', ScBytes (p_r3Hat p))]),
       ScVec (map ScU32 is), ScVec (map (\<lambda>m. ScBytes (g m)) ms), ScBytes h, ScBytes nb, ScU32 n5]
   = Some \<lparr> gc_subject = subject, gc_issuerId = iss, gc_numbers = [n1, n2, n3, n4, n5], gc_points = [p_abar p, p_bbar p, p_d p],
       gc_scalars = [p_eHat p, p_r1Hat p, p_r3Hat p, p_challenge p] @ p_mHat p, gc_disclosed = zip is (map g ms),
       gc_header = h, gc_nonce = nb \<rparr>"
  by (simp add: read_attest_call_def read_proof_def read_list_def read_bytes_field_def proof_field_def eval_nat_numeral)

definition call_order :: "sc_val list \<Rightarrow> string list" where
  "call_order args = (case sc_map (args ! 6) of None \<Rightarrow> [] | Some m \<Rightarrow> map (\<lambda>e. case fst e of ScSymbol k \<Rightarrow> k | _ \<Rightarrow> []) m)"

section \<open>Properties\<close>

text \<open>
  C19. The bitmap requested on chain is exactly the issued bitmap cut to what is disclosed: from a
  presentation of an issued credential, \<open>deriveGrantedClaims\<close> has a bit exactly where the bitmap of
  the issued booleans has it and the index of that claim is among the disclosed ones, so no proof
  requests a claim that is not disclosed or not true.
\<close>

theorem grants_are_disclosed_claims:
  assumes "noble_ok N" "bbs_complete B" "issue N B (issued_claims iss i a e sb cs) sk = Inr c"
    and "assertValidBinding b = Inr ()" "normalizeIndexes revealed = Inr ks"
  shows "\<exists>p. derive N B c revealed b = Inr p \<and>
    (\<forall>n. bit (deriveGrantedClaims (pr_disclosedIndexes p) (pr_disclosedMessages p)) n \<longleftrightarrow>
       bit (claimBitmap cs) n \<and> (\<exists>name. CLAIM_BIT_BY_NAME name = Some (push_bit n 1) \<and> CLAIM_INDEX name \<in> set ks))"
proof -
  obtain p where p: "derive N B c revealed b = Inr p" "pr_disclosedIndexes p = map (JInt \<circ> int) ks"
    "pr_disclosedMessages p = map ((!) (c_messages c)) ks" using derive_issued[OF assms] by blast
  have ms: "encodeClaims (issued_claims iss i a e sb cs) = Inr (c_messages c)" using assms(3) unfolding issue_Inr by auto
  have names: "bit (claimBitmap cs) n \<Longrightarrow> (n = 0 \<and> 6 \<in> set ks \<or> n = 1 \<and> 7 \<in> set ks \<or> n = 2 \<and> 8 \<in> set ks \<or> n = 3 \<and> 10 \<in> set ks)
     \<longleftrightarrow> (\<exists>name. CLAIM_BIT_BY_NAME name = Some (push_bit n 1) \<and> CLAIM_INDEX name \<in> set ks)" for n
  proof -
    assume "bit (claimBitmap cs) n"
    then have "n \<in> {0, 1, 2, 3}" unfolding claimBitmap_bits by auto
    then show ?thesis by (auto simp: ex_claim_name CLAIM_OVER_18_def CLAIM_OVER_21_def CLAIM_NOT_SANCTIONED_def CLAIM_JURISDICTION_OK_def)
  qed
  show ?thesis using p(1) grants_bits[OF ms, of ks] names unfolding p(2,3)[symmetric] by blast
qed

theorem grants_are_disclosed_claims_witness:
  "\<exists>c p. derive noble_ref toy_bbs c [JInt 8, JInt 6] example_binding = Inr p
     \<and> (\<forall>n. bit (deriveGrantedClaims (pr_disclosedIndexes p) (pr_disclosedMessages p)) n \<longleftrightarrow> n = 0 \<or> n = 2)"
proof -
  obtain sb where sb: "hex32 sb" using toy_validates by blast
  have z: "(0 :: nat) \<le> MAX_REVOCATION_INDEX" by simp
  obtain ic where ic: "issue_with_index noble_ref toy_bbs toy_request [] sb 0 = Inr ic" using toy_issues[OF sb z] by blast
  then have c: "issue noble_ref toy_bbs (issued_claims (issuerIdFromPublicKey noble_ref (rq_issuerPublicKey toy_request)) 0
      (rq_issuedAt toy_request) (rq_expiresAt toy_request) sb (rq_claims toy_request)) (rq_issuerSecretKey toy_request) = Inr (ic_credential ic)"
    unfolding issue_with_index_Inr Let_def by blast
  have names: "bit (claimBitmap (rq_claims toy_request)) n \<and> (\<exists>name. CLAIM_BIT_BY_NAME name = Some (push_bit n 1) \<and> CLAIM_INDEX name \<in> set [6, 8])
     \<longleftrightarrow> n = 0 \<or> n = 2" for n
    unfolding claimBitmap_bits toy_request_def by (auto simp: ex_claim_name CLAIM_OVER_18_def CLAIM_NOT_SANCTIONED_def)
  show ?thesis
    using grants_are_disclosed_claims[OF noble_ref_ok toy_bbs_complete c example_binding_ok toy_normalize] unfolding names by blast
qed

text \<open>
  The twelve arguments say exactly what was put in: for a usable input whose proof splits, the
  call is built and reading it back gives the subject, the bytes of the two hex strings, the five
  numbers in their positions, the proof's points and scalars by field name, the disclosed pairs and
  the credential header; the proof's map has its eight names in ascending order, as the host
  demands; an input with a bad hex string or a number outside its range is refused.
\<close>

theorem attest_call_read_back:
  assumes "noble_ok N"
  shows "case attestBbsArgs N C address_ok input of
     Inr args \<Rightarrow> input_ok input \<and> address_ok (ai_subject input) \<and>
       (\<exists>p iss nb. splitProof C (ai_proof input) = Inr p
          \<and> bytesToHex N iss = ai_issuerId input \<and> bytesToHex N nb = ai_nonceHex input
          \<and> call_order args = BBS_PROOF_FIELD_ORDER \<and> sorted_wrt (<) (call_order args)
          \<and> read_attest_call args = Some \<lparr> gc_subject = ai_subject input, gc_issuerId = iss,
              gc_numbers = [ai_claimsBitmap input, ai_expiresAt input, ai_revocationEpoch input, ai_revocationIndex input, ai_ledgerExpiry input],
              gc_points = [p_abar p, p_bbar p, p_d p], gc_scalars = [p_eHat p, p_r1Hat p, p_r3Hat p, p_challenge p] @ p_mHat p,
              gc_disclosed = zip (ai_disclosedIndexes input) (map (utf8ToBytes N) (ai_disclosedMessages input)),
              gc_header = utf8ToBytes N CREDENTIAL_HEADER, gc_nonce = nb \<rparr>)
   | Inl e \<Rightarrow> \<not> (input_ok input \<and> address_ok (ai_subject input) \<and> is_ok (splitProof C (ai_proof input)))"
proof (cases "attestBbsArgs N C address_ok input")
  case (Inl e)
  have False if i: "input_ok input" "address_ok (ai_subject input)" "is_ok (splitProof C (ai_proof input))"
  proof -
    obtain p where "splitProof C (ai_proof input) = Inr p" using i(3) by (auto simp: is_ok_def split: sum.splits)
    then show False using attestBbsArgs_accepts[of N input address_ok C p] assms that Inl by auto
  qed
  then show ?thesis using Inl by auto
next
  case (Inr args)
  obtain p iss nb where f: "input_ok input" "address_ok (ai_subject input)" "splitProof C (ai_proof input) = Inr p"
    "hexToBytes N (ai_issuerId input) = Some iss" "hexToBytes N (ai_nonceHex input) = Some nb"
    and args: "args = call_args N input iss p nb"
    by (rule attestBbsArgs_form[OF Inr])
  have hx: "bytesToHex N iss = ai_issuerId input \<and> bytesToHex N nb = ai_nonceHex input"
    using f(1,4,5) hex32_decodes[OF assms] unfolding input_ok_def by (metis option.inject)
  have order: "call_order args = BBS_PROOF_FIELD_ORDER"
    unfolding args call_order_def by (simp add: call_args_def BBS_PROOF_FIELD_ORDER_def eval_nat_numeral)
  have "sorted_wrt (<) BBS_PROOF_FIELD_ORDER"
    by (simp add: BBS_PROOF_FIELD_ORDER_def less_char_def)
  then show ?thesis using f hx order read_back[of "ai_subject input" iss] unfolding Inr sum.case args call_args_def by (intro conjI exI[of _ p] exI[of _ iss] exI[of _ nb]) auto
qed

theorem attest_call_read_back_witness:
  "let input = \<lparr> ai_subject = ''C1'', ai_issuerId = replicate 64 CHR ''a'', ai_claimsBitmap = JInt 5, ai_expiresAt = JInt 900,
        ai_revocationEpoch = JInt 0, ai_revocationIndex = JInt 7, ai_proof = replicate 272 0, ai_disclosedIndexes = [JInt 6],
        ai_disclosedMessages = [''over18=true''], ai_nonceHex = replicate 64 CHR ''b'', ai_ledgerExpiry = JInt 40 \<rparr> in
   \<exists>args. attestBbsArgs noble_ref one_point_curve (\<lambda>_. True) input = Inr args \<and> call_order args = BBS_PROOF_FIELD_ORDER"
proof -
  let ?i = "\<lparr> ai_subject = ''C1'', ai_issuerId = replicate 64 CHR ''a'', ai_claimsBitmap = JInt 5, ai_expiresAt = JInt 900,
        ai_revocationEpoch = JInt 0, ai_revocationIndex = JInt 7, ai_proof = replicate 272 0, ai_disclosedIndexes = [JInt 6],
        ai_disclosedMessages = [''over18=true''], ai_nonceHex = replicate 64 CHR ''b'', ai_ledgerExpiry = JInt 40 \<rparr>"
  have i: "input_ok ?i" by (simp add: input_ok_def u32_number_def hex32_def list_all_iff is_lower_hex_def)
  have s: "is_ok (splitProof one_point_curve (ai_proof ?i))" using example_split by (auto simp: is_ok_def)
  note r = attest_call_read_back[where N = noble_ref and C = one_point_curve and address_ok = "\<lambda>_. True" and input = ?i, OF noble_ref_ok]
  show ?thesis
  proof (cases "attestBbsArgs noble_ref one_point_curve (\<lambda>_. True) ?i")
    case (Inl e)
    then show ?thesis using r i s by simp
  next
    case (Inr args)
    then show ?thesis using r unfolding Let_def by auto
  qed
qed

end
