(* ===== verification/Router.thy ===== *)
theory Router
imports Json
begin

text \<open>
  The path router of \<open>apps/gateway-http/src/router.ts\<close>: templates compiled to matchers, constraints on
  parameters, the linear scan with its three outcomes, and the check of a path's percent-encoding.
  The matchers follow the regular expressions they stand for, with their preference for the longest
  parameter and their backtracking. A pattern supplied for a parameter is its source text and the
  lengths of the prefixes its engine accepts, in the order it tries them.
\<close>

section \<open>Patterns of parameters\<close>

record param_pattern =
  pt_source :: string
  pt_compiles :: bool
  pt_prefixes :: "string \<Rightarrow> nat list"

datatype router_error = PatternDoesNotCompile string | PatternMatchesEmpty string | PatternMatchesSlash string
  | NamedGroup string | BareGroup string | EmbeddedAnchor string | UnterminatedBrace | InvalidParamName string | UnknownParam string

text \<open>\<open>new RegExp(`^(?:${src})$`).test(s)\<close>.\<close>

definition anchored_test :: "param_pattern \<Rightarrow> string \<Rightarrow> bool" where
  "anchored_test p s = (length s \<in> set (pt_prefixes p s))"

text \<open>The scan for groups; the first argument counts the backslashes right before the text.\<close>

fun group_scan :: "nat \<Rightarrow> string \<Rightarrow> string \<Rightarrow> router_error + unit" where
  "group_scan escapes name [] = Inr ()"
| "group_scan escapes name (c # s) =
     (if c \<noteq> CHR ''('' then group_scan (if c = CHR 0x5C then Suc escapes else 0) name s
      else if odd escapes then group_scan 0 name s
      else if take 1 s = ''?'' \<and> take 1 (drop 1 s) \<notin> {'':'', ''='', ''!''} then Inl (NamedGroup name)
      else if take 1 s \<noteq> ''?'' then Inl (BareGroup name)
      else group_scan 0 name s)"

definition assertUsableParamPattern :: "param_pattern \<Rightarrow> string \<Rightarrow> router_error + unit" where
  "assertUsableParamPattern p name =
     (if \<not> pt_compiles p then Inl (PatternDoesNotCompile name)
      else if anchored_test p [] then Inl (PatternMatchesEmpty name)
      else if anchored_test p ''/'' then Inl (PatternMatchesSlash name)
      else ebind (group_scan 0 name (pt_source p)) (\<lambda>_.
        if CHR ''^'' \<in> set (pt_source p) \<or> CHR ''$'' \<in> set (pt_source p) then Inl (EmbeddedAnchor name) else Inr ()))"

section \<open>Templates\<close>

datatype part = Lit string | Param string "param_pattern option"

definition param_char :: "char \<Rightarrow> bool" where
  "param_char c = (let k = (of_char c :: nat) in (48 \<le> k \<and> k \<le> 57) \<or> (65 \<le> k \<and> k \<le> 90) \<or> (97 \<le> k \<and> k \<le> 122) \<or> k = 95)"

type_synonym param_patterns = "(string \<times> param_pattern) list"

text \<open>
  One pass over a template; the last argument is the name being read inside braces. Checking for the
  closing brace before anything else, as the code does, gives the same result: a name is looked at
  only once its brace is closed.
\<close>

fun compile_parts :: "param_patterns \<Rightarrow> string \<Rightarrow> string \<Rightarrow> string option \<Rightarrow> router_error + part list" where
  "compile_parts pats [] literal None = Inr [Lit literal]"
| "compile_parts pats [] literal (Some name) = Inl UnterminatedBrace"
| "compile_parts pats (c # s) literal None =
     (if c = CHR ''{'' then compile_parts pats s literal (Some []) else compile_parts pats s (literal @ [c]) None)"
| "compile_parts pats (c # s) literal (Some name) =
     (if c \<noteq> CHR ''}'' then compile_parts pats s literal (Some (name @ [c]))
      else if name = [] \<or> \<not> list_all param_char name then Inl (InvalidParamName name)
      else ebind (case map_of pats name of None \<Rightarrow> Inr () | Some p \<Rightarrow> assertUsableParamPattern p name) (\<lambda>_.
           ebind (compile_parts pats s [] None) (\<lambda>rest. Inr (Lit literal # Param name (map_of pats name) # rest))))"

fun param_names :: "part list \<Rightarrow> string list" where
  "param_names [] = []"
| "param_names (Lit l # ps) = param_names ps"
| "param_names (Param n p # ps) = n # param_names ps"

definition compile :: "string \<Rightarrow> param_patterns \<Rightarrow> router_error + part list" where
  "compile template pats = ebind (compile_parts pats template [] None) (\<lambda>parts.
     case find (\<lambda>n. n \<notin> set (param_names parts)) (map fst pats) of Some n \<Rightarrow> Inl (UnknownParam n) | None \<Rightarrow> Inr parts)"

section \<open>Matching\<close>

fun first_some :: "('a \<Rightarrow> 'b option) \<Rightarrow> 'a list \<Rightarrow> 'b option" where
  "first_some f [] = None"
| "first_some f (x # xs) = (case f x of None \<Rightarrow> first_some f xs | Some y \<Rightarrow> Some y)"

definition segment_run :: "string \<Rightarrow> string" where
  "segment_run s = takeWhile (\<lambda>c. c \<noteq> CHR ''/'') s"

text \<open>The lengths a parameter may take, longest first for \<open>([^/]+)\<close>.\<close>

fun param_lengths :: "param_pattern option \<Rightarrow> string \<Rightarrow> nat list" where
  "param_lengths None s = rev [1..<Suc (length (segment_run s))]"
| "param_lengths (Some p) s = filter (\<lambda>n. n \<le> length s) (pt_prefixes p s)"

text \<open>The compiled expression, with the optional slash at the end: the captures of the first match.\<close>

fun match_parts :: "part list \<Rightarrow> string \<Rightarrow> string list option" where
  "match_parts [] s = (if s = [] \<or> s = ''/'' then Some [] else None)"
| "match_parts (Lit l # ps) s = (if take (length l) s = l then match_parts ps (drop (length l) s) else None)"
| "match_parts (Param name p # ps) s =
     first_some (\<lambda>n. map_option ((#) (take n s)) (match_parts ps (drop n s))) (param_lengths p s)"

datatype route_auth = AuthNone | AuthSession

record 'h route =
  rt_method :: string
  rt_template :: string
  rt_jsonBody :: bool
  rt_auth :: "route_auth option"
  rt_patterns :: param_patterns
  rt_handler :: 'h

record 'h compiled_route =
  cr_method :: string
  cr_jsonBody :: bool
  cr_auth :: route_auth
  cr_handler :: 'h
  cr_parts :: "part list"

definition compile_route :: "'h route \<Rightarrow> router_error + 'h compiled_route" where
  "compile_route r = ebind (compile (rt_template r) (rt_patterns r)) (\<lambda>parts.
     Inr \<lparr> cr_method = rt_method r, cr_jsonBody = rt_jsonBody r, cr_auth = (case rt_auth r of None \<Rightarrow> AuthNone | Some a \<Rightarrow> a),
           cr_handler = rt_handler r, cr_parts = parts \<rparr>)"

definition new_router :: "'h route list \<Rightarrow> router_error + 'h compiled_route list" where
  "new_router routes = mapE compile_route routes"

type_synonym route_params = "string \<rightharpoonup> string"

definition params_of :: "string list \<Rightarrow> string list \<Rightarrow> route_params" where
  "params_of names values = foldl (\<lambda>m e. m(fst e \<mapsto> snd e)) Map.empty (zip names values)"

datatype 'h match_result = MatchOk 'h bool route_auth route_params | NoPath | MethodNotAllowed "string list"

definition anyMethodForPath :: "'h compiled_route list \<Rightarrow> string \<Rightarrow> string list" where
  "anyMethodForPath routes path = map cr_method (filter (\<lambda>r. match_parts (cr_parts r) path \<noteq> None) routes)"

fun scan_routes :: "'h compiled_route list \<Rightarrow> 'h compiled_route list \<Rightarrow> string \<Rightarrow> string \<Rightarrow> bool \<Rightarrow> 'h match_result" where
  "scan_routes all_routes [] verb path pathMatched =
     (if pathMatched then MethodNotAllowed (anyMethodForPath all_routes path) else NoPath)"
| "scan_routes all_routes (r # rs) verb path pathMatched =
     (case match_parts (cr_parts r) path of
        None \<Rightarrow> scan_routes all_routes rs verb path pathMatched
      | Some values \<Rightarrow>
          if cr_method r \<noteq> verb then scan_routes all_routes rs verb path True
          else MatchOk (cr_handler r) (cr_jsonBody r) (cr_auth r) (params_of (param_names (cr_parts r)) values))"

definition match_route :: "'h compiled_route list \<Rightarrow> string \<Rightarrow> string \<Rightarrow> 'h match_result" where
  "match_route routes verb path = scan_routes routes routes verb path False"

section \<open>Percent-encoding\<close>

definition hex_value :: "char \<Rightarrow> nat option" where
  "hex_value c = (let k = (of_char c :: nat) in if 48 \<le> k \<and> k \<le> 57 then Some (k - 48) else if 65 \<le> k \<and> k \<le> 70 then Some (k - 55)
     else if 97 \<le> k \<and> k \<le> 102 then Some (k - 87) else None)"

definition percent_octet :: "string \<Rightarrow> (nat \<times> string) option" where
  "percent_octet s = (case s of
     p # h # l # rest \<Rightarrow> if p = CHR ''%'' then Option.bind (hex_value h) (\<lambda>a. map_option (\<lambda>b. (16 * a + b, rest)) (hex_value l)) else None
   | _ \<Rightarrow> None)"

text \<open>The continuation bytes of a UTF-8 sequence, each written as an escape.\<close>

fun continuation_octets :: "nat \<Rightarrow> nat \<Rightarrow> string \<Rightarrow> (nat \<times> string) option" where
  "continuation_octets 0 acc s = Some (acc, s)"
| "continuation_octets (Suc k) acc s = (case percent_octet s of None \<Rightarrow> None
     | Some (b, rest) \<Rightarrow> if 128 \<le> b \<and> b < 192 then continuation_octets k (64 * acc + (b - 128)) rest else None)"

definition utf8_sequence :: "nat \<Rightarrow> string \<Rightarrow> string option" where
  "utf8_sequence b rest =
     (if b < 128 then Some rest
      else if 192 \<le> b \<and> b < 224 then Option.bind (continuation_octets 1 (b - 192) rest) (\<lambda>(v, r). if 128 \<le> v then Some r else None)
      else if 224 \<le> b \<and> b < 240 then Option.bind (continuation_octets 2 (b - 224) rest) (\<lambda>(v, r).
        if 2048 \<le> v \<and> \<not> (55296 \<le> v \<and> v < 57344) then Some r else None)
      else if 240 \<le> b \<and> b < 248 then Option.bind (continuation_octets 3 (b - 240) rest) (\<lambda>(v, r).
        if 65536 \<le> v \<and> v < 1114112 then Some r else None)
      else None)"

lemma percent_octet_shorter: "percent_octet s = Some (b, r) \<Longrightarrow> length r < length s"
  by (auto simp: percent_octet_def bind_eq_Some_conv split: list.splits if_splits)

lemma continuation_shorter: "continuation_octets k acc s = Some (v, r) \<Longrightarrow> length r \<le> length s"
  by (induction k acc s rule: continuation_octets.induct)
    (fastforce split: option.splits if_splits prod.splits dest: percent_octet_shorter)+

lemma utf8_sequence_shorter: "utf8_sequence b s = Some r \<Longrightarrow> length r \<le> length s"
  by (auto simp: utf8_sequence_def bind_eq_Some_conv simp del: continuation_octets.simps split: if_splits prod.splits
      dest: continuation_shorter)

text \<open>\<open>decodeURIComponent(path)\<close> does not throw.\<close>

function assertValidPathEncoding :: "string \<Rightarrow> bool" where
  "assertValidPathEncoding path = (case path of [] \<Rightarrow> True
   | c # s \<Rightarrow> if c \<noteq> CHR ''%'' then assertValidPathEncoding s
       else (case percent_octet path of None \<Rightarrow> False
         | Some (b, rest) \<Rightarrow> (case utf8_sequence b rest of None \<Rightarrow> False | Some r \<Rightarrow> assertValidPathEncoding r)))"
  by pat_completeness auto
termination
  by (relation "measure length") (auto dest!: percent_octet_shorter utf8_sequence_shorter)

declare assertValidPathEncoding.simps [simp del]

section \<open>Facts\<close>

lemma first_some_None: "first_some f xs = None \<longleftrightarrow> (\<forall>x\<in>set xs. f x = None)"
  by (induction xs) (auto split: option.splits)

lemma first_some_Some: "first_some f xs = Some y \<Longrightarrow> \<exists>x\<in>set xs. f x = Some y"
  by (induction xs) (auto split: option.splits if_splits)

text \<open>A template without constraints, filled with values.\<close>

fun plain_parts :: "part list \<Rightarrow> bool" where
  "plain_parts [] = True"
| "plain_parts (Lit l # ps) = plain_parts ps"
| "plain_parts (Param n p # ps) = (p = None \<and> plain_parts ps)"

fun fill :: "part list \<Rightarrow> string list \<Rightarrow> string option" where
  "fill [] [] = Some []"
| "fill [] (v # vs) = None"
| "fill (Lit l # ps) vs = map_option ((@) l) (fill ps vs)"
| "fill (Param n p # ps) [] = None"
| "fill (Param n p # ps) (v # vs) = map_option ((@) v) (fill ps vs)"

definition segment_value :: "string \<Rightarrow> bool" where
  "segment_value v = (v \<noteq> [] \<and> CHR ''/'' \<notin> set v)"

lemma segment_run_spec: "n \<le> length (segment_run s) \<longleftrightarrow> n \<le> length s \<and> CHR ''/'' \<notin> set (take n s)"
proof (induction s arbitrary: n)
  case (Cons c s)
  then show ?case by (cases n) (auto simp: segment_run_def)
qed (simp add: segment_run_def)

lemma param_lengths_plain: "n \<in> set (param_lengths None s) \<longleftrightarrow> n \<le> length s \<and> segment_value (take n s)"
  using segment_run_spec[of n s] by (cases "n = 0"; cases s) (auto simp: segment_value_def segment_run_def simp del: upt_Suc)

declare param_lengths.simps(1) [simp del]

lemma match_parts_sound:
  "plain_parts ps \<Longrightarrow> match_parts ps s = Some vs
     \<Longrightarrow> \<exists>t. fill ps vs = Some t \<and> (s = t \<or> s = t @ ''/'') \<and> (\<forall>v\<in>set vs. segment_value v)"
proof (induction ps s arbitrary: vs rule: match_parts.induct)
  case (2 l ps s)
  then obtain t where t: "fill ps vs = Some t" "drop (length l) s = t \<or> drop (length l) s = t @ ''/''" "\<forall>v\<in>set vs. segment_value v"
    by (auto split: if_splits)
  have "s = l @ drop (length l) s" using 2(3) by (metis append_take_drop_id match_parts.simps(2) option.distinct(1))
  then have "s = l @ t \<or> s = (l @ t) @ ''/''" using t(2) by (metis append.assoc)
  then show ?case using t by auto
next
  case (3 name p ps s)
  then obtain n ws where n: "n \<in> set (param_lengths None s)" "match_parts ps (drop n s) = Some ws" "vs = take n s # ws" "p = None" "plain_parts ps"
    using first_some_Some[OF 3(3)[unfolded match_parts.simps]] by auto
  obtain t where t: "fill ps ws = Some t" "drop n s = t \<or> drop n s = t @ ''/''" "\<forall>v\<in>set ws. segment_value v"
    using 3(1)[OF n(5,2)] by blast
  have "s = take n s @ t \<or> s = (take n s @ t) @ ''/''" using t(2) by (metis append.assoc append_take_drop_id)
  then show ?case using t n(1,3) by (auto simp: param_lengths_plain)
qed (auto split: if_splits)

lemma match_parts_complete:
  "fill ps vs = Some t \<Longrightarrow> plain_parts ps \<Longrightarrow> \<forall>v\<in>set vs. segment_value v \<Longrightarrow> s = t \<or> s = t @ ''/'' \<Longrightarrow> match_parts ps s \<noteq> None"
proof (induction ps vs arbitrary: s t rule: fill.induct)
  case (3 l ps vs)
  then obtain u where u: "fill ps vs = Some u" "t = l @ u" by auto
  then have "match_parts ps (drop (length l) s) \<noteq> None" using 3 by (intro 3(1)[OF u(1)]) auto
  moreover have "take (length l) s = l" using 3(5) u(2) by auto
  ultimately show ?case by simp
next
  case (5 n p ps v vs)
  then obtain u where u: "fill ps vs = Some u" "t = v @ u" by auto
  have "match_parts ps (drop (length v) s) \<noteq> None" using 5 u(2) by (intro 5(1)[OF u(1)]) auto
  moreover have "take (length v) s = v" "length v \<le> length s" using 5(5) u(2) by auto
  then have "length v \<in> set (param_lengths None s)" using 5(4) by (simp add: param_lengths_plain)
  moreover have "p = None" using 5(3) by simp
  ultimately show ?case by (auto simp: first_some_None)
qed auto

text \<open>The parts print back to the template they were compiled from.\<close>

fun show_parts :: "part list \<Rightarrow> string" where
  "show_parts [] = []"
| "show_parts (Lit l # ps) = l @ show_parts ps"
| "show_parts (Param n p # ps) = ''{'' @ n @ ''}'' @ show_parts ps"

lemma compile_parts_show:
  "compile_parts pats s literal name = Inr ps \<Longrightarrow>
     show_parts ps = literal @ (case name of None \<Rightarrow> s | Some n \<Rightarrow> ''{'' @ n @ s)"
  by (induction pats s literal name arbitrary: ps rule: compile_parts.induct)
    (fastforce simp: res_simps split: if_splits)+

lemma compile_parts_plain: "compile_parts [] s literal name = Inr ps \<Longrightarrow> plain_parts ps"
  by (induction "[] :: param_patterns" s literal name arbitrary: ps rule: compile_parts.induct)
    (fastforce simp: res_simps split: if_splits)+

lemma compile_plain: "compile template [] = Inr ps \<Longrightarrow> plain_parts ps \<and> show_parts ps = template"
  using compile_parts_plain compile_parts_show by (fastforce simp: compile_def res_simps)

text \<open>What a template stands for: the paths it fills to, with or without a slash at the end.\<close>

definition template_fits :: "string \<Rightarrow> string list \<Rightarrow> string \<Rightarrow> bool" where
  "template_fits template vs path = (\<exists>ps t. compile template [] = Inr ps \<and> fill ps vs = Some t
     \<and> (\<forall>v\<in>set vs. segment_value v) \<and> (path = t \<or> path = t @ ''/''))"

definition route_fits :: "'h route \<Rightarrow> string \<Rightarrow> bool" where
  "route_fits r path = (\<exists>vs. template_fits (rt_template r) vs path)"

definition names_of :: "string \<Rightarrow> string list" where
  "names_of template = (case compile template [] of Inl e \<Rightarrow> [] | Inr ps \<Rightarrow> param_names ps)"

lemma compiled_fits:
  assumes "compile_route r = Inr c" "rt_patterns r = []"
  shows "match_parts (cr_parts c) path \<noteq> None \<longleftrightarrow> route_fits r path"
    and "match_parts (cr_parts c) path = Some vs \<Longrightarrow> template_fits (rt_template r) vs path \<and> param_names (cr_parts c) = names_of (rt_template r)"
proof -
  have c: "compile (rt_template r) [] = Inr (cr_parts c)" using assms by (auto simp: compile_route_def res_simps)
  note p = compile_plain[OF c]
  show 2: "match_parts (cr_parts c) path = Some vs \<Longrightarrow> template_fits (rt_template r) vs path \<and> param_names (cr_parts c) = names_of (rt_template r)" for vs
    using match_parts_sound[of "cr_parts c" path vs] p c unfolding template_fits_def names_of_def by auto
  show "match_parts (cr_parts c) path \<noteq> None \<longleftrightarrow> route_fits r path"
  proof
    show "match_parts (cr_parts c) path \<noteq> None \<Longrightarrow> route_fits r path" using 2 unfolding route_fits_def by blast
    show "route_fits r path \<Longrightarrow> match_parts (cr_parts c) path \<noteq> None"
      using match_parts_complete p c unfolding route_fits_def template_fits_def by fastforce
  qed
qed

lemma scan_routes_cases:
  "case scan_routes all_routes rs verb path m of
     MatchOk h j a ps \<Rightarrow> \<exists>i<length rs. \<exists>vs. match_parts (cr_parts (rs ! i)) path = Some vs \<and> cr_method (rs ! i) = verb
        \<and> h = cr_handler (rs ! i) \<and> j = cr_jsonBody (rs ! i) \<and> a = cr_auth (rs ! i) \<and> ps = params_of (param_names (cr_parts (rs ! i))) vs
        \<and> (\<forall>k<i. match_parts (cr_parts (rs ! k)) path = None \<or> cr_method (rs ! k) \<noteq> verb)
   | NoPath \<Rightarrow> \<not> m \<and> (\<forall>r\<in>set rs. match_parts (cr_parts r) path = None)
   | MethodNotAllowed allow \<Rightarrow> allow = anyMethodForPath all_routes path \<and> (m \<or> (\<exists>r\<in>set rs. match_parts (cr_parts r) path \<noteq> None))
        \<and> (\<forall>r\<in>set rs. match_parts (cr_parts r) path = None \<or> cr_method r \<noteq> verb)"
proof (induction all_routes rs verb path m rule: scan_routes.induct)
  case (2 all_routes r rs verb path m)
  show ?case
  proof (cases "match_parts (cr_parts r) path")
    case None
    from 2(1)[OF None] show ?thesis
      using None by (auto split: match_result.splits intro: exI[of _ "Suc _"] simp: All_less_Suc2) 
  next
    case (Some vs)
    show ?thesis
    proof (cases "cr_method r = verb")
      case True
      then show ?thesis using Some by (auto intro!: exI[of _ 0])
    next
      case False
      from 2(2)[OF Some False] show ?thesis
        using Some False by (auto split: match_result.splits intro: exI[of _ "Suc _"] simp: All_less_Suc2)
    qed
  qed
qed auto

lemma compile_route_fields:
  "compile_route r = Inr c \<Longrightarrow> cr_method c = rt_method r \<and> cr_handler c = rt_handler r \<and> cr_jsonBody c = rt_jsonBody r
     \<and> cr_auth c = (case rt_auth r of None \<Rightarrow> AuthNone | Some a \<Rightarrow> a)"
  by (auto simp: compile_route_def res_simps)

text \<open>
  The check of a pattern tries one slash only: a pattern such as \<open>a.b\<close> passes it and then takes a
  value that spans two segments.
\<close>

definition crossing_pattern :: param_pattern where
  "crossing_pattern = \<lparr> pt_source = ''a.b'', pt_compiles = True,
     pt_prefixes = (\<lambda>s. if 3 \<le> length s \<and> s ! 0 = CHR ''a'' \<and> s ! 2 = CHR ''b'' then [3] else []) \<rparr>"

lemma pattern_crosses_segments:
  "assertUsableParamPattern crossing_pattern ''p'' = Inr ()
   \<and> compile ''/x/{p}'' [(''p'', crossing_pattern)] = Inr [Lit ''/x/'', Param ''p'' (Some crossing_pattern), Lit []]
   \<and> match_parts [Lit ''/x/'', Param ''p'' (Some crossing_pattern), Lit []] ''/x/a/b'' = Some [''a/b'']"
  by (simp add: assertUsableParamPattern_def crossing_pattern_def anchored_test_def compile_def param_char_def)

section \<open>Properties\<close>

text \<open>
  Routing is decided by the table alone: for a table without constraints, a request is
  dispatched exactly to the first entry whose method is the request's and whose template the path
  fits, with each parameter a non-empty value of one segment; it is answered 405 with the methods
  of every entry the path fits, the request's own never among them, where the path fits only other
  methods; and 404 exactly where the path fits no entry.
\<close>

theorem route_first_match:
  assumes "new_router rs = Inr cs" and "\<forall>r\<in>set rs. rt_patterns r = []"
  shows "case match_route cs verb path of
     MatchOk h j a ps \<Rightarrow> \<exists>i<length rs. \<exists>vs. template_fits (rt_template (rs ! i)) vs path \<and> rt_method (rs ! i) = verb
        \<and> h = rt_handler (rs ! i) \<and> j = rt_jsonBody (rs ! i) \<and> a = (case rt_auth (rs ! i) of None \<Rightarrow> AuthNone | Some x \<Rightarrow> x)
        \<and> ps = params_of (names_of (rt_template (rs ! i))) vs
        \<and> (\<forall>k<i. \<not> (route_fits (rs ! k) path \<and> rt_method (rs ! k) = verb))
   | NoPath \<Rightarrow> \<forall>r\<in>set rs. \<not> route_fits r path
   | MethodNotAllowed allow \<Rightarrow> allow = map rt_method (filter (\<lambda>r. route_fits r path) rs) \<and> allow \<noteq> [] \<and> verb \<notin> set allow"
proof -
  have n: "length cs = length rs" "\<And>i. i < length rs \<Longrightarrow> compile_route (rs ! i) = Inr (cs ! i)"
    using assms(1) unfolding new_router_def mapE_Inr by blast+
  have pats: "i < length rs \<Longrightarrow> rt_patterns (rs ! i) = []" for i using assms(2) by simp
  note f = compiled_fits[OF n(2) pats] and g = compile_route_fields[OF n(2)]
  have allow: "anyMethodForPath cs path = map rt_method (filter (\<lambda>r. route_fits r path) rs)"
  proof -
    have "list_all2 (\<lambda>r c. compile_route r = Inr c \<and> rt_patterns r = []) rs cs"
      using n pats by (simp add: list_all2_conv_all_nth)
    then show ?thesis unfolding anyMethodForPath_def
    proof (induction rule: list_all2_induct)
      case (Cons r rs c cs)
      then show ?case using compiled_fits(1)[of r c path] compile_route_fields[of r c] by simp
    qed simp
  qed
  have members: "(\<forall>c\<in>set cs. P (match_parts (cr_parts c) path = None) (cr_method c))
     \<longleftrightarrow> (\<forall>r\<in>set rs. P (\<not> route_fits r path) (rt_method r))" for P
  proof -
    have "(match_parts (cr_parts (cs ! i)) path = None) = (\<not> route_fits (rs ! i) path)" "cr_method (cs ! i) = rt_method (rs ! i)" if "i < length rs" for i
      using f(1)[OF that that, of path] g[OF that] by auto
    then show ?thesis unfolding all_set_conv_all_nth n(1) by (intro all_cong) simp
  qed
  show ?thesis
  proof (cases "match_route cs verb path")
    case (MatchOk h j a ps)
    obtain i vs where i: "i < length rs" "match_parts (cr_parts (cs ! i)) path = Some vs" "cr_method (cs ! i) = verb"
      "h = cr_handler (cs ! i)" "j = cr_jsonBody (cs ! i)" "a = cr_auth (cs ! i)" "ps = params_of (param_names (cr_parts (cs ! i))) vs"
      "\<forall>k<i. match_parts (cr_parts (cs ! k)) path = None \<or> cr_method (cs ! k) \<noteq> verb"
      using MatchOk scan_routes_cases[where all_routes = cs and rs = cs and verb = verb and path = path and m = False] n(1)
      unfolding match_route_def by auto
    have "\<not> (route_fits (rs ! k) path \<and> rt_method (rs ! k) = verb)" if "k < i" for k
    proof -
      have "k < length rs" using that i(1) by simp
      then show ?thesis using i(8) that f(1)[of k path] g[of k] by auto
    qed
    then show ?thesis
      unfolding MatchOk match_result.case using i f(2)[OF i(1) i(1) i(2)] g[OF i(1)]
      by (intro exI[of _ i] exI[of _ vs] conjI) simp_all
  next
    case NoPath
    then show ?thesis
      using scan_routes_cases[where all_routes = cs and rs = cs and verb = verb and path = path and m = False] members[of "\<lambda>x m. x"] unfolding match_route_def by simp
  next
    case (MethodNotAllowed ms)
    have s: "ms = anyMethodForPath cs path" "\<exists>r\<in>set cs. match_parts (cr_parts r) path \<noteq> None"
      "\<forall>r\<in>set cs. match_parts (cr_parts r) path = None \<or> cr_method r \<noteq> verb"
      using MethodNotAllowed scan_routes_cases[where all_routes = cs and rs = cs and verb = verb and path = path and m = False] unfolding match_route_def by simp_all
    have "ms \<noteq> []" using s(1,2) by (auto simp: anyMethodForPath_def filter_empty_conv)
    moreover have "verb \<notin> set ms" using s(1,3) by (auto simp: anyMethodForPath_def)
    ultimately show ?thesis using MethodNotAllowed s(1) allow by simp
  qed
qed

definition toy_routes :: "nat route list" where
  "toy_routes = [\<lparr> rt_method = ''GET'', rt_template = ''/s/{v}'', rt_jsonBody = False, rt_auth = None, rt_patterns = [], rt_handler = 1 \<rparr>,
     \<lparr> rt_method = ''PUT'', rt_template = ''/s/x'', rt_jsonBody = True, rt_auth = Some AuthSession, rt_patterns = [], rt_handler = 2 \<rparr>]"

theorem route_first_match_witness:
  "\<exists>cs. new_router toy_routes = Inr cs \<and> match_route cs ''PUT'' ''/s/x'' = MatchOk 2 True AuthSession Map.empty
     \<and> match_route cs ''GET'' ''/s/x/'' = MatchOk 1 False AuthNone [''v'' \<mapsto> ''x'']
     \<and> (\<exists>allow. match_route cs ''PUT'' ''/s/y'' = MethodNotAllowed allow \<and> ''PUT'' \<notin> set allow)"
proof -
  obtain cs where cs: "new_router toy_routes = Inr cs"
    by (simp add: new_router_def toy_routes_def compile_route_def compile_def param_char_def)
  then have c: "cs = [\<lparr> cr_method = ''GET'', cr_jsonBody = False, cr_auth = AuthNone, cr_handler = 1, cr_parts = [Lit ''/s/'', Param ''v'' None, Lit []] \<rparr>,
     \<lparr> cr_method = ''PUT'', cr_jsonBody = True, cr_auth = AuthSession, cr_handler = 2, cr_parts = [Lit ''/s/x''] \<rparr>]"
    by (simp add: new_router_def toy_routes_def compile_route_def compile_def param_char_def)
  have y: "match_route cs ''PUT'' ''/s/y'' = MethodNotAllowed [''GET'']"
    unfolding c by (simp add: match_route_def anyMethodForPath_def param_lengths.simps(1) segment_run_def)
  have "\<forall>r\<in>set toy_routes. rt_patterns r = []" by (simp add: toy_routes_def)
  from route_first_match[OF cs this, of "''PUT''" "''/s/y''"] have "''PUT'' \<notin> set [''GET'']" unfolding y by simp
  moreover have "match_route cs ''PUT'' ''/s/x'' = MatchOk 2 True AuthSession Map.empty"
    "match_route cs ''GET'' ''/s/x/'' = MatchOk 1 False AuthNone [''v'' \<mapsto> ''x'']"
    unfolding c by (simp_all add: match_route_def param_lengths.simps(1) segment_run_def params_of_def)
  ultimately show ?thesis using cs y by blast
qed

end
