(* ===== verification/GatewayHttp.thy ===== *)
theory GatewayHttp
imports Router Jws Issuance
begin

text \<open>
  The parts of \<open>apps/gateway-http\<close> its request pipeline is made of: the errors and their HTTP form
  (\<open>errors.ts\<close>), the middleware (\<open>middleware.ts\<close>), the shapes of addresses (\<open>g-address.ts\<close>), bearer
  authentication (\<open>auth.ts\<close>), the session store and the session token (\<open>seams/\<close>). Randomness and the
  primitives of \<open>node:crypto\<close> are arguments.
\<close>

section \<open>Errors\<close>

record http_error =
  he_status :: nat
  he_code :: string
  he_retriable :: bool
  he_message :: string

text \<open>What a handler may throw, by the classes \<open>toHttpError\<close> tells apart.\<close>

datatype thrown_error = T_Http http_error | T_KycProvider | T_Issuance | T_GateContract | T_EpochRead | T_Unimplemented string
  | T_Unauthorized | T_Forbidden | T_SubjectMismatch | T_Named string | T_Other

definition http_error :: "nat \<Rightarrow> string \<Rightarrow> bool \<Rightarrow> string \<Rightarrow> http_error" where
  "http_error status code_name retriable message =
     \<lparr> he_status = status, he_code = code_name, he_retriable = retriable, he_message = message \<rparr>"

definition isSep12CustomerNotFound :: "thrown_error \<Rightarrow> bool" where
  "isSep12CustomerNotFound err = (err = T_Named ''Sep12CustomerNotFoundError'')"

definition isSessionNotApproved :: "thrown_error \<Rightarrow> bool" where
  "isSessionNotApproved err = (err = T_Named ''SessionNotApprovedError'')"

definition toHttpError :: "thrown_error \<Rightarrow> http_error" where
  "toHttpError err = (case err of
     T_Http e \<Rightarrow> e
   | T_KycProvider \<Rightarrow> http_error 400 ''kyc_provider_error'' False ''KYC provider refused the request''
   | T_Issuance \<Rightarrow> http_error 400 ''issuance_error'' False ''credential issuance refused''
   | T_GateContract \<Rightarrow> http_error 503 ''chain_unavailable'' True ''the on-chain gateway is refusing or unreachable''
   | T_EpochRead \<Rightarrow> http_error 503 ''chain_unavailable'' True ''the on-chain gateway is refusing or unreachable''
   | T_Unimplemented message \<Rightarrow> http_error 501 ''not_implemented'' False message
   | T_Unauthorized \<Rightarrow> http_error 401 ''unauthorized'' False ''authentication required''
   | T_Forbidden \<Rightarrow> http_error 403 ''forbidden'' False ''insufficient permissions''
   | T_SubjectMismatch \<Rightarrow> http_error 403 ''subject_mismatch'' False ''token subject does not match the addressed account''
   | _ \<Rightarrow> if isSep12CustomerNotFound err then http_error 404 ''not_found'' False ''no such customer''
          else if isSessionNotApproved err then http_error 409 ''session_not_approved'' False
            ''the session is not approved; a credential cannot be issued for it yet''
          else http_error 500 ''internal_error'' True ''internal error'')"

definition bad_request :: "string \<Rightarrow> string \<Rightarrow> thrown_error" where
  "bad_request code_name message = T_Http (http_error 400 code_name False message)"

definition UnimplementedError :: "string \<Rightarrow> thrown_error" where
  "UnimplementedError what = T_Unimplemented (what @ '' is NOT IMPLEMENTED. The gateway build run defines this surface as a fail-closed ''
     @ ''seam; a production deploy that reaches it gets 501, never a silent fallback to a weaker path.'')"

section \<open>Middleware\<close>

datatype header_value = HText string | HTexts "string list"

type_synonym headers = "string \<rightharpoonup> header_value"

definition VALID_REQUEST_ID :: "string \<Rightarrow> bool" where
  "VALID_REQUEST_ID s = (1 \<le> length s \<and> length s \<le> 128 \<and> list_all (\<lambda>c. param_char c \<or> c = CHR ''.'' \<or> c = CHR ''-'') s)"

text \<open>The inbound id where it is usable, else a fresh one.\<close>

definition resolveRequestId :: "headers \<Rightarrow> string \<Rightarrow> string" where
  "resolveRequestId hs fresh = (case hs ''x-request-id'' of
     Some (HText s) \<Rightarrow> if VALID_REQUEST_ID s then s else fresh
   | _ \<Rightarrow> fresh)"

definition BODY_CAP_BYTES :: nat where "BODY_CAP_BYTES = 1048576"

datatype body_event = Chunk bytes | StreamEnd | StreamError thrown_error

datatype body_result = Body bytes | BodyTooLarge | BodyFailed thrown_error | NeverEnds

text \<open>The listeners on the stream: the first event that settles the promise decides.\<close>

fun capture_events :: "nat \<Rightarrow> nat \<Rightarrow> bytes \<Rightarrow> body_event list \<Rightarrow> body_result" where
  "capture_events cap size_so_far chunks [] = NeverEnds"
| "capture_events cap size_so_far chunks (Chunk c # evs) =
     (if size_so_far + length c > cap then BodyTooLarge else capture_events cap (size_so_far + length c) (chunks @ c) evs)"
| "capture_events cap size_so_far chunks (StreamEnd # evs) = Body chunks"
| "capture_events cap size_so_far chunks (StreamError e # evs) = BodyFailed e"

text \<open>
  \<open>Number(declared)\<close>: Node's parser admits only digits as a content length, for other text the
  comparison below is not reached by a request.
\<close>

definition declared_length :: "string \<Rightarrow> jsnum" where
  "declared_length s = (if s \<noteq> [] \<and> list_all is_digit s then JInt (int (undec s)) else JNaN)"

definition captureBody :: "string option \<Rightarrow> body_event list \<Rightarrow> nat \<Rightarrow> body_result" where
  "captureBody declared evs cap = (case declared of
     Some s \<Rightarrow> if js_isFinite (declared_length s) \<and> js_greater (declared_length s) (int cap) then BodyTooLarge
       else capture_events cap 0 [] evs
   | None \<Rightarrow> capture_events cap 0 [] evs)"

definition parseJsonObject :: "bytes \<Rightarrow> thrown_error + jsval" where
  "parseJsonObject raw = (if raw = [] then Inl (bad_request ''invalid_json'' ''expected a JSON object body'')
     else case Option.bind (utf8_text raw) json_parse of
       None \<Rightarrow> Inl (bad_request ''invalid_json'' ''request body is not valid JSON'')
     | Some v \<Rightarrow> if is_object v then Inr v else Inl (bad_request ''invalid_json'' ''request body must be a JSON object''))"

definition quoted :: "string \<Rightarrow> string" where
  "quoted s = CHR 0x22 # s @ [CHR 0x22]"

definition requireString :: "jsval \<Rightarrow> string \<Rightarrow> thrown_error + string" where
  "requireString body key = (case jget key body of
     JString v \<Rightarrow> if v = [] then Inl (bad_request ''missing_field'' (''missing or invalid '' @ quoted key)) else Inr v
   | _ \<Rightarrow> Inl (bad_request ''missing_field'' (''missing or invalid '' @ quoted key)))"

definition optionalU32 :: "jsval \<Rightarrow> string \<Rightarrow> thrown_error + jsnum option" where
  "optionalU32 body key = (case jget key body of
     JUndefined \<Rightarrow> Inr None
   | JNum (JInt n) \<Rightarrow> if n < 0 \<or> n > 0xffffffff then Inl (bad_request ''invalid_field'' (quoted key @ '' must be a non-negative u32 integer'')) else Inr (Some (JInt n))
   | _ \<Rightarrow> Inl (bad_request ''invalid_field'' (quoted key @ '' must be a non-negative u32 integer'')))"

definition asRecord :: "jsval \<Rightarrow> jsval" where
  "asRecord json = (if is_object json then json else JObject [])"

text \<open>The subject of the verified token, where it is the addressed one.\<close>

definition assertSessionSubjectBinding :: "string option \<Rightarrow> string \<Rightarrow> thrown_error + string" where
  "assertSessionSubjectBinding auth addressed = (case auth of None \<Rightarrow> Inl T_Unauthorized
     | Some subject \<Rightarrow> if subject \<noteq> addressed then Inl T_SubjectMismatch else Inr subject)"

record http_response =
  hr_status :: nat
  hr_requestId :: string
  hr_allow :: "string list"
  hr_body :: jsval

definition writeJson :: "string \<Rightarrow> nat \<Rightarrow> jsval \<Rightarrow> http_response" where
  "writeJson requestId status body = \<lparr> hr_status = status, hr_requestId = requestId, hr_allow = [], hr_body = body \<rparr>"

definition writeError :: "string \<Rightarrow> http_error \<Rightarrow> http_response" where
  "writeError requestId err = writeJson requestId (he_status err)
     (JObject [(''error'', JObject [(''code'', JString (he_code err)), (''message'', JString (he_message err)), (''requestId'', JString requestId)])])"

section \<open>Addresses\<close>

definition C_ADDRESS_PATTERN :: "string \<Rightarrow> bool" where
  "C_ADDRESS_PATTERN s = (length s = 56 \<and> hd s = CHR ''C'' \<and> list_all is_base32_char (tl s))"

definition G_ADDRESS_PATTERN :: "string \<Rightarrow> bool" where
  "G_ADDRESS_PATTERN s = (length s = 56 \<and> hd s = CHR ''G'' \<and> list_all is_base32_char (tl s))"

definition assertCAddress :: "jsval \<Rightarrow> string \<Rightarrow> thrown_error + string" where
  "assertCAddress v what = (case v of
     JString s \<Rightarrow> if C_ADDRESS_PATTERN s then Inr s else Inl (bad_request ''invalid_field'' (quoted what @ '' must be a Stellar contract (C) address''))
   | _ \<Rightarrow> Inl (bad_request ''invalid_field'' (quoted what @ '' must be a Stellar contract (C) address'')))"

definition assertGAddress :: "jsval \<Rightarrow> string \<Rightarrow> thrown_error + string" where
  "assertGAddress v what = (case v of
     JString s \<Rightarrow> if G_ADDRESS_PATTERN s then Inr s else Inl (bad_request ''invalid_field'' (quoted what @ '' must be a Stellar G-address''))
   | _ \<Rightarrow> Inl (bad_request ''invalid_field'' (quoted what @ '' must be a Stellar G-address'')))"

section \<open>Bearer authentication\<close>

definition MAX_CREDENTIAL_CHARS :: nat where "MAX_CREDENTIAL_CHARS = 8192"

definition readSingleHeaderValue :: "headers \<Rightarrow> string \<Rightarrow> string option" where
  "readSingleHeaderValue hs name = (case hs name of
     None \<Rightarrow> None | Some (HText s) \<Rightarrow> Some s | Some (HTexts [s]) \<Rightarrow> Some s | Some (HTexts _) \<Rightarrow> None)"

definition extractBearer :: "string option \<Rightarrow> thrown_error + string" where
  "extractBearer val = (case val of None \<Rightarrow> Inl T_Unauthorized
     | Some v \<Rightarrow>
        if length v > MAX_CREDENTIAL_CHARS then Inl T_Unauthorized
        else if \<not> starts_with ''Bearer '' v then Inl T_Unauthorized
        else let token = drop 7 v in
          if token = [] \<or> CHR '' '' \<in> set token \<or> CHR 0x09 \<in> set token then Inl T_Unauthorized else Inr token)"

record gateway_auth =
  ga_publicKey :: key_object
  ga_issuer :: string
  ga_audience :: string

definition session_options :: "gateway_auth \<Rightarrow> jsnum \<Rightarrow> VerifyJwsOptions" where
  "session_options a now = \<lparr> jo_publicKey = ga_publicKey a, jo_now = now, jo_issuer = ga_issuer a, jo_audience = ga_audience a,
     jo_sep10 = False, jo_replay = None \<rparr>"

text \<open>The call passes no replay hook, so the store of \<open>verifyJws\<close> is not consulted.\<close>

definition verifySessionBearer :: "node_crypto \<Rightarrow> gateway_auth option \<Rightarrow> jsnum \<Rightarrow> headers \<Rightarrow> thrown_error + string" where
  "verifySessionBearer K auth now hs = (case auth of None \<Rightarrow> Inl T_Unauthorized
     | Some a \<Rightarrow> ebind (extractBearer (readSingleHeaderValue hs ''authorization'')) (\<lambda>token.
         (case fst (verifyJws K (\<lambda>_ (s :: unit) _. (True, s)) token (session_options a now) ()) of
            Inl e \<Rightarrow> Inl T_Unauthorized
          | Inr claims \<Rightarrow> Inr (vj_sub claims))))"

definition enforceRouteAuth :: "node_crypto \<Rightarrow> route_auth \<Rightarrow> headers \<Rightarrow> gateway_auth option \<Rightarrow> jsnum \<Rightarrow> thrown_error + string option" where
  "enforceRouteAuth K mode hs auth now = (case mode of AuthNone \<Rightarrow> Inr None
     | AuthSession \<Rightarrow> ebind (verifySessionBearer K auth now hs) (\<lambda>subject. Inr (Some subject)))"

section \<open>The session store\<close>

datatype session_status = Pending | Approved | Rejected

record SessionRecord =
  ss_sessionId :: string
  ss_walletCAddr :: string
  ss_status :: session_status
  ss_createdAt :: jsnum

type_synonym session_store = "string \<rightharpoonup> SessionRecord"

definition SessionNotApprovedError :: thrown_error where
  "SessionNotApprovedError = T_Named ''SessionNotApprovedError''"

definition session_create :: "string \<Rightarrow> string \<Rightarrow> jsnum \<Rightarrow> session_store \<Rightarrow> session_store" where
  "session_create fresh wallet now st = st(fresh \<mapsto> \<lparr> ss_sessionId = fresh, ss_walletCAddr = wallet, ss_status = Pending, ss_createdAt = now \<rparr>)"

definition session_get :: "session_store \<Rightarrow> string \<Rightarrow> SessionRecord option" where
  "session_get st sid = st sid"

definition assertApproved :: "session_store \<Rightarrow> string \<Rightarrow> thrown_error + unit" where
  "assertApproved st sid = (case st sid of None \<Rightarrow> Inl SessionNotApprovedError
     | Some r \<Rightarrow> if ss_status r \<noteq> Approved then Inl SessionNotApprovedError else Inr ())"

definition setStatus :: "string \<Rightarrow> session_status \<Rightarrow> session_store \<Rightarrow> thrown_error + session_store" where
  "setStatus sid status st = (case st sid of None \<Rightarrow> Inl SessionNotApprovedError
     | Some r \<Rightarrow> Inr (st(sid \<mapsto> r\<lparr>ss_status := status\<rparr>)))"

definition session_size :: "session_store \<Rightarrow> nat" where
  "session_size st = card (dom st)"

section \<open>The session token\<close>

definition SESSION_JWT_MAX_TTL_SECONDS :: int where "SESSION_JWT_MAX_TTL_SECONDS = 15 * 60"

record SessionJwtClaims =
  sj_sessionId :: string
  sj_walletCAddr :: string
  sj_issuedAt :: jsnum
  sj_expiresAt :: jsnum

record session_jwt_issuer =
  ji_signingKey :: key_object
  ji_issuer :: string
  ji_audience :: string
  ji_verificationKey :: key_object

definition Es256SessionJwtIssuer :: "node_crypto \<Rightarrow> key_object \<Rightarrow> string \<Rightarrow> string \<Rightarrow> thrown_error + session_jwt_issuer" where
  "Es256SessionJwtIssuer K signingKey issuer audience =
     (if issuer = [] \<or> audience = [] then Inl T_Other
      else Inr \<lparr> ji_signingKey = signingKey, ji_issuer = issuer, ji_audience = audience, ji_verificationKey = nc_public K signingKey \<rparr>)"

definition session_claims :: "session_jwt_issuer \<Rightarrow> SessionJwtClaims \<Rightarrow> jsval" where
  "session_claims j c = JObject [(''iss'', JString (ji_issuer j)), (''sub'', JString (sj_walletCAddr c)), (''aud'', JString (ji_audience j)),
     (''iat'', JNum (sj_issuedAt c)), (''nbf'', JNum (sj_issuedAt c)), (''exp'', JNum (sj_expiresAt c))]"

text \<open>
  A fractional instant is refused by \<open>signJws\<close> where the window check lets it pass; both refusals are
  plain errors.
\<close>

definition issue_session_jwt :: "node_crypto \<Rightarrow> session_jwt_issuer \<Rightarrow> SessionJwtClaims \<Rightarrow> thrown_error + string" where
  "issue_session_jwt K j c = (case (sj_issuedAt c, sj_expiresAt c) of
     (JInt a, JInt e) \<Rightarrow>
        if \<not> js_isSafeInteger (JInt (e - a)) \<or> e - a \<le> 0 then Inl T_Other
        else if e - a > SESSION_JWT_MAX_TTL_SECONDS then Inl T_Other
        else map_err (\<lambda>_. T_Other) (signJws K (ji_signingKey j) (session_claims j c))
   | _ \<Rightarrow> Inl T_Other)"

definition UnimplementedSessionJwtIssuer :: "SessionJwtClaims \<Rightarrow> thrown_error + string" where
  "UnimplementedSessionJwtIssuer c = Inl (UnimplementedError ''SessionJwtIssuer (ES256/DPoP session token)'')"

definition UnimplementedKycApplicantCreator :: "string \<Rightarrow> string \<Rightarrow> thrown_error + string" where
  "UnimplementedKycApplicantCreator wallet sid = Inl (UnimplementedError ''KYC applicant creation'')"

section \<open>Facts\<close>

lemma token_chars:
  assumes "crypto_ok K" "ko_type k = ''private''" "signJws K k claims = Inr token"
  shows "token \<noteq> []" "CHR '' '' \<notin> set token" "CHR 0x09 \<notin> set token"
proof -
  obtain alg payload raw sig where f: "token = signing_input alg (base64urlEncode (ref_utf8 payload)) @ ''.'' @ base64urlEncode raw"
    by (rule signed_form[OF assms])
  have t: "token = base64urlEncode h @ ''.'' @ base64urlEncode p @ ''.'' @ base64urlEncode r" if "h = ref_utf8 (case alg of ES256 \<Rightarrow> PROTECTED_HEADER_JSON | EdDSA \<Rightarrow> EDDSA_PROTECTED_HEADER_JSON)" "p = ref_utf8 payload" "r = raw" for h p r
    using f that by (simp add: signing_input_def frozenHeaderB64_def)
  have out: "c \<notin> set (base64urlEncode b)" if "B64URL_REVERSE c = None" for c b
    using b64_encode_chars(1)[of b] that by (auto simp: list_all_iff)
  have n: "B64URL_REVERSE CHR '' '' = None" "B64URL_REVERSE CHR 0x09 = None"
    by (simp_all add: B64URL_REVERSE_def B64URL_ALPHABET_def)
  show "token \<noteq> []" using f by simp
  show "CHR '' '' \<notin> set token" "CHR 0x09 \<notin> set token" using t[OF refl refl refl] out[OF n(1)] out[OF n(2)] by auto
qed

lemma verifySessionBearer_Inr:
  assumes "verifySessionBearer K auth now hs = Inr sub"
  obtains a token bag v where "auth = Some a" "readSingleHeaderValue hs ''authorization'' = Some (''Bearer '' @ token)"
    "jws_authentic K token (session_options a now) bag" "v = verified_claims bag (vj_jti v)"
    "claims_accepted (session_options a now) v" "vj_sub v = sub"
proof -
  obtain a where a: "auth = Some a" using assms by (auto simp: verifySessionBearer_def split: option.splits)
  obtain token where t: "extractBearer (readSingleHeaderValue hs ''authorization'') = Inr token"
    using assms a by (auto simp: verifySessionBearer_def res_simps)
  define r where "r = verifyJws K (\<lambda>_ (s :: unit) _. (True, s)) token (session_options a now) ()"
  have "(case fst r of Inl e \<Rightarrow> Inl T_Unauthorized | Inr claims \<Rightarrow> Inr (vj_sub claims)) = Inr sub"
    using assms unfolding verifySessionBearer_def a option.case t ebind.simps r_def .
  then obtain v where v: "r = (Inr v, snd r)" "vj_sub v = sub" by (cases "fst r") (auto simp: prod_eq_iff)
  have "(\<exists>bag. jws_authentic K token (session_options a now) bag \<and> v = verified_claims bag (vj_jti v)) \<and> claims_accepted (session_options a now) v"
    using verifyJws_cases[where C = K and firstSight = "\<lambda>_ (s :: unit) _. (True, s)" and token = token and opts = "session_options a now" and st = "()"] v(1) unfolding r_def by simp
  then obtain bag where bag: "jws_authentic K token (session_options a now) bag" "v = verified_claims bag (vj_jti v)"
    "claims_accepted (session_options a now) v" by blast
  obtain w where w: "readSingleHeaderValue hs ''authorization'' = Some w" "take 7 w = ''Bearer ''" "token = drop 7 w"
    using t by (auto simp: extractBearer_def starts_with_def Let_def eval_nat_numeral split: option.splits if_splits)
  have "w = ''Bearer '' @ token" using w(2,3) by (metis append_take_drop_id)
  then show thesis using that[OF a _ bag v(2)] w(1) by blast
qed

lemma extractBearer_token:
  "token \<noteq> [] \<Longrightarrow> CHR '' '' \<notin> set token \<Longrightarrow> CHR 0x09 \<notin> set token \<Longrightarrow> length token \<le> 8185
     \<Longrightarrow> extractBearer (Some (''Bearer '' @ token)) = Inr token"
  by (simp add: extractBearer_def starts_with_def MAX_CREDENTIAL_CHARS_def)

lemma session_token_claims:
  assumes "Es256SessionJwtIssuer K key iss aud = Inr j" "issue_session_jwt K j c = Inr token"
  obtains a e where "sj_issuedAt c = JInt a" "sj_expiresAt c = JInt e" "a < e" "e - a \<le> 900"
    "signJws K key (session_claims j c) = Inr token" "ji_issuer j = iss" "ji_audience j = aud" "ji_verificationKey j = nc_public K key"
  using assms
  by (auto simp: Es256SessionJwtIssuer_def issue_session_jwt_def SESSION_JWT_MAX_TTL_SECONDS_def res_simps
      split: jsnum.splits if_splits)

lemma encode_length: "length (base64urlEncode bs) \<le> 2 * length bs"
  by (induction bs rule: base64urlEncode.induct) (auto simp: Let_def)

lemma utf8_length: "length (ref_utf8 s) \<le> 2 * length s"
  by (induction s) (auto simp: Let_def)

lemma token_length:
  assumes "crypto_ok K" "ko_type k = ''private''" "signJws K k claims = Inr token" "serializeClaims claims = Inr payload"
  shows "length token \<le> 4 * length payload + 256"
proof -
  obtain alg payload' raw sig where f: "serializeClaims claims = Inr payload'"
    "token = signing_input alg (base64urlEncode (ref_utf8 payload')) @ ''.'' @ base64urlEncode raw" "length raw = 64"
    by (rule signed_form[OF assms(1-3)])
  have h: "length (frozenHeaderB64 alg) \<le> 120"
    using encode_length[of "ref_utf8 PROTECTED_HEADER_JSON"] encode_length[of "ref_utf8 EDDSA_PROTECTED_HEADER_JSON"]
      utf8_length[of PROTECTED_HEADER_JSON] utf8_length[of EDDSA_PROTECTED_HEADER_JSON]
    by (cases alg) (simp_all add: frozenHeaderB64_def PROTECTED_HEADER_JSON_def EDDSA_PROTECTED_HEADER_JSON_def)
  show ?thesis
    using h encode_length[of raw] encode_length[of "ref_utf8 payload'"] utf8_length[of payload'] f assms(4)
    by (simp add: signing_input_def)
qed

lemma session_bearer_accepted:
  assumes "crypto_ok K" "ko_type key = ''private''" "Es256SessionJwtIssuer K key iss aud = Inr j"
    and "issue_session_jwt K j c = Inr token" "length token \<le> 8185"
    and "hs ''authorization'' = Some (HText (''Bearer '' @ token))"
  shows "\<exists>a e. sj_issuedAt c = JInt a \<and> sj_expiresAt c = JInt e \<and> a < e \<and> e \<le> a + 900 \<and>
    (\<forall>t\<in>{a..<e}. enforceRouteAuth K AuthSession hs (Some \<lparr> ga_publicKey = ji_verificationKey j, ga_issuer = iss, ga_audience = aud \<rparr>) (JInt t)
       = Inr (Some (sj_walletCAddr c)))"
proof -
  obtain a e where c: "sj_issuedAt c = JInt a" "sj_expiresAt c = JInt e" "a < e" "e - a \<le> 900"
    and s: "signJws K key (session_claims j c) = Inr token" "ji_issuer j = iss" "ji_audience j = aud" "ji_verificationKey j = nc_public K key"
    by (rule session_token_claims[OF assms(3,4)])
  let ?auth = "\<lparr> ga_publicKey = ji_verificationKey j, ga_issuer = iss, ga_audience = aud \<rparr>"
  note chars = token_chars[OF assms(1,2) s(1)]
  have bearer: "extractBearer (readSingleHeaderValue hs ''authorization'') = Inr token"
    using extractBearer_token[OF chars assms(5)] assms(6) by (simp add: readSingleHeaderValue_def del: append.simps)
  have "enforceRouteAuth K AuthSession hs (Some ?auth) (JInt t) = Inr (Some (sj_walletCAddr c))" if t: "t \<in> {a..<e}" for t
  proof -
    have v: "verify_stateless K token (session_options ?auth (JInt t)) = Inr (JObject (ordered_claims (session_claims j c)))"
      by (rule signed_stateless[OF assms(1,2) s(1), where t = t]) (use s t c in \<open>simp_all add: session_options_def session_claims_def\<close>)
    have "verifyJws K (\<lambda>_ (s :: unit) _. (True, s)) token (session_options ?auth (JInt t)) ()
        = (Inr (verified_claims (JObject (ordered_claims (session_claims j c))) None), ())"
      unfolding verifyJws_def v by (simp add: verify_jti_def session_options_def ordered_claims_def session_claims_def)
    moreover have "vj_sub (verified_claims (JObject (ordered_claims (session_claims j c))) None) = sj_walletCAddr c"
      by (simp add: verified_claims_def ordered_claims_def session_claims_def)
    ultimately show ?thesis by (simp add: enforceRouteAuth_def verifySessionBearer_def bearer)
  qed
  then show ?thesis using c by (intro exI[of _ a] exI[of _ e]) auto
qed

definition toy_jwt_issuer :: session_jwt_issuer where
  "toy_jwt_issuer = \<lparr> ji_signingKey = toy_key, ji_issuer = ''gw'', ji_audience = ''app'', ji_verificationKey = nc_public toy_crypto toy_key \<rparr>"

lemma toy_jwt_issues:
  assumes "wallet \<noteq> []" "length wallet \<le> 56" "\<forall>c\<in>set wallet. is_base32_char c"
  shows "\<exists>token. issue_session_jwt toy_crypto toy_jwt_issuer \<lparr> sj_sessionId = sid, sj_walletCAddr = wallet, sj_issuedAt = JInt 100, sj_expiresAt = JInt 1000 \<rparr>
      = Inr token \<and> length token \<le> 8185"
proof -
  let ?c = "\<lparr> sj_sessionId = sid, sj_walletCAddr = wallet, sj_issuedAt = JInt 100, sj_expiresAt = JInt 1000 \<rparr>"
  let ?claims = "session_claims toy_jwt_issuer ?c"
  have q: "length (json_quote wallet) = length wallet + 2"
  proof -
    have "\<forall>c\<in>set wallet. quote_char c = [c]"
      using assms(3) by (auto simp: quote_char_def is_base32_char_def code_def Let_def)
    then have "concat (map quote_char wallet) = wallet" by (induction wallet) auto
    then show ?thesis by (simp add: json_quote_def)
  qed
  have "checkRequiredClaims ?claims = Inr ()"
    using assms(1) by (simp add: checkRequiredClaims_def check_string_claim_def check_time_claim_def session_claims_def toy_jwt_issuer_def)
  then have s: "serializeClaims ?claims = Inr (json_stringify (JObject (ordered_claims ?claims)))"
    by (simp add: serializeClaims_def session_claims_def ordered_claims_def toy_jwt_issuer_def del: json_stringify.simps)
  have d: "length (dec 100) = 3" "length (dec 1000) = 4" by (simp_all add: dec.simps)
  have l: "length (json_stringify (JObject (ordered_claims ?claims))) \<le> 1000"
    using assms(2) q by (simp add: ordered_claims_def session_claims_def toy_jwt_issuer_def int_text_def)
      (simp add: json_quote_def quote_char_def code_def d del: dec.simps)
  have k: "keyAlgorithm toy_key = Inr EdDSA" by (simp add: keyAlgorithm_def toy_key_def)
  have g: "length (nc_sign toy_crypto toy_key m) = 64" for m by (simp add: toy_crypto_def toy_key_def)
  obtain token where t: "signJws toy_crypto toy_key ?claims = Inr token"
    unfolding signJws_def k s ebind.simps Let_def by (simp add: g)
  have "length token \<le> 8185"
    using token_length[OF toy_crypto_ok toy_key_facts(2) t s] l by linarith
  moreover have "issue_session_jwt toy_crypto toy_jwt_issuer ?c = Inr token"
    using t by (simp add: issue_session_jwt_def SESSION_JWT_MAX_TTL_SECONDS_def toy_jwt_issuer_def)
  ultimately show ?thesis by blast
qed

section \<open>Properties\<close>

text \<open>
  C20. The session token the gateway issues authenticates its wallet: presented as a bearer header
  at any second of its window it is accepted for exactly the wallet it was issued for, and its
  window is a positive one of at most fifteen minutes.
\<close>

theorem session_token_authenticates:
  assumes "crypto_ok K" "ko_type key = ''private''" "Es256SessionJwtIssuer K key iss aud = Inr j"
    and "issue_session_jwt K j c = Inr token" "length token \<le> 8185"
    and "hs ''authorization'' = Some (HText (''Bearer '' @ token))"
  shows "\<exists>a e. sj_issuedAt c = JInt a \<and> sj_expiresAt c = JInt e \<and> a < e \<and> e \<le> a + 900 \<and>
    (\<forall>t\<in>{a..<e}. enforceRouteAuth K AuthSession hs (Some \<lparr> ga_publicKey = ji_verificationKey j, ga_issuer = iss, ga_audience = aud \<rparr>) (JInt t)
       = Inr (Some (sj_walletCAddr c)))"
  using assms by (rule session_bearer_accepted)

theorem session_token_authenticates_witness:
  "\<exists>token. issue_session_jwt toy_crypto toy_jwt_issuer \<lparr> sj_sessionId = ''s'', sj_walletCAddr = ''CAB'', sj_issuedAt = JInt 100, sj_expiresAt = JInt 1000 \<rparr> = Inr token
     \<and> enforceRouteAuth toy_crypto AuthSession [''authorization'' \<mapsto> HText (''Bearer '' @ token)]
          (Some \<lparr> ga_publicKey = nc_public toy_crypto toy_key, ga_issuer = ''gw'', ga_audience = ''app'' \<rparr>) (JInt 500) = Inr (Some ''CAB'')"
proof -
  let ?c = "\<lparr> sj_sessionId = ''s'', sj_walletCAddr = ''CAB'', sj_issuedAt = JInt 100, sj_expiresAt = JInt 1000 \<rparr>"
  obtain token where t: "issue_session_jwt toy_crypto toy_jwt_issuer ?c = Inr token" "length token \<le> 8185"
    using toy_jwt_issues[of "''CAB''" "''s''"] by (auto simp: is_base32_char_def)
  have j: "Es256SessionJwtIssuer toy_crypto toy_key ''gw'' ''app'' = Inr toy_jwt_issuer"
    by (simp add: Es256SessionJwtIssuer_def toy_jwt_issuer_def)
  have hs: "[''authorization'' \<mapsto> HText (''Bearer '' @ token)] ''authorization'' = Some (HText (''Bearer '' @ token))" by simp
  from session_token_authenticates[where hs = "[''authorization'' \<mapsto> HText (''Bearer '' @ token)]", OF toy_crypto_ok toy_key_facts(2) j t hs] show ?thesis
    using t(1) by (auto simp: toy_jwt_issuer_def)
qed

end
