(* ===== verification/GatewayServer.thy ===== *)
theory GatewayServer
imports GatewayHttp Generators StatusCredential
begin

text \<open>
  The HTTP gateway of \<open>apps/gateway-http\<close>: its handlers (\<open>handlers/\<close>), the route table and the
  request pipeline of \<open>server.ts\<close>, over the state a process keeps: the sessions, the allocator of
  revocation indexes and the indexes revoked so far. A request comes with what the process draws
  while serving it (ids, salt, clock). Strings outside Latin-1 are outside the model.
\<close>

section \<open>Configuration and state\<close>

record platform =
  pf_noble :: noble
  pf_bbs :: bbs_lib
  pf_crypto :: node_crypto
  pf_curve :: curve
  pf_h2c :: h2c
  pf_ed :: ed25519
  pf_gzip :: gzip_platform
  pf_url :: url_platform

record AppConfig =
  gw_network :: string
  gw_networkPassphrase :: string
  gw_kycGateContractId :: string
  gw_kycRegistryContractId :: string
  gw_issuerPublicKey :: bytes
  gw_issuerSecretKey :: bytes
  gw_statusListUrl :: string
  gw_signingKey :: signing_key
  gw_verificationMethod :: string
  gw_sessionJwtIssuer :: "session_jwt_issuer option"
  gw_kycApplicantCreator :: "(string \<Rightarrow> string \<Rightarrow> thrown_error + string) option"
  gw_auth :: "gateway_auth option"

record 'a gateway_state =
  gs_sessions :: session_store
  gs_alloc :: 'a
  gs_revoked :: "jsnum list"

record draws =
  dr_requestId :: string
  dr_sessionId :: string
  dr_salt :: bytes
  dr_authNow :: jsnum
  dr_now :: jsnum

record http_request =
  hq_method :: "string option"
  hq_url :: "string option"
  hq_headers :: headers
  hq_events :: "body_event list"

record route_context =
  rx_params :: route_params
  rx_json :: jsval
  rx_auth :: "string option"

type_synonym handler_result = "thrown_error + nat \<times> jsval"

text \<open>The in-memory store of revoked indexes, a \<open>Set\<close> in insertion order.\<close>

definition StatusListStore_revoke :: "jsnum \<Rightarrow> jsnum list \<Rightarrow> jsnum list" where
  "StatusListStore_revoke i revoked = (if i \<in> set revoked then revoked else revoked @ [i])"

definition StatusListStore_clear :: "jsnum \<Rightarrow> jsnum list \<Rightarrow> jsnum list" where
  "StatusListStore_clear i revoked = remove1 i revoked"

section \<open>Handlers\<close>

definition healthzHandler :: handler_result where
  "healthzHandler = Inr (200, JObject [(''status'', JString ''ok''), (''service'', JString ''gateway-http'')])"

definition readyzHandler :: "AppConfig \<Rightarrow> handler_result" where
  "readyzHandler config = Inr (200, JObject [(''status'', JString ''ready''), (''network'', JString (gw_network config))])"

definition CIPHERSUITE :: string where "CIPHERSUITE = ''BLS12-381-SHA-256''"

definition claim_names :: "claim_name list" where
  "claim_names = map spec_name CLAIM_SPECS"

definition schemaHandler :: "route_context \<Rightarrow> handler_result" where
  "schemaHandler ctx = (if rx_params ctx ''version'' \<noteq> Some SCHEMA_VERSION
     then Inl (T_Http (http_error 404 ''schema_not_found'' False (''no schema version '' @ quoted (case rx_params ctx ''version'' of None \<Rightarrow> ''undefined'' | Some v \<Rightarrow> v) @ ''; the only version is '' @ SCHEMA_VERSION)))
     else Inr (200, JObject [(''schema_version'', JString SCHEMA_VERSION), (''attribute_count'', JNum (JInt (int SCHEMA_ATTRIBUTE_COUNT))),
       (''ciphersuite'', JString CIPHERSUITE), (''credential_header'', JString CREDENTIAL_HEADER),
       (''claim_index'', JObject (map (\<lambda>n. (claim_str n, JNum (JInt (int (CLAIM_INDEX n))))) claim_names))]))"

text \<open>The separators of the text, outside Latin-1, are written as their UTF-8 bytes.\<close>

definition GENERATORS_ROOT_ENCODING :: string where
  "GENERATORS_ROOT_ENCODING = (let bar = [CHR 0xE2, CHR 0x80, CHR 0x96]; dots = [CHR 0xE2, CHR 0x80, CHR 0xA6] in
     ''sha256(g_1 '' @ bar @ '' '' @ dots @ '' '' @ bar @ '' g_{L+1}), each g_i the 96-byte uncompressed be(X) '' @ bar @ '' be(Y)'')"

definition wellKnownHandler :: "platform \<Rightarrow> AppConfig \<Rightarrow> handler_result" where
  "wellKnownHandler P config = (let N = pf_noble P; pk = gw_issuerPublicKey config in
     ebind (map_err (\<lambda>_. T_Other) (bbsGenerators N (pf_h2c P) None)) (\<lambda>(derived, _).
     ebind (map_err (\<lambda>_. T_Other) (decompressG2 (pf_curve P) pk)) (\<lambda>pkUncompressed.
     Inr (200, JObject [(''issuer_id'', JString (issuerIdFromPublicKey N pk)), (''pk_g2_compressed'', JString (bytesToHex N pk)),
       (''pk_g2_uncompressed'', JString (bytesToHex N pkUncompressed)), (''ciphersuite'', JString CIPHERSUITE),
       (''schema_version'', JString SCHEMA_VERSION), (''registry_contract_id'', JString (gw_kycRegistryContractId config)),
       (''gate_contract_id'', JString (gw_kycGateContractId config)), (''network'', JString (gw_network config)),
       (''network_passphrase'', JString (gw_networkPassphrase config)), (''generators_root'', JString (gen_root derived)),
       (''generators_encoding'', JString GENERATORS_ROOT_ENCODING),
       (''generators'', JArray (map JString (gen_uncompressed derived)))]))))"

definition statusListHandler :: "platform \<Rightarrow> AppConfig \<Rightarrow> jsnum \<Rightarrow> jsnum list \<Rightarrow> route_context \<Rightarrow> handler_result" where
  "statusListHandler P config now revoked ctx =
     (if length (gw_issuerPublicKey config) \<noteq> G2_COMPRESSED_BYTES
      then Inl (T_Http (http_error 503 ''issuer_config_incomplete'' True ''issuer public key is not a 96-byte compressed G2 point''))
      else let ourIssuer = issuerIdFromPublicKey (pf_noble P) (gw_issuerPublicKey config) in
        if rx_params ctx ''issuer_id'' \<noteq> Some ourIssuer
        then Inl (T_Http (http_error 404 ''status_list_not_found'' False ''no status list for that issuer id''))
        else ebind (map_err (\<lambda>_. T_Other) (publishStatusList (pf_noble P) (pf_ed P) (pf_gzip P) (pf_url P)
            \<lparr> pb_url = gw_statusListUrl config, pb_issuer = ourIssuer, pb_verificationMethod = gw_verificationMethod config,
              pb_statusPurpose = ''revocation'', pb_revoked = revoked, pb_entries = None, pb_statusSize = None,
              pb_validFrom = now, pb_validUntil = None, pb_signingKey = gw_signingKey config \<rparr>)) (\<lambda>document. Inr (200, document)))"

definition MAX_CHAIN_ID_CHARS :: nat where "MAX_CHAIN_ID_CHARS = 128"

definition control_char :: "char \<Rightarrow> bool" where
  "control_char c = (let k = (of_char c :: nat) in k \<le> 31 \<or> k = 127)"

definition requireChainId :: "jsval \<Rightarrow> thrown_error + string" where
  "requireChainId body = (case jget ''chain_id'' body of
     JUndefined \<Rightarrow> Inl (bad_request ''missing_field'' (''missing or invalid '' @ quoted ''chain_id''))
   | JNull \<Rightarrow> Inl (bad_request ''missing_field'' (''missing or invalid '' @ quoted ''chain_id''))
   | JString v \<Rightarrow> if v = [] \<or> length v > MAX_CHAIN_ID_CHARS \<or> list_ex control_char v
       then Inl (bad_request ''invalid_field'' (quoted ''chain_id'' @ '' must be a non-empty string of at most 128 characters without control characters''))
       else Inr v
   | _ \<Rightarrow> Inl (bad_request ''invalid_field'' (quoted ''chain_id'' @ '' must be a non-empty string of at most 128 characters without control characters'')))"

text \<open>The optional seams, resolved as \<open>buildServer\<close> does.\<close>

definition applicant_creator :: "AppConfig \<Rightarrow> string \<Rightarrow> string \<Rightarrow> thrown_error + string" where
  "applicant_creator config = (case gw_kycApplicantCreator config of None \<Rightarrow> UnimplementedKycApplicantCreator | Some f \<Rightarrow> f)"

definition jwt_issuer :: "platform \<Rightarrow> AppConfig \<Rightarrow> SessionJwtClaims \<Rightarrow> thrown_error + string" where
  "jwt_issuer P config = (case gw_sessionJwtIssuer config of None \<Rightarrow> UnimplementedSessionJwtIssuer
     | Some j \<Rightarrow> issue_session_jwt (pf_crypto P) j)"

text \<open>The session is stored before the seams are asked: a refusal of theirs leaves it in the store.\<close>

definition sessionHandler ::
  "platform \<Rightarrow> AppConfig \<Rightarrow> draws \<Rightarrow> route_context \<Rightarrow> session_store \<Rightarrow> handler_result \<times> session_store" where
  "sessionHandler P config d ctx sessions = (let body = asRecord (rx_json ctx) in
     case assertCAddress (jget ''wallet_c_addr'' body) ''wallet_c_addr'' of Inl e \<Rightarrow> (Inl e, sessions)
   | Inr wallet \<Rightarrow> (case requireChainId body of Inl e \<Rightarrow> (Inl e, sessions)
   | Inr _ \<Rightarrow>
      (let now = dr_now d; sid = dr_sessionId d; sessions' = session_create sid wallet now sessions;
           expiresAt = js_add now SESSION_JWT_MAX_TTL_SECONDS in
       (ebind (applicant_creator config wallet sid) (\<lambda>_.
        ebind (jwt_issuer P config \<lparr> sj_sessionId = sid, sj_walletCAddr = wallet, sj_issuedAt = now, sj_expiresAt = expiresAt \<rparr>) (\<lambda>token.
        Inr (201, JObject [(''session_id'', JString sid), (''session_token'', JString token), (''expires_at'', JNum expiresAt)]))),
        sessions'))))"

definition read_claim :: "jsval \<Rightarrow> claim_name \<Rightarrow> thrown_error + bool" where
  "read_claim body n = (case jget (claim_str n) body of JBool b \<Rightarrow> Inr b
     | _ \<Rightarrow> Inl (bad_request ''invalid_field'' (quoted (claim_str n) @ '' must be a boolean'')))"

definition readClaimSet :: "jsval \<Rightarrow> thrown_error + ClaimSet" where
  "readClaimSet body =
     ebind (read_claim body Over18) (\<lambda>o18. ebind (read_claim body Over21) (\<lambda>o21. ebind (read_claim body NotSanctioned) (\<lambda>ns.
     ebind (read_claim body NotPep) (\<lambda>np. ebind (read_claim body JurisdictionOk) (\<lambda>jo. ebind (read_claim body LivenessOk) (\<lambda>lo.
     Inr \<lparr> cs_over18 = o18, cs_over21 = o21, cs_notSanctioned = ns, cs_notPep = np, cs_jurisdictionOk = jo, cs_livenessOk = lo \<rparr>))))))"

fun value_json :: "claim_value \<Rightarrow> jsval" where
  "value_json (VStr s) = JString s"
| "value_json (VNum x) = JNum x"
| "value_json (VBool b) = JBool b"

definition claims_json :: "kyc_claims \<Rightarrow> jsval" where
  "claims_json c = JObject (concat (map (\<lambda>n. case c n of None \<Rightarrow> [] | Some v \<Rightarrow> [(claim_str n, value_json v)]) claim_names))"

definition credential_json :: "serialized_credential \<Rightarrow> jsval" where
  "credential_json s = JObject [(''schemaVersion'', JString (sc_schemaVersion s)), (''messages'', JArray (map JString (sc_messages s))),
     (''signature'', JString (sc_signature s)), (''issuerPublicKey'', JString (sc_issuerPublicKey s)), (''claims'', claims_json (sc_claims s))]"

text \<open>Which refusals of the library are its \<open>IssuanceError\<close>.\<close>

definition issuance_thrown :: "issuance_error \<Rightarrow> thrown_error" where
  "issuance_thrown e = (if e \<in> {BadIssuedAt, BadExpiresAt, BadSecretKey, ZeroBitmap, BadSaltLength} then T_Issuance else T_Other)"

definition DEFAULT_CREDENTIAL_LIFETIME_SECONDS :: int where "DEFAULT_CREDENTIAL_LIFETIME_SECONDS = 24 * 60 * 60"

definition issue_request :: "AppConfig \<Rightarrow> jsnum \<Rightarrow> string \<Rightarrow> string \<Rightarrow> ClaimSet \<Rightarrow> jsnum option \<Rightarrow> IssueCredentialRequest" where
  "issue_request config now sid wallet claims expiresAt =
     \<lparr> rq_claims = claims, rq_walletAddress = wallet, rq_issuedAt = now,
       rq_expiresAt = (case expiresAt of None \<Rightarrow> js_add now DEFAULT_CREDENTIAL_LIFETIME_SECONDS | Some e \<Rightarrow> e),
       rq_issuerSecretKey = gw_issuerSecretKey config, rq_issuerPublicKey = gw_issuerPublicKey config,
       rq_provider = ''kyc-provider'', rq_providerRefId = sid, rq_subjectId = sid, rq_salt = None \<rparr>"

definition issued_body :: "platform \<Rightarrow> IssuedCredential \<Rightarrow> jsval" where
  "issued_body P ic = JObject [(''credential'', credential_json (ic_serialized ic)), (''claim_bitmap'', JNum (JInt (uint (ic_claimBitmap ic)))),
     (''revocation_index'', JNum (ir_revocationIndex (ic_record ic))), (''subject_binding_salt'', JString (bytesToHex (pf_noble P) (ic_salt ic)))]"

text \<open>The checks before anything is spent: the session asked for, owned by the caller and approved, and the request.\<close>

definition issue_checks ::
  "AppConfig \<Rightarrow> draws \<Rightarrow> route_context \<Rightarrow> session_store \<Rightarrow> thrown_error + IssueCredentialRequest" where
  "issue_checks config d ctx sessions = (let body = asRecord (rx_json ctx) in
     ebind (requireString body ''sessionId'') (\<lambda>sid.
     case session_get sessions sid of
       None \<Rightarrow> Inl (T_Http (http_error 409 ''session_not_approved'' False ''the session is not approved''))
     | Some session \<Rightarrow>
         ebind (assertSessionSubjectBinding (rx_auth ctx) (ss_walletCAddr session)) (\<lambda>_.
         ebind (assertApproved sessions sid) (\<lambda>_.
         ebind (readClaimSet body) (\<lambda>claims.
         ebind (optionalU32 body ''expiresAt'') (\<lambda>expiresAt.
         Inr (issue_request config (dr_now d) sid (ss_walletCAddr session) claims expiresAt)))))))"

definition issueHandler ::
  "platform \<Rightarrow> ('a \<Rightarrow> (revocation_index_error + nat) \<times> 'a) \<Rightarrow> AppConfig \<Rightarrow> draws \<Rightarrow> route_context \<Rightarrow> session_store \<Rightarrow> 'a
     \<Rightarrow> handler_result \<times> 'a" where
  "issueHandler P alloc config d ctx sessions a = (case issue_checks config d ctx sessions of
     Inl e \<Rightarrow> (Inl e, a)
   | Inr q \<Rightarrow> (case issueKycCredential (pf_noble P) (pf_bbs P) alloc (dr_salt d) q a of
       (Inl e, a') \<Rightarrow> (Inl (issuance_thrown e), a')
     | (Inr ic, a') \<Rightarrow> (Inr (201, issued_body P ic), a')))"

section \<open>The route table and the pipeline\<close>

datatype handler_id = H_wellKnown | H_schema | H_statusList | H_healthz | H_readyz | H_session | H_issue

definition mk_route :: "string \<Rightarrow> string \<Rightarrow> bool \<Rightarrow> route_auth option \<Rightarrow> handler_id \<Rightarrow> handler_id route" where
  "mk_route verb template jsonBody auth h = \<lparr> rt_method = verb, rt_template = template, rt_jsonBody = jsonBody, rt_auth = auth,
     rt_patterns = [], rt_handler = h \<rparr>"

definition gateway_routes :: "handler_id route list" where
  "gateway_routes = [mk_route ''GET'' ''/v1/.well-known/issuer'' False None H_wellKnown,
     mk_route ''GET'' ''/v1/schema/{version}'' False None H_schema,
     mk_route ''GET'' ''/v1/status-list/{issuer_id}'' False None H_statusList,
     mk_route ''GET'' ''/healthz'' False None H_healthz,
     mk_route ''GET'' ''/readyz'' False None H_readyz,
     mk_route ''POST'' ''/v1/session'' True None H_session,
     mk_route ''POST'' ''/v1/credentials/issue'' True (Some AuthSession) H_issue]"

definition dispatch ::
  "platform \<Rightarrow> ('a \<Rightarrow> (revocation_index_error + nat) \<times> 'a) \<Rightarrow> AppConfig \<Rightarrow> draws \<Rightarrow> handler_id \<Rightarrow> route_context \<Rightarrow> 'a gateway_state
     \<Rightarrow> handler_result \<times> 'a gateway_state" where
  "dispatch P alloc config d h ctx s = (case h of
     H_wellKnown \<Rightarrow> (wellKnownHandler P config, s)
   | H_schema \<Rightarrow> (schemaHandler ctx, s)
   | H_statusList \<Rightarrow> (statusListHandler P config (dr_now d) (gs_revoked s) ctx, s)
   | H_healthz \<Rightarrow> (healthzHandler, s)
   | H_readyz \<Rightarrow> (readyzHandler config, s)
   | H_session \<Rightarrow> (case sessionHandler P config d ctx (gs_sessions s) of (r, st) \<Rightarrow> (r, s\<lparr>gs_sessions := st\<rparr>))
   | H_issue \<Rightarrow> (case issueHandler P alloc config d ctx (gs_sessions s) (gs_alloc s) of (r, a) \<Rightarrow> (r, s\<lparr>gs_alloc := a\<rparr>)))"

definition ascii_upper :: "char \<Rightarrow> char" where
  "ascii_upper c = (let k = (of_char c :: nat) in if 97 \<le> k \<and> k \<le> 122 then char_of (k - 32) else c)"

definition request_path :: "http_request \<Rightarrow> string" where
  "request_path q = (let raw = (case hq_url q of None \<Rightarrow> ''/'' | Some u \<Rightarrow> takeWhile (\<lambda>c. c \<noteq> CHR ''?'') u);
       stripped = rev (dropWhile (\<lambda>c. c = CHR ''/'') (rev raw)) in if stripped = [] then ''/'' else stripped)"

definition request_method :: "http_request \<Rightarrow> string" where
  "request_method q = map ascii_upper (case hq_method q of None \<Rightarrow> ''GET'' | Some m \<Rightarrow> m)"

definition refuse :: "string \<Rightarrow> nat \<Rightarrow> string \<Rightarrow> string \<Rightarrow> http_response" where
  "refuse requestId status code_name message = writeError requestId (http_error status code_name False message)"

text \<open>What is decided before a handler runs: a response, no response yet, or the handler and its context.\<close>

datatype admission = Refused http_response | Waiting | Admitted handler_id route_context

definition admit :: "platform \<Rightarrow> AppConfig \<Rightarrow> handler_id compiled_route list \<Rightarrow> draws \<Rightarrow> http_request \<Rightarrow> admission" where
  "admit P config router d q = (let rid = resolveRequestId (hq_headers q) (dr_requestId d); path = request_path q in
     if \<not> assertValidPathEncoding path then Refused (refuse rid 400 ''bad_encoding'' ''malformed percent-encoding'')
     else case captureBody (readSingleHeaderValue (hq_headers q) ''content-length'') (hq_events q) BODY_CAP_BYTES of
       NeverEnds \<Rightarrow> Waiting
     | BodyTooLarge \<Rightarrow> Refused (refuse rid 413 ''body_too_large'' ''request body too large'')
     | BodyFailed e \<Rightarrow> Refused (writeError rid (toHttpError e))
     | Body rawBody \<Rightarrow>
        (case match_route router (request_method q) path of
           NoPath \<Rightarrow> Refused (refuse rid 404 ''not_found'' ''no such route'')
         | MethodNotAllowed allow \<Rightarrow> Refused ((refuse rid 405 ''method_not_allowed'' ''method not allowed'')\<lparr>hr_allow := allow\<rparr>)
         | MatchOk h jsonBody mode params \<Rightarrow>
            (case enforceRouteAuth (pf_crypto P) mode (hq_headers q) (gw_auth config) (dr_authNow d) of
               Inl e \<Rightarrow> Refused (writeError rid (toHttpError e))
             | Inr auth \<Rightarrow>
                (case (if jsonBody then parseJsonObject rawBody else Inr JUndefined) of
                   Inl e \<Rightarrow> Refused (writeError rid (toHttpError e))
                 | Inr json \<Rightarrow> Admitted h \<lparr> rx_params = params, rx_json = json, rx_auth = auth \<rparr>))))"

definition respond :: "string \<Rightarrow> handler_result \<Rightarrow> http_response" where
  "respond rid r = (case r of Inl e \<Rightarrow> writeError rid (toHttpError e) | Inr (status, body) \<Rightarrow> writeJson rid status body)"

definition handle ::
  "platform \<Rightarrow> ('a \<Rightarrow> (revocation_index_error + nat) \<times> 'a) \<Rightarrow> AppConfig \<Rightarrow> handler_id compiled_route list \<Rightarrow> draws \<Rightarrow> http_request
     \<Rightarrow> 'a gateway_state \<Rightarrow> http_response option \<times> 'a gateway_state" where
  "handle P alloc config router d q s = (case admit P config router d q of
     Waiting \<Rightarrow> (None, s)
   | Refused r \<Rightarrow> (Some r, s)
   | Admitted h ctx \<Rightarrow> (case dispatch P alloc config d h ctx s of
       (r, s') \<Rightarrow> (Some (respond (resolveRequestId (hq_headers q) (dr_requestId d)) r), s')))"

definition buildServer :: "handler_id compiled_route list" where
  "buildServer = (case new_router gateway_routes of Inr cs \<Rightarrow> cs | Inl e \<Rightarrow> [])"

section \<open>Facts\<close>

lemma buildServer_routes:
  "buildServer = [
     \<lparr> cr_method = ''GET'', cr_jsonBody = False, cr_auth = AuthNone, cr_handler = H_wellKnown, cr_parts = [Lit ''/v1/.well-known/issuer''] \<rparr>,
     \<lparr> cr_method = ''GET'', cr_jsonBody = False, cr_auth = AuthNone, cr_handler = H_schema,
       cr_parts = [Lit ''/v1/schema/'', Param ''version'' None, Lit []] \<rparr>,
     \<lparr> cr_method = ''GET'', cr_jsonBody = False, cr_auth = AuthNone, cr_handler = H_statusList,
       cr_parts = [Lit ''/v1/status-list/'', Param ''issuer_id'' None, Lit []] \<rparr>,
     \<lparr> cr_method = ''GET'', cr_jsonBody = False, cr_auth = AuthNone, cr_handler = H_healthz, cr_parts = [Lit ''/healthz''] \<rparr>,
     \<lparr> cr_method = ''GET'', cr_jsonBody = False, cr_auth = AuthNone, cr_handler = H_readyz, cr_parts = [Lit ''/readyz''] \<rparr>,
     \<lparr> cr_method = ''POST'', cr_jsonBody = True, cr_auth = AuthNone, cr_handler = H_session, cr_parts = [Lit ''/v1/session''] \<rparr>,
     \<lparr> cr_method = ''POST'', cr_jsonBody = True, cr_auth = AuthSession, cr_handler = H_issue, cr_parts = [Lit ''/v1/credentials/issue''] \<rparr>]"
  by (simp add: buildServer_def new_router_def gateway_routes_def mk_route_def compile_route_def compile_def param_char_def)

lemma issue_route_gated:
  assumes "match_route buildServer verb path = MatchOk H_issue j a ps" shows "a = AuthSession \<and> j"
proof -
  have "\<forall>c\<in>set buildServer. cr_handler c = H_issue \<longrightarrow> cr_auth c = AuthSession \<and> cr_jsonBody c"
    unfolding buildServer_routes by simp
  then show ?thesis
    using assms scan_routes_cases[where all_routes = buildServer and rs = buildServer and verb = verb and path = path and m = False]
    unfolding match_route_def by auto
qed

lemma admit_Admitted:
  assumes "admit P config router d q = Admitted h ctx"
  obtains j mode where "match_route router (request_method q) (request_path q) = MatchOk h j mode (rx_params ctx)"
    "enforceRouteAuth (pf_crypto P) mode (hq_headers q) (gw_auth config) (dr_authNow d) = Inr (rx_auth ctx)"
  using assms
  by (auto simp: admit_def Let_def split: if_splits body_result.splits match_result.splits sum.splits)

text \<open>The JSON object in the body of a request, as the server reads it.\<close>

definition request_object :: "http_request \<Rightarrow> jsval \<Rightarrow> bool" where
  "request_object q json = (\<exists>raw. captureBody (readSingleHeaderValue (hq_headers q) ''content-length'') (hq_events q) BODY_CAP_BYTES = Body raw
     \<and> parseJsonObject raw = Inr json)"

lemma parsed_is_object: "parseJsonObject raw = Inr json \<Longrightarrow> asRecord json = json"
  by (auto simp: parseJsonObject_def asRecord_def split: if_splits option.splits)

lemma admit_json:
  assumes "admit P config router d q = Admitted h ctx" "match_route router (request_method q) (request_path q) = MatchOk h True mode (rx_params ctx)"
  shows "request_object q (rx_json ctx)"
  using assms
  by (cases ctx) (auto simp: admit_def request_object_def Let_def split: if_splits body_result.splits sum.splits)

text \<open>A request admitted to the issuing handler comes with the subject of a verified bearer token and with a JSON object.\<close>

lemma admitted_issue:
  assumes "admit P config buildServer d q = Admitted H_issue ctx"
  obtains sub where "rx_auth ctx = Some sub" "verifySessionBearer (pf_crypto P) (gw_auth config) (dr_authNow d) (hq_headers q) = Inr sub"
    "request_object q (rx_json ctx)"
proof -
  obtain j mode where m: "match_route buildServer (request_method q) (request_path q) = MatchOk H_issue j mode (rx_params ctx)"
    "enforceRouteAuth (pf_crypto P) mode (hq_headers q) (gw_auth config) (dr_authNow d) = Inr (rx_auth ctx)"
    by (rule admit_Admitted[OF assms])
  then have r: "ebind (verifySessionBearer (pf_crypto P) (gw_auth config) (dr_authNow d) (hq_headers q)) (\<lambda>sub. Inr (Some sub)) = Inr (rx_auth ctx)"
    using issue_route_gated[OF m(1)] by (simp add: enforceRouteAuth_def)
  show thesis
  proof (cases "verifySessionBearer (pf_crypto P) (gw_auth config) (dr_authNow d) (hq_headers q)")
    case (Inr sub)
    then show thesis using that[of sub] r admit_json[OF assms] m(1) issue_route_gated[OF m(1)] by simp
  qed (use r in simp)
qed

lemma issue_checks_Inr:
  assumes "issue_checks config d ctx sessions = Inr q"
  obtains sid r claims e where "jget ''sessionId'' (asRecord (rx_json ctx)) = JString sid" "sessions sid = Some r"
    "rx_auth ctx = Some (ss_walletCAddr r)" "ss_status r = Approved" "readClaimSet (asRecord (rx_json ctx)) = Inr claims"
    "optionalU32 (asRecord (rx_json ctx)) ''expiresAt'' = Inr e" "q = issue_request config (dr_now d) sid (ss_walletCAddr r) claims e"
proof -
  let ?body = "asRecord (rx_json ctx)"
  obtain sid where sid: "requireString ?body ''sessionId'' = Inr sid"
    using assms by (auto simp: issue_checks_def Let_def res_simps)
  obtain r where r: "sessions sid = Some r"
    using assms sid by (auto simp: issue_checks_def Let_def session_get_def split: option.splits)
  have rest: "ebind (assertSessionSubjectBinding (rx_auth ctx) (ss_walletCAddr r)) (\<lambda>_. ebind (assertApproved sessions sid) (\<lambda>_.
      ebind (readClaimSet ?body) (\<lambda>claims. ebind (optionalU32 ?body ''expiresAt'') (\<lambda>e.
      Inr (issue_request config (dr_now d) sid (ss_walletCAddr r) claims e))))) = Inr q"
    using assms by (simp add: issue_checks_def Let_def sid session_get_def r)
  obtain x where x: "assertSessionSubjectBinding (rx_auth ctx) (ss_walletCAddr r) = Inr x" using rest by (auto simp: res_simps)
  obtain claims e where c: "readClaimSet ?body = Inr claims" "optionalU32 ?body ''expiresAt'' = Inr e" "assertApproved sessions sid = Inr ()"
    "q = issue_request config (dr_now d) sid (ss_walletCAddr r) claims e"
    using rest by (auto simp: x res_simps)
  have "jget ''sessionId'' ?body = JString sid" using sid by (auto simp: requireString_def split: jsval.splits if_splits)
  moreover have "rx_auth ctx = Some (ss_walletCAddr r)" using x by (auto simp: assertSessionSubjectBinding_def split: option.splits if_splits)
  moreover have "ss_status r = Approved" using c(3) r by (auto simp: assertApproved_def split: if_splits)
  ultimately show thesis using that r c by blast
qed

lemma sessionHandler_state:
  "snd (sessionHandler P config d ctx sessions) = (case (assertCAddress (jget ''wallet_c_addr'' (asRecord (rx_json ctx))) ''wallet_c_addr'',
       requireChainId (asRecord (rx_json ctx))) of
     (Inr wallet, Inr _) \<Rightarrow> session_create (dr_sessionId d) wallet (dr_now d) sessions | _ \<Rightarrow> sessions)"
  by (auto simp: sessionHandler_def Let_def split: sum.splits)

lemma assertCAddress_Inr: "assertCAddress v what = Inr s \<longleftrightarrow> v = JString s \<and> C_ADDRESS_PATTERN s"
  by (auto simp: assertCAddress_def split: jsval.splits if_splits)

section \<open>Runs of the gateway\<close>

text \<open>
  What happens to a gateway process, latest first: a request served, a verdict of the KYC provider
  (\<open>setStatus\<close>), a change of the revoked indexes.
\<close>

datatype gateway_event = Served draws http_request "http_response option" | Verdict string session_status | Revocations "jsnum list"

inductive gateway_run ::
  "platform \<Rightarrow> ('a \<Rightarrow> (revocation_index_error + nat) \<times> 'a) \<Rightarrow> AppConfig \<Rightarrow> gateway_event list \<Rightarrow> 'a gateway_state \<Rightarrow> bool"
  for P :: platform and alloc :: "'a \<Rightarrow> (revocation_index_error + nat) \<times> 'a" and config :: AppConfig where
  boot: "gateway_run P alloc config [] \<lparr> gs_sessions = Map.empty, gs_alloc = a, gs_revoked = rv \<rparr>"
| served: "gateway_run P alloc config log s \<Longrightarrow> handle P alloc config buildServer d q s = (r, s') \<Longrightarrow>
     gateway_run P alloc config (Served d q r # log) s'"
| verdict: "gateway_run P alloc config log s \<Longrightarrow> setStatus sid v (gs_sessions s) = Inr st \<Longrightarrow>
     gateway_run P alloc config (Verdict sid v # log) (s\<lparr>gs_sessions := st\<rparr>)"
| revocations: "gateway_run P alloc config log s \<Longrightarrow> gateway_run P alloc config (Revocations rv # log) (s\<lparr>gs_revoked := rv\<rparr>)"

text \<open>The session a request opens, if any.\<close>

definition opens_session :: "platform \<Rightarrow> AppConfig \<Rightarrow> draws \<Rightarrow> http_request \<Rightarrow> string option" where
  "opens_session P config d q = (case admit P config buildServer d q of
     Admitted H_session ctx \<Rightarrow>
       (case (assertCAddress (jget ''wallet_c_addr'' (asRecord (rx_json ctx))) ''wallet_c_addr'', requireChainId (asRecord (rx_json ctx))) of
          (Inr wallet, Inr _) \<Rightarrow> Some wallet | _ \<Rightarrow> None)
   | _ \<Rightarrow> None)"

text \<open>What the store promises of a session, read off the events alone: the wallet of the request that opened it and its last verdict.\<close>

fun session_spec :: "platform \<Rightarrow> AppConfig \<Rightarrow> gateway_event list \<Rightarrow> string \<Rightarrow> (string \<times> session_status) option" where
  "session_spec P config [] sid = None"
| "session_spec P config (Served d q r # log) sid = (case opens_session P config d q of
     None \<Rightarrow> session_spec P config log sid
   | Some wallet \<Rightarrow> if sid = dr_sessionId d then Some (wallet, Pending) else session_spec P config log sid)"
| "session_spec P config (Verdict sid' v # log) sid =
     (if sid = sid' then map_option (\<lambda>e. (fst e, v)) (session_spec P config log sid) else session_spec P config log sid)"
| "session_spec P config (Revocations rv # log) sid = session_spec P config log sid"

definition session_view :: "session_store \<Rightarrow> string \<Rightarrow> (string \<times> session_status) option" where
  "session_view st sid = map_option (\<lambda>r. (ss_walletCAddr r, ss_status r)) (st sid)"

lemma handle_sessions:
  "handle P alloc config buildServer d q s = (r, s') \<Longrightarrow>
     session_view (gs_sessions s') sid = (case opens_session P config d q of None \<Rightarrow> session_view (gs_sessions s) sid
       | Some wallet \<Rightarrow> if sid = dr_sessionId d then Some (wallet, Pending) else session_view (gs_sessions s) sid)"
proof (cases "admit P config buildServer d q")
  case (Admitted h ctx)
  assume h: "handle P alloc config buildServer d q s = (r, s')"
  show ?thesis
  proof (cases h)
    case H_session
    have "gs_sessions s' = snd (sessionHandler P config d ctx (gs_sessions s))"
      using h Admitted H_session by (auto simp: handle_def dispatch_def split: prod.splits)
    then show ?thesis using Admitted H_session
      by (auto simp: sessionHandler_state opens_session_def session_create_def session_view_def split: sum.splits)
  next
    case H_issue
    have "gs_sessions s' = gs_sessions s" using h Admitted H_issue by (auto simp: handle_def dispatch_def split: prod.splits)
    then show ?thesis using Admitted H_issue by (simp add: opens_session_def)
  qed (use h Admitted in \<open>auto simp: handle_def dispatch_def opens_session_def\<close>)
qed (auto simp: handle_def opens_session_def)

lemma run_refines: "gateway_run P alloc config log s \<Longrightarrow> session_view (gs_sessions s) sid = session_spec P config log sid"
proof (induction rule: gateway_run.induct)
  case (served log s d q r s')
  show ?case by (simp add: handle_sessions[OF served.hyps(2)] served.IH split: option.split)
next
  case (verdict log s sid' v st)
  then obtain x where x: "gs_sessions s sid' = Some x" "st = (gs_sessions s)(sid' \<mapsto> x\<lparr>ss_status := v\<rparr>)"
    by (auto simp: setStatus_def split: option.splits)
  show ?case
  proof (cases "sid = sid'")
    case True
    then have "session_spec P config log sid = Some (ss_walletCAddr x, ss_status x)"
      using verdict.IH x(1) by (simp add: session_view_def)
    then show ?thesis using True by (simp add: session_view_def x(2))
  next
    case False
    then show ?thesis using verdict.IH by (simp add: session_view_def x(2))
  qed
qed (simp_all add: session_view_def)

text \<open>Only the issuing handler answers with a credential, and only after its checks.\<close>

lemma error_body: "jget ''credential'' (hr_body (writeError rid e)) = JUndefined"
  by (simp add: writeError_def writeJson_def)

lemma admit_Refused: "admit P config router d q = Refused r \<Longrightarrow> \<exists>e a. r = (writeError (resolveRequestId (hq_headers q) (dr_requestId d)) e)\<lparr>hr_allow := a\<rparr>"
proof -
  have w: "writeError rid e = (writeError rid e)\<lparr>hr_allow := []\<rparr>" for rid e by (simp add: writeError_def writeJson_def)
  assume "admit P config router d q = Refused r"
  then show ?thesis
    unfolding admit_def Let_def refuse_def
    by (auto split: if_splits body_result.splits match_result.splits sum.splits intro: w)
qed

lemma credential_response:
  assumes "handle P alloc config buildServer d q s = (Some resp, s')" "hr_status resp = 201" "jget ''credential'' (hr_body resp) \<noteq> JUndefined"
  obtains ctx rq ic where "admit P config buildServer d q = Admitted H_issue ctx" "issue_checks config d ctx (gs_sessions s) = Inr rq"
    "issueKycCredential (pf_noble P) (pf_bbs P) alloc (dr_salt d) rq (gs_alloc s) = (Inr ic, gs_alloc s')"
    "hr_body resp = issued_body P ic"
proof (cases "admit P config buildServer d q")
  case (Refused r)
  then have "jget ''credential'' (hr_body resp) = JUndefined"
    using assms(1) admit_Refused[OF Refused] error_body by (auto simp: handle_def)
  then show ?thesis using assms(3) by simp
next
  case (Admitted h ctx)
  obtain r t where r: "dispatch P alloc config d h ctx s = (r, t)" by fastforce
  have resp: "resp = respond (resolveRequestId (hq_headers q) (dr_requestId d)) r" "s' = t"
    using assms(1) Admitted r by (auto simp: handle_def)
  obtain status body where ok: "r = Inr (status, body)"
    using resp(1) assms(3) error_body by (cases r) (auto simp: respond_def)
  have sb: "status = 201" "jget ''credential'' body \<noteq> JUndefined" "hr_body resp = body"
    using resp(1) assms(2,3) ok by (auto simp: respond_def writeJson_def)
  show ?thesis
  proof (cases h)
    case H_issue
    obtain x a where x: "issueHandler P alloc config d ctx (gs_sessions s) (gs_alloc s) = (x, a)" by fastforce
    have t: "r = x" "t = s\<lparr>gs_alloc := a\<rparr>" using r x H_issue by (auto simp: dispatch_def)
    obtain rq where rq: "issue_checks config d ctx (gs_sessions s) = Inr rq"
      using x t ok by (cases "issue_checks config d ctx (gs_sessions s)") (auto simp: issueHandler_def)
    obtain y b where y: "issueKycCredential (pf_noble P) (pf_bbs P) alloc (dr_salt d) rq (gs_alloc s) = (y, b)" by fastforce
    obtain ic where ic: "y = Inr ic" "body = issued_body P ic" "a = b"
      using x t ok rq y by (cases y) (auto simp: issueHandler_def)
    have "gs_alloc s' = b" using resp(2) t ic(3) by simp
    then show ?thesis using that[OF Admitted[unfolded H_issue] rq] y ic sb(3) by blast
  next
    case H_session
    then show ?thesis using r ok sb(2) by (auto simp: dispatch_def sessionHandler_def Let_def res_simps split: sum.splits prod.splits)
  qed (use r ok sb(1) in \<open>auto simp: dispatch_def wellKnownHandler_def schemaHandler_def statusListHandler_def healthzHandler_def
      readyzHandler_def Let_def res_simps split: if_splits\<close>)
qed (use assms(1) in \<open>auto simp: handle_def\<close>)

text \<open>A well-formed JSON request reaches the handler of its route.\<close>

definition post_json :: "string \<Rightarrow> headers \<Rightarrow> jsval \<Rightarrow> http_request" where
  "post_json url hs body =
     \<lparr> hq_method = Some ''POST'', hq_url = Some url, hq_headers = hs, hq_events = [Chunk (ref_utf8 (json_stringify body)), StreamEnd] \<rparr>"

definition SESSION_PATH :: string where "SESSION_PATH = ''/v1/session''"

definition ISSUE_PATH :: string where "ISSUE_PATH = ''/v1/credentials/issue''"

lemma match_session: "match_route buildServer ''POST'' SESSION_PATH = MatchOk H_session True AuthNone (\<lambda>_. None)"
  by (simp add: match_route_def buildServer_routes SESSION_PATH_def starts_with_def params_of_def)

lemma match_issue: "match_route buildServer ''POST'' ISSUE_PATH = MatchOk H_issue True AuthSession (\<lambda>_. None)"
  by (simp add: match_route_def buildServer_routes ISSUE_PATH_def starts_with_def params_of_def)

lemma post_json_facts:
  "request_path (post_json SESSION_PATH hs body) = SESSION_PATH" "request_path (post_json ISSUE_PATH hs body) = ISSUE_PATH"
  "request_method (post_json url hs body) = ''POST''" "hq_headers (post_json url hs body) = hs"
  by (simp_all add: request_path_def request_method_def post_json_def SESSION_PATH_def ISSUE_PATH_def ascii_upper_def)

lemma path_encoding_ok: "assertValidPathEncoding SESSION_PATH" "assertValidPathEncoding ISSUE_PATH"
  by (simp_all add: SESSION_PATH_def ISSUE_PATH_def assertValidPathEncoding.simps)

lemma json_body_parses:
  assumes "plain body" "is_object body"
  shows "parseJsonObject (ref_utf8 (json_stringify body)) = Inr body"
proof -
  obtain kvs where "body = JObject kvs" using assms(2) by (cases body) auto
  then have "ref_utf8 (json_stringify body) \<noteq> []" by (simp add: Let_def)
  then show ?thesis using json_parse_stringify[OF assms(1)] assms(2) by (simp add: parseJsonObject_def utf8_text_ref)
qed

lemma body_captured:
  assumes "hs ''content-length'' = None" "length (ref_utf8 (json_stringify body)) \<le> BODY_CAP_BYTES"
  shows "captureBody (readSingleHeaderValue (hq_headers (post_json url hs body)) ''content-length'') (hq_events (post_json url hs body)) BODY_CAP_BYTES
     = Body (ref_utf8 (json_stringify body))"
  using assms by (simp add: captureBody_def readSingleHeaderValue_def post_json_def)

lemma session_request_admitted:
  assumes "plain body" "is_object body" "hs ''content-length'' = None" "length (ref_utf8 (json_stringify body)) \<le> BODY_CAP_BYTES"
  shows "admit P config buildServer d (post_json SESSION_PATH hs body) = Admitted H_session \<lparr> rx_params = (\<lambda>_. None), rx_json = body, rx_auth = None \<rparr>"
  using body_captured[where url = SESSION_PATH and hs = hs and body = body, OF assms(3,4)] json_body_parses[OF assms(1,2)] path_encoding_ok match_session
  by (simp add: admit_def Let_def post_json_facts enforceRouteAuth_def)

lemma issue_request_admitted:
  assumes "plain body" "is_object body" "hs ''content-length'' = None" "length (ref_utf8 (json_stringify body)) \<le> BODY_CAP_BYTES"
  shows "admit P config buildServer d (post_json ISSUE_PATH hs body) =
    (case verifySessionBearer (pf_crypto P) (gw_auth config) (dr_authNow d) hs of
       Inl e \<Rightarrow> Refused (writeError (resolveRequestId hs (dr_requestId d)) (toHttpError e))
     | Inr sub \<Rightarrow> Admitted H_issue \<lparr> rx_params = (\<lambda>_. None), rx_json = body, rx_auth = Some sub \<rparr>)"
  using body_captured[where url = ISSUE_PATH and hs = hs and body = body, OF assms(3,4)] json_body_parses[OF assms(1,2)] path_encoding_ok match_issue
  by (simp add: admit_def Let_def post_json_facts enforceRouteAuth_def split: sum.split)

text \<open>The answer to a request that opens a session carries a token for its wallet.\<close>

lemma error_token: "jget ''session_token'' (hr_body (writeError rid e)) = JUndefined"
  by (simp add: writeError_def writeJson_def)

lemma session_opened:
  assumes "handle P alloc config buildServer d q s = (Some resp, s')" "opens_session P config d q = Some wallet"
    and "jget ''session_token'' (hr_body resp) = JString token"
  shows "jwt_issuer P config \<lparr> sj_sessionId = dr_sessionId d, sj_walletCAddr = wallet, sj_issuedAt = dr_now d,
        sj_expiresAt = js_add (dr_now d) SESSION_JWT_MAX_TTL_SECONDS \<rparr> = Inr token"
    and "hr_status resp = 201" and "jget ''session_id'' (hr_body resp) = JString (dr_sessionId d)"
    and "gs_sessions s' = session_create (dr_sessionId d) wallet (dr_now d) (gs_sessions s)"
proof -
  obtain ctx x where a: "admit P config buildServer d q = Admitted H_session ctx"
    "assertCAddress (jget ''wallet_c_addr'' (asRecord (rx_json ctx))) ''wallet_c_addr'' = Inr wallet" "requireChainId (asRecord (rx_json ctx)) = Inr x"
    using assms(2) by (auto simp: opens_session_def split: admission.splits handler_id.splits sum.splits)
  obtain r st where r: "sessionHandler P config d ctx (gs_sessions s) = (r, st)" by fastforce
  have h: "resp = respond (resolveRequestId (hq_headers q) (dr_requestId d)) r" "s' = s\<lparr>gs_sessions := st\<rparr>"
    using assms(1) a(1) r by (auto simp: handle_def dispatch_def)
  obtain status body where b: "r = Inr (status, body)"
    using h(1) assms(3) error_token by (cases r) (auto simp: respond_def)
  let ?claims = "\<lparr> sj_sessionId = dr_sessionId d, sj_walletCAddr = wallet, sj_issuedAt = dr_now d,
        sj_expiresAt = js_add (dr_now d) SESSION_JWT_MAX_TTL_SECONDS \<rparr>"
  obtain tok where t: "jwt_issuer P config ?claims = Inr tok" "status = 201" "st = session_create (dr_sessionId d) wallet (dr_now d) (gs_sessions s)"
    "body = JObject [(''session_id'', JString (dr_sessionId d)), (''session_token'', JString tok), (''expires_at'', JNum (sj_expiresAt ?claims))]"
    using r a(2,3) b by (auto simp: sessionHandler_def Let_def res_simps)
  show "jwt_issuer P config ?claims = Inr token" "hr_status resp = 201" "jget ''session_id'' (hr_body resp) = JString (dr_sessionId d)"
    "gs_sessions s' = session_create (dr_sessionId d) wallet (dr_now d) (gs_sessions s)"
    using t h b assms(3) by (simp_all add: respond_def writeJson_def)
qed

lemma issue_checks_ok:
  assumes "sessions sid = Some r" "ss_status r = Approved" "sid \<noteq> []" "jget ''sessionId'' body = JString sid" "is_object body"
    and "readClaimSet body = Inr claims" "optionalU32 body ''expiresAt'' = Inr e"
  shows "issue_checks config d \<lparr> rx_params = ps, rx_json = body, rx_auth = Some (ss_walletCAddr r) \<rparr> sessions
     = Inr (issue_request config (dr_now d) sid (ss_walletCAddr r) claims e)"
  using assms by (simp add: issue_checks_def asRecord_def requireString_def session_get_def assertSessionSubjectBinding_def assertApproved_def)

text \<open>The issuing request that follows an approval.\<close>

lemma onboarded:
  assumes "crypto_ok (pf_crypto P)" "ko_type key = ''private''" "Es256SessionJwtIssuer (pf_crypto P) key iss aud = Inr j"
    and "gw_sessionJwtIssuer config = Some j" "gw_auth config = Some \<lparr> ga_publicKey = ji_verificationKey j, ga_issuer = iss, ga_audience = aud \<rparr>"
    and "handle P alloc config buildServer d q s = (Some resp, s1)" "opens_session P config d q = Some wallet"
    and "jget ''session_token'' (hr_body resp) = JString token" "length token \<le> 8185" "dr_sessionId d \<noteq> []"
    and "gateway_run P alloc config log s2" "session_spec P config log (dr_sessionId d) = Some (wallet, Approved)"
    and "dr_now d = JInt a" "dr_authNow d' = JInt t" "a \<le> t" "t < a + 900"
    and "plain body" "is_object body" "length (ref_utf8 (json_stringify body)) \<le> BODY_CAP_BYTES"
    and "jget ''sessionId'' body = JString (dr_sessionId d)" "readClaimSet body = Inr claims" "optionalU32 body ''expiresAt'' = Inr e"
    and "issueKycCredential (pf_noble P) (pf_bbs P) alloc (dr_salt d') (issue_request config (dr_now d') (dr_sessionId d) wallet claims e) (gs_alloc s2)
           = (Inr ic, al)"
  shows "\<exists>r. handle P alloc config buildServer d' (post_json ISSUE_PATH [''authorization'' \<mapsto> HText (''Bearer '' @ token)] body) s2
      = (Some r, s2\<lparr>gs_alloc := al\<rparr>) \<and> hr_status r = 201 \<and> hr_body r = issued_body P ic"
proof -
  let ?hs = "[''authorization'' \<mapsto> HText (''Bearer '' @ token)]" and ?sid = "dr_sessionId d"
  let ?c = "\<lparr> sj_sessionId = ?sid, sj_walletCAddr = wallet, sj_issuedAt = JInt a, sj_expiresAt = JInt (a + 900) \<rparr>"
  note opened = session_opened[OF assms(6-8)]
  have "issue_session_jwt (pf_crypto P) j ?c = Inr token"
    using opened(1) assms(4,13) by (simp add: jwt_issuer_def SESSION_JWT_MAX_TTL_SECONDS_def)
  moreover have "?hs ''authorization'' = Some (HText (''Bearer '' @ token))" by simp
  ultimately obtain a0 e0 where "sj_issuedAt ?c = JInt a0" "sj_expiresAt ?c = JInt e0"
    "\<forall>t\<in>{a0..<e0}. enforceRouteAuth (pf_crypto P) AuthSession ?hs (gw_auth config) (JInt t) = Inr (Some (sj_walletCAddr ?c))"
    using session_bearer_accepted[where c = ?c and hs = ?hs, OF assms(1-3) _ assms(9)] assms(5) by metis
  then have "enforceRouteAuth (pf_crypto P) AuthSession ?hs (gw_auth config) (JInt t) = Inr (Some wallet)" using assms(15,16) by simp
  then have bearer: "verifySessionBearer (pf_crypto P) (gw_auth config) (dr_authNow d') ?hs = Inr wallet"
    using assms(14) by (cases "verifySessionBearer (pf_crypto P) (gw_auth config) (JInt t) ?hs") (simp_all add: enforceRouteAuth_def)
  obtain x where x: "gs_sessions s2 ?sid = Some x" "ss_walletCAddr x = wallet" "ss_status x = Approved"
    using run_refines[OF assms(11), of ?sid] assms(12) by (auto simp: session_view_def)
  then have checks: "issue_checks config d' \<lparr> rx_params = (\<lambda>_. None), rx_json = body, rx_auth = Some wallet \<rparr> (gs_sessions s2)
      = Inr (issue_request config (dr_now d') ?sid wallet claims e)"
    using issue_checks_ok[of "gs_sessions s2" ?sid x body claims e config d' "\<lambda>_. None"] assms(10,18,20-22) by simp
  have "?hs ''content-length'' = None" by simp
  note adm = issue_request_admitted[where hs = ?hs and body = body and P = P and config = config and d = d', OF assms(17,18) this assms(19), unfolded bearer sum.case]
  have "issueHandler P alloc config d' \<lparr> rx_params = (\<lambda>_. None), rx_json = body, rx_auth = Some wallet \<rparr> (gs_sessions s2) (gs_alloc s2)
      = (Inr (201, issued_body P ic), al)"
    by (simp add: issueHandler_def checks assms(23))
  then show ?thesis by (simp add: handle_def adm dispatch_def respond_def writeJson_def del: append.simps)
qed

text \<open>A concrete gateway.\<close>

definition toy_platform :: platform where
  "toy_platform = \<lparr> pf_noble = noble_ref, pf_bbs = toy_bbs, pf_crypto = toy_crypto, pf_curve = one_point_curve,
     pf_h2c = \<lparr> expand_message_xmd = (\<lambda>_ _ n. replicate n 0), hash_to_g1 = (\<lambda>_ _. replicate 48 0), g1_recompress = id \<rparr>,
     pf_ed = toy_ed, pf_gzip = gzip_identity, pf_url = toy_url \<rparr>"

definition toy_app :: AppConfig where
  "toy_app = \<lparr> gw_network = ''testnet'', gw_networkPassphrase = ''Test'', gw_kycGateContractId = ''CG'', gw_kycRegistryContractId = ''CR'',
     gw_issuerPublicKey = replicate 96 0, gw_issuerSecretKey = replicate 32 0, gw_statusListUrl = ''https://s'',
     gw_signingKey = pb_signingKey toy_publish, gw_verificationMethod = ''k1'', gw_sessionJwtIssuer = Some toy_jwt_issuer,
     gw_kycApplicantCreator = Some (\<lambda>_ _. Inr ''a1''),
     gw_auth = Some \<lparr> ga_publicKey = ji_verificationKey toy_jwt_issuer, ga_issuer = ''gw'', ga_audience = ''app'' \<rparr> \<rparr>"

definition toy_wallet :: string where "toy_wallet = CHR ''C'' # replicate 55 CHR ''A''"

definition toy_draws :: "int \<Rightarrow> draws" where
  "toy_draws t = \<lparr> dr_requestId = ''r'', dr_sessionId = ''s1'', dr_salt = replicate 32 7, dr_authNow = JInt t, dr_now = JInt t \<rparr>"

definition toy_open :: http_request where
  "toy_open = post_json SESSION_PATH Map.empty (JObject [(''wallet_c_addr'', JString toy_wallet), (''chain_id'', JString ''c'')])"

definition toy_issue_body :: jsval where
  "toy_issue_body = JObject [(''sessionId'', JString ''s1''), (''over18'', JBool True), (''over21'', JBool False), (''notSanctioned'', JBool True),
     (''notPep'', JBool True), (''jurisdictionOk'', JBool False), (''livenessOk'', JBool True)]"

definition toy_gateway :: "InMemoryAllocator gateway_state" where
  "toy_gateway = \<lparr> gs_sessions = Map.empty, gs_alloc = \<lparr> im_next = 3, im_max = 9 \<rparr>, gs_revoked = [] \<rparr>"

lemma toy_wallet_facts: "C_ADDRESS_PATTERN toy_wallet" "toy_wallet \<noteq> []" "length toy_wallet \<le> 56" "\<forall>c\<in>set toy_wallet. is_base32_char c"
  by (auto simp: toy_wallet_def C_ADDRESS_PATTERN_def is_base32_char_def list_all_iff)

lemma wallet_quoted: "json_quote toy_wallet = char_of (34 :: nat) # toy_wallet @ [char_of (34 :: nat)]"
proof -
  have "map quote_char (replicate n CHR ''A'') = replicate n [CHR ''A'']" for n by (simp add: map_replicate_const quote_char_def code_def)
  then have "concat (map quote_char toy_wallet) = toy_wallet"
    by (simp add: toy_wallet_def quote_char_def code_def)
  then show ?thesis by (simp add: json_quote_def)
qed

lemma toy_open_admitted:
  "admit toy_platform toy_app buildServer (toy_draws t) toy_open = Admitted H_session \<lparr> rx_params = (\<lambda>_. None),
     rx_json = JObject [(''wallet_c_addr'', JString toy_wallet), (''chain_id'', JString ''c'')], rx_auth = None \<rparr>"
  unfolding toy_open_def
proof (rule session_request_admitted)
  let ?b = "JObject [(''wallet_c_addr'', JString toy_wallet), (''chain_id'', JString ''c'')]"
  have "length (json_stringify ?b) \<le> 500"
    using toy_wallet_facts(3) by (simp add: wallet_quoted) (simp add: json_quote_def quote_char_def code_def)
  then show "length (ref_utf8 (json_stringify ?b)) \<le> BODY_CAP_BYTES"
    using utf8_length[of "json_stringify ?b"] by (simp add: BODY_CAP_BYTES_def del: json_stringify.simps)
qed simp_all

lemma toy_opens: "opens_session toy_platform toy_app (toy_draws t) toy_open = Some toy_wallet"
  using toy_wallet_facts(1)
  by (simp add: opens_session_def toy_open_admitted asRecord_def assertCAddress_def requireChainId_def MAX_CHAIN_ID_CHARS_def control_char_def)

lemma toy_opened:
  "\<exists>resp s token. handle toy_platform allocate toy_app buildServer (toy_draws 100) toy_open toy_gateway = (Some resp, s)
     \<and> jget ''session_token'' (hr_body resp) = JString token \<and> length token \<le> 8185 \<and> gs_alloc s = \<lparr> im_next = 3, im_max = 9 \<rparr>"
proof -
  obtain token where t: "issue_session_jwt toy_crypto toy_jwt_issuer
      \<lparr> sj_sessionId = ''s1'', sj_walletCAddr = toy_wallet, sj_issuedAt = JInt 100, sj_expiresAt = JInt 1000 \<rparr> = Inr token" "length token \<le> 8185"
    using toy_jwt_issues[OF toy_wallet_facts(2-4), of "''s1''"] by blast
  have "jwt_issuer toy_platform toy_app \<lparr> sj_sessionId = ''s1'', sj_walletCAddr = toy_wallet, sj_issuedAt = JInt 100, sj_expiresAt = JInt 1000 \<rparr> = Inr token"
    using t(1) by (simp add: jwt_issuer_def toy_app_def toy_platform_def)
  moreover have "applicant_creator toy_app toy_wallet sid = Inr ''a1''" for sid by (simp add: applicant_creator_def toy_app_def)
  ultimately have "sessionHandler toy_platform toy_app (toy_draws 100) \<lparr> rx_params = (\<lambda>_. None),
      rx_json = JObject [(''wallet_c_addr'', JString toy_wallet), (''chain_id'', JString ''c'')], rx_auth = None \<rparr> Map.empty
     = (Inr (201, JObject [(''session_id'', JString ''s1''), (''session_token'', JString token), (''expires_at'', JNum (JInt 1000))]),
        session_create ''s1'' toy_wallet (JInt 100) Map.empty)"
    using toy_wallet_facts(1)
    by (simp add: sessionHandler_def Let_def asRecord_def assertCAddress_def requireChainId_def MAX_CHAIN_ID_CHARS_def control_char_def
        toy_draws_def SESSION_JWT_MAX_TTL_SECONDS_def)
  then show ?thesis
    using t(2) by (simp add: handle_def toy_open_admitted dispatch_def toy_gateway_def respond_def writeJson_def)
qed

lemma toy_issue_body_facts:
  "plain toy_issue_body" "is_object toy_issue_body" "jget ''sessionId'' toy_issue_body = JString ''s1''"
  "optionalU32 toy_issue_body ''expiresAt'' = Inr None" "readClaimSet toy_issue_body = Inr (rq_claims toy_request)"
  "length (ref_utf8 (json_stringify toy_issue_body)) \<le> BODY_CAP_BYTES"
proof -
  have "length (json_stringify toy_issue_body) \<le> 500" by (simp add: toy_issue_body_def json_quote_def quote_char_def code_def)
  then show "length (ref_utf8 (json_stringify toy_issue_body)) \<le> BODY_CAP_BYTES"
    using utf8_length[of "json_stringify toy_issue_body"] by (simp add: BODY_CAP_BYTES_def)
qed (simp_all add: toy_issue_body_def optionalU32_def readClaimSet_def read_claim_def toy_request_def)

lemma toy_credential_issued:
  "\<exists>ic. issueKycCredential (pf_noble toy_platform) (pf_bbs toy_platform) allocate (dr_salt (toy_draws 500))
       (issue_request toy_app (dr_now (toy_draws 500)) ''s1'' toy_wallet (rq_claims toy_request) None) \<lparr> im_next = 3, im_max = 9 \<rparr> = (Inr ic, \<lparr> im_next = 4, im_max = 9 \<rparr>)"
proof -
  let ?q = "issue_request toy_app (JInt 500) ''s1'' toy_wallet (rq_claims toy_request) None"
  have q: "rq_claims ?q = rq_claims toy_request" "rq_walletAddress ?q = toy_wallet" "rq_issuedAt ?q = JInt 500" "rq_expiresAt ?q = JInt 86900"
    "rq_issuerSecretKey ?q = replicate 32 0" "rq_issuerPublicKey ?q = replicate 96 0" "rq_provider ?q = ''kyc-provider''"
    "rq_providerRefId ?q = ''s1''" "rq_subjectId ?q = ''s1''" "rq_salt ?q = None"
    by (simp_all add: issue_request_def toy_app_def DEFAULT_CREDENTIAL_LIFETIME_SECONDS_def)
  have bm: "claimBitmap (rq_claims toy_request) \<noteq> 0" using toy_bitmap by auto
  have "\<exists>sb. validate_request noble_ref (replicate 32 7) ?q = Inr (replicate 32 7, sb) \<and> hex32 sb"
    unfolding validate_request_Inr q using bm
    by (auto simp: computeSubjectBinding_def SUBJECT_BINDING_SALT_BYTES_def toy_wallet_def)
  then obtain sb where sb: "validate_request noble_ref (replicate 32 7) ?q = Inr (replicate 32 7, sb)" "hex32 sb" by blast
  have m: "(3 :: nat) \<le> MAX_REVOCATION_INDEX" by (simp add: MAX_REVOCATION_INDEX_def)
  have "\<exists>ic. issue_with_index noble_ref toy_bbs ?q (replicate 32 7) sb 3 = Inr ic"
    by (rule reference_issues[OF sb(2) m, where a = 500 and e = 86900]) (use q bm toy_wallet_facts(2) in simp_all)
  then show ?thesis
    unfolding issueKycCredential_Inr using sb(1) m by (auto simp: allocate_def toy_platform_def toy_draws_def)
qed

lemma toy_crypto_facts:
  "crypto_ok (pf_crypto toy_platform)" "ko_type toy_key = ''private''"
  "Es256SessionJwtIssuer (pf_crypto toy_platform) toy_key ''gw'' ''app'' = Inr toy_jwt_issuer"
  "gw_sessionJwtIssuer toy_app = Some toy_jwt_issuer"
  "gw_auth toy_app = Some \<lparr> ga_publicKey = ji_verificationKey toy_jwt_issuer, ga_issuer = ''gw'', ga_audience = ''app'' \<rparr>"
  by (simp_all add: toy_platform_def toy_app_def toy_crypto_ok toy_key_facts Es256SessionJwtIssuer_def toy_jwt_issuer_def)

lemma toy_session_approved:
  assumes "handle toy_platform allocate toy_app buildServer (toy_draws 100) toy_open toy_gateway = (Some resp, s)"
    "setStatus (dr_sessionId (toy_draws 100)) Approved (gs_sessions s) = Inr st"
  defines "log \<equiv> [Verdict (dr_sessionId (toy_draws 100)) Approved, Served (toy_draws 100) toy_open (Some resp)]"
  shows "gateway_run toy_platform allocate toy_app log (s\<lparr>gs_sessions := st\<rparr>)"
    and "session_spec toy_platform toy_app log (dr_sessionId (toy_draws 100)) = Some (toy_wallet, Approved)"
proof -
  have "gateway_run toy_platform allocate toy_app [] toy_gateway" unfolding toy_gateway_def by (rule gateway_run.boot)
  from gateway_run.verdict[OF gateway_run.served[OF this assms(1)] assms(2)]
  show "gateway_run toy_platform allocate toy_app log (s\<lparr>gs_sessions := st\<rparr>)" unfolding log_def .
qed (simp add: log_def toy_opens)

lemma toy_onboarding:
  obtains log s s' hs resp ic where "gateway_run toy_platform allocate toy_app log s" "length log = 2" "hs ''content-length'' = None"
    "session_spec toy_platform toy_app log ''s1'' = Some (toy_wallet, Approved)"
    "handle toy_platform allocate toy_app buildServer (toy_draws 500) (post_json ISSUE_PATH hs toy_issue_body) s = (Some resp, s')"
    "hr_status resp = 201" "hr_body resp = issued_body toy_platform ic"
proof -
  obtain resp s token where o: "handle toy_platform allocate toy_app buildServer (toy_draws 100) toy_open toy_gateway = (Some resp, s)"
    "jget ''session_token'' (hr_body resp) = JString token" "length token \<le> 8185" "gs_alloc s = \<lparr> im_next = 3, im_max = 9 \<rparr>"
    using toy_opened by blast
  obtain st where st: "setStatus (dr_sessionId (toy_draws 100)) Approved (gs_sessions s) = Inr st"
    using session_opened(4)[OF o(1) toy_opens o(2)] by (auto simp: setStatus_def session_create_def)
  have d: "dr_sessionId (toy_draws 100) \<noteq> []" "dr_now (toy_draws 100) = JInt 100" "dr_authNow (toy_draws 500) = JInt 500"
    "dr_sessionId (toy_draws 100) = ''s1''" "(100 :: int) \<le> 500" "(500 :: int) < 100 + 900"
    by (simp_all add: toy_draws_def)
  obtain ic where ic: "issueKycCredential (pf_noble toy_platform) (pf_bbs toy_platform) allocate (dr_salt (toy_draws 500))
       (issue_request toy_app (dr_now (toy_draws 500)) (dr_sessionId (toy_draws 100)) toy_wallet (rq_claims toy_request) None) (gs_alloc (s\<lparr>gs_sessions := st\<rparr>))
      = (Inr ic, \<lparr> im_next = 4, im_max = 9 \<rparr>)"
    using toy_credential_issued o(4) d(4) by auto
  let ?log = "[Verdict (dr_sessionId (toy_draws 100)) Approved, Served (toy_draws 100) toy_open (Some resp)]"
  have run: "gateway_run toy_platform allocate toy_app ?log (s\<lparr>gs_sessions := st\<rparr>)"
    and spec: "session_spec toy_platform toy_app ?log (dr_sessionId (toy_draws 100)) = Some (toy_wallet, Approved)"
    by (rule toy_session_approved[OF o(1) st])+
  obtain r where r: "handle toy_platform allocate toy_app buildServer (toy_draws 500) (post_json ISSUE_PATH [''authorization'' \<mapsto> HText (''Bearer '' @ token)] toy_issue_body)
       (s\<lparr>gs_sessions := st\<rparr>) = (Some r, s\<lparr>gs_sessions := st, gs_alloc := \<lparr> im_next = 4, im_max = 9 \<rparr>\<rparr>)"
    "hr_status r = 201" "hr_body r = issued_body toy_platform ic"
    using onboarded[OF toy_crypto_facts o(1) toy_opens o(2,3) d(1) run spec d(2,3,5,6)
        toy_issue_body_facts(1,2,6) toy_issue_body_facts(3)[folded d(4)] toy_issue_body_facts(5,4) ic] by blast
  have "session_spec toy_platform toy_app ?log ''s1'' = Some (toy_wallet, Approved)" using spec by (simp only: d(4))
  from that[OF run _ _ this r(1-3)] show thesis by simp
qed

section \<open>Properties\<close>

text \<open>
  C22. The session store is what the events say: after any run of the gateway, the session under an
  id is the wallet of the last request that opened it, with the last verdict given on it since
  (pending before any), and no session exists that no request opened.
\<close>

theorem sessions_refine_events:
  assumes "gateway_run P alloc config log s"
  shows "session_view (gs_sessions s) sid = session_spec P config log sid"
  using assms by (rule run_refines)

theorem sessions_refine_events_witness:
  "\<exists>log s. gateway_run toy_platform allocate toy_app log s \<and> length log = 2
     \<and> session_spec toy_platform toy_app log ''s1'' = Some (toy_wallet, Approved)
     \<and> session_view (gs_sessions s) ''s1'' = Some (toy_wallet, Approved)"
proof -
  obtain log s where r: "gateway_run toy_platform allocate toy_app log s" "length log = 2"
    "session_spec toy_platform toy_app log ''s1'' = Some (toy_wallet, Approved)"
    by (rule toy_onboarding)
  with sessions_refine_events[OF r(1), of "''s1''"] show ?thesis by auto
qed

text \<open>
  C21. Nobody but the owner of an approved session gets a credential: when the gateway answers 201
  with a credential, the body of the request was a JSON object; the session it names by
  \<open>sessionId\<close> was opened for some wallet, and the last verdict on it was an approval; the request
  carried a bearer token that is authentic under the session key, in its window, and whose subject is that
  wallet; and the credential in the answer is the one issued for exactly that wallet, that session
  and the claims in the body, under one fresh index.
\<close>

theorem credential_only_for_approved_owner:
  assumes "gateway_run P alloc config log s" and "handle P alloc config buildServer d q s = (Some resp, s')"
    and "hr_status resp = 201" and "jget ''credential'' (hr_body resp) \<noteq> JUndefined"
  shows "\<exists>json sid wallet a token bag v rq ic. request_object q json \<and> jget ''sessionId'' json = JString sid
    \<and> session_spec P config log sid = Some (wallet, Approved)
    \<and> gw_auth config = Some a \<and> readSingleHeaderValue (hq_headers q) ''authorization'' = Some (''Bearer '' @ token)
    \<and> jws_authentic (pf_crypto P) token (session_options a (dr_authNow d)) bag \<and> v = verified_claims bag (vj_jti v)
    \<and> claims_accepted (session_options a (dr_authNow d)) v \<and> vj_sub v = wallet
    \<and> rq_walletAddress rq = wallet \<and> rq_subjectId rq = sid \<and> readClaimSet json = Inr (rq_claims rq)
    \<and> issueKycCredential (pf_noble P) (pf_bbs P) alloc (dr_salt d) rq (gs_alloc s) = (Inr ic, gs_alloc s')
    \<and> hr_body resp = issued_body P ic"
proof -
  obtain ctx rq ic where c: "admit P config buildServer d q = Admitted H_issue ctx" "issue_checks config d ctx (gs_sessions s) = Inr rq"
    "issueKycCredential (pf_noble P) (pf_bbs P) alloc (dr_salt d) rq (gs_alloc s) = (Inr ic, gs_alloc s')" "hr_body resp = issued_body P ic"
    by (rule credential_response[OF assms(2-4)])
  obtain sub where sub: "rx_auth ctx = Some sub" "verifySessionBearer (pf_crypto P) (gw_auth config) (dr_authNow d) (hq_headers q) = Inr sub"
    and json: "request_object q (rx_json ctx)"
    by (rule admitted_issue[OF c(1)])
  have object: "asRecord (rx_json ctx) = rx_json ctx" using json parsed_is_object by (auto simp: request_object_def)
  obtain a token bag v where v: "gw_auth config = Some a" "readSingleHeaderValue (hq_headers q) ''authorization'' = Some (''Bearer '' @ token)"
    "jws_authentic (pf_crypto P) token (session_options a (dr_authNow d)) bag" "v = verified_claims bag (vj_jti v)"
    "claims_accepted (session_options a (dr_authNow d)) v" "vj_sub v = sub"
    by (rule verifySessionBearer_Inr[OF sub(2)])
  obtain sid r claims e where named: "jget ''sessionId'' (rx_json ctx) = JString sid" "readClaimSet (rx_json ctx) = Inr claims"
    and r: "gs_sessions s sid = Some r" "rx_auth ctx = Some (ss_walletCAddr r)" "ss_status r = Approved"
    "rq = issue_request config (dr_now d) sid (ss_walletCAddr r) claims e"
    by (rule issue_checks_Inr[OF c(2), unfolded object])
  have "session_spec P config log sid = Some (sub, Approved)"
    using run_refines[OF assms(1), of sid] r(1-3) sub(1) by (simp add: session_view_def)
  moreover have "rq_walletAddress rq = sub" "rq_subjectId rq = sid" "rq_claims rq = claims" using r(2,4) sub(1) by (simp_all add: issue_request_def)
  ultimately show ?thesis using v c(3,4) json named by blast
qed

theorem credential_only_for_approved_owner_witness:
  "\<exists>log (s :: InMemoryAllocator gateway_state). session_spec toy_platform toy_app log ''s1'' = Some (toy_wallet, Approved)
     \<and> gateway_run toy_platform allocate toy_app log s
     \<and> (\<exists>hs resp s' (v :: VerifiedJws) ic. handle toy_platform allocate toy_app buildServer (toy_draws 500) (post_json ISSUE_PATH hs toy_issue_body) s = (Some resp, s')
          \<and> hr_status resp = 201 \<and> hr_body resp = issued_body toy_platform ic
          \<and> session_spec toy_platform toy_app log ''s1'' = Some (vj_sub v, Approved))"
proof -
  obtain log s s' hs resp ic where r: "gateway_run toy_platform allocate toy_app log s" and len: "length log = 2" and hs: "hs ''content-length'' = None"
    and r': "session_spec toy_platform toy_app log ''s1'' = Some (toy_wallet, Approved)"
    "handle toy_platform allocate toy_app buildServer (toy_draws 500) (post_json ISSUE_PATH hs toy_issue_body) s = (Some resp, s')"
    "hr_status resp = 201" "hr_body resp = issued_body toy_platform ic"
    by (rule toy_onboarding)
  have "jget ''credential'' (hr_body resp) \<noteq> JUndefined" by (simp add: r'(4) issued_body_def credential_json_def)
  from credential_only_for_approved_owner[OF r r'(2,3) this] obtain json sid wallet and v :: VerifiedJws
    where named: "request_object (post_json ISSUE_PATH hs toy_issue_body) json" "jget ''sessionId'' json = JString sid"
      and "session_spec toy_platform toy_app log sid = Some (wallet, Approved)" "vj_sub v = wallet" by blast
  moreover have "json = toy_issue_body"
    using named(1) body_captured[where url = ISSUE_PATH and hs = hs and body = toy_issue_body, OF hs toy_issue_body_facts(6)]
      json_body_parses[OF toy_issue_body_facts(1,2)] by (auto simp: request_object_def post_json_facts)
  then have "sid = ''s1''" using named(2) toy_issue_body_facts(3) by simp
  ultimately have "session_spec toy_platform toy_app log ''s1'' = Some (vj_sub v, Approved)" by simp
  then show ?thesis using r r' by (intro exI conjI) assumption+
qed

text \<open>
  A refused issuing request spends nothing and says why in a fixed order: without a verified
  bearer token the answer is 401 whatever the session, for a session nobody opened 409, for one of
  another wallet 403 even where it is approved, and 409 for the caller's own session while its last
  verdict is not an approval; in each case the state of the gateway is unchanged.
\<close>

theorem issue_refused_unchanged:
  assumes "gateway_run P alloc config log s" and "plain body" "is_object body" "jget ''sessionId'' body = JString sid" "sid \<noteq> []"
    and "hs ''content-length'' = None" "length (ref_utf8 (json_stringify body)) \<le> BODY_CAP_BYTES"
    and answer: "answer = handle P alloc config buildServer d (post_json ISSUE_PATH hs body) s"
  shows "case verifySessionBearer (pf_crypto P) (gw_auth config) (dr_authNow d) hs of
      Inl e \<Rightarrow> \<exists>r. answer = (Some r, s) \<and> hr_status r = 401
    | Inr sub \<Rightarrow> (case session_spec P config log sid of
         None \<Rightarrow> \<exists>r. answer = (Some r, s) \<and> hr_status r = 409
       | Some (wallet, status) \<Rightarrow>
           (sub \<noteq> wallet \<longrightarrow> (\<exists>r. answer = (Some r, s) \<and> hr_status r = 403))
         \<and> (sub = wallet \<and> status \<noteq> Approved \<longrightarrow> (\<exists>r. answer = (Some r, s) \<and> hr_status r = 409)))"
proof (cases "verifySessionBearer (pf_crypto P) (gw_auth config) (dr_authNow d) hs")
  case (Inl e)
  then have "e = T_Unauthorized"
    by (auto simp: verifySessionBearer_def extractBearer_def Let_def res_simps split: option.splits if_splits sum.splits)
  then show ?thesis unfolding answer Inl sum.case
    by (simp add: handle_def issue_request_admitted[where hs = hs and body = body, OF assms(2,3,6,7)] Inl writeError_def writeJson_def toHttpError_def http_error_def)
next
  case (Inr sub)
  let ?ctx = "\<lparr> rx_params = (\<lambda>_. None), rx_json = body, rx_auth = Some sub \<rparr>"
  have a: "answer = (case issueHandler P alloc config d ?ctx (gs_sessions s) (gs_alloc s) of (r, al) \<Rightarrow>
      (Some (respond (resolveRequestId hs (dr_requestId d)) r), s\<lparr>gs_alloc := al\<rparr>))"
    by (simp add: answer handle_def issue_request_admitted[where hs = hs and body = body, OF assms(2,3,6,7)] Inr dispatch_def post_json_facts split: prod.split)
  have refused: "\<exists>r. answer = (Some r, s) \<and> hr_status r = he_status (toHttpError e)"
    if "issue_checks config d ?ctx (gs_sessions s) = Inl e" for e
    using that unfolding a by (simp add: issueHandler_def respond_def writeError_def writeJson_def)
  have sid: "requireString body ''sessionId'' = Inr sid" "asRecord body = body"
    using assms(3-5) by (simp_all add: requireString_def asRecord_def)
  note checks = issue_checks_def sid Let_def session_get_def assertSessionSubjectBinding_def assertApproved_def
  note spec = run_refines[OF assms(1), of sid, symmetric]
  show ?thesis
  proof (cases "gs_sessions s sid")
    case None
    then have "issue_checks config d ?ctx (gs_sessions s) = Inl (T_Http (http_error 409 ''session_not_approved'' False ''the session is not approved''))"
      by (simp add: checks)
    from refused[OF this] show ?thesis
      unfolding Inr sum.case spec session_view_def None option.map option.case by (simp add: toHttpError_def http_error_def)
  next
    case (Some x)
    have "\<exists>r. answer = (Some r, s) \<and> hr_status r = 403" if "sub \<noteq> ss_walletCAddr x"
    proof -
      have "issue_checks config d ?ctx (gs_sessions s) = Inl T_SubjectMismatch" using that by (simp add: checks Some)
      from refused[OF this] show ?thesis by (simp add: toHttpError_def http_error_def)
    qed
    moreover have "\<exists>r. answer = (Some r, s) \<and> hr_status r = 409" if "sub = ss_walletCAddr x" "ss_status x \<noteq> Approved"
    proof -
      have "issue_checks config d ?ctx (gs_sessions s) = Inl SessionNotApprovedError" using that by (simp add: checks Some)
      from refused[OF this] show ?thesis
        by (simp add: toHttpError_def http_error_def SessionNotApprovedError_def isSep12CustomerNotFound_def isSessionNotApproved_def)
    qed
    ultimately show ?thesis
      unfolding Inr sum.case spec session_view_def Some option.map option.case prod.case by blast
  qed
qed

theorem issue_refused_unchanged_witness:
  "\<exists>r. handle toy_platform allocate toy_app buildServer (toy_draws 500) (post_json ISSUE_PATH Map.empty toy_issue_body) toy_gateway
      = (Some r, toy_gateway) \<and> hr_status r = 401"
proof -
  have run: "gateway_run toy_platform allocate toy_app [] toy_gateway" unfolding toy_gateway_def by (rule gateway_run.boot)
  have e: "verifySessionBearer (pf_crypto toy_platform) (gw_auth toy_app) (dr_authNow (toy_draws 500)) Map.empty = Inl T_Unauthorized"
    by (simp add: verifySessionBearer_def toy_app_def readSingleHeaderValue_def extractBearer_def)
  have n: "''s1'' \<noteq> []" "(Map.empty :: headers) ''content-length'' = None" by simp_all
  from issue_refused_unchanged[where d = "toy_draws 500" and hs = Map.empty and body = toy_issue_body, OF run toy_issue_body_facts(1-3) n
      toy_issue_body_facts(6) refl] show ?thesis unfolding e sum.case .
qed

text \<open>
  C23. Onboarding completes: with the token in the answer that opened a session, a request for the
  credential that is authenticated in any second of the next fifteen minutes, in any state the gateway
  reaches in which that session stands approved for its wallet (whatever else was served, given or revoked
  since), is answered with 201 and the credential, provided the issuance of that request itself succeeds:
  an applicant with no true claim and an exhausted allocator are refused there.
\<close>

theorem onboarding_completes:
  assumes "crypto_ok (pf_crypto P)" "ko_type key = ''private''" "Es256SessionJwtIssuer (pf_crypto P) key iss aud = Inr j"
    and "gw_sessionJwtIssuer config = Some j" "gw_auth config = Some \<lparr> ga_publicKey = ji_verificationKey j, ga_issuer = iss, ga_audience = aud \<rparr>"
    and "handle P alloc config buildServer d q s = (Some resp, s1)" "opens_session P config d q = Some wallet"
    and "jget ''session_token'' (hr_body resp) = JString token" "length token \<le> 8185" "dr_sessionId d \<noteq> []"
    and "gateway_run P alloc config log s2" "session_spec P config log (dr_sessionId d) = Some (wallet, Approved)"
    and "dr_now d = JInt a" "dr_authNow d' = JInt t" "a \<le> t" "t < a + 900"
    and "plain body" "is_object body" "length (ref_utf8 (json_stringify body)) \<le> BODY_CAP_BYTES"
    and "jget ''sessionId'' body = JString (dr_sessionId d)" "readClaimSet body = Inr claims" "optionalU32 body ''expiresAt'' = Inr e"
    and "issueKycCredential (pf_noble P) (pf_bbs P) alloc (dr_salt d') (issue_request config (dr_now d') (dr_sessionId d) wallet claims e) (gs_alloc s2)
           = (Inr ic, al)"
  shows "\<exists>r. handle P alloc config buildServer d' (post_json ISSUE_PATH [''authorization'' \<mapsto> HText (''Bearer '' @ token)] body) s2
      = (Some r, s2\<lparr>gs_alloc := al\<rparr>) \<and> hr_status r = 201 \<and> hr_body r = issued_body P ic"
  using assms by (rule onboarded)

theorem onboarding_completes_witness:
  "\<exists>token (s :: InMemoryAllocator gateway_state) s' r ic.
     handle toy_platform allocate toy_app buildServer (toy_draws 500) (post_json ISSUE_PATH [''authorization'' \<mapsto> HText (''Bearer '' @ token)] toy_issue_body) s
       = (Some r, s') \<and> hr_status r = 201 \<and> hr_body r = issued_body toy_platform ic"
proof -
  obtain resp s token where o: "handle toy_platform allocate toy_app buildServer (toy_draws 100) toy_open toy_gateway = (Some resp, s)"
    "jget ''session_token'' (hr_body resp) = JString token" "length token \<le> 8185" "gs_alloc s = \<lparr> im_next = 3, im_max = 9 \<rparr>"
    using toy_opened by blast
  obtain st where st: "setStatus (dr_sessionId (toy_draws 100)) Approved (gs_sessions s) = Inr st"
    using session_opened(4)[OF o(1) toy_opens o(2)] by (auto simp: setStatus_def session_create_def)
  have d: "dr_sessionId (toy_draws 100) \<noteq> []" "dr_now (toy_draws 100) = JInt 100" "dr_authNow (toy_draws 500) = JInt 500"
    "dr_sessionId (toy_draws 100) = ''s1''" "(100 :: int) \<le> 500" "(500 :: int) < 100 + 900"
    by (simp_all add: toy_draws_def)
  obtain ic where ic: "issueKycCredential (pf_noble toy_platform) (pf_bbs toy_platform) allocate (dr_salt (toy_draws 500))
       (issue_request toy_app (dr_now (toy_draws 500)) (dr_sessionId (toy_draws 100)) toy_wallet (rq_claims toy_request) None) (gs_alloc (s\<lparr>gs_sessions := st\<rparr>))
      = (Inr ic, \<lparr> im_next = 4, im_max = 9 \<rparr>)"
    using toy_credential_issued o(4) d(4) by auto
  have run: "gateway_run toy_platform allocate toy_app [Verdict (dr_sessionId (toy_draws 100)) Approved, Served (toy_draws 100) toy_open (Some resp)] (s\<lparr>gs_sessions := st\<rparr>)"
    and spec: "session_spec toy_platform toy_app [Verdict (dr_sessionId (toy_draws 100)) Approved, Served (toy_draws 100) toy_open (Some resp)]
      (dr_sessionId (toy_draws 100)) = Some (toy_wallet, Approved)"
    by (rule toy_session_approved[OF o(1) st])+
  show ?thesis
    using onboarding_completes[OF toy_crypto_facts o(1) toy_opens o(2,3) d(1) run spec d(2,3,5,6)
        toy_issue_body_facts(1,2,6) toy_issue_body_facts(3)[folded d(4)] toy_issue_body_facts(5,4) ic] by blast
qed

end
