(* ===== verification/JsText.thy ===== *)
theory JsText
imports ChainState Jws Router
begin

text \<open>
  The operations on strings of the standard library the portal uses: \<open>trim\<close>, \<open>toLowerCase\<close>,
  \<open>indexOf\<close>, \<open>Number\<close>, on texts of code points below 256.
\<close>

section \<open>\<open>trim\<close> and \<open>toLowerCase\<close>\<close>

definition js_trim :: "string \<Rightarrow> string" where
  "js_trim s = rev (dropWhile js_space (rev (dropWhile js_space s)))"

definition js_lower_char :: "char \<Rightarrow> char" where
  "js_lower_char c = (let k = (of_char c :: nat) in
     if 65 \<le> k \<and> k \<le> 90 \<or> 192 \<le> k \<and> k \<le> 222 \<and> k \<noteq> 215 then char_of (k + 32) else c)"

definition js_lower :: "string \<Rightarrow> string" where
  "js_lower s = map js_lower_char s"

lemma js_lower_char_code:
  "(of_char (js_lower_char c) :: nat) = (let k = of_char c in if 65 \<le> k \<and> k \<le> 90 \<or> 192 \<le> k \<and> k \<le> 222 \<and> k \<noteq> 215 then k + 32 else k)"
proof -
  have "(of_char c :: nat) < 256" by (rule of_char_less_256)
  then show ?thesis by (auto simp: js_lower_char_def Let_def)
qed

lemma js_lower_char_idem [simp]: "js_lower_char (js_lower_char c) = js_lower_char c"
proof -
  have "\<not> (65 \<le> (of_char (js_lower_char c) :: nat) \<and> (of_char (js_lower_char c) :: nat) \<le> 90
      \<or> 192 \<le> (of_char (js_lower_char c) :: nat) \<and> (of_char (js_lower_char c) :: nat) \<le> 222 \<and> (of_char (js_lower_char c) :: nat) \<noteq> 215)"
    unfolding js_lower_char_code Let_def by auto
  then show ?thesis unfolding js_lower_char_def[of "js_lower_char c"] Let_def by (simp only: if_False)
qed

lemma js_space_lower [simp]: "js_space (js_lower_char c) \<longleftrightarrow> js_space c"
  unfolding js_space_def js_lower_char_code Let_def by auto

lemma js_lower_idem [simp]: "js_lower (js_lower s) = js_lower s"
  by (simp add: js_lower_def)

lemma dropWhile_map_lower: "dropWhile js_space (map js_lower_char s) = map js_lower_char (dropWhile js_space s)"
  by (induction s) auto

lemma js_trim_lower: "js_trim (js_lower s) = js_lower (js_trim s)"
  by (simp add: js_trim_def js_lower_def dropWhile_map_lower rev_map)

lemma dropWhile_fixed: "s = [] \<or> \<not> P (hd s) \<Longrightarrow> dropWhile P s = s"
  by (cases s) auto

lemma js_trim_ends: "js_trim s = [] \<or> \<not> js_space (hd (js_trim s)) \<and> \<not> js_space (last (js_trim s))"
proof (cases "js_trim s = []")
  case False
  define t where "t = dropWhile js_space s"
  define b where "b = dropWhile js_space (rev t)"
  have r: "js_trim s = rev b" by (simp add: js_trim_def t_def b_def)
  have ne: "b \<noteq> []" using False r by simp
  have "rev t = takeWhile js_space (rev t) @ b" by (simp add: b_def)
  then have "t = rev b @ rev (takeWhile js_space (rev t))" by (metis rev_append rev_rev_ident)
  then have "hd t = hd (rev b)" using ne by (metis hd_append2 rev_is_Nil_conv)
  moreover have "t \<noteq> []" using ne by (auto simp: b_def)
  ultimately have "\<not> js_space (hd (rev b))" using hd_dropWhile[of js_space s] by (simp add: t_def)
  moreover have "\<not> js_space (hd b)" using hd_dropWhile[of js_space "rev t"] ne by (simp add: b_def)
  ultimately show ?thesis using ne by (simp add: r last_rev)
qed simp

lemma js_trim_fixed: "s = [] \<or> \<not> js_space (hd s) \<and> \<not> js_space (last s) \<Longrightarrow> js_trim s = s"
  by (auto simp: js_trim_def dropWhile_fixed hd_rev)

lemma js_trim_idem [simp]: "js_trim (js_trim s) = js_trim s"
  by (rule js_trim_fixed[OF js_trim_ends])

section \<open>Cutting at a character\<close>

definition before :: "char \<Rightarrow> string \<Rightarrow> string" where
  "before c s = takeWhile (\<lambda>d. d \<noteq> c) s"

definition after :: "char \<Rightarrow> string \<Rightarrow> string" where
  "after c s = drop (Suc (length (before c s))) s"

lemma cut_first [simp]: "c \<notin> set a \<Longrightarrow> before c (a @ c # b) = a \<and> after c (a @ c # b) = b"
proof -
  assume "c \<notin> set a"
  then have "before c (a @ c # b) = a" unfolding before_def by (induction a) auto
  then show ?thesis by (simp add: after_def)
qed

section \<open>\<open>Number\<close> of a text\<close>

definition radix_digit :: "nat \<Rightarrow> char \<Rightarrow> nat option" where
  "radix_digit r c = (case hex_value c of None \<Rightarrow> None | Some d \<Rightarrow> if d < r then Some d else None)"

definition radix_number :: "nat \<Rightarrow> string \<Rightarrow> jsnum" where
  "radix_number r s = (if s = [] \<or> list_ex (\<lambda>c. radix_digit r c = None) s then JNaN
     else JInt (fold (\<lambda>c a. int r * a + int (the (radix_digit r c))) s 0))"

text \<open>Digits with an optional point, then an optional exponent, and nothing after it.\<close>

definition decimal_number :: "bool \<Rightarrow> string \<Rightarrow> jsnum" where
  "decimal_number neg s = (let ds = takeWhile is_digit s; s2 = dropWhile is_digit s;
       fs = (case s2 of [] \<Rightarrow> [] | c # r \<Rightarrow> if c = CHR ''.'' then takeWhile is_digit r else []);
       s3 = (case s2 of [] \<Rightarrow> [] | c # r \<Rightarrow> if c = CHR ''.'' then dropWhile is_digit r else s2) in
     if ds @ fs = [] then JNaN
     else case parse_exponent s3 of Some (e, []) \<Rightarrow> decimal_num neg (undec (ds @ fs)) (e - int (length fs)) | _ \<Rightarrow> JNaN)"

definition js_Number :: "string \<Rightarrow> jsnum" where
  "js_Number raw = (let s = js_trim raw in
     if s = [] then JInt 0
     else if take 2 s \<in> {''0x'', ''0X''} then radix_number 16 (drop 2 s)
     else if take 2 s \<in> {''0o'', ''0O''} then radix_number 8 (drop 2 s)
     else if take 2 s \<in> {''0b'', ''0B''} then radix_number 2 (drop 2 s)
     else let neg = (hd s = CHR ''-''); t = (if hd s = CHR ''-'' \<or> hd s = CHR ''+'' then tl s else s) in
       if t = ''Infinity'' then (if neg then JNegInf else JInf) else decimal_number neg t)"

lemma takeWhile_all: "list_all P s \<Longrightarrow> takeWhile P s = s \<and> dropWhile P s = []"
  by (induction s) auto

lemma js_Number_digits:
  assumes "s \<noteq> []" "list_all is_digit s"
  shows "js_Number s = JInt (int (undec s))"
proof -
  have d: "is_digit c \<Longrightarrow> \<not> js_space c \<and> c \<notin> set ''+-IxXoObB''" for c
    by (auto simp: is_digit_def js_space_def)
  have all: "\<forall>c\<in>set s. is_digit c" using assms(2) by (simp add: list_all_iff)
  have t: "js_trim s = s" using js_trim_fixed[of s] all d assms(1) by (metis hd_in_set last_in_set)
  have p: "take 2 s \<noteq> [c, x]" if "x \<in> set ''xXoObB''" for c x
  proof
    assume "take 2 s = [c, x]"
    then have "x \<in> set s" by (metis in_set_takeD list.set_intros(1) list.set_intros(2))
    then show False using all d[of x] that by auto
  qed
  have h: "hd s \<notin> set ''+-I''" using all d[of "hd s"] assms(1) by auto
  then have h': "hd s \<noteq> CHR ''-''" "hd s \<noteq> CHR ''+''" "s \<noteq> ''Infinity''" by auto
  have n: "take 2 s \<notin> {''0x'', ''0X''}" "take 2 s \<notin> {''0o'', ''0O''}" "take 2 s \<notin> {''0b'', ''0B''}"
    using p by simp_all
  have num: "decimal_number False s = JInt (int (undec s))"
  proof -
    have "parse_exponent [] = Some (0, [])" by (simp add: parse_exponent_def)
    then show ?thesis
      unfolding decimal_number_def conjunct1[OF takeWhile_all[OF assms(2)]] conjunct2[OF takeWhile_all[OF assms(2)]]
      using assms(1) by (simp add: decimal_num_def)
  qed
  show ?thesis
    unfolding js_Number_def Let_def t if_not_P[OF assms(1)] if_not_P[OF n(1)] if_not_P[OF n(2)] if_not_P[OF n(3)]
    using h' num by simp
qed

lemma js_Number_dec [simp]: "js_Number (dec n) = JInt (int n)"
  using js_Number_digits[OF dec_not_Nil dec_digits] by simp

section \<open>Splitting\<close>

lemma split_join_parts: "ps \<noteq> [] \<Longrightarrow> \<forall>p\<in>set ps. d \<notin> set p \<Longrightarrow> split_on d (join [d] ps) = ps"
proof (induction "[d]" ps rule: join.induct)
  case (2 x)
  then have "d \<notin> set x" by simp
  then show ?case by (induction x) auto
next
  case (3 x y xs)
  then have x: "d \<notin> set x" and IH: "split_on d (join [d] (y # xs)) = y # xs" by auto
  have "split_on d (x @ d # r) = x # split_on d r" for r
    using x by (induction x) auto
  then show ?case using IH by simp
qed simp

end
