(* ===== verification/Accounts.thy ===== *)
theory Accounts
imports JsText CredentialStore
begin

text \<open>
  The accounts of the portal (\<open>scripts/onboard/accounts.ts\<close>): sign-up and sign-in, password
  hashes, the account file, the sign-in sessions and their file, the cookies. \<open>scrypt\<close> and the
  SHA-256 of a token are arguments, as are drawn ids, salts and tokens and the clock. A file is the
  value last written to it, and writes to it succeed.
\<close>

section \<open>Errors\<close>

record portal_error =
  pe_status :: nat
  pe_code :: string
  pe_message :: string

definition PortalAccountError :: "nat \<Rightarrow> string \<Rightarrow> string \<Rightarrow> portal_error" where
  "PortalAccountError status code_name message = \<lparr> pe_status = status, pe_code = code_name, pe_message = message \<rparr>"

definition InvalidEmailError :: portal_error where
  "InvalidEmailError = PortalAccountError 400 ''invalid_email'' ''enter a valid email address''"

definition WeakPasswordError :: "string \<Rightarrow> portal_error" where
  "WeakPasswordError message = PortalAccountError 400 ''weak_password'' message"

definition EmailInUseError :: portal_error where
  "EmailInUseError = PortalAccountError 409 ''email_in_use'' ''an account already exists for this email''"

definition InvalidCredentialsError :: portal_error where
  "InvalidCredentialsError = PortalAccountError 401 ''invalid_credentials'' ''email or password is incorrect''"

definition UnauthenticatedError :: portal_error where
  "UnauthenticatedError = PortalAccountError 401 ''unauthenticated'' ''sign in to continue''"

section \<open>Addresses and passwords\<close>

definition MIN_PASSWORD_LENGTH :: nat where "MIN_PASSWORD_LENGTH = 8"

definition normalizeEmail :: "string \<Rightarrow> string" where
  "normalizeEmail raw = js_lower (js_trim raw)"

definition is_az :: "char \<Rightarrow> bool" where
  "is_az c = (let k = (of_char c :: nat) in 97 \<le> k \<and> k \<le> 122)"

definition domain_char :: "char \<Rightarrow> bool" where
  "domain_char c = (is_az c \<or> is_digit c \<or> c = CHR ''.'' \<or> c = CHR ''-'')"

text \<open>
  The pattern \<open>^[a-z0-9.-]+\.[a-z]{2,}$\<close>: its last part has no dot, so it is the longest run of
  letters at the end.
\<close>

definition domain_ok :: "string \<Rightarrow> bool" where
  "domain_ok d = (let r = rev d; top = takeWhile is_az r in
     2 \<le> length top \<and> (case dropWhile is_az r of [] \<Rightarrow> False | c # h \<Rightarrow> c = CHR ''.'' \<and> h \<noteq> [] \<and> list_all domain_char h))"

definition assertEmail :: "string \<Rightarrow> portal_error + string" where
  "assertEmail raw = (let email = normalizeEmail raw in
     if email = [] \<or> length email > 254 then Inl InvalidEmailError
     else if list_ex js_space email then Inl InvalidEmailError
     else if CHR ''@'' \<notin> set email \<or> before CHR ''@'' email = [] \<or> CHR ''@'' \<in> set (after CHR ''@'' email) then Inl InvalidEmailError
     else if \<not> domain_ok (after CHR ''@'' email) then Inl InvalidEmailError
     else Inr email)"

definition assertPassword :: "string \<Rightarrow> portal_error + unit" where
  "assertPassword password = (if length password < MIN_PASSWORD_LENGTH
       then Inl (WeakPasswordError (''password must be at least '' @ dec MIN_PASSWORD_LENGTH @ '' characters''))
     else if length password > 1024 then Inl (WeakPasswordError ''password is too long'')
     else Inr ())"

section \<open>Password hashes\<close>

text \<open>\<open>scryptSync(password, salt, length, {N, r, p})\<close>, which throws where its parameters are out of range.\<close>

type_synonym scrypt = "string \<Rightarrow> bytes \<Rightarrow> nat \<Rightarrow> int \<Rightarrow> int \<Rightarrow> int \<Rightarrow> bytes option"

definition SCRYPT_N :: nat where "SCRYPT_N = 16384"
definition SCRYPT_R :: nat where "SCRYPT_R = 8"
definition SCRYPT_P :: nat where "SCRYPT_P = 1"
definition SCRYPT_KEY_BYTES :: nat where "SCRYPT_KEY_BYTES = 32"
definition SALT_BYTES :: nat where "SALT_BYTES = 16"

definition scrypt_ok :: "scrypt \<Rightarrow> bool" where
  "scrypt_ok K = ((\<forall>pw salt n N r p out. K pw salt n N r p = Some out \<longrightarrow> length out = n)
     \<and> (\<forall>pw salt. K pw salt SCRYPT_KEY_BYTES (int SCRYPT_N) (int SCRYPT_R) (int SCRYPT_P) \<noteq> None))"

definition hashPassword :: "scrypt \<Rightarrow> bytes \<Rightarrow> string \<Rightarrow> string option" where
  "hashPassword K salt password = map_option (\<lambda>hash.
     join ''$'' [''scrypt'', dec SCRYPT_N, dec SCRYPT_R, dec SCRYPT_P, ref_hex salt, ref_hex hash])
     (K password salt SCRYPT_KEY_BYTES (int SCRYPT_N) (int SCRYPT_R) (int SCRYPT_P))"

definition verifyPassword :: "scrypt \<Rightarrow> string \<Rightarrow> string \<Rightarrow> bool" where
  "verifyPassword K password stored = (let parts = split_on CHR ''$'' stored in
     if length parts \<noteq> 6 \<or> parts ! 0 \<noteq> ''scrypt'' then False
     else case (js_Number (parts ! 1), js_Number (parts ! 2), js_Number (parts ! 3)) of
       (JInt N, JInt r, JInt p) \<Rightarrow>
          (let expected = buffer_from_hex (parts ! 5) in
           if expected = [] then False
           else case K password (buffer_from_hex (parts ! 4)) (length expected) N r p of
             None \<Rightarrow> False | Some actual \<Rightarrow> actual = expected)
     | _ \<Rightarrow> False)"

section \<open>The record\<close>

datatype portal_kyc_status = KycNone | KycPending | KycApproved | KycRejected

record AccountKyc =
  ak_status :: portal_kyc_status
  ak_sessionId :: "string option"
  ak_claimBitmap :: "jsnum option"
  ak_revocationIndex :: "jsnum option"
  ak_txHash :: "string option"
  ak_verifiedAt :: "jsnum option"

definition no_kyc :: AccountKyc where
  "no_kyc = \<lparr> ak_status = KycNone, ak_sessionId = None, ak_claimBitmap = None, ak_revocationIndex = None, ak_txHash = None, ak_verifiedAt = None \<rparr>"

record onramp_record =
  or_tryAmount :: string
  or_usdcAmount :: string
  or_stellarTxHash :: string
  or_at :: jsnum

record AccountRecord =
  ac_id :: string
  ac_email :: string
  ac_passwordHash :: string
  ac_createdAt :: jsnum
  ac_walletCAddr :: "string option"
  ac_walletKeyId :: "string option"
  ac_walletDeployTxHash :: "string option"
  ac_kyc :: AccountKyc
  ac_fundingAccount :: "string option"
  ac_onramp :: "onramp_record option"

record PublicAccount =
  pa_id :: string
  pa_email :: string
  pa_createdAt :: jsnum
  pa_walletCAddr :: "string option"
  pa_walletDeployTxHash :: "string option"
  pa_kyc :: AccountKyc
  pa_fundingAccount :: "string option"
  pa_onramp :: "onramp_record option"

definition toPublicAccount :: "AccountRecord \<Rightarrow> PublicAccount" where
  "toPublicAccount a = \<lparr> pa_id = ac_id a, pa_email = ac_email a, pa_createdAt = ac_createdAt a, pa_walletCAddr = ac_walletCAddr a,
     pa_walletDeployTxHash = ac_walletDeployTxHash a, pa_kyc = ac_kyc a, pa_fundingAccount = ac_fundingAccount a, pa_onramp = ac_onramp a \<rparr>"

section \<open>The account store\<close>

record AccountStore =
  as_accounts :: "(string \<times> AccountRecord) list"
  as_byEmail :: "(string \<times> string) list"
  as_file :: "AccountRecord list option"

definition accounts_load :: "AccountRecord list option \<Rightarrow> AccountStore" where
  "accounts_load raw = (case raw of
     None \<Rightarrow> \<lparr> as_accounts = [], as_byEmail = [], as_file = None \<rparr>
   | Some f \<Rightarrow> \<lparr> as_accounts = fold (\<lambda>a. map_set (ac_id a) a) f [],
                as_byEmail = fold (\<lambda>a. map_set (ac_email a) (ac_id a)) f [], as_file = Some f \<rparr>)"

definition accounts_persist :: "AccountStore \<Rightarrow> AccountStore" where
  "accounts_persist s = s\<lparr>as_file := Some (map snd (as_accounts s))\<rparr>"

definition account_get :: "AccountStore \<Rightarrow> string \<Rightarrow> AccountRecord option" where
  "account_get s i = map_get (as_accounts s) i"

definition accounts_size :: "AccountStore \<Rightarrow> nat" where
  "accounts_size s = length (as_accounts s)"

definition findByEmail :: "AccountStore \<Rightarrow> string \<Rightarrow> AccountRecord option" where
  "findByEmail s email = (case map_get (as_byEmail s) (normalizeEmail email) of None \<Rightarrow> None | Some i \<Rightarrow> map_get (as_accounts s) i)"

datatype store_failure = Refusal portal_error | Crash

record signup =
  su_email :: string
  su_password :: string
  su_now :: jsnum

definition account_create :: "scrypt \<Rightarrow> string \<Rightarrow> bytes \<Rightarrow> signup \<Rightarrow> AccountStore \<Rightarrow> (store_failure + AccountRecord) \<times> AccountStore" where
  "account_create K fresh salt args s = (case assertEmail (su_email args) of Inl e \<Rightarrow> (Inl (Refusal e), s)
   | Inr email \<Rightarrow> (case assertPassword (su_password args) of Inl e \<Rightarrow> (Inl (Refusal e), s)
   | Inr _ \<Rightarrow> if map_get (as_byEmail s) email \<noteq> None then (Inl (Refusal EmailInUseError), s)
     else case hashPassword K salt (su_password args) of None \<Rightarrow> (Inl Crash, s)
     | Some h \<Rightarrow>
        (let account = \<lparr> ac_id = fresh, ac_email = email, ac_passwordHash = h, ac_createdAt = su_now args, ac_walletCAddr = None,
              ac_walletKeyId = None, ac_walletDeployTxHash = None, ac_kyc = no_kyc, ac_fundingAccount = None, ac_onramp = None \<rparr> in
         (Inr account, accounts_persist (s\<lparr>as_accounts := map_set fresh account (as_accounts s), as_byEmail := map_set email fresh (as_byEmail s)\<rparr>)))))"

definition authenticate :: "scrypt \<Rightarrow> AccountStore \<Rightarrow> string \<Rightarrow> string \<Rightarrow> portal_error + AccountRecord" where
  "authenticate K s email password = (case findByEmail s email of None \<Rightarrow> Inl InvalidCredentialsError
     | Some account \<Rightarrow> if \<not> verifyPassword K password (ac_passwordHash account) then Inl InvalidCredentialsError else Inr account)"

record account_patch =
  ap_walletCAddr :: "string option"
  ap_walletKeyId :: "string option"
  ap_walletDeployTxHash :: "string option"
  ap_kyc :: "AccountKyc option"
  ap_fundingAccount :: "string option"
  ap_onramp :: "onramp_record option"

definition patched :: "account_patch \<Rightarrow> AccountRecord \<Rightarrow> AccountRecord" where
  "patched patch a = a\<lparr>
     ac_walletCAddr := (case ap_walletCAddr patch of None \<Rightarrow> ac_walletCAddr a | x \<Rightarrow> x),
     ac_walletKeyId := (case ap_walletKeyId patch of None \<Rightarrow> ac_walletKeyId a | x \<Rightarrow> x),
     ac_walletDeployTxHash := (case ap_walletDeployTxHash patch of None \<Rightarrow> ac_walletDeployTxHash a | x \<Rightarrow> x),
     ac_kyc := (case ap_kyc patch of None \<Rightarrow> ac_kyc a | Some k \<Rightarrow> k),
     ac_fundingAccount := (case ap_fundingAccount patch of None \<Rightarrow> ac_fundingAccount a | x \<Rightarrow> x),
     ac_onramp := (case ap_onramp patch of None \<Rightarrow> ac_onramp a | x \<Rightarrow> x)\<rparr>"

definition account_update :: "string \<Rightarrow> account_patch \<Rightarrow> AccountStore \<Rightarrow> (portal_error + AccountRecord) \<times> AccountStore" where
  "account_update i patch s = (case map_get (as_accounts s) i of None \<Rightarrow> (Inl UnauthenticatedError, s)
     | Some existing \<Rightarrow> (let n = patched patch existing in
         (Inr n, accounts_persist (s\<lparr>as_accounts := map_set i n (as_accounts s)\<rparr>))))"

section \<open>Sign-in sessions\<close>

definition PORTAL_COOKIE_NAME :: string where "PORTAL_COOKIE_NAME = ''portal_session''"

definition SESSION_TTL_SECONDS :: nat where "SESSION_TTL_SECONDS = 86400"

record PersistedSession =
  ss_tokenHash :: string
  ss_accountId :: string
  ss_expiresAt :: int

record PersistedSessionsFile =
  sf_version :: jsnum
  sf_sessions :: "PersistedSession list"

text \<open>\<open>file\<close> is set or not for the life of the store; \<open>pss_file\<close> is what it holds, if it exists.\<close>

record PortalSessionStore =
  pss_byHash :: "(string \<times> PersistedSession) list"
  pss_durable :: bool
  pss_file :: "PersistedSessionsFile option"
  pss_ttl :: int

definition hashToken :: "(bytes \<Rightarrow> bytes) \<Rightarrow> string \<Rightarrow> string" where
  "hashToken sha token = ref_hex (sha (ref_utf8 token))"

definition sessions_open :: "bool \<Rightarrow> PersistedSessionsFile option \<Rightarrow> int option \<Rightarrow> int \<Rightarrow> PortalSessionStore option" where
  "sessions_open durable raw ttl now = (let t = (case ttl of None \<Rightarrow> int SESSION_TTL_SECONDS | Some x \<Rightarrow> x) in
     case (if durable then raw else None) of
       None \<Rightarrow> Some \<lparr> pss_byHash = [], pss_durable = durable, pss_file = raw, pss_ttl = t \<rparr>
     | Some f \<Rightarrow> if sf_version f \<noteq> JInt 1 then None
         else Some \<lparr> pss_byHash = fold (\<lambda>r m. if ss_expiresAt r > now then map_set (ss_tokenHash r) r m else m) (sf_sessions f) [],
                     pss_durable = durable, pss_file = raw, pss_ttl = t \<rparr>)"

definition sessions_persist :: "PortalSessionStore \<Rightarrow> PortalSessionStore" where
  "sessions_persist s = (if \<not> pss_durable s then s else s\<lparr>pss_file := Some \<lparr> sf_version = JInt 1, sf_sessions = map snd (pss_byHash s) \<rparr>\<rparr>)"

definition sessions_sweep :: "int \<Rightarrow> PortalSessionStore \<Rightarrow> PortalSessionStore" where
  "sessions_sweep now s = (let live = filter (\<lambda>(h, r). \<not> ss_expiresAt r \<le> now) (pss_byHash s) in
     if length live < length (pss_byHash s) then sessions_persist (s\<lparr>pss_byHash := live\<rparr>) else s)"

definition portal_session_create :: "(bytes \<Rightarrow> bytes) \<Rightarrow> bytes \<Rightarrow> string \<Rightarrow> int \<Rightarrow> PortalSessionStore \<Rightarrow> string \<times> PortalSessionStore" where
  "portal_session_create sha random accountId now s = (let s1 = sessions_sweep now s; token = base64urlEncode random in
     (token, sessions_persist (s1\<lparr>pss_byHash := map_set (hashToken sha token)
        \<lparr> ss_tokenHash = hashToken sha token, ss_accountId = accountId, ss_expiresAt = now + pss_ttl s \<rparr> (pss_byHash s1)\<rparr>)))"

definition portal_session_resolve :: "(bytes \<Rightarrow> bytes) \<Rightarrow> string \<Rightarrow> int \<Rightarrow> PortalSessionStore \<Rightarrow> string option \<times> PortalSessionStore" where
  "portal_session_resolve sha token now s = (if token = [] then (None, s)
     else case map_get (pss_byHash s) (hashToken sha token) of None \<Rightarrow> (None, s)
     | Some r \<Rightarrow> if ss_expiresAt r \<le> now then (None, sessions_persist (s\<lparr>pss_byHash := map_delete (ss_tokenHash r) (pss_byHash s)\<rparr>))
         else (Some (ss_accountId r), s))"

definition portal_session_destroy :: "(bytes \<Rightarrow> bytes) \<Rightarrow> string \<Rightarrow> PortalSessionStore \<Rightarrow> PortalSessionStore" where
  "portal_session_destroy sha token s = (let h = hashToken sha token in
     if map_get (pss_byHash s) h \<noteq> None then sessions_persist (s\<lparr>pss_byHash := map_delete h (pss_byHash s)\<rparr>) else s)"

definition sessions_size :: "PortalSessionStore \<Rightarrow> nat" where
  "sessions_size s = length (pss_byHash s)"

section \<open>Cookies\<close>

definition portalSessionCookie :: "bool \<Rightarrow> string \<Rightarrow> string" where
  "portalSessionCookie secure token = PORTAL_COOKIE_NAME @ ''='' @ token @ ''; HttpOnly; SameSite=Lax; Path=/; Max-Age='' @ dec SESSION_TTL_SECONDS
     @ (if secure then ''; Secure'' else [])"

definition clearedPortalSessionCookie :: "bool \<Rightarrow> string" where
  "clearedPortalSessionCookie secure = PORTAL_COOKIE_NAME @ ''=; HttpOnly; SameSite=Lax; Path=/; Max-Age=0'' @ (if secure then ''; Secure'' else [])"

definition cookie_value :: "string \<Rightarrow> string \<Rightarrow> string option" where
  "cookie_value name part = (if CHR ''='' \<notin> set part then None
     else if js_trim (before CHR ''='' part) \<noteq> name then None
     else let v = js_trim (after CHR ''='' part) in if v = [] then None else Some v)"

definition readCookies :: "string option \<Rightarrow> string \<Rightarrow> string list" where
  "readCookies header name = (case header of None \<Rightarrow> [] | Some h \<Rightarrow> List.map_filter (cookie_value name) (split_on CHR '';'' h))"

section \<open>Facts on passwords and cookies\<close>

lemma lower_hex_plain: "list_all is_lower_hex s \<Longrightarrow> CHR ''$'' \<notin> set s"
  by (auto simp: list_all_iff is_lower_hex_def)

lemma digits_plain: "list_all is_digit s \<Longrightarrow> CHR ''$'' \<notin> set s"
  by (auto simp: list_all_iff is_digit_def)

lemma hash_parts:
  "split_on CHR ''$'' (join ''$'' [''scrypt'', dec a, dec b, dec c, ref_hex salt, ref_hex hash])
     = [''scrypt'', dec a, dec b, dec c, ref_hex salt, ref_hex hash]"
  by (rule split_join_parts) (use dec_digits digits_plain lower_hex_plain ref_hex_props in auto)

lemma verify_hashed:
  assumes "scrypt_ok K" "hashPassword K salt pw = Some h"
  shows "verifyPassword K pw' h \<longleftrightarrow> K pw' salt 32 16384 8 1 = K pw salt 32 16384 8 1"
proof -
  obtain hash where k: "K pw salt 32 16384 8 1 = Some hash"
    and h: "h = join ''$'' [''scrypt'', dec 16384, dec 8, dec 1, ref_hex salt, ref_hex hash]"
    using assms(2) by (auto simp: hashPassword_def SCRYPT_KEY_BYTES_def SCRYPT_N_def SCRYPT_R_def SCRYPT_P_def)
  have len: "length hash = 32" using assms(1) k by (auto simp: scrypt_ok_def)
  then have "hash \<noteq> []" by auto
  note parts = hash_parts[of 16384 8 1 salt hash, folded h]
  show ?thesis
    unfolding verifyPassword_def parts Let_def
    using \<open>hash \<noteq> []\<close> by (simp add: buffer_hex len k del: dec.simps split: option.split)
qed

lemma hashPassword_total: "scrypt_ok K \<Longrightarrow> \<exists>h. hashPassword K salt pw = Some h"
  by (auto simp: scrypt_ok_def hashPassword_def)

section \<open>Facts on the account store\<close>

text \<open>The store holds a list of accounts with distinct ids and addresses, indexed by both, and its file is that list.\<close>

definition accounts_ok :: "AccountStore \<Rightarrow> bool" where
  "accounts_ok s = (let L = map snd (as_accounts s) in as_accounts s = map (\<lambda>a. (ac_id a, a)) L \<and> as_byEmail s = map (\<lambda>a. (ac_email a, ac_id a)) L
     \<and> distinct (map ac_id L) \<and> distinct (map ac_email L) \<and> (\<forall>a\<in>set L. assertEmail (ac_email a) = Inr (ac_email a))
     \<and> (as_file s = Some L \<or> as_file s = None \<and> L = []))"

definition account_store :: "AccountRecord list \<Rightarrow> AccountRecord list option \<Rightarrow> AccountStore" where
  "account_store L f = \<lparr> as_accounts = map (\<lambda>a. (ac_id a, a)) L, as_byEmail = map (\<lambda>a. (ac_email a, ac_id a)) L, as_file = f \<rparr>"

lemma accounts_ok_form:
  "accounts_ok s \<longleftrightarrow> (\<exists>L f. s = account_store L f \<and> distinct (map ac_id L) \<and> distinct (map ac_email L)
     \<and> (\<forall>a\<in>set L. assertEmail (ac_email a) = Inr (ac_email a)) \<and> (f = Some L \<or> f = None \<and> L = []))"
proof
  assume "accounts_ok s"
  then show "\<exists>L f. s = account_store L f \<and> distinct (map ac_id L) \<and> distinct (map ac_email L)
     \<and> (\<forall>a\<in>set L. assertEmail (ac_email a) = Inr (ac_email a)) \<and> (f = Some L \<or> f = None \<and> L = [])"
    by (intro exI[of _ "map snd (as_accounts s)"] exI[of _ "as_file s"]) (auto simp: accounts_ok_def account_store_def Let_def)
qed (auto simp: accounts_ok_def account_store_def Let_def comp_def)

lemma account_by_id: "map_get (map (\<lambda>a. (ac_id a, a)) L) i = find (\<lambda>a. ac_id a = i) L"
  by (induction L) (auto simp: map_get_def)

lemma id_by_email: "map_get (map (\<lambda>a. (ac_email a, ac_id a)) L) e = map_option ac_id (find (\<lambda>a. ac_email a = e) L)"
  by (induction L) (auto simp: map_get_def)

lemma find_unique: "distinct (map f L) \<Longrightarrow> a \<in> set L \<Longrightarrow> find (\<lambda>b. f b = f a) L = Some a"
  by (induction L) (auto simp: image_iff)

lemma findByEmail_store:
  assumes "distinct (map ac_id L)"
  shows "findByEmail (account_store L f) email = find (\<lambda>a. ac_email a = normalizeEmail email) L"
proof (cases "find (\<lambda>a. ac_email a = normalizeEmail email) L")
  case None
  then show ?thesis by (simp add: findByEmail_def account_store_def id_by_email)
next
  case (Some a)
  then have "a \<in> set L" by (auto simp: find_Some_iff)
  then show ?thesis using find_unique[OF assms] Some by (simp add: findByEmail_def account_store_def id_by_email account_by_id)
qed

lemma email_canonical: "assertEmail raw = Inr e \<Longrightarrow> normalizeEmail raw = e \<and> assertEmail e = Inr e"
proof -
  assume a: "assertEmail raw = Inr e"
  then have e: "normalizeEmail raw = e" by (auto simp: assertEmail_def Let_def split: if_splits)
  have "normalizeEmail e = e" unfolding e[symmetric] normalizeEmail_def by (simp add: js_trim_lower)
  then show ?thesis using a e by (simp add: assertEmail_def Let_def split: if_splits)
qed

lemma load_store:
  assumes "distinct (map ac_id L)" "distinct (map ac_email L)"
  shows "accounts_load (Some L) = account_store L (Some L)"
proof -
  have fold_fresh: "fold (\<lambda>a. map_set (k a) (v a)) L m = m @ map (\<lambda>a. (k a, v a)) L"
    if "distinct (map fst m @ map k L)" for k :: "AccountRecord \<Rightarrow> string" and v :: "AccountRecord \<Rightarrow> 'v" and m L
    using that by (induction L arbitrary: m) (auto simp: map_set_fresh)
  show ?thesis using fold_fresh[of "[]" ac_id L "\<lambda>a. a"] fold_fresh[of "[]" ac_email L ac_id] assms
    by (simp add: accounts_load_def account_store_def)
qed

text \<open>What a process does with the accounts, latest first.\<close>

datatype account_event = SignUp string bytes signup | Patch string account_patch | AccountRestart

fun account_step :: "scrypt \<Rightarrow> account_event \<Rightarrow> AccountStore \<Rightarrow> AccountStore" where
  "account_step K (SignUp i salt u) s = snd (account_create K i salt u s)"
| "account_step K (Patch i patch) s = snd (account_update i patch s)"
| "account_step K AccountRestart s = accounts_load (as_file s)"

fun account_run :: "scrypt \<Rightarrow> account_event list \<Rightarrow> AccountStore" where
  "account_run K [] = accounts_load None"
| "account_run K (e # log) = account_step K e (account_run K log)"

fun signup_ids :: "account_event list \<Rightarrow> string list" where
  "signup_ids [] = []"
| "signup_ids (SignUp i salt u # log) = i # signup_ids log"
| "signup_ids (_ # log) = signup_ids log"

text \<open>Who is registered under an address: the id and the hash of the first sign-up the rules accepted.\<close>

definition valid_signup :: "signup \<Rightarrow> bool" where
  "valid_signup u = (is_ok (assertEmail (su_email u)) \<and> is_ok (assertPassword (su_password u)))"

fun registered :: "scrypt \<Rightarrow> account_event list \<Rightarrow> string \<Rightarrow> (string \<times> string) option" where
  "registered K [] e = None"
| "registered K (SignUp i salt u # log) e = (if e = normalizeEmail (su_email u) \<and> valid_signup u \<and> registered K log e = None
     then map_option (\<lambda>h. (i, h)) (hashPassword K salt (su_password u)) else registered K log e)"
| "registered K (_ # log) e = registered K log e"

lemma create_store:
  assumes "distinct (map ac_id L)" "i \<notin> ac_id ` set L" "scrypt_ok K"
  shows "\<exists>h. hashPassword K salt (su_password u) = Some h \<and>
    account_create K i salt u (account_store L f) = (case assertEmail (su_email u) of Inl e \<Rightarrow> (Inl (Refusal e), account_store L f)
      | Inr e \<Rightarrow> (case assertPassword (su_password u) of Inl x \<Rightarrow> (Inl (Refusal x), account_store L f)
      | Inr _ \<Rightarrow> if find (\<lambda>a. ac_email a = e) L \<noteq> None then (Inl (Refusal EmailInUseError), account_store L f)
        else (let a = \<lparr> ac_id = i, ac_email = e, ac_passwordHash = h, ac_createdAt = su_now u, ac_walletCAddr = None,
                ac_walletKeyId = None, ac_walletDeployTxHash = None, ac_kyc = no_kyc, ac_fundingAccount = None, ac_onramp = None \<rparr>
              in (Inr a, account_store (L @ [a]) (Some (L @ [a]))))))"
proof -
  obtain h where h: "hashPassword K salt (su_password u) = Some h" using hashPassword_total[OF assms(3)] by blast
  have ids: "i \<notin> fst ` set (map (\<lambda>a. (ac_id a, a)) L)" using assms(2) by auto
  have emails: "e \<notin> fst ` set (map (\<lambda>a. (ac_email a, ac_id a)) L)" if "find (\<lambda>a. ac_email a = e) L = None" for e
    using that by (auto simp: find_None_iff)
  show ?thesis
    using h map_set_fresh[OF ids] map_set_fresh[OF emails]
    by (auto simp: account_create_def id_by_email Let_def accounts_persist_def account_store_def comp_def split: sum.splits)
qed

lemma map_set_member:
  assumes "distinct (map ac_id L)" "a \<in> set L"
  shows "map_set (ac_id a) b (map (\<lambda>x. (ac_id x, x)) L) = map (\<lambda>x. (ac_id x, if ac_id x = ac_id a then b else x)) L"
  using assms by (induction L) (auto simp: map_set_def image_iff intro!: map_cong)

lemma patched_keys [simp]: "ac_id (patched p a) = ac_id a" "ac_email (patched p a) = ac_email a" "ac_passwordHash (patched p a) = ac_passwordHash a"
  by (simp_all add: patched_def)

lemma update_store:
  assumes "distinct (map ac_id L)"
  shows "account_update i patch (account_store L f) = (case find (\<lambda>a. ac_id a = i) L of None \<Rightarrow> (Inl UnauthenticatedError, account_store L f)
      | Some a \<Rightarrow> let L' = map (\<lambda>x. if ac_id x = i then patched patch a else x) L in (Inr (patched patch a), account_store L' (Some L')))"
proof (cases "find (\<lambda>a. ac_id a = i) L")
  case (Some a)
  then have a: "a \<in> set L" "ac_id a = i" by (auto simp: find_Some_iff)
  let ?L = "map (\<lambda>x. if ac_id x = i then patched patch a else x) L"
  have "ac_id x = i \<Longrightarrow> x \<in> set L \<Longrightarrow> x = a" for x using a assms by (auto simp: distinct_map inj_on_def)
  then have "map (\<lambda>x. (ac_email x, ac_id x)) ?L = map (\<lambda>x. (ac_email x, ac_id x)) L"
    "map (\<lambda>x. (ac_id x, x)) ?L = map (\<lambda>x. (ac_id x, if ac_id x = i then patched patch a else x)) L"
    using a by auto
  then show ?thesis
    using map_set_member[OF assms a(1)] a Some
    by (simp add: account_update_def account_store_def account_by_id accounts_persist_def Let_def comp_def)
qed (simp add: account_update_def account_store_def account_by_id)

text \<open>What the run keeps: the store holds exactly the registered accounts.\<close>

definition accounts_reflect :: "scrypt \<Rightarrow> account_event list \<Rightarrow> AccountStore \<Rightarrow> bool" where
  "accounts_reflect K log s = (\<exists>L f. s = account_store L f \<and> distinct (map ac_id L) \<and> distinct (map ac_email L)
     \<and> (\<forall>a\<in>set L. assertEmail (ac_email a) = Inr (ac_email a)) \<and> (f = Some L \<or> f = None \<and> L = []) \<and> ac_id ` set L \<subseteq> set (signup_ids log)
     \<and> (\<forall>e. registered K log e = map_option (\<lambda>a. (ac_id a, ac_passwordHash a)) (find (\<lambda>a. ac_email a = e) L)))"

lemma find_append: "find P (xs @ ys) = (case find P xs of None \<Rightarrow> find P ys | Some x \<Rightarrow> Some x)"
  by (induction xs) auto

lemma find_map_keys:
  "(\<And>x. x \<in> set L \<Longrightarrow> f (g x) = f x \<and> h (g x) = h x) \<Longrightarrow> map_option h (find (\<lambda>a. f a = e) (map g L)) = map_option h (find (\<lambda>a. f a = e) L)"
  by (induction L) auto

lemma run_reflects:
  assumes "scrypt_ok K"
  shows "distinct (signup_ids log) \<Longrightarrow> accounts_reflect K log (account_run K log)"
proof (induction log)
  case Nil
  show ?case unfolding accounts_reflect_def by (auto intro!: exI[of _ "[]"] simp: accounts_load_def account_store_def)
next
  case (Cons ev log)
  have "distinct (signup_ids log)" using Cons.prems by (cases ev) auto
  from Cons.IH[OF this] obtain L f where s: "account_run K log = account_store L f"
    and ok: "distinct (map ac_id L)" "distinct (map ac_email L)" "\<forall>a\<in>set L. assertEmail (ac_email a) = Inr (ac_email a)"
      "f = Some L \<or> f = None \<and> L = []" "ac_id ` set L \<subseteq> set (signup_ids log)"
    and reg: "\<And>e. registered K log e = map_option (\<lambda>a. (ac_id a, ac_passwordHash a)) (find (\<lambda>a. ac_email a = e) L)"
    unfolding accounts_reflect_def by blast
  show ?case
  proof (cases ev)
    case (SignUp i salt u)
    have fresh: "i \<notin> ac_id ` set L" using Cons.prems ok(5) SignUp by auto
    obtain h where h: "hashPassword K salt (su_password u) = Some h" and c: "account_create K i salt u (account_store L f) =
       (case assertEmail (su_email u) of Inl e \<Rightarrow> (Inl (Refusal e), account_store L f)
      | Inr e \<Rightarrow> (case assertPassword (su_password u) of Inl x \<Rightarrow> (Inl (Refusal x), account_store L f)
      | Inr _ \<Rightarrow> if find (\<lambda>a. ac_email a = e) L \<noteq> None then (Inl (Refusal EmailInUseError), account_store L f)
        else (let a = \<lparr> ac_id = i, ac_email = e, ac_passwordHash = h, ac_createdAt = su_now u, ac_walletCAddr = None,
                ac_walletKeyId = None, ac_walletDeployTxHash = None, ac_kyc = no_kyc, ac_fundingAccount = None, ac_onramp = None \<rparr>
              in (Inr a, account_store (L @ [a]) (Some (L @ [a]))))))"
      using create_store[OF ok(1) fresh assms, of salt u f] by blast
    show ?thesis
    proof (cases "valid_signup u \<and> registered K log (normalizeEmail (su_email u)) = None")
      case True
      obtain e where e: "assertEmail (su_email u) = Inr e" "assertPassword (su_password u) = Inr ()"
        using True by (auto simp: valid_signup_def is_ok_iff)
      note canon = email_canonical[OF e(1)]
      let ?a = "\<lparr> ac_id = i, ac_email = e, ac_passwordHash = h, ac_createdAt = su_now u, ac_walletCAddr = None,
          ac_walletKeyId = None, ac_walletDeployTxHash = None, ac_kyc = no_kyc, ac_fundingAccount = None, ac_onramp = None \<rparr>"
      have none: "find (\<lambda>a. ac_email a = e) L = None" using True reg[of e] canon by simp
      have "account_run K (ev # log) = account_store (L @ [?a]) (Some (L @ [?a]))"
        using c e none by (simp add: SignUp s Let_def)
      moreover have "e \<notin> ac_email ` set L" using none by (auto simp: find_None_iff)
      moreover have "registered K (ev # log) x = map_option (\<lambda>a. (ac_id a, ac_passwordHash a)) (find (\<lambda>a. ac_email a = x) (L @ [?a]))" for x
        using True h canon reg[of x] none by (auto simp: SignUp find_append split: option.splits)
      ultimately show ?thesis
        unfolding accounts_reflect_def using ok fresh canon SignUp by (intro exI[of _ "L @ [?a]"] exI[of _ "Some (L @ [?a])"]) auto
    next
      case False
      have "snd (account_create K i salt u (account_store L f)) = account_store L f"
        using False reg c email_canonical[of "su_email u"] by (auto simp: valid_signup_def Let_def split: sum.splits)
      moreover have "registered K (ev # log) x = registered K log x" for x using False by (auto simp: SignUp)
      ultimately show ?thesis
        unfolding accounts_reflect_def using ok reg s SignUp by (intro exI[of _ L] exI[of _ f]) auto
    qed
  next
    case (Patch i patch)
    show ?thesis
    proof (cases "find (\<lambda>a. ac_id a = i) L")
      case None
      then show ?thesis unfolding accounts_reflect_def using ok reg s Patch update_store[OF ok(1), of i patch f] by (intro exI[of _ L] exI[of _ f]) auto
    next
      case (Some a)
      let ?g = "\<lambda>x. if ac_id x = i then patched patch a else x"
      let ?L = "map ?g L"
      have a: "a \<in> set L" "ac_id a = i" using Some by (auto simp: find_Some_iff)
      have only: "x \<in> set L \<Longrightarrow> ac_id x = i \<Longrightarrow> x = a" for x using a ok(1) by (auto simp: distinct_map inj_on_def)
      have keys: "map ac_id ?L = map ac_id L" "map ac_email ?L = map ac_email L"
        using only a by (auto dest: only)
      have r: "registered K (ev # log) x = map_option (\<lambda>a. (ac_id a, ac_passwordHash a)) (find (\<lambda>a. ac_email a = x) ?L)" for x
        unfolding reg[of x, folded registered.simps(3)[of K i patch log x, folded Patch]]
        by (rule find_map_keys[symmetric]) (use only a in \<open>auto dest: only\<close>)
      have run: "account_run K (ev # log) = account_store ?L (Some ?L)"
        using update_store[OF ok(1), of i patch f] Some by (simp add: s Patch Let_def)
      have m: "\<forall>x\<in>set ?L. assertEmail (ac_email x) = Inr (ac_email x)" "ac_id ` set ?L \<subseteq> set (signup_ids (ev # log))"
        using ok(3,5) a Patch by auto
      show ?thesis unfolding accounts_reflect_def
        by (intro exI[of _ ?L] exI[of _ "Some ?L"] conjI allI disjI1 refl run m r ok(1)[folded keys(1)] ok(2)[folded keys(2)])
    qed
  next
    case AccountRestart
    have "accounts_load f = account_store L f"
      using ok(4) load_store[OF ok(1,2)] by (auto simp: accounts_load_def account_store_def)
    then show ?thesis unfolding accounts_reflect_def using ok reg s AccountRestart
      by (intro exI[of _ L] exI[of _ f]) (auto simp: account_store_def)
  qed
qed

lemma run_ok: "scrypt_ok K \<Longrightarrow> distinct (signup_ids log) \<Longrightarrow> accounts_ok (account_run K log)"
  using run_reflects[of K log] unfolding accounts_reflect_def accounts_ok_form by blast

text \<open>Who is registered stays registered, and so does every account.\<close>

lemma registered_stays: "registered K log e = Some x \<Longrightarrow> registered K (later @ log) e = Some x"
proof (induction later)
  case (Cons act later)
  then show ?case by (cases act) auto
qed simp

lemma signup_ids_append [simp]: "signup_ids (a @ b) = signup_ids a @ signup_ids b"
  by (induction a rule: signup_ids.induct) auto

lemma account_stays:
  assumes "scrypt_ok K" "distinct (signup_ids (later @ log))"
  shows "account_get (account_run K log) i = Some a \<Longrightarrow>
    \<exists>a'. account_get (account_run K (later @ log)) i = Some a' \<and> ac_id a' = i \<and> ac_id a = i
       \<and> ac_email a' = ac_email a \<and> ac_passwordHash a' = ac_passwordHash a"
proof -
  have "distinct (signup_ids log)" using assms(2) by simp
  from run_reflects[OF assms(1) this] obtain L f where s: "account_run K log = account_store L f" "distinct (map ac_email L)"
    "\<And>e. registered K log e = map_option (\<lambda>a. (ac_id a, ac_passwordHash a)) (find (\<lambda>a. ac_email a = e) L)"
    unfolding accounts_reflect_def by blast
  from run_reflects[OF assms] obtain L' f' where s': "account_run K (later @ log) = account_store L' f'" "distinct (map ac_id L')"
    "\<And>e. registered K (later @ log) e = map_option (\<lambda>a. (ac_id a, ac_passwordHash a)) (find (\<lambda>a. ac_email a = e) L')"
    unfolding accounts_reflect_def by blast
  assume "account_get (account_run K log) i = Some a"
  then have "find (\<lambda>a. ac_id a = i) L = Some a" by (simp add: s(1) account_get_def account_store_def account_by_id)
  then have a: "a \<in> set L" "ac_id a = i" by (auto simp: find_Some_iff)
  have "registered K log (ac_email a) = Some (i, ac_passwordHash a)" using find_unique[OF s(2) a(1)] a(2) by (simp add: s(3))
  from registered_stays[OF this, of later] obtain a' where a': "find (\<lambda>b. ac_email b = ac_email a) L' = Some a'"
    "ac_id a' = i" "ac_passwordHash a' = ac_passwordHash a" unfolding s'(3) by auto
  then have "a' \<in> set L'" "ac_email a' = ac_email a" by (auto simp: find_Some_iff)
  moreover from this(1) have "find (\<lambda>b. ac_id b = i) L' = Some a'" using find_unique[OF s'(2), of a'] a'(2) by simp
  ultimately show ?thesis using a' a(2) by (auto simp: s'(1) account_get_def account_store_def account_by_id)
qed

lemma sign_in:
  assumes "scrypt_ok K" "distinct (signup_ids log)"
  shows "case registered K log (normalizeEmail email) of None \<Rightarrow> authenticate K (account_run K log) email pw = Inl InvalidCredentialsError
    | Some (i, h) \<Rightarrow> (if verifyPassword K pw h
        then \<exists>a. authenticate K (account_run K log) email pw = Inr a \<and> ac_id a = i \<and> ac_email a = normalizeEmail email \<and> ac_passwordHash a = h
        else authenticate K (account_run K log) email pw = Inl InvalidCredentialsError)"
proof -
  obtain L f where s: "account_run K log = account_store L f" and d: "distinct (map ac_id L)"
    and reg: "\<And>e. registered K log e = map_option (\<lambda>a. (ac_id a, ac_passwordHash a)) (find (\<lambda>a. ac_email a = e) L)"
    using run_reflects[OF assms] unfolding accounts_reflect_def by blast
  show ?thesis
  proof (cases "find (\<lambda>a. ac_email a = normalizeEmail email) L")
    case None
    then show ?thesis by (simp add: reg authenticate_def s findByEmail_store[OF d])
  next
    case (Some a)
    then have "ac_email a = normalizeEmail email" by (auto simp: find_Some_iff)
    then show ?thesis using Some by (simp add: reg authenticate_def s findByEmail_store[OF d])
  qed
qed

text \<open>A restart reads back exactly the store that was.\<close>

lemma restart_same: "scrypt_ok K \<Longrightarrow> distinct (signup_ids log) \<Longrightarrow> accounts_load (as_file (account_run K log)) = account_run K log"
proof -
  assume "scrypt_ok K" "distinct (signup_ids log)"
  then obtain L f where s: "account_run K log = account_store L f" and ok: "distinct (map ac_id L)" "distinct (map ac_email L)"
    "f = Some L \<or> f = None \<and> L = []"
    using run_reflects[of K log] unfolding accounts_reflect_def by blast
  then show ?thesis using load_store[OF ok(1,2)] by (auto simp: account_store_def accounts_load_def)
qed

section \<open>Facts on the sign-in sessions\<close>

text \<open>What happens to the sessions of a process with a file, latest first, and the clock it happens at.\<close>

datatype session_event = S_Create bytes string int | S_Resolve string int | S_Destroy string | S_Restart int

fun session_step :: "(bytes \<Rightarrow> bytes) \<Rightarrow> session_event \<Rightarrow> PortalSessionStore \<Rightarrow> PortalSessionStore" where
  "session_step sha (S_Create random a now) s = snd (portal_session_create sha random a now s)"
| "session_step sha (S_Resolve token now) s = snd (portal_session_resolve sha token now s)"
| "session_step sha (S_Destroy token) s = portal_session_destroy sha token s"
| "session_step sha (S_Restart now) s = (case sessions_open True (pss_file s) (Some (pss_ttl s)) now of None \<Rightarrow> s | Some s' \<Rightarrow> s')"

fun session_run :: "(bytes \<Rightarrow> bytes) \<Rightarrow> int \<Rightarrow> session_event list \<Rightarrow> PortalSessionStore" where
  "session_run sha ttl [] = \<lparr> pss_byHash = [], pss_durable = True, pss_file = None, pss_ttl = ttl \<rparr>"
| "session_run sha ttl (e # log) = session_step sha e (session_run sha ttl log)"

fun session_clock :: "session_event \<Rightarrow> int option" where
  "session_clock (S_Create random a now) = Some now"
| "session_clock (S_Resolve token now) = Some now"
| "session_clock (S_Destroy token) = None"
| "session_clock (S_Restart now) = Some now"

fun clock_forward :: "session_event list \<Rightarrow> int \<Rightarrow> bool" where
  "clock_forward [] now = True"
| "clock_forward (e # log) now = (case session_clock e of None \<Rightarrow> clock_forward log now | Some t \<Rightarrow> t \<le> now \<and> clock_forward log t)"

text \<open>The token an event names.\<close>

fun event_tokens :: "session_event \<Rightarrow> string set" where
  "event_tokens (S_Create random a now) = {base64urlEncode random}"
| "event_tokens (S_Resolve token now) = {token}"
| "event_tokens (S_Destroy token) = {token}"
| "event_tokens (S_Restart now) = {}"

definition session_tokens :: "session_event list \<Rightarrow> string set" where
  "session_tokens log = (\<Union>e\<in>set log. event_tokens e)"

text \<open>Who is behind a token and until when, read off the events: restarts and lookups play no part.\<close>

fun signed_in :: "int \<Rightarrow> session_event list \<Rightarrow> string \<Rightarrow> (string \<times> int) option" where
  "signed_in ttl [] token = None"
| "signed_in ttl (S_Create random a now # log) token = (if token = base64urlEncode random then Some (a, now + ttl) else signed_in ttl log token)"
| "signed_in ttl (S_Destroy t # log) token = (if token = t then None else signed_in ttl log token)"
| "signed_in ttl (_ # log) token = signed_in ttl log token"

definition session_rec :: "string \<Rightarrow> string \<times> int \<Rightarrow> PersistedSession" where
  "session_rec h x = \<lparr> ss_tokenHash = h, ss_accountId = fst x, ss_expiresAt = snd x \<rparr>"

text \<open>The map agrees with the events on the tokens \<open>T\<close>, once expired entries are left out on both sides.\<close>

definition live_rec :: "int \<Rightarrow> PersistedSession option \<Rightarrow> PersistedSession option" where
  "live_rec now found = (case found of None \<Rightarrow> None | Some r \<Rightarrow> if ss_expiresAt r \<le> now then None else Some r)"

definition live_entry :: "int \<Rightarrow> (string \<times> int) option \<Rightarrow> (string \<times> int) option" where
  "live_entry now want = (case want of None \<Rightarrow> None | Some x \<Rightarrow> if snd x \<le> now then None else Some x)"

definition entry_ok :: "int \<Rightarrow> string \<Rightarrow> PersistedSession option \<Rightarrow> (string \<times> int) option \<Rightarrow> bool" where
  "entry_ok now hash found want = (live_rec now found = map_option (session_rec hash) (live_entry now want))"

lemma live_simps [simp]:
  "live_rec now None = None" "live_rec now (Some r) = (if ss_expiresAt r \<le> now then None else Some r)"
  "live_entry now None = None" "live_entry now (Some x) = (if snd x \<le> now then None else Some x)"
  by (simp_all add: live_rec_def live_entry_def)

lemma session_rec_simps [simp]: "ss_expiresAt (session_rec h x) = snd x" "ss_tokenHash (session_rec h x) = h" "ss_accountId (session_rec h x) = fst x"
  by (simp_all add: session_rec_def)

lemma entry_ok_later: "entry_ok now h f w \<Longrightarrow> now \<le> t \<Longrightarrow> entry_ok t h f w"
  by (cases f; cases w) (auto simp: entry_ok_def split: if_splits)

definition agrees :: "(string \<Rightarrow> string) \<Rightarrow> string set \<Rightarrow> (string \<Rightarrow> (string \<times> int) option) \<Rightarrow> int \<Rightarrow> (string \<times> PersistedSession) list \<Rightarrow> bool" where
  "agrees h T S now m = (keyed_by ss_tokenHash m \<and> (\<forall>t\<in>T. entry_ok now (h t) (map_get m (h t)) (S t)))"

lemma agrees_later: "agrees h T S now m \<Longrightarrow> now \<le> t \<Longrightarrow> agrees h T S t m"
  unfolding agrees_def using entry_ok_later by blast

lemma keyed_by_filter: "keyed_by f m \<Longrightarrow> keyed_by f (filter P m)"
  by (auto simp: keyed_by_def distinct_map_filter)

lemma get_filter: "distinct (map fst m) \<Longrightarrow> map_get (filter P m) k = (case map_get m k of None \<Rightarrow> None | Some v \<Rightarrow> if P (k, v) then Some v else None)"
  unfolding map_get_def by (induction m) (force simp: map_of_eq_None_iff split: option.splits)+

lemma agrees_live:
  assumes "agrees h T S now m"
  shows "agrees h T S now (filter (\<lambda>(k, r). \<not> ss_expiresAt r \<le> now) m)"
proof -
  have d: "distinct (map fst m)" using assms by (simp add: agrees_def keyed_by_def)
  have "live_rec now (map_get (filter (\<lambda>(k, r). \<not> ss_expiresAt r \<le> now) m) k) = live_rec now (map_get m k)" for k
    unfolding get_filter[OF d] by (cases "map_get m k") auto
  moreover have "keyed_by ss_tokenHash (filter (\<lambda>(k, r). \<not> ss_expiresAt r \<le> now) m)"
    using assms by (simp add: agrees_def keyed_by_filter)
  ultimately show ?thesis using assms unfolding agrees_def entry_ok_def by simp
qed

lemma inj_on_iff_eq: "inj_on h T \<Longrightarrow> t \<in> T \<Longrightarrow> u \<in> T \<Longrightarrow> h u = h t \<longleftrightarrow> u = t"
  by (auto dest: inj_onD)

lemma agrees_put:
  assumes "agrees h T S now m" "inj_on h T" "t \<in> T"
  shows "agrees h T (S(t \<mapsto> x)) now (map_set (h t) (session_rec (h t) x) m)"
proof -
  have "keyed_by ss_tokenHash (map_set (h t) (session_rec (h t) x) m)"
    using keyed_by_set[of ss_tokenHash m "session_rec (h t) x"] assms(1) by (simp add: agrees_def)
  then show ?thesis using assms(1) inj_on_iff_eq[OF assms(2,3)] unfolding agrees_def by (simp add: js_map.get_put entry_ok_def)
qed

text \<open>Removing a token, or finding it gone already.\<close>

lemma agrees_drop:
  assumes "agrees h T S now m" "inj_on h T" "t \<in> T" "live_entry now (S' t) = None" "\<And>u. u \<noteq> t \<Longrightarrow> S' u = S u"
  shows "agrees h T S' now (map_delete (h t) m)"
proof -
  have "entry_ok now (h u) (map_get (map_delete (h t) m) (h u)) (S' u)" if "u \<in> T" for u
  proof (cases "u = t")
    case False
    then show ?thesis using assms(1,5) that inj_on_iff_eq[OF assms(2,3) that] by (simp add: js_map.get_remove agrees_def)
  qed (simp add: assms(4) js_map.get_remove entry_ok_def)
  then show ?thesis using assms(1) keyed_by_delete[of ss_tokenHash m "h t"] unfolding agrees_def by blast
qed

lemma agrees_gone:
  assumes "agrees h T S now m" "live_rec now (map_get m (h t)) = None" "live_entry now (S' t) = None" "\<And>u. u \<noteq> t \<Longrightarrow> S' u = S u"
  shows "agrees h T S' now m"
  using assms unfolding agrees_def entry_ok_def by (metis option.map_disc_iff)

text \<open>Memory and file agree with the events.\<close>

definition sessions_reflect :: "(string \<Rightarrow> string) \<Rightarrow> string set \<Rightarrow> int \<Rightarrow> session_event list \<Rightarrow> int \<Rightarrow> PortalSessionStore \<Rightarrow> bool" where
  "sessions_reflect h T ttl log now s = (pss_durable s \<and> pss_ttl s = ttl \<and> agrees h T (signed_in ttl log) now (pss_byHash s)
     \<and> (case pss_file s of None \<Rightarrow> agrees h T (signed_in ttl log) now []
        | Some f \<Rightarrow> sf_version f = JInt 1 \<and> agrees h T (signed_in ttl log) now (map (\<lambda>r. (ss_tokenHash r, r)) (sf_sessions f))))"

lemma keyed_list: "keyed_by f m \<Longrightarrow> map (\<lambda>r. (f r, r)) (map snd m) = m"
  unfolding keyed_by_def map_map by (rule map_idI) auto

lemma reflect_persisted:
  assumes "agrees h T (signed_in ttl log) now m"
  shows "sessions_reflect h T ttl log now (sessions_persist \<lparr> pss_byHash = m, pss_durable = True, pss_file = f, pss_ttl = ttl \<rparr>)"
  using assms keyed_list[of ss_tokenHash m] by (simp add: sessions_reflect_def sessions_persist_def agrees_def)

lemma loaded_live:
  assumes "keyed_by ss_tokenHash (map (\<lambda>r. (ss_tokenHash r, r)) rs)"
  shows "fold (\<lambda>r m. if ss_expiresAt r > now then map_set (ss_tokenHash r) r m else m) rs []
     = filter (\<lambda>(k, r). \<not> ss_expiresAt r \<le> now) (map (\<lambda>r. (ss_tokenHash r, r)) rs)"
proof -
  have "fold (\<lambda>r m. if ss_expiresAt r > now then map_set (ss_tokenHash r) r m else m) rs m
     = m @ filter (\<lambda>(k, r). \<not> ss_expiresAt r \<le> now) (map (\<lambda>r. (ss_tokenHash r, r)) rs)"
    if "distinct (map fst m @ map ss_tokenHash rs)" for m
    using that by (induction rs arbitrary: m) (auto simp: map_set_fresh not_le)
  from this[of "[]"] show ?thesis using assms by (simp add: keyed_by_def comp_def)
qed

lemma reflect_later: "sessions_reflect h T ttl log now s \<Longrightarrow> now \<le> t \<Longrightarrow> sessions_reflect h T ttl log t s"
  unfolding sessions_reflect_def by (auto intro: agrees_later split: option.splits)

lemma reflect_shape:
  "sessions_reflect h T ttl log now s \<Longrightarrow> s\<lparr>pss_byHash := m\<rparr> = \<lparr> pss_byHash = m, pss_durable = True, pss_file = pss_file s, pss_ttl = ttl \<rparr>"
  by (cases s) (simp add: sessions_reflect_def)

lemma reflect_agrees: "sessions_reflect h T ttl log now s \<Longrightarrow> agrees h T (signed_in ttl log) now (pss_byHash s)"
  by (simp add: sessions_reflect_def)

lemma sweep_reflects:
  assumes "sessions_reflect h T ttl log now s"
  shows "sessions_reflect h T ttl log now (sessions_sweep now s)"
  unfolding sessions_sweep_def Let_def reflect_shape[OF assms]
  using assms reflect_persisted[OF agrees_live[OF reflect_agrees[OF assms]], of "pss_file s"] by simp

lemma token_entry: "sessions_reflect h T ttl log now s \<Longrightarrow> t \<in> T \<Longrightarrow> entry_ok now (h t) (map_get (pss_byHash s) (h t)) (signed_in ttl log t)"
  by (simp add: sessions_reflect_def agrees_def)

lemma session_hash: "sessions_reflect h T ttl log now s \<Longrightarrow> map_get (pss_byHash s) k = Some r \<Longrightarrow> ss_tokenHash r = k"
  unfolding sessions_reflect_def agrees_def keyed_by_def map_get_def by (auto dest: map_of_SomeD)

lemma session_reflects:
  assumes "inj_on (hashToken sha) T"
  shows "session_tokens log \<subseteq> T \<Longrightarrow> clock_forward log now \<Longrightarrow> sessions_reflect (hashToken sha) T ttl log now (session_run sha ttl log)"
proof (induction log arbitrary: now)
  case Nil
  show ?case by (simp add: sessions_reflect_def agrees_def keyed_by_def entry_ok_def map_get_def)
next
  case (Cons ev log)
  let ?h = "hashToken sha" and ?s = "session_run sha ttl log"
  have T: "event_tokens ev \<subseteq> T" "session_tokens log \<subseteq> T" using Cons.prems(1) by (auto simp: session_tokens_def)
  show ?case
  proof (cases ev)
    case (S_Create random a t)
    let ?tok = "base64urlEncode random"
    have t: "t \<le> now" "clock_forward log t" using Cons.prems(2) S_Create by auto
    note r = sweep_reflects[OF Cons.IH[OF T(2) t(2)]]
    have ttl: "pss_ttl ?s = ttl" using Cons.IH[OF T(2) t(2)] by (simp add: sessions_reflect_def)
    have "signed_in ttl (ev # log) = (signed_in ttl log)(?tok \<mapsto> (a, t + ttl))" by (auto simp: S_Create fun_eq_iff)
    moreover have "?tok \<in> T" using T(1) S_Create by simp
    ultimately have "agrees ?h T (signed_in ttl (ev # log)) t (map_set (?h ?tok) (session_rec (?h ?tok) (a, t + ttl)) (pss_byHash (sessions_sweep t ?s)))"
      using agrees_put[OF _ assms] r by (simp add: sessions_reflect_def)
    from reflect_persisted[OF this] have "sessions_reflect ?h T ttl (ev # log) t (session_run sha ttl (ev # log))"
      using reflect_shape[OF r] by (simp add: S_Create portal_session_create_def Let_def session_rec_def ttl)
    then show ?thesis using t(1) by (rule reflect_later)
  next
    case (S_Resolve token t)
    have t: "t \<le> now" "clock_forward log t" "token \<in> T" using Cons.prems(2) T(1) S_Resolve by auto
    note r = Cons.IH[OF T(2) t(2)]
    have same: "signed_in ttl (ev # log) = signed_in ttl log" by (auto simp: S_Resolve)
    have "sessions_reflect ?h T ttl (ev # log) t (session_run sha ttl (ev # log))"
    proof (cases "\<exists>x. token \<noteq> [] \<and> map_get (pss_byHash ?s) (?h token) = Some x \<and> ss_expiresAt x \<le> t")
      case True
      then obtain x where x: "token \<noteq> []" "map_get (pss_byHash ?s) (?h token) = Some x" "ss_expiresAt x \<le> t" by blast
      have "live_entry t (signed_in ttl (ev # log) token) = None" using token_entry[OF r t(3)] x same by (simp add: entry_ok_def)
      then have "agrees ?h T (signed_in ttl (ev # log)) t (map_delete (?h token) (pss_byHash ?s))"
        using agrees_drop[OF reflect_agrees[OF r] assms t(3)] same by simp
      from reflect_persisted[OF this] show ?thesis
        using x session_hash[OF r x(2)] reflect_shape[OF r] by (simp add: S_Resolve portal_session_resolve_def)
    next
      case False
      then have "session_run sha ttl (ev # log) = ?s" by (auto simp: S_Resolve portal_session_resolve_def split: option.split)
      then show ?thesis using r unfolding sessions_reflect_def same by simp
    qed
    then show ?thesis using t(1) by (rule reflect_later)
  next
    case (S_Destroy token)
    have t: "clock_forward log now" "token \<in> T" using Cons.prems(2) T(1) S_Destroy by auto
    note r = Cons.IH[OF T(2) t(1)]
    have S: "signed_in ttl (ev # log) token = None" "u \<noteq> token \<Longrightarrow> signed_in ttl (ev # log) u = signed_in ttl log u" for u
      by (auto simp: S_Destroy)
    show ?thesis
    proof (cases "map_get (pss_byHash ?s) (?h token)")
      case None
      have same: "session_run sha ttl (ev # log) = ?s" using None by (simp add: S_Destroy portal_session_destroy_def)
      have le: "live_entry now (signed_in ttl log token) = None" using token_entry[OF r t(2)] None by (simp add: entry_ok_def)
      have gone: "agrees ?h T (signed_in ttl (ev # log)) now m" if "agrees ?h T (signed_in ttl log) now m" for m
      proof (rule agrees_gone[OF that])
        show "live_rec now (map_get m (?h token)) = None" using that le t(2) by (auto simp: agrees_def entry_ok_def)
      qed (simp_all add: S)
      show ?thesis using r gone unfolding sessions_reflect_def same by (auto split: option.splits)
    next
      case (Some x)
      have "agrees ?h T (signed_in ttl (ev # log)) now (map_delete (?h token) (pss_byHash ?s))"
        using agrees_drop[OF reflect_agrees[OF r] assms t(2), of "signed_in ttl (ev # log)"] S by simp
      from reflect_persisted[OF this] show ?thesis using Some reflect_shape[OF r] by (simp add: S_Destroy portal_session_destroy_def)
    qed
  next
    case (S_Restart t)
    have t: "t \<le> now" "clock_forward log t" using Cons.prems(2) S_Restart by auto
    note r = Cons.IH[OF T(2) t(2)]
    have same: "signed_in ttl (ev # log) = signed_in ttl log" by (auto simp: S_Restart)
    have "sessions_reflect ?h T ttl (ev # log) t (session_run sha ttl (ev # log))"
    proof (cases "pss_file ?s")
      case None
      then have "session_run sha ttl (ev # log) = \<lparr> pss_byHash = [], pss_durable = True, pss_file = None, pss_ttl = ttl \<rparr>"
        using r by (simp add: S_Restart sessions_open_def sessions_reflect_def Let_def)
      then show ?thesis using r None unfolding sessions_reflect_def same by simp
    next
      case (Some f)
      let ?m = "map (\<lambda>r. (ss_tokenHash r, r)) (sf_sessions f)"
      have f: "sf_version f = JInt 1" "agrees ?h T (signed_in ttl log) t ?m" using r Some by (simp_all add: sessions_reflect_def)
      then have "keyed_by ss_tokenHash ?m" by (simp add: agrees_def)
      then have "session_run sha ttl (ev # log) = \<lparr> pss_byHash = filter (\<lambda>(k, r). \<not> ss_expiresAt r \<le> t) ?m, pss_durable = True,
          pss_file = Some f, pss_ttl = ttl \<rparr>"
        using r Some f loaded_live[of "sf_sessions f" t] by (simp add: S_Restart sessions_open_def sessions_reflect_def Let_def)
      then show ?thesis using f agrees_live[OF f(2)] unfolding sessions_reflect_def same by simp
    qed
    then show ?thesis using t(1) by (rule reflect_later)
  qed
qed

lemma resolve_live:
  assumes "inj_on (hashToken sha) (insert token (session_tokens log))" "clock_forward log now" "token \<noteq> []"
  shows "fst (portal_session_resolve sha token now (session_run sha ttl log)) = map_option fst (live_entry now (signed_in ttl log token))"
proof -
  have "sessions_reflect (hashToken sha) (insert token (session_tokens log)) ttl log now (session_run sha ttl log)"
    by (rule session_reflects[OF assms(1) _ assms(2)]) auto
  from token_entry[OF this, of token]
  have e: "live_rec now (map_get (pss_byHash (session_run sha ttl log)) (hashToken sha token))
      = map_option (session_rec (hashToken sha token)) (live_entry now (signed_in ttl log token))" by (simp add: entry_ok_def)
  show ?thesis
  proof (cases "map_get (pss_byHash (session_run sha ttl log)) (hashToken sha token)")
    case None
    then show ?thesis using e assms(3) by (simp add: portal_session_resolve_def)
  next
    case (Some r)
    then show ?thesis using e assms(3)
      by (cases "live_entry now (signed_in ttl log token)") (auto simp: portal_session_resolve_def split: if_splits)
  qed
qed

section \<open>Facts on cookies\<close>

definition cookie_token :: "string \<Rightarrow> bool" where
  "cookie_token s = (s \<noteq> [] \<and> CHR '';'' \<notin> set s \<and> \<not> js_space (hd s) \<and> \<not> js_space (last s))"

definition cookie_pair :: "string \<times> string \<Rightarrow> string" where
  "cookie_pair c = fst c @ ''='' @ snd c"

lemma js_space_blank: "js_space CHR '' ''"
  by (simp add: js_space_def)

lemma cookie_value_pair:
  assumes "cookie_token n" "cookie_token v" "CHR ''='' \<notin> set n"
  shows "cookie_value name (cookie_pair (n, v)) = (if n = name then Some v else None)"
    and "cookie_value name (CHR '' '' # cookie_pair (n, v)) = (if n = name then Some v else None)"
proof -
  have t: "js_trim n = n" "js_trim v = v" "v \<noteq> []" using assms by (auto simp: cookie_token_def js_trim_fixed)
  have t': "js_trim (CHR '' '' # n) = n" using t(1) by (simp add: js_trim_def js_space_blank)
  have c: "before CHR ''='' (n @ CHR ''='' # v) = n" "after CHR ''='' (n @ CHR ''='' # v) = v"
    "before CHR ''='' ((CHR '' '' # n) @ CHR ''='' # v) = CHR '' '' # n" "after CHR ''='' ((CHR '' '' # n) @ CHR ''='' # v) = v"
    using cut_first[of "CHR ''=''" n v] cut_first[of "CHR ''=''" "CHR '' '' # n" v] assms(3) by auto
  show "cookie_value name (cookie_pair (n, v)) = (if n = name then Some v else None)"
    using c(1,2) t by (auto simp: cookie_value_def cookie_pair_def Let_def)
  show "cookie_value name (CHR '' '' # cookie_pair (n, v)) = (if n = name then Some v else None)"
    using c(3,4) t t' by (auto simp: cookie_value_def cookie_pair_def Let_def)
qed

lemma join_Cons: "join sep ((c # a) # ps) = c # join sep (a # ps)"
  by (cases ps) simp_all

lemma split_header:
  "\<forall>p\<in>set ps. CHR '';'' \<notin> set p \<Longrightarrow> ps \<noteq> [] \<Longrightarrow> split_on CHR '';'' (join ''; '' ps) = hd ps # map (\<lambda>p. CHR '' '' # p) (tl ps)"
proof -
  have j: "join ''; '' (p # ps) = join '';'' (p # map (\<lambda>p. CHR '' '' # p) ps)" for p and ps :: "string list"
    by (induction ps arbitrary: p) (auto simp: join_Cons)
  have j': "join ''; '' (p # map (\<lambda>q. q) ps) = join [CHR '';''] (p # map (\<lambda>p. CHR '' '' # p) ps)" for p and ps :: "string list"
    using j by simp
  assume a: "\<forall>p\<in>set ps. CHR '';'' \<notin> set p" "ps \<noteq> []"
  then obtain p qs where ps: "ps = p # qs" by (cases ps) auto
  have "split_on CHR '';'' (join [CHR '';''] (p # map (\<lambda>p. CHR '' '' # p) qs)) = p # map (\<lambda>p. CHR '' '' # p) qs"
    by (rule split_join_parts) (use a ps in auto)
  then show ?thesis using j'[of p qs] ps by simp
qed

lemma map_filter_pairs:
  assumes "\<forall>(n, v)\<in>set cs. cookie_token n \<and> cookie_token v \<and> CHR ''='' \<notin> set n"
  shows "List.map_filter (cookie_value name) (map cookie_pair cs) = map snd (filter (\<lambda>c. fst c = name) cs)"
    and "List.map_filter (cookie_value name) (map (\<lambda>p. CHR '' '' # p) (map cookie_pair cs)) = map snd (filter (\<lambda>c. fst c = name) cs)"
  using assms cookie_value_pair by (induction cs) (auto simp: List.map_filter_simps)

lemma cookies_read:
  assumes "\<forall>(n, v)\<in>set cs. cookie_token n \<and> cookie_token v \<and> CHR ''='' \<notin> set n"
  shows "readCookies (Some (join ''; '' (map cookie_pair cs))) name = map snd (filter (\<lambda>c. fst c = name) cs)"
proof (cases cs)
  case Nil
  then show ?thesis by (simp add: readCookies_def cookie_value_def List.map_filter_simps)
next
  case (Cons c ds)
  have "\<forall>p\<in>set (map cookie_pair cs). CHR '';'' \<notin> set p" using assms by (auto simp: cookie_token_def cookie_pair_def)
  from split_header[OF this] Cons have "split_on CHR '';'' (join ''; '' (map cookie_pair cs))
      = cookie_pair c # map (\<lambda>p. CHR '' '' # p) (map cookie_pair ds)" by simp
  then show ?thesis
    using assms Cons map_filter_pairs(1)[of "[c]" name] map_filter_pairs(2)[of ds name]
    by (simp add: readCookies_def List.map_filter_simps split: option.splits if_splits)
qed

section \<open>Properties\<close>

lemma registered_later: "registered K log e = Some x \<Longrightarrow> registered K (later @ log) e = Some x"
proof (induction later)
  case (Cons ev later)
  then show ?case by (cases ev) auto
qed simp

lemma distinct_ids_suffix: "distinct (signup_ids (later @ log)) \<Longrightarrow> distinct (signup_ids log)"
proof (induction later)
  case (Cons ev later)
  then show ?case by (cases ev) auto
qed simp

text \<open>
  C24. The account that signs up is the one that signs in: after a sign-up the rules accept, and
  whatever sign-ups, updates and restarts follow, an address that differs from the one given only
  in case and surrounding space signs in to exactly that account, with a password whose key under
  the account's salt is the key of the chosen password, and with no other.
\<close>

theorem sign_up_sign_in:
  assumes "scrypt_ok K" "distinct (signup_ids (later @ SignUp i salt u # earlier))" "valid_signup u"
    and "registered K earlier (normalizeEmail (su_email u)) = None" "normalizeEmail email = normalizeEmail (su_email u)"
  shows "case authenticate K (account_run K (later @ SignUp i salt u # earlier)) email pw of
     Inr a \<Rightarrow> ac_id a = i \<and> ac_email a = normalizeEmail email \<and> K pw salt 32 16384 8 1 = K (su_password u) salt 32 16384 8 1
   | Inl e \<Rightarrow> e = InvalidCredentialsError \<and> K pw salt 32 16384 8 1 \<noteq> K (su_password u) salt 32 16384 8 1"
proof -
  obtain h where h: "hashPassword K salt (su_password u) = Some h" using hashPassword_total[OF assms(1)] by blast
  have "registered K (SignUp i salt u # earlier) (normalizeEmail email) = Some (i, h)" using assms(3-5) h by simp
  from registered_later[OF this, of later] have r: "registered K (later @ SignUp i salt u # earlier) (normalizeEmail email) = Some (i, h)" .
  show ?thesis
    using sign_in[OF assms(1,2), of email pw] unfolding r option.case prod.case verify_hashed[OF assms(1) h]
    by (auto split: if_splits)
qed

definition toy_scrypt :: scrypt where
  "toy_scrypt = (\<lambda>pw salt n N r p. Some (take n (ref_utf8 pw @ replicate n 0)))"

lemma toy_scrypt_ok: "scrypt_ok toy_scrypt"
  by (auto simp: scrypt_ok_def toy_scrypt_def)

definition toy_signup :: signup where
  "toy_signup = \<lparr> su_email = '' Ann@Mail.example '', su_password = ''correct horse'', su_now = JInt 5 \<rparr>"

lemma toy_signup_valid: "valid_signup toy_signup" "normalizeEmail (su_email toy_signup) = ''ann@mail.example''"
proof -
  show n: "normalizeEmail (su_email toy_signup) = ''ann@mail.example''" by code_simp
  show "valid_signup toy_signup" by code_simp
qed

theorem sign_up_sign_in_witness:
  "let log = [AccountRestart, SignUp ''a1'' (replicate 16 1) toy_signup] in
   (\<exists>a. authenticate toy_scrypt (account_run toy_scrypt log) ''ANN@mail.example'' ''correct horse'' = Inr a \<and> ac_id a = ''a1'')
   \<and> authenticate toy_scrypt (account_run toy_scrypt log) ''ANN@mail.example'' ''incorrect'' = Inl InvalidCredentialsError"
proof -
  let ?u = toy_signup and ?salt = "replicate 16 1 :: bytes"
  have d: "distinct (signup_ids ([AccountRestart] @ SignUp ''a1'' ?salt ?u # []))" by simp
  have r: "registered toy_scrypt [] (normalizeEmail (su_email ?u)) = None" by simp
  have e: "normalizeEmail ''ANN@mail.example'' = normalizeEmail (su_email ?u)" unfolding toy_signup_valid(2) by code_simp
  note s = sign_up_sign_in[OF toy_scrypt_ok d toy_signup_valid(1) r e]
  have k: "toy_scrypt ''correct horse'' ?salt 32 16384 8 1 = toy_scrypt (su_password ?u) ?salt 32 16384 8 1"
    by (simp add: toy_signup_def)
  have k': "toy_scrypt ''incorrect'' ?salt 32 16384 8 1 \<noteq> toy_scrypt (su_password ?u) ?salt 32 16384 8 1" by code_simp
  show ?thesis using s[of "''correct horse''"] s[of "''incorrect''"] k k' by (auto simp: Let_def split: sum.splits)
qed

text \<open>
  C25. The account store is always in order: after any run of sign-ups, updates and restarts, no two
  accounts share an id or an address, every address is a plausible one in its canonical form, the
  index by address is exactly the accounts, reading the file back gives the store as it is, and every
  account that was there at any earlier point of the run is still there under its id, with the same
  address and the same password hash.
\<close>

theorem accounts_invariant:
  assumes "scrypt_ok K" "distinct (signup_ids (later @ log))"
  shows "accounts_ok (account_run K (later @ log))
    \<and> accounts_load (as_file (account_run K (later @ log))) = account_run K (later @ log)
    \<and> (\<forall>i a. account_get (account_run K log) i = Some a \<longrightarrow>
         (\<exists>a'. account_get (account_run K (later @ log)) i = Some a' \<and> ac_id a' = i \<and> ac_id a = i
            \<and> ac_email a' = ac_email a \<and> ac_passwordHash a' = ac_passwordHash a))"
  using run_ok[OF assms] restart_same[OF assms] account_stays[OF assms] by blast

theorem accounts_invariant_witness:
  "let log = [SignUp ''a1'' (replicate 16 1) toy_signup]; s = account_run toy_scrypt ([AccountRestart, SignUp ''a2'' (replicate 16 1) toy_signup] @ log) in
   accounts_ok s \<and> accounts_load (as_file s) = s
   \<and> (\<exists>a a'. account_get (account_run toy_scrypt log) ''a1'' = Some a \<and> account_get s ''a1'' = Some a' \<and> ac_passwordHash a' = ac_passwordHash a)"
proof -
  let ?log = "[SignUp ''a1'' (replicate 16 1) toy_signup]"
  have d: "distinct (signup_ids ([AccountRestart, SignUp ''a2'' (replicate 16 1) toy_signup] @ ?log))" by simp
  obtain e x where "assertEmail (su_email toy_signup) = Inr e" "assertPassword (su_password toy_signup) = Inr x"
    using toy_signup_valid(1) by (cases "assertEmail (su_email toy_signup)"; cases "assertPassword (su_password toy_signup)") (auto simp: valid_signup_def)
  moreover have "account_store [] None = accounts_load None" by (simp add: account_store_def accounts_load_def)
  ultimately have "\<exists>a. account_get (account_run toy_scrypt ?log) ''a1'' = Some a"
    using create_store[of "[]" "''a1''" toy_scrypt "replicate 16 1" toy_signup None] toy_scrypt_ok
    by (auto simp: Let_def account_get_def account_store_def map_get_def)
  with accounts_invariant[OF toy_scrypt_ok d] show ?thesis unfolding Let_def by blast
qed

text \<open>
  C26. A sign-in lasts exactly its lifetime: with a clock that does not run backwards and tokens whose
  digests differ, a token resolves to the account of the last session created with it that was not
  destroyed since, before its expiry and not from it on, whatever other sessions, lookups, sweeps and
  restarts from the file come in between.
\<close>

theorem sessions_survive_restarts:
  assumes "inj_on (hashToken sha) (insert token (session_tokens log))" "clock_forward log now" "token \<noteq> []"
  shows "fst (portal_session_resolve sha token now (session_run sha ttl log)) = map_option fst (live_entry now (signed_in ttl log token))"
  using assms by (rule resolve_live)

theorem sessions_survive_restarts_witness:
  "let log = [S_Restart 90, S_Destroy ''BBBB'', S_Create [4, 16, 65] ''b'' 60, S_Create [0, 0, 0] ''a'' 50] in
   fst (portal_session_resolve id ''AAAA'' 149 (session_run id 100 log)) = Some ''a''
   \<and> fst (portal_session_resolve id ''BBBB'' 149 (session_run id 100 log)) = None
   \<and> fst (portal_session_resolve id ''AAAA'' 150 (session_run id 100 log)) = None"
proof -
  let ?log = "[S_Restart 90, S_Destroy ''BBBB'', S_Create [4, 16, 65] ''b'' 60, S_Create [0, 0, 0] ''a'' 50]"
  have b: "base64urlEncode [0, 0, 0] = ''AAAA''" "base64urlEncode [4, 16, 65] = ''BBBB''" by code_simp+
  have t: "session_tokens ?log = {''AAAA'', ''BBBB''}" by (simp add: session_tokens_def b insert_commute del: base64urlEncode.simps)
  have inj: "inj_on (hashToken id) {''AAAA'', ''BBBB''}" by (simp add: inj_on_def) code_simp
  have i: "inj_on (hashToken id) (insert x (session_tokens ?log))" if "x \<in> {''AAAA'', ''BBBB''}" for x
    using inj that unfolding t by (simp add: insert_absorb)
  have c: "clock_forward ?log 149" "clock_forward ?log 150" by simp_all
  have s: "signed_in 100 ?log ''AAAA'' = Some (''a'', 150)" "signed_in 100 ?log ''BBBB'' = None"
    by (simp_all add: b del: base64urlEncode.simps)
  show ?thesis
    unfolding Let_def
    using sessions_survive_restarts[OF i c(1), of "''AAAA''" 100] sessions_survive_restarts[OF i c(1), of "''BBBB''" 100]
      sessions_survive_restarts[OF i c(2), of "''AAAA''" 100] unfolding s by simp
qed

text \<open>
  Cookies are read back: from the header a browser sends for a list of cookies, exactly the
  values carried under a name come back, in order, so of several session cookies each is tried.
\<close>

theorem cookies_read_back:
  assumes "\<forall>(n, v)\<in>set cs. cookie_token n \<and> cookie_token v \<and> CHR ''='' \<notin> set n"
  shows "readCookies (Some (join ''; '' (map cookie_pair cs))) name = map snd (filter (\<lambda>c. fst c = name) cs)"
  using assms by (rule cookies_read)

theorem cookies_read_back_witness:
  "readCookies (Some (join ''; '' (map cookie_pair [(''a'', ''1''), (PORTAL_COOKIE_NAME, ''x=1''), (PORTAL_COOKIE_NAME, ''y'')]))) PORTAL_COOKIE_NAME
     = [''x=1'', ''y'']"
proof -
  have "\<forall>(n, v)\<in>set [(''a'', ''1''), (PORTAL_COOKIE_NAME, ''x=1''), (PORTAL_COOKIE_NAME, ''y'')].
      cookie_token n \<and> cookie_token v \<and> CHR ''='' \<notin> set n"
    by (simp add: cookie_token_def PORTAL_COOKIE_NAME_def js_space_def)
  from cookies_read_back[OF this, of PORTAL_COOKIE_NAME] show ?thesis by (simp add: PORTAL_COOKIE_NAME_def)
qed

end
