(* ===== verification/KycRun.thy ===== *)
theory KycRun
imports CredentialStore
begin

text \<open>
  The registry of runs (\<open>scripts/onboard/kyc-run.ts\<close>): a run buffers the frames its runner emits,
  replays them to a late subscriber and then sends it the live ones; its outcome is fixed once, by
  the runner or by the timeout, and is kept for a while. What the runner, the timers and the pages do is
  a sequence of events. Frames, results and listeners are parameters; a listener is what it has received.
\<close>

section \<open>Runs\<close>

datatype ('s, 'r) run_event = StepFrame 's | DoneFrame 'r | ErrorFrame string

record 'r RunCompletion =
  rc_result :: "'r option"
  rc_error :: "string option"
  rc_late :: bool

record ('s, 'r, 'l) RunState =
  rn_id :: string
  rn_accountId :: string
  rn_events :: "('s, 'r) run_event list"
  rn_done :: bool
  rn_listeners :: "'l list"

text \<open>
  Beside the map of the registry: the ids whose closure holds \<open>completed\<close>, which outlives the entry
  in the map, the calls made of the completion callbacks and the frames given to each listener,
  latest last.
\<close>

record ('s, 'r, 'l) InMemoryRunRegistry =
  rg_runs :: "(string \<times> ('s, 'r, 'l) RunState) list"
  rg_timeoutMs :: nat
  rg_completed :: "string list"
  rg_completions :: "(string \<times> 'r RunCompletion) list"
  rg_received :: "'l \<Rightarrow> ('s, 'r) run_event list"

definition DEFAULT_TIMEOUT_MS :: nat where "DEFAULT_TIMEOUT_MS = 5 * 60000"

definition new_registry :: "nat option \<Rightarrow> ('s, 'r, 'l) InMemoryRunRegistry" where
  "new_registry timeoutMs = \<lparr> rg_runs = [], rg_timeoutMs = (case timeoutMs of None \<Rightarrow> DEFAULT_TIMEOUT_MS | Some t \<Rightarrow> t),
     rg_completed = [], rg_completions = [], rg_received = (\<lambda>_. []) \<rparr>"

definition run_start :: "string \<Rightarrow> string \<Rightarrow> ('s, 'r, 'l) InMemoryRunRegistry \<Rightarrow> ('s, 'r, 'l) InMemoryRunRegistry" where
  "run_start fresh accountId g = g\<lparr>rg_runs := map_set fresh
     \<lparr> rn_id = fresh, rn_accountId = accountId, rn_events = [], rn_done = False, rn_listeners = [] \<rparr> (rg_runs g)\<rparr>"

fun is_step :: "('s, 'r) run_event \<Rightarrow> bool" where
  "is_step (StepFrame s) = True"
| "is_step _ = False"

text \<open>Every listener of the copy of the set is called.\<close>

definition publish :: "string \<Rightarrow> ('s, 'r) run_event \<Rightarrow> ('s, 'r, 'l) InMemoryRunRegistry \<Rightarrow> ('s, 'r, 'l) InMemoryRunRegistry" where
  "publish i ev g = (case map_get (rg_runs g) i of None \<Rightarrow> g
     | Some st \<Rightarrow> g\<lparr>rg_runs := map_set i (st\<lparr>rn_events := rn_events st @ [ev], rn_done := rn_done st \<or> \<not> is_step ev\<rparr>) (rg_runs g),
         rg_received := (\<lambda>l. if l \<in> set (rn_listeners st) then rg_received g l @ [ev] else rg_received g l)\<rparr>)"

definition run_emit :: "string \<Rightarrow> 's \<Rightarrow> ('s, 'r, 'l) InMemoryRunRegistry \<Rightarrow> ('s, 'r, 'l) InMemoryRunRegistry" where
  "run_emit i step g = (if i \<in> set (rg_completed g) then g else publish i (StepFrame step) g)"

definition run_finish :: "string \<Rightarrow> ('s, 'r) run_event \<Rightarrow> 'r RunCompletion \<Rightarrow> ('s, 'r, 'l) InMemoryRunRegistry \<Rightarrow> ('s, 'r, 'l) InMemoryRunRegistry" where
  "run_finish i ev c g = (if i \<in> set (rg_completed g)
     then (case ev of ErrorFrame m \<Rightarrow> if rc_result c \<noteq> None then g\<lparr>rg_completions := rg_completions g @ [(i, c\<lparr>rc_late := True\<rparr>)]\<rparr> else g
           | _ \<Rightarrow> g\<lparr>rg_completions := rg_completions g @ [(i, c\<lparr>rc_late := True\<rparr>)]\<rparr>)
     else let g1 = publish i ev (g\<lparr>rg_completed := i # rg_completed g\<rparr>) in g1\<lparr>rg_completions := rg_completions g1 @ [(i, c)]\<rparr>)"

definition js_round_div :: "nat \<Rightarrow> nat \<Rightarrow> nat" where
  "js_round_div a b = (2 * a + b) div (2 * b)"

definition timeout_message :: "nat \<Rightarrow> string" where
  "timeout_message ms = ''the run exceeded '' @ dec (js_round_div ms 60000) @ '' minutes and was abandoned; ''
     @ ''it may still finish on chain '' @ [CHR 0xE2, CHR 0x80, CHR 0x94] @ '' refresh the page to check your status''"

definition run_timeout :: "string \<Rightarrow> ('s, 'r, 'l) InMemoryRunRegistry \<Rightarrow> ('s, 'r, 'l) InMemoryRunRegistry" where
  "run_timeout i g = (let m = timeout_message (rg_timeoutMs g) in
     run_finish i (ErrorFrame m) \<lparr> rc_result = None, rc_error = Some m, rc_late = False \<rparr> g)"

definition run_settle :: "string \<Rightarrow> string + 'r \<Rightarrow> ('s, 'r, 'l) InMemoryRunRegistry \<Rightarrow> ('s, 'r, 'l) InMemoryRunRegistry" where
  "run_settle i outcome g = (case outcome of
     Inr r \<Rightarrow> run_finish i (DoneFrame r) \<lparr> rc_result = Some r, rc_error = None, rc_late = False \<rparr> g
   | Inl m \<Rightarrow> run_finish i (ErrorFrame m) \<lparr> rc_result = None, rc_error = Some m, rc_late = False \<rparr> g)"

definition run_evict :: "string \<Rightarrow> ('s, 'r, 'l) InMemoryRunRegistry \<Rightarrow> ('s, 'r, 'l) InMemoryRunRegistry" where
  "run_evict i g = g\<lparr>rg_runs := map_delete i (rg_runs g)\<rparr>"

text \<open>The backlog is replayed, then the listener is kept for a run still open. False where there is no such run of the account.\<close>

definition run_subscribe ::
  "string \<Rightarrow> string \<Rightarrow> 'l \<Rightarrow> ('s, 'r, 'l) InMemoryRunRegistry \<Rightarrow> bool \<times> ('s, 'r, 'l) InMemoryRunRegistry" where
  "run_subscribe i accountId l g = (case map_get (rg_runs g) i of None \<Rightarrow> (False, g)
     | Some st \<Rightarrow> if rn_accountId st \<noteq> accountId then (False, g)
       else let g1 = g\<lparr>rg_received := (rg_received g)(l := rg_received g l @ rn_events st)\<rparr> in
         (True, if rn_done st then g1 else g1\<lparr>rg_runs := map_set i (st\<lparr>rn_listeners := List.insert l (rn_listeners st)\<rparr>) (rg_runs g)\<rparr>))"

definition run_unsubscribe :: "string \<Rightarrow> 'l \<Rightarrow> ('s, 'r, 'l) InMemoryRunRegistry \<Rightarrow> ('s, 'r, 'l) InMemoryRunRegistry" where
  "run_unsubscribe i l g = (case map_get (rg_runs g) i of None \<Rightarrow> g
     | Some st \<Rightarrow> g\<lparr>rg_runs := map_set i (st\<lparr>rn_listeners := remove1 l (rn_listeners st)\<rparr>) (rg_runs g)\<rparr>)"

definition run_isDone :: "('s, 'r, 'l) InMemoryRunRegistry \<Rightarrow> string \<Rightarrow> bool" where
  "run_isDone g i = (case map_get (rg_runs g) i of None \<Rightarrow> False | Some st \<Rightarrow> rn_done st)"

definition run_describe :: "('s, 'r, 'l) InMemoryRunRegistry \<Rightarrow> string \<Rightarrow> (string \<times> bool) option" where
  "run_describe g i = map_option (\<lambda>st. (rn_accountId st, rn_done st)) (map_get (rg_runs g) i)"

definition activeRunId :: "('s, 'r, 'l) InMemoryRunRegistry \<Rightarrow> string \<Rightarrow> string option" where
  "activeRunId g accountId = map_option rn_id (find (\<lambda>st. rn_accountId st = accountId \<and> \<not> rn_done st) (map snd (rg_runs g)))"

definition hasActiveRun :: "('s, 'r, 'l) InMemoryRunRegistry \<Rightarrow> string \<Rightarrow> bool" where
  "hasActiveRun g accountId = (activeRunId g accountId \<noteq> None)"

definition activeCount :: "('s, 'r, 'l) InMemoryRunRegistry \<Rightarrow> nat" where
  "activeCount g = length (filter (\<lambda>st. \<not> rn_done st) (map snd (rg_runs g)))"

definition registry_size :: "('s, 'r, 'l) InMemoryRunRegistry \<Rightarrow> nat" where
  "registry_size g = length (rg_runs g)"

section \<open>Steps\<close>

text \<open>
  What a registry goes through: the id of a run is drawn fresh, so nobody named it before; its runner emits
  and settles after the start, and settles once; it is evicted when its outcome is fixed; a page subscribes
  with a listener of its own.
\<close>

datatype ('s, 'r, 'l) run_action = Start string string | Emit string 's | Settle string "string + 'r" | Timeout string | Evict string
  | Subscribe string string 'l | Unsubscribe string 'l

fun run_step :: "('s, 'r, 'l) run_action \<Rightarrow> ('s, 'r, 'l) InMemoryRunRegistry \<Rightarrow> ('s, 'r, 'l) InMemoryRunRegistry" where
  "run_step (Start i a) g = run_start i a g"
| "run_step (Emit i s) g = run_emit i s g"
| "run_step (Settle i r) g = run_settle i r g"
| "run_step (Timeout i) g = run_timeout i g"
| "run_step (Evict i) g = run_evict i g"
| "run_step (Subscribe i a l) g = snd (run_subscribe i a l g)"
| "run_step (Unsubscribe i l) g = run_unsubscribe i l g"

fun action_id :: "('s, 'r, 'l) run_action \<Rightarrow> string" where
  "action_id (Start i a) = i"
| "action_id (Emit i s) = i"
| "action_id (Settle i r) = i"
| "action_id (Timeout i) = i"
| "action_id (Evict i) = i"
| "action_id (Subscribe i a l) = i"
| "action_id (Unsubscribe i l) = i"

fun run_allowed :: "('s, 'r, 'l) run_action list \<Rightarrow> ('s, 'r, 'l) run_action \<Rightarrow> ('s, 'r, 'l) InMemoryRunRegistry \<Rightarrow> bool" where
  "run_allowed log (Start i a) g = (\<forall>act\<in>set log. action_id act \<noteq> i)"
| "run_allowed log (Emit i s) g = (\<exists>a'. Start i a' \<in> set log)"
| "run_allowed log (Settle i r) g = ((\<exists>a'. Start i a' \<in> set log) \<and> (\<forall>r'. Settle i r' \<notin> set log))"
| "run_allowed log (Timeout i) g = (\<exists>a'. Start i a' \<in> set log)"
| "run_allowed log (Evict i) g = (i \<in> set (rg_completed g))"
| "run_allowed log (Subscribe i a l) g = (\<forall>i' a'. Subscribe i' a' l \<notin> set log)"
| "run_allowed log (Unsubscribe i l) g = True"

inductive registry_run :: "nat option \<Rightarrow> ('s, 'r, 'l) run_action list \<Rightarrow> ('s, 'r, 'l) InMemoryRunRegistry \<Rightarrow> bool" for t where
  fresh: "registry_run t [] (new_registry t)"
| act: "registry_run t log g \<Longrightarrow> run_allowed log act g \<Longrightarrow> registry_run t (act # log) (run_step act g)"

section \<open>Facts\<close>

text \<open>The frames of a run: steps only, then at most one terminal frame, which is last.\<close>

definition frames_ok :: "bool \<Rightarrow> ('s, 'r) run_event list \<Rightarrow> bool" where
  "frames_ok finished evs = (if finished then evs \<noteq> [] \<and> \<not> is_step (last evs) \<and> list_all is_step (butlast evs) else list_all is_step evs)"

lemma frames_ok_simps [simp]:
  "frames_ok False []" "frames_ok False evs \<Longrightarrow> is_step ev \<Longrightarrow> frames_ok False (evs @ [ev])"
  "frames_ok False evs \<Longrightarrow> \<not> is_step ev \<Longrightarrow> frames_ok True (evs @ [ev])"
  by (simp_all add: frames_ok_def)

definition starts :: "('s, 'r, 'l) run_action list \<Rightarrow> (string \<times> string) set" where
  "starts log = {(i, a). Start i a \<in> set log}"

definition runs_ok :: "(string \<times> string) set \<Rightarrow> ('s, 'r, 'l) InMemoryRunRegistry \<Rightarrow> bool" where
  "runs_ok S g = (keyed_by rn_id (rg_runs g)
     \<and> (\<forall>i st. map_get (rg_runs g) i = Some st \<longrightarrow> (i, rn_accountId st) \<in> S \<and> (rn_done st \<longleftrightarrow> i \<in> set (rg_completed g))
          \<and> frames_ok (i \<in> set (rg_completed g)) (rn_events st))
     \<and> (\<forall>i a. (i, a) \<in> S \<longrightarrow> i \<in> set (rg_completed g) \<or> (\<exists>st. map_get (rg_runs g) i = Some st \<and> rn_accountId st = a))
     \<and> (\<forall>i\<in>set (rg_completed g). \<exists>a. (i, a) \<in> S)
     \<and> (\<forall>i a b. (i, a) \<in> S \<longrightarrow> (i, b) \<in> S \<longrightarrow> a = b))"

lemma runs_okD:
  assumes "runs_ok S g"
  shows "keyed_by rn_id (rg_runs g)"
    and "map_get (rg_runs g) i = Some st \<Longrightarrow> (i, rn_accountId st) \<in> S \<and> (rn_done st \<longleftrightarrow> i \<in> set (rg_completed g)) \<and> frames_ok (i \<in> set (rg_completed g)) (rn_events st)"
    and "(i, a) \<in> S \<Longrightarrow> i \<notin> set (rg_completed g) \<Longrightarrow> \<exists>st. map_get (rg_runs g) i = Some st \<and> rn_accountId st = a"
    and "i \<in> set (rg_completed g) \<Longrightarrow> \<exists>a. (i, a) \<in> S"
    and "(i, a) \<in> S \<Longrightarrow> (i, b) \<in> S \<Longrightarrow> a = b"
  using assms unfolding runs_ok_def by blast+

lemma runs_okI:
  assumes "keyed_by rn_id (rg_runs g)"
    and "\<And>i st. map_get (rg_runs g) i = Some st \<Longrightarrow> (i, rn_accountId st) \<in> S \<and> (rn_done st \<longleftrightarrow> i \<in> set (rg_completed g)) \<and> frames_ok (i \<in> set (rg_completed g)) (rn_events st)"
    and "\<And>i a. (i, a) \<in> S \<Longrightarrow> i \<notin> set (rg_completed g) \<Longrightarrow> \<exists>st. map_get (rg_runs g) i = Some st \<and> rn_accountId st = a"
    and "\<And>i. i \<in> set (rg_completed g) \<Longrightarrow> \<exists>a. (i, a) \<in> S"
    and "\<And>i a b. (i, a) \<in> S \<Longrightarrow> (i, b) \<in> S \<Longrightarrow> a = b"
  shows "runs_ok S g"
  using assms unfolding runs_ok_def by blast

lemma publish_facts [simp]: "rg_completed (publish i ev g) = rg_completed g" "rg_completions (publish i ev g) = rg_completions g"
  "rg_timeoutMs (publish i ev g) = rg_timeoutMs g"
  by (simp_all add: publish_def split: option.splits)

lemma publish_runs: "map_get (rg_runs (publish i ev g)) k = (case map_get (rg_runs g) k of None \<Rightarrow> None
     | Some st \<Rightarrow> Some (if k = i then st\<lparr>rn_events := rn_events st @ [ev], rn_done := rn_done st \<or> \<not> is_step ev\<rparr> else st))"
  by (auto simp: publish_def js_map.get_put split: option.splits)

lemma keyed_get: "keyed_by f m \<Longrightarrow> map_get m k = Some v \<Longrightarrow> f v = k"
  unfolding keyed_by_def map_get_def by (auto dest: map_of_SomeD)

lemma publish_keyed: "keyed_by rn_id (rg_runs g) \<Longrightarrow> keyed_by rn_id (rg_runs (publish i ev g))"
proof (cases "map_get (rg_runs g) i")
  case (Some st)
  assume k: "keyed_by rn_id (rg_runs g)"
  then have "rn_id st = i" using Some by (rule keyed_get)
  then show ?thesis using Some keyed_by_set[OF k, of "st\<lparr>rn_events := rn_events st @ [ev], rn_done := rn_done st \<or> \<not> is_step ev\<rparr>"]
    by (simp add: publish_def)
qed (simp add: publish_def)

text \<open>An outcome is a terminal frame.\<close>

definition outcome_frame :: "string + 'r \<Rightarrow> ('s, 'r) run_event" where
  "outcome_frame x = (case x of Inr r \<Rightarrow> DoneFrame r | Inl m \<Rightarrow> ErrorFrame m)"

definition outcome_completion :: "string + 'r \<Rightarrow> 'r RunCompletion" where
  "outcome_completion x = (case x of Inr r \<Rightarrow> \<lparr> rc_result = Some r, rc_error = None, rc_late = False \<rparr>
     | Inl m \<Rightarrow> \<lparr> rc_result = None, rc_error = Some m, rc_late = False \<rparr>)"

lemma settle_finish: "run_settle i x g = run_finish i (outcome_frame x) (outcome_completion x) g"
  by (simp add: run_settle_def outcome_frame_def outcome_completion_def split: sum.split)

lemma timeout_finish: "run_timeout i g = run_finish i (outcome_frame (Inl (timeout_message (rg_timeoutMs g))))
    (outcome_completion (Inl (timeout_message (rg_timeoutMs g)))) g"
  by (simp add: run_timeout_def outcome_frame_def outcome_completion_def Let_def)

lemma finish_late:
  "i \<in> set (rg_completed g) \<Longrightarrow> run_finish i (outcome_frame x) (outcome_completion x) g
     = (case x of Inl m \<Rightarrow> g | Inr r \<Rightarrow> g\<lparr>rg_completions := rg_completions g @ [(i, (outcome_completion x)\<lparr>rc_late := True\<rparr>)]\<rparr>)"
  by (auto simp: run_finish_def outcome_frame_def outcome_completion_def split: sum.split)

lemma finish_first:
  "i \<notin> set (rg_completed g) \<Longrightarrow> run_finish i (outcome_frame x) (outcome_completion x) g
     = (publish i (outcome_frame x) g)\<lparr>rg_completed := i # rg_completed g, rg_completions := rg_completions g @ [(i, outcome_completion x)]\<rparr>"
  by (cases g) (auto simp: run_finish_def publish_def Let_def split: option.split)

lemma outcome_terminal [simp]: "\<not> is_step (outcome_frame x)"
  by (cases x) (simp_all add: outcome_frame_def)

lemma finish_runs_ok:
  assumes "runs_ok S g" "(i, a) \<in> S"
  shows "runs_ok S (run_finish i (outcome_frame x) (outcome_completion x) g)"
proof (cases "i \<in> set (rg_completed g)")
  case True
  then show ?thesis using assms(1) unfolding finish_late[OF True] runs_ok_def by (simp split: sum.split)
next
  case False
  let ?g = "(publish i (outcome_frame x) g)\<lparr>rg_completed := i # rg_completed g, rg_completions := rg_completions g @ [(i, outcome_completion x)]\<rparr>"
  note ok = runs_okD[OF assms(1)]
  obtain st where st: "map_get (rg_runs g) i = Some st" "rn_accountId st = a" using ok(3)[OF assms(2) False] by blast
  then have open_run: "\<not> rn_done st" "frames_ok False (rn_events st)" using ok(2)[OF st(1)] False by auto
  have "runs_ok S ?g"
  proof (rule runs_okI)
    fix k st' assume "map_get (rg_runs ?g) k = Some st'"
    then show "(k, rn_accountId st') \<in> S \<and> (rn_done st' \<longleftrightarrow> k \<in> set (rg_completed ?g)) \<and> frames_ok (k \<in> set (rg_completed ?g)) (rn_events st')"
      using ok(2)[of k] open_run st by (auto simp: publish_runs split: option.splits if_splits)
  next
    fix k b assume "(k, b) \<in> S" "k \<notin> set (rg_completed ?g)"
    then show "\<exists>st. map_get (rg_runs ?g) k = Some st \<and> rn_accountId st = b" using ok(3)[of k b] by (auto simp: publish_runs)
  qed (use ok(1,4,5) assms(2) publish_keyed in auto)
  then show ?thesis unfolding finish_first[OF False] .
qed

lemma starts_Cons: "starts (act # log) = (case act of Start i a \<Rightarrow> insert (i, a) (starts log) | _ \<Rightarrow> starts log)"
  by (auto simp: starts_def split: run_action.splits)

lemma named_start: "(i, a) \<in> starts log \<Longrightarrow> \<exists>act\<in>set log. action_id act = i"
  unfolding starts_def by force

lemma relisten_runs_ok:
  assumes "runs_ok S g" "map_get (rg_runs g) i = Some st"
  shows "runs_ok S (g\<lparr>rg_runs := map_set i (st\<lparr>rn_listeners := ls\<rparr>) (rg_runs g)\<rparr>)"
proof (rule runs_okI)
  note ok = runs_okD[OF assms(1)]
  let ?g = "g\<lparr>rg_runs := map_set i (st\<lparr>rn_listeners := ls\<rparr>) (rg_runs g)\<rparr>"
  show "keyed_by rn_id (rg_runs ?g)"
    using keyed_by_set[OF ok(1), of "st\<lparr>rn_listeners := ls\<rparr>"] keyed_get[OF ok(1) assms(2)] by simp
  fix k st' assume "map_get (rg_runs ?g) k = Some st'"
  then show "(k, rn_accountId st') \<in> S \<and> (rn_done st' \<longleftrightarrow> k \<in> set (rg_completed ?g)) \<and> frames_ok (k \<in> set (rg_completed ?g)) (rn_events st')"
    using ok(2)[of k] ok(2)[OF assms(2)] by (auto simp: js_map.get_put split: if_splits)
next
  note ok = runs_okD[OF assms(1)]
  let ?g = "g\<lparr>rg_runs := map_set i (st\<lparr>rn_listeners := ls\<rparr>) (rg_runs g)\<rparr>"
  fix k b assume "(k, b) \<in> S" "k \<notin> set (rg_completed ?g)"
  then show "\<exists>st. map_get (rg_runs ?g) k = Some st \<and> rn_accountId st = b"
    using ok(3)[of k b] assms(2) by (auto simp: js_map.get_put)
qed (use runs_okD(4,5)[OF assms(1)] in auto)

lemma received_runs_ok: "runs_ok S g \<Longrightarrow> runs_ok S (g\<lparr>rg_received := f\<rparr>)"
  by (simp add: runs_ok_def)

lemma step_runs_ok:
  assumes "runs_ok (starts log) g" "run_allowed log act g"
  shows "runs_ok (starts (act # log)) (run_step act g)"
proof (cases act)
  case (Start i a)
  note ok = runs_okD[OF assms(1)]
  have fresh: "(i, b) \<notin> starts log" for b using assms(2) named_start[of i b log] Start by auto
  then have "i \<notin> set (rg_completed g)" "map_get (rg_runs g) i = None" using ok(4) ok(2)[of i] by (blast, cases "map_get (rg_runs g) i") auto
  moreover have "k \<in> set (rg_completed g) \<Longrightarrow> \<exists>b. k = i \<and> b = a \<or> (k, b) \<in> starts log" for k using ok(4) by blast
  ultimately show ?thesis
    using ok(2,3) fresh keyed_by_set[OF ok(1), of "\<lparr> rn_id = i, rn_accountId = a, rn_events = [], rn_done = False, rn_listeners = [] \<rparr>"]
    by (auto intro!: runs_okI simp: Start starts_Cons run_start_def js_map.get_put split: if_splits dest: ok(5))
next
  case (Emit i x)
  note ok = runs_okD[OF assms(1)]
  show ?thesis
  proof (cases "i \<in> set (rg_completed g)")
    case False
    have "runs_ok (starts log) (publish i (StepFrame x) g)"
    proof (rule runs_okI)
      fix k st' assume "map_get (rg_runs (publish i (StepFrame x) g)) k = Some st'"
      then show "(k, rn_accountId st') \<in> starts log \<and> (rn_done st' \<longleftrightarrow> k \<in> set (rg_completed (publish i (StepFrame x) g))) \<and> frames_ok (k \<in> set (rg_completed (publish i (StepFrame x) g))) (rn_events st')"
        using ok(2)[of k] False by (auto simp: publish_runs split: option.splits if_splits)
    next
      fix k b assume "(k, b) \<in> starts log" "k \<notin> set (rg_completed (publish i (StepFrame x) g))"
      then show "\<exists>st. map_get (rg_runs (publish i (StepFrame x) g)) k = Some st \<and> rn_accountId st = b" using ok(3)[of k b] by (auto simp: publish_runs)
    qed (use ok(1,4,5) publish_keyed in auto)
    then show ?thesis using False by (simp add: Emit starts_Cons run_emit_def)
  qed (use assms(1) in \<open>simp add: Emit starts_Cons run_emit_def\<close>)
next
  case (Settle i x)
  then obtain a where "(i, a) \<in> starts log" using assms(2) by (auto simp: starts_def)
  from finish_runs_ok[OF assms(1) this] show ?thesis by (simp add: Settle starts_Cons settle_finish)
next
  case (Timeout i)
  then obtain a where "(i, a) \<in> starts log" using assms(2) by (auto simp: starts_def)
  from finish_runs_ok[OF assms(1) this] show ?thesis by (simp add: Timeout starts_Cons timeout_finish)
next
  case (Evict i)
  note ok = runs_okD[OF assms(1)]
  show ?thesis
    using assms(2) ok(2,3,4) keyed_by_delete[OF ok(1), of i]
    by (auto intro!: runs_okI simp: Evict starts_Cons run_evict_def js_map.get_remove split: if_splits dest: ok(5))
next
  case (Subscribe i a l)
  show ?thesis
  proof (cases "map_get (rg_runs g) i")
    case (Some st)
    have "runs_ok (starts log) (g\<lparr>rg_received := f, rg_runs := map_set i (st\<lparr>rn_listeners := ls\<rparr>) (rg_runs g)\<rparr>)" for f ls
      using relisten_runs_ok[OF received_runs_ok[OF assms(1)], of f i st ls] Some by simp
    then show ?thesis
      using received_runs_ok[OF assms(1)] assms(1) Some
      by (simp add: Subscribe starts_Cons run_subscribe_def Let_def)
  qed (use assms(1) in \<open>simp add: Subscribe starts_Cons run_subscribe_def\<close>)
next
  case (Unsubscribe i l)
  show ?thesis
    using assms(1) relisten_runs_ok[OF assms(1)] by (simp add: Unsubscribe starts_Cons run_unsubscribe_def split: option.split)
qed

lemma registry_runs_ok: "registry_run t log g \<Longrightarrow> runs_ok (starts log) g"
proof (induction rule: registry_run.induct)
  case fresh
  show ?case by (auto intro!: runs_okI simp: new_registry_def starts_def keyed_by_def map_get_def)
next
  case (act log g act)
  show ?case by (rule step_runs_ok[OF act.IH act.hyps(2)])
qed

text \<open>What the listeners have.\<close>

definition subs :: "('s, 'r, 'l) run_action list \<Rightarrow> (string \<times> string \<times> 'l) set" where
  "subs log = {(i, a, l). Subscribe i a l \<in> set log}"

definition unsubs :: "('s, 'r, 'l) run_action list \<Rightarrow> (string \<times> 'l) set" where
  "unsubs log = {(i, l). Unsubscribe i l \<in> set log}"

definition listeners_ok ::
  "(string \<times> string) set \<Rightarrow> (string \<times> string \<times> 'l) set \<Rightarrow> (string \<times> 'l) set \<Rightarrow> ('s, 'r, 'l) InMemoryRunRegistry \<Rightarrow> bool" where
  "listeners_ok S B U g =
     ((\<forall>i st l. map_get (rg_runs g) i = Some st \<longrightarrow> l \<in> set (rn_listeners st) \<longrightarrow> (i, rn_accountId st, l) \<in> B \<and> rg_received g l = rn_events st)
     \<and> (\<forall>l. (\<forall>i a. (i, a, l) \<notin> B) \<longrightarrow> rg_received g l = [])
     \<and> (\<forall>i a l st. (i, a, l) \<in> B \<longrightarrow> (i, l) \<notin> U \<longrightarrow> map_get (rg_runs g) i = Some st \<longrightarrow> rn_accountId st = a \<longrightarrow>
          rg_received g l = rn_events st \<and> (\<not> rn_done st \<longrightarrow> l \<in> set (rn_listeners st)))
     \<and> (\<forall>i a b l. (i, a, l) \<in> B \<longrightarrow> (i, b) \<in> S \<longrightarrow> a \<noteq> b \<longrightarrow> rg_received g l = [])
     \<and> (\<forall>i a j b l. (i, a, l) \<in> B \<longrightarrow> (j, b, l) \<in> B \<longrightarrow> i = j \<and> a = b))"

lemma listeners_okD:
  assumes "listeners_ok S B U g"
  shows "map_get (rg_runs g) i = Some st \<Longrightarrow> l \<in> set (rn_listeners st) \<Longrightarrow> (i, rn_accountId st, l) \<in> B \<and> rg_received g l = rn_events st"
    and "(\<And>i a. (i, a, l) \<notin> B) \<Longrightarrow> rg_received g l = []"
    and "(i, a, l) \<in> B \<Longrightarrow> (i, l) \<notin> U \<Longrightarrow> map_get (rg_runs g) i = Some st \<Longrightarrow> rn_accountId st = a \<Longrightarrow>
          rg_received g l = rn_events st \<and> (\<not> rn_done st \<longrightarrow> l \<in> set (rn_listeners st))"
    and "(i, a, l) \<in> B \<Longrightarrow> (i, b) \<in> S \<Longrightarrow> a \<noteq> b \<Longrightarrow> rg_received g l = []"
    and "(i, a, l) \<in> B \<Longrightarrow> (j, b, l) \<in> B \<Longrightarrow> i = j \<and> a = b"
  using assms unfolding listeners_ok_def by blast+

lemma listeners_okI:
  assumes "\<And>i st l. map_get (rg_runs g) i = Some st \<Longrightarrow> l \<in> set (rn_listeners st) \<Longrightarrow> (i, rn_accountId st, l) \<in> B \<and> rg_received g l = rn_events st"
    and "\<And>l. (\<And>i a. (i, a, l) \<notin> B) \<Longrightarrow> rg_received g l = []"
    and "\<And>i a l st. (i, a, l) \<in> B \<Longrightarrow> (i, l) \<notin> U \<Longrightarrow> map_get (rg_runs g) i = Some st \<Longrightarrow> rn_accountId st = a \<Longrightarrow>
          rg_received g l = rn_events st \<and> (\<not> rn_done st \<longrightarrow> l \<in> set (rn_listeners st))"
    and "\<And>i a b l. (i, a, l) \<in> B \<Longrightarrow> (i, b) \<in> S \<Longrightarrow> a \<noteq> b \<Longrightarrow> rg_received g l = []"
    and "\<And>i a j b l. (i, a, l) \<in> B \<Longrightarrow> (j, b, l) \<in> B \<Longrightarrow> i = j \<and> a = b"
  shows "listeners_ok S B U g"
  unfolding listeners_ok_def using assms by blast

lemma publish_received: "rg_received (publish i ev g) l = (case map_get (rg_runs g) i of None \<Rightarrow> rg_received g l
     | Some st \<Rightarrow> if l \<in> set (rn_listeners st) then rg_received g l @ [ev] else rg_received g l)"
  by (simp add: publish_def split: option.split)

lemma publish_listeners_ok:
  assumes "listeners_ok S B U g" "runs_ok S g" "i \<notin> set (rg_completed g)"
  shows "listeners_ok S B U (publish i ev g)"
proof (cases "map_get (rg_runs g) i")
  case (Some x)
  note L = listeners_okD[OF assms(1)] and R = runs_okD[OF assms(2)]
  have open_run: "\<not> rn_done x" using R(2)[OF Some] assms(3) by simp
  have rec: "rg_received (publish i ev g) l = (if l \<in> set (rn_listeners x) then rg_received g l @ [ev] else rg_received g l)" for l
    by (simp add: publish_received Some)
  have run: "map_get (rg_runs (publish i ev g)) k = Some st \<longleftrightarrow>
      (if k = i then st = x\<lparr>rn_events := rn_events x @ [ev], rn_done := rn_done x \<or> \<not> is_step ev\<rparr> else map_get (rg_runs g) k = Some st)" for k st
    by (auto simp: publish_runs Some split: option.splits)
  have own: "(i, rn_accountId x, l) \<in> B" if "l \<in> set (rn_listeners x)" for l using L(1)[OF Some that] by simp
  show ?thesis
  proof (rule listeners_okI)
    fix k st l assume a: "map_get (rg_runs (publish i ev g)) k = Some st" "l \<in> set (rn_listeners st)"
    show "(k, rn_accountId st, l) \<in> B \<and> rg_received (publish i ev g) l = rn_events st"
    proof (cases "k = i")
      case True
      then show ?thesis using a run L(1)[OF Some] rec by auto
    next
      case False
      then have "map_get (rg_runs g) k = Some st" using a(1) run by simp
      from L(1)[OF this a(2)] have "(k, rn_accountId st, l) \<in> B" "rg_received g l = rn_events st" by auto
      then show ?thesis using L(5)[of k "rn_accountId st" l i] own[of l] False rec by auto
    qed
  next
    fix l assume n: "\<And>i a. (i, a, l) \<notin> B"
    then show "rg_received (publish i ev g) l = []" using own[of l] rec L(2)[OF n] by auto
  next
    fix k a l st assume b: "(k, a, l) \<in> B" "(k, l) \<notin> U" "map_get (rg_runs (publish i ev g)) k = Some st" "rn_accountId st = a"
    show "rg_received (publish i ev g) l = rn_events st \<and> (\<not> rn_done st \<longrightarrow> l \<in> set (rn_listeners st))"
    proof (cases "k = i")
      case True
      then have "rg_received g l = rn_events x \<and> l \<in> set (rn_listeners x)" using L(3)[of i a l x] b Some open_run run[of k st] by simp
      then show ?thesis using b(3) True run rec by simp
    next
      case False
      then have "map_get (rg_runs g) k = Some st" using b(3) run by simp
      then show ?thesis using L(3)[OF b(1,2) _ b(4)] own[of l] L(5)[OF b(1), of i "rn_accountId x"] False rec by auto
    qed
  next
    fix k a b l assume b: "(k, a, l) \<in> B" "(k, b) \<in> S" "a \<noteq> b"
    have "l \<notin> set (rn_listeners x)"
    proof
      assume "l \<in> set (rn_listeners x)"
      from L(5)[OF b(1) own[OF this]] have "k = i" "a = rn_accountId x" by auto
      then show False using b(2,3) R(2)[OF Some] R(5)[of i b "rn_accountId x"] by auto
    qed
    then show "rg_received (publish i ev g) l = []" using L(4)[OF b] rec by simp
  qed (rule L(5))
qed (use assms(1) in \<open>simp add: publish_def\<close>)

lemma finish_listeners_ok:
  assumes "listeners_ok S B U g" "runs_ok S g"
  shows "listeners_ok S B U (run_finish i (outcome_frame x) (outcome_completion x) g)"
proof (cases "i \<in> set (rg_completed g)")
  case True
  then show ?thesis using assms(1) unfolding finish_late[OF True] listeners_ok_def by (simp split: sum.split)
next
  case False
  then show ?thesis using publish_listeners_ok[OF assms False, of "outcome_frame x"] unfolding finish_first[OF False] listeners_ok_def by simp
qed

lemma subs_Cons: "subs (act # log) = (case act of Subscribe i a l \<Rightarrow> insert (i, a, l) (subs log) | _ \<Rightarrow> subs log)"
  by (auto simp: subs_def split: run_action.splits)

lemma unsubs_Cons: "unsubs (act # log) = (case act of Unsubscribe i l \<Rightarrow> insert (i, l) (unsubs log) | _ \<Rightarrow> unsubs log)"
  by (auto simp: unsubs_def split: run_action.splits)

lemma named_sub: "(i, a, l) \<in> subs log \<Longrightarrow> \<exists>act\<in>set log. action_id act = i"
  unfolding subs_def by force

lemma step_listeners_ok:
  assumes "listeners_ok (starts log) (subs log) (unsubs log) g" "runs_ok (starts log) g" "run_allowed log act g"
  shows "listeners_ok (starts (act # log)) (subs (act # log)) (unsubs (act # log)) (run_step act g)"
proof (cases act)
  case (Start i a)
  note L = listeners_okD[OF assms(1)]
  have fresh: "(i, b, l) \<notin> subs log" for b l using assms(3) named_sub[of i b l log] Start by auto
  show ?thesis
    by (rule listeners_okI) (use L fresh in \<open>auto simp: Start starts_Cons subs_Cons unsubs_Cons run_start_def js_map.get_put split: if_splits\<close>)
next
  case (Emit i x)
  then show ?thesis using assms(1) publish_listeners_ok[OF assms(1,2)] by (simp add: starts_Cons subs_Cons unsubs_Cons run_emit_def)
next
  case (Settle i x)
  then show ?thesis using finish_listeners_ok[OF assms(1,2)] by (simp add: starts_Cons subs_Cons unsubs_Cons settle_finish)
next
  case (Timeout i)
  then show ?thesis using finish_listeners_ok[OF assms(1,2)] by (simp add: starts_Cons subs_Cons unsubs_Cons timeout_finish)
next
  case (Evict i)
  note L = listeners_okD[OF assms(1)]
  show ?thesis
    by (rule listeners_okI) (use L in \<open>auto simp: Evict starts_Cons subs_Cons unsubs_Cons run_evict_def js_map.get_remove split: if_splits\<close>)
next
  case (Unsubscribe i l)
  note L = listeners_okD[OF assms(1)]
  show ?thesis
  proof (cases "map_get (rg_runs g) i")
    case None
    then show ?thesis by (intro listeners_okI) (use L in \<open>auto simp: Unsubscribe starts_Cons subs_Cons unsubs_Cons run_unsubscribe_def\<close>)
  next
    case (Some st)
    let ?g = "run_step act g"
    have g: "rg_received ?g = rg_received g" "map_get (rg_runs ?g) k = Some st' \<longleftrightarrow>
        (if k = i then st' = st\<lparr>rn_listeners := remove1 l (rn_listeners st)\<rparr> else map_get (rg_runs g) k = Some st')" for k st'
      using Some by (auto simp: Unsubscribe run_unsubscribe_def js_map.get_put)
    have sets: "starts (act # log) = starts log" "subs (act # log) = subs log" "unsubs (act # log) = insert (i, l) (unsubs log)"
      by (simp_all add: Unsubscribe starts_Cons subs_Cons unsubs_Cons)
    show ?thesis
      unfolding sets
    proof (rule listeners_okI)
      fix k st' l' assume b: "map_get (rg_runs ?g) k = Some st'" "l' \<in> set (rn_listeners st')"
      show "(k, rn_accountId st', l') \<in> subs log \<and> rg_received ?g l' = rn_events st'"
      proof (cases "k = i")
        case True
        then have "l' \<in> set (rn_listeners st)" "st' = st\<lparr>rn_listeners := remove1 l (rn_listeners st)\<rparr>"
          using b set_remove1_subset[of l "rn_listeners st"] by (auto simp: g)
        then show ?thesis using L(1)[OF Some] True by (simp add: g)
      next
        case False
        then show ?thesis using b L(1)[of k st'] by (simp add: g)
      qed
    next
      fix k a l' st' assume b: "(k, a, l') \<in> subs log" "(k, l') \<notin> insert (i, l) (unsubs log)" "map_get (rg_runs ?g) k = Some st'" "rn_accountId st' = a"
      show "rg_received ?g l' = rn_events st' \<and> (\<not> rn_done st' \<longrightarrow> l' \<in> set (rn_listeners st'))"
      proof (cases "k = i")
        case True
        then show ?thesis using b L(3)[of i a l' st] Some by (auto simp: g)
      next
        case False
        then show ?thesis using b L(3)[of k a l' st'] by (simp add: g)
      qed
    next
      fix l' assume n: "\<And>k b. (k, b, l') \<notin> subs log"
      show "rg_received ?g l' = []" using L(2)[OF n] by (simp add: g(1))
    next
      fix k a' b l' assume b: "(k, a', l') \<in> subs log" "(k, b) \<in> starts log" "a' \<noteq> b"
      show "rg_received ?g l' = []" using L(4)[OF b] by (simp add: g(1))
    qed (rule L(5))
  qed
next
  case (Subscribe i a l)
  note L = listeners_okD[OF assms(1)]
  have fresh: "(j, b, l) \<notin> subs log" for j b using assms(3) Subscribe by (auto simp: subs_def)
  have nothing: "rg_received g l = []" using L(2) fresh by blast
  show ?thesis
  proof (cases "map_get (rg_runs g) i")
    case None
    then show ?thesis
      by (intro listeners_okI) (use L fresh nothing in \<open>auto simp: Subscribe starts_Cons subs_Cons unsubs_Cons run_subscribe_def\<close>)
  next
    case (Some st)
    show ?thesis
    proof (cases "rn_accountId st = a")
      case False
      then have "run_step act g = g" using Some by (simp add: Subscribe run_subscribe_def)
      then show ?thesis
        by (intro listeners_okI) (use L fresh nothing Some False in \<open>auto simp: Subscribe starts_Cons subs_Cons unsubs_Cons\<close>)
    next
      case True
      let ?g = "run_step act g"
      have g: "rg_received ?g = (rg_received g)(l := rg_received g l @ rn_events st)"
        using Some True by (simp add: Subscribe run_subscribe_def Let_def)
      have rec: "rg_received ?g l' = (if l' = l then rn_events st else rg_received g l')" for l'
        using L(2)[of l] fresh by (auto simp: g)
      have run: "map_get (rg_runs ?g) k = Some st' \<longleftrightarrow> (if k = i
          then st' = (if rn_done st then st else st\<lparr>rn_listeners := List.insert l (rn_listeners st)\<rparr>) else map_get (rg_runs g) k = Some st')" for k st'
        using Some True by (auto simp: Subscribe run_subscribe_def Let_def js_map.get_put)
      have sets: "starts (act # log) = starts log" "subs (act # log) = insert (i, a, l) (subs log)" "unsubs (act # log) = unsubs log"
        by (simp_all add: Subscribe starts_Cons subs_Cons unsubs_Cons)
      have unlisted: "l \<notin> set (rn_listeners st')" if "map_get (rg_runs g) k = Some st'" for k st' using L(1)[OF that] fresh by blast
      have one: "(i, b) \<in> starts log \<Longrightarrow> b = a" for b using runs_okD(2,5)[OF assms(2)] Some True by blast
      show ?thesis
        unfolding sets
      proof (rule listeners_okI)
        fix k st' l' assume b: "map_get (rg_runs ?g) k = Some st'" "l' \<in> set (rn_listeners st')"
        show "(k, rn_accountId st', l') \<in> insert (i, a, l) (subs log) \<and> rg_received ?g l' = rn_events st'"
          using b L(1)[of k] Some True unlisted by (auto simp: run rec split: if_splits)
      next
        fix k a' l' st' assume b: "(k, a', l') \<in> insert (i, a, l) (subs log)" "(k, l') \<notin> unsubs log" "map_get (rg_runs ?g) k = Some st'" "rn_accountId st' = a'"
        show "rg_received ?g l' = rn_events st' \<and> (\<not> rn_done st' \<longrightarrow> l' \<in> set (rn_listeners st'))"
        proof (cases "l' = l")
          case True
          then show ?thesis using b fresh by (auto simp: run rec split: if_splits)
        next
          case False
          then have "(k, a', l') \<in> subs log" using b(1) by simp
          from L(3)[OF this b(2)] show ?thesis using b(3,4) Some False by (auto simp: run rec split: if_splits)
        qed
      next
        fix k a' b l' assume b: "(k, a', l') \<in> insert (i, a, l) (subs log)" "(k, b) \<in> starts log" "a' \<noteq> b"
        then show "rg_received ?g l' = []" using L(4)[of k a' l' b] fresh one by (auto simp: rec)
      next
        fix k a' j b l' assume "(k, a', l') \<in> insert (i, a, l) (subs log)" "(j, b, l') \<in> insert (i, a, l) (subs log)"
        then show "k = j \<and> a' = b" using L(5)[of k a' l' j b] fresh by auto
      next
        fix l' assume n: "\<And>k b. (k, b, l') \<notin> insert (i, a, l) (subs log)"
        then have "\<And>k b. (k, b, l') \<notin> subs log" "l' \<noteq> l" by blast+
        then show "rg_received ?g l' = []" using L(2)[of l'] by (simp add: rec)
      qed
    qed
  qed
qed

lemma registry_listeners_ok: "registry_run t log g \<Longrightarrow> listeners_ok (starts log) (subs log) (unsubs log) g"
proof (induction rule: registry_run.induct)
  case fresh
  show ?case by (rule listeners_okI) (simp_all add: new_registry_def subs_def map_get_def)
next
  case (act log g act)
  show ?case by (rule step_listeners_ok[OF act.IH registry_runs_ok[OF act.hyps(1)] act.hyps(2)])
qed

text \<open>The calls of the completion callback.\<close>

definition completions_of :: "('s, 'r, 'l) InMemoryRunRegistry \<Rightarrow> string \<Rightarrow> 'r RunCompletion list" where
  "completions_of g i = map snd (filter (\<lambda>c. fst c = i) (rg_completions g))"

definition late_completion :: "'r \<Rightarrow> 'r RunCompletion" where
  "late_completion r = (outcome_completion (Inr r))\<lparr>rc_late := True\<rparr>"

text \<open>The ends of run \<open>i\<close> in the order they came, read off the log (newest action first): what its runner
  settled with, and the timeout's error whenever its timer fired.\<close>

definition outcome_of :: "nat \<Rightarrow> string \<Rightarrow> ('s, 'r, 'l) run_action \<Rightarrow> (string + 'r) list" where
  "outcome_of ms i act = (case act of Settle j x \<Rightarrow> (if j = i then [x] else [])
     | Timeout j \<Rightarrow> (if j = i then [Inl (timeout_message ms)] else []) | _ \<Rightarrow> [])"

definition outcomes :: "nat \<Rightarrow> ('s, 'r, 'l) run_action list \<Rightarrow> string \<Rightarrow> (string + 'r) list" where
  "outcomes ms log i = concat (map (outcome_of ms i) (rev log))"

text \<open>What the callback is told of them: the first, and marked late every result among the others.\<close>

definition late_reports :: "(string + 'r) list \<Rightarrow> 'r RunCompletion list" where
  "late_reports xs = concat (map (\<lambda>x. case x of Inl m \<Rightarrow> [] | Inr r \<Rightarrow> [late_completion r]) xs)"

definition reported :: "(string + 'r) list \<Rightarrow> 'r RunCompletion list" where
  "reported xs = (case xs of [] \<Rightarrow> [] | x # later \<Rightarrow> outcome_completion x # late_reports later)"

definition outcome_ok :: "('s, 'r, 'l) run_action list \<Rightarrow> ('s, 'r, 'l) InMemoryRunRegistry \<Rightarrow> string \<Rightarrow> bool" where
  "outcome_ok log g i = (let xs = outcomes (rg_timeoutMs g) log i in completions_of g i = reported xs
     \<and> (i \<in> set (rg_completed g) \<longleftrightarrow> xs \<noteq> [])
     \<and> (\<forall>st. map_get (rg_runs g) i = Some st \<and> xs \<noteq> [] \<longrightarrow> last (rn_events st) = outcome_frame (hd xs)))"

lemma outcomes_Nil [simp]: "outcomes ms [] i = []"
  by (simp add: outcomes_def)

lemma outcomes_Cons: "outcomes ms (act # log) i = outcomes ms log i @ outcome_of ms i act"
  by (simp add: outcomes_def)

lemma outcome_of_simps [simp]:
  "outcome_of ms i (Settle j x) = (if j = i then [x] else [])"
  "outcome_of ms i (Timeout j) = (if j = i then [Inl (timeout_message ms)] else [])"
  "outcome_of ms i (Start j a) = []" "outcome_of ms i (Emit j s) = []" "outcome_of ms i (Evict j) = []"
  "outcome_of ms i (Subscribe j a l) = []" "outcome_of ms i (Unsubscribe j l) = []"
  by (simp_all add: outcome_of_def)

lemma late_reports_simps [simp]:
  "late_reports [] = []" "late_reports (Inl m # xs) = late_reports xs" "late_reports (Inr r # xs) = late_completion r # late_reports xs"
  "late_reports (xs @ ys) = late_reports xs @ late_reports ys"
  by (simp_all add: late_reports_def)

lemma reported_simps [simp]: "reported [] = []" "reported (x # xs) = outcome_completion x # late_reports xs"
  by (simp_all add: reported_def)

lemma reported_snoc: "reported (xs @ [x]) = (if xs = [] then [outcome_completion x] else reported xs @ late_reports [x])"
  by (cases xs) simp_all

lemma hd_snoc: "xs \<noteq> [] \<Longrightarrow> hd (xs @ ys) = hd xs"
  by (cases xs) simp_all

text \<open>A step that concerns neither the outcome nor the frames of a finished run.\<close>

lemma outcome_ok_same:
  assumes "outcome_ok log g i" "completions_of g' i = completions_of g i" "i \<in> set (rg_completed g') \<longleftrightarrow> i \<in> set (rg_completed g)"
    and "outcomes (rg_timeoutMs g') log' i = outcomes (rg_timeoutMs g) log i"
    and "\<And>st'. i \<in> set (rg_completed g) \<Longrightarrow> map_get (rg_runs g') i = Some st' \<Longrightarrow> \<exists>st. map_get (rg_runs g) i = Some st \<and> rn_events st' = rn_events st"
  shows "outcome_ok log' g' i"
  using assms unfolding outcome_ok_def Let_def by metis

text \<open>The outcome a run gets: by its runner, or by the timeout.\<close>

lemma finish_timeoutMs [simp]: "rg_timeoutMs (run_finish i (outcome_frame x) (outcome_completion x) g) = rg_timeoutMs g"
  by (cases "i \<in> set (rg_completed g)") (auto simp: finish_late finish_first publish_def split: sum.split option.split)

lemma finish_outcome:
  assumes "outcome_ok log g k" "runs_ok S g" "(i, a) \<in> S"
    and act: "\<And>j. outcome_of (rg_timeoutMs g) j act = (if i = j then [x] else [])"
  shows "outcome_ok (act # log) (run_finish i (outcome_frame x) (outcome_completion x) g) k"
proof (cases "k = i")
  case False
  have same: "map_get (rg_runs (run_finish i (outcome_frame x) (outcome_completion x) g)) k = map_get (rg_runs g) k"
    "(k \<in> set (rg_completed (run_finish i (outcome_frame x) (outcome_completion x) g))) = (k \<in> set (rg_completed g))"
    "completions_of (run_finish i (outcome_frame x) (outcome_completion x) g) k = completions_of g k"
    using False by (cases "i \<in> set (rg_completed g)";
        auto simp: finish_late finish_first publish_runs completions_of_def split: sum.split option.split)+
  show ?thesis by (rule outcome_ok_same[OF assms(1)]) (use False in \<open>simp_all add: same outcomes_Cons act\<close>)
next
  case True
  let ?g = "run_finish i (outcome_frame x) (outcome_completion x) g" and ?xs = "outcomes (rg_timeoutMs g) log i"
  note ok = assms(1)[unfolded True outcome_ok_def Let_def]
  have xs: "outcomes (rg_timeoutMs g) (act # log) i = ?xs @ [x]" by (simp add: outcomes_Cons act)
  show ?thesis
  proof (cases "i \<in> set (rg_completed g)")
    case new: False
    then have none: "?xs = []" "completions_of g i = []" using ok by simp_all
    have "completions_of ?g i = [outcome_completion x]" using none by (simp add: finish_first[OF new] completions_of_def)
    moreover have "map_get (rg_runs ?g) i = Some st' \<Longrightarrow> last (rn_events st') = outcome_frame x" for st'
      using runs_okD(3)[OF assms(2,3) new] by (auto simp: finish_first[OF new] publish_runs)
    ultimately show ?thesis using none unfolding True outcome_ok_def Let_def finish_timeoutMs xs by (simp add: finish_first[OF new])
  next
    case old: True
    then have some: "?xs \<noteq> []" "completions_of g i = reported ?xs" using ok by blast+
    have "completions_of ?g i = completions_of g i @ late_reports [x]"
      by (cases x) (simp_all add: finish_late[OF old] completions_of_def late_completion_def)
    moreover have "rg_runs ?g = rg_runs g" "rg_completed ?g = rg_completed g" by (cases x; simp add: finish_late[OF old])+
    ultimately show ?thesis
      using ok some old unfolding True outcome_ok_def Let_def finish_timeoutMs xs by (simp add: reported_snoc hd_snoc)
  qed
qed

lemma publish_timeoutMs [simp]: "rg_timeoutMs (publish i e g) = rg_timeoutMs g"
  by (simp add: publish_def split: option.split)

lemma step_outcome_ok:
  assumes "outcome_ok log g k" "runs_ok (starts log) g" "run_allowed log act g"
  shows "outcome_ok (act # log) (run_step act g) k"
proof (cases act)
  case (Settle i x)
  then obtain a where "(i, a) \<in> starts log" using assms(3) by (auto simp: starts_def)
  from finish_outcome[OF assms(1,2) this, of act x] show ?thesis by (simp add: Settle settle_finish)
next
  case (Timeout i)
  then obtain a where "(i, a) \<in> starts log" using assms(3) by (auto simp: starts_def)
  from finish_outcome[OF assms(1,2) this, of act] show ?thesis by (simp add: Timeout timeout_finish)
next
  case (Start i a)
  have "i \<notin> set (rg_completed g)" using runs_okD(4)[OF assms(2), of i] named_start[of i _ log] assms(3) Start by auto
  then show ?thesis
    by (intro outcome_ok_same[OF assms(1)])
      (auto simp: Start run_start_def completions_of_def outcomes_Cons js_map.get_put split: if_splits)
next
  case (Emit i x)
  show ?thesis
    by (intro outcome_ok_same[OF assms(1)])
      (auto simp: Emit run_emit_def completions_of_def outcomes_Cons publish_runs split: if_splits option.splits)
next
  case (Evict i)
  show ?thesis
    by (intro outcome_ok_same[OF assms(1)])
      (auto simp: Evict run_evict_def completions_of_def outcomes_Cons js_map.get_remove split: if_splits)
next
  case (Subscribe i a l)
  show ?thesis
    by (intro outcome_ok_same[OF assms(1)])
      (auto simp: Subscribe run_subscribe_def Let_def completions_of_def outcomes_Cons js_map.get_put split: if_splits option.splits)
next
  case (Unsubscribe i l)
  show ?thesis
    by (intro outcome_ok_same[OF assms(1)])
      (auto simp: Unsubscribe run_unsubscribe_def completions_of_def outcomes_Cons js_map.get_put split: if_splits option.splits)
qed

lemma registry_outcome_ok: "registry_run t log g \<Longrightarrow> outcome_ok log g i"
proof (induction rule: registry_run.induct)
  case fresh
  show ?case by (simp add: outcome_ok_def new_registry_def completions_of_def)
next
  case (act log g act)
  show ?case by (rule step_outcome_ok[OF act.IH registry_runs_ok[OF act.hyps(1)] act.hyps(2)])
qed

lemma registry_timeoutMs: "registry_run t log g \<Longrightarrow> rg_timeoutMs g = rg_timeoutMs (new_registry t :: ('s, 'r, 'l) InMemoryRunRegistry)"
  for g :: "('s, 'r, 'l) InMemoryRunRegistry"
proof (induction rule: registry_run.induct)
  case (act log g act)
  then show ?case
    by (cases act) (simp_all add: run_start_def run_emit_def settle_finish timeout_finish run_evict_def run_subscribe_def
        run_unsubscribe_def Let_def split: option.split)
qed simp

text \<open>A runner settles once, so there is at most one late report.\<close>

lemma late_reports_settles:
  "length (late_reports (outcomes ms log i)) \<le> length (filter (\<lambda>act. \<exists>x. act = Settle i x) log)"
proof (induction log)
  case (Cons act log)
  have one: "length (late_reports [x]) \<le> 1" for x :: "string + 'a" by (cases x) simp_all
  show ?case
  proof (cases act)
    case (Settle j x)
    then show ?thesis using add_mono[OF Cons one[of x]] Cons by (auto simp: outcomes_Cons)
  qed (use Cons in \<open>auto simp: outcomes_Cons\<close>)
qed simp

lemma settles_once: "registry_run t log g \<Longrightarrow> length (filter (\<lambda>act. \<exists>x. act = Settle i x) log) \<le> 1"
proof (induction rule: registry_run.induct)
  case (act log g act)
  then show ?case by (cases act) (auto simp: filter_empty_conv)
qed simp

lemma run_ends:
  fixes g :: "('s, 'r, 'l) InMemoryRunRegistry" and i :: string
  assumes "registry_run t log g"
  defines "xs \<equiv> outcomes (rg_timeoutMs (new_registry t :: ('s, 'r, 'l) InMemoryRunRegistry)) log i"
  shows "completions_of g i = reported xs" "i \<in> set (rg_completed g) \<longleftrightarrow> xs \<noteq> []" "length (completions_of g i) \<le> 2"
    "\<And>st. map_get (rg_runs g) i = Some st \<Longrightarrow> xs \<noteq> [] \<Longrightarrow> last (rn_events st) = outcome_frame (hd xs)"
proof -
  note ok = registry_outcome_ok[OF assms(1), of i, unfolded outcome_ok_def Let_def registry_timeoutMs[OF assms(1)], folded xs_def]
  show "completions_of g i = reported xs" "i \<in> set (rg_completed g) \<longleftrightarrow> xs \<noteq> []" using ok by blast+
  show "\<And>st. map_get (rg_runs g) i = Some st \<Longrightarrow> xs \<noteq> [] \<Longrightarrow> last (rn_events st) = outcome_frame (hd xs)" using ok by blast
  have "length (late_reports xs) \<le> 1"
    using late_reports_settles[of _ log i] settles_once[OF assms(1), of i] unfolding xs_def by (rule le_trans)
  then show "length (completions_of g i) \<le> 2" using ok by (cases xs; cases "hd xs") auto
qed

lemma find_in: "find P xs = Some x \<Longrightarrow> x \<in> set xs \<and> P x"
  by (induction xs) (auto split: if_splits)

lemma active_open: "runs_ok S g \<Longrightarrow> activeRunId g a = Some i \<Longrightarrow> i \<notin> set (rg_completed g)"
proof -
  assume ok: "runs_ok S g" and "activeRunId g a = Some i"
  then obtain st where st: "st \<in> set (map snd (rg_runs g))" "\<not> rn_done st" "rn_id st = i"
    using find_in[of _ "map snd (rg_runs g)"] by (auto simp: activeRunId_def simp del: set_map)
  then obtain k where k: "(k, st) \<in> set (rg_runs g)" by auto
  have kb: "keyed_by rn_id (rg_runs g)" using runs_okD(1)[OF ok] .
  then have "k = i" "map_get (rg_runs g) k = Some st" using k st(3) by (auto simp: keyed_by_def map_get_def)
  then show ?thesis using runs_okD(2)[OF ok, of i st] st(2) by simp
qed

text \<open>A concrete run: it emits, a page subscribes, it is abandoned, and its runner settles after all.\<close>

definition toy_actions :: "(nat, nat, nat) run_action list" where
  "toy_actions = [Settle ''r'' (Inr 7), Timeout ''r'', Emit ''r'' 2, Subscribe ''r'' ''b'' 2, Subscribe ''r'' ''a'' 1, Emit ''r'' 1, Start ''r'' ''a'']"

lemma toy_actions_run: "registry_run None toy_actions (fold run_step (rev toy_actions) (new_registry None))"
  unfolding toy_actions_def rev.simps append.simps fold_simps comp_apply id_apply
  by (intro registry_run.intros) simp_all

section \<open>Properties\<close>

text \<open>
  No page misses or doubles a frame: the frames of a run are steps and then at most one
  terminal frame, and a page that subscribed with the account of the run, before or after any of
  them, has received exactly those frames in their order as long as it has not unsubscribed; a page
  that asked with another account has received nothing.
\<close>

theorem frames_in_order:
  assumes "registry_run t log g" "map_get (rg_runs g) i = Some st"
  shows "frames_ok (rn_done st) (rn_events st)
    \<and> (\<forall>l. Subscribe i (rn_accountId st) l \<in> set log \<and> Unsubscribe i l \<notin> set log \<longrightarrow> rg_received g l = rn_events st)
    \<and> (\<forall>a l. Subscribe i a l \<in> set log \<and> a \<noteq> rn_accountId st \<longrightarrow> rg_received g l = [])"
proof (intro conjI allI impI)
  note R = runs_okD[OF registry_runs_ok[OF assms(1)]] and L = listeners_okD[OF registry_listeners_ok[OF assms(1)]]
  show "frames_ok (rn_done st) (rn_events st)" using R(2)[OF assms(2)] by simp
  show "rg_received g l = rn_events st" if "Subscribe i (rn_accountId st) l \<in> set log \<and> Unsubscribe i l \<notin> set log" for l
    using L(3)[OF _ _ assms(2) refl, of l] that by (simp add: subs_def unsubs_def)
  show "rg_received g l = []" if "Subscribe i a l \<in> set log \<and> a \<noteq> rn_accountId st" for a l
    using L(4)[of i a l "rn_accountId st"] R(2)[OF assms(2)] that by (simp add: subs_def)
qed

theorem frames_in_order_witness:
  "let g = fold run_step (rev toy_actions) (new_registry None) in rg_received g 2 = []
     \<and> rg_received g 1 = [StepFrame 1, StepFrame 2, ErrorFrame (timeout_message 300000)]"
proof -
  let ?g = "fold run_step (rev toy_actions) (new_registry None)"
  have g: "map_get (rg_runs ?g) ''r'' = Some \<lparr> rn_id = ''r'', rn_accountId = ''a'',
      rn_events = [StepFrame 1, StepFrame 2, ErrorFrame (timeout_message 300000)], rn_done = True, rn_listeners = [1] \<rparr>"
    by (simp add: toy_actions_def new_registry_def run_start_def run_emit_def run_subscribe_def run_timeout_def run_settle_def run_finish_def
        publish_def js_map.get_put Let_def DEFAULT_TIMEOUT_MS_def)
  note f = frames_in_order[OF toy_actions_run g, unfolded RunState.simps]
  have "Subscribe ''r'' ''a'' 1 \<in> set toy_actions" "Unsubscribe ''r'' 1 \<notin> set toy_actions" "Subscribe ''r'' ''b'' 2 \<in> set toy_actions"
    by (simp_all add: toy_actions_def)
  moreover have "''b'' \<noteq> ''a''" by simp
  ultimately show ?thesis using f unfolding Let_def by blast
qed

text \<open>
  C27. A run has one outcome, and a hung runner cannot hold its account: once its runner settles or
  its time is up the run is no longer the active one of any account; the completion callback has then
  been told exactly the first of these ends, and marked late every result that came after it, at most
  two calls in all; and the last frame of the run is that of the first end.
\<close>

theorem run_outcome_once:
  fixes g :: "('s, 'r, 'l) InMemoryRunRegistry"
  assumes "registry_run t log g" "outcomes (rg_timeoutMs (new_registry t :: ('s, 'r, 'l) InMemoryRunRegistry)) log i = x # later"
  shows "(\<forall>a. activeRunId g a \<noteq> Some i)
    \<and> completions_of g i = outcome_completion x # late_reports later \<and> length (completions_of g i) \<le> 2
    \<and> (\<forall>st. map_get (rg_runs g) i = Some st \<longrightarrow> last (rn_events st) = outcome_frame x)"
  using run_ends[OF assms(1), of i] active_open[OF registry_runs_ok[OF assms(1)]] unfolding assms(2) by auto

theorem run_outcome_once_witness:
  "let g = fold run_step (rev toy_actions) (new_registry None) in (\<forall>a. activeRunId g a \<noteq> Some ''r'')
     \<and> completions_of g ''r'' = [outcome_completion (Inl (timeout_message 300000)), late_completion 7]"
proof -
  have "outcomes (rg_timeoutMs (new_registry None :: (nat, nat, nat) InMemoryRunRegistry)) toy_actions ''r'' = [Inl (timeout_message 300000), Inr 7]"
    by (simp add: toy_actions_def outcomes_def new_registry_def DEFAULT_TIMEOUT_MS_def)
  from run_outcome_once[OF toy_actions_run this] show ?thesis by (simp add: Let_def)
qed

end
