(* ===== verification/PortalRequest.thy ===== *)
theory PortalRequest
imports GatewayHttp Accounts KycRun Predicates
begin

text \<open>
  What the routes of the portal's API share (\<open>scripts/onboard/portal-api.ts\<close>): the checks of the
  wizard's answers, the body and its fields, the errors, the counters that bound how often an address
  may ask, the answers that carry an account and the frames of a stream.
\<close>

section \<open>Values as text\<close>

text \<open>\<open>String(v)\<close> of a parsed value; a fraction has the text \<open>JSON.stringify\<close> gives it.\<close>

fun js_String :: "jsval \<Rightarrow> string" where
  "js_String JUndefined = ''undefined''"
| "js_String JNull = ''null''"
| "js_String (JString s) = s"
| "js_String (JArray vs) = join '','' (map (\<lambda>v. case v of JNull \<Rightarrow> [] | JUndefined \<Rightarrow> [] | _ \<Rightarrow> js_String v) vs)"
| "js_String (JObject kvs) = ''[object Object]''"
| "js_String v = json_stringify v"

text \<open>\<open>Number(v)\<close>.\<close>

fun js_to_number :: "jsval \<Rightarrow> jsnum" where
  "js_to_number (JNum x) = x"
| "js_to_number JNull = JInt 0"
| "js_to_number (JBool b) = JInt (if b then 1 else 0)"
| "js_to_number (JString s) = js_Number s"
| "js_to_number (JArray vs) = js_Number (js_String (JArray vs))"
| "js_to_number _ = JNaN"

text \<open>
  \<open>toUpperCase\<close>: the sharp s becomes two letters; the two letters whose capital has a code above 255
  stay, which is as far from \<open>A\<close> to \<open>Z\<close> as their capital.
\<close>

definition js_upper_char :: "char \<Rightarrow> string" where
  "js_upper_char c = (let k = (of_char c :: nat) in if k = 223 then ''SS''
     else if 97 \<le> k \<and> k \<le> 122 \<or> 224 \<le> k \<and> k \<le> 254 \<and> k \<noteq> 247 then [char_of (k - 32)] else [c])"

definition js_upper :: "string \<Rightarrow> string" where
  "js_upper s = concat (map js_upper_char s)"

section \<open>Errors and answers\<close>

text \<open>An answer in JSON with the cookie it sets, a stream with the registry, the run and the connection it follows, or none yet.\<close>

datatype run_kind = KycRuns | OnrampRuns

datatype portal_answer = Reply (an_status: nat) (an_cookie: "string option") (an_body: jsval) | EventStream run_kind string string | Unanswered

definition sendJson :: "nat \<Rightarrow> jsval \<Rightarrow> portal_answer" where
  "sendJson status body = Reply status None body"

definition error_body :: "string \<Rightarrow> string \<Rightarrow> (string \<times> jsval) list \<Rightarrow> jsval" where
  "error_body code_name message extra =
     JObject [(''error'', JObject ([(''code'', JString code_name), (''message'', JString message)] @ extra))]"

definition sendError :: "store_failure \<Rightarrow> portal_answer" where
  "sendError err = (case err of
     Refusal e \<Rightarrow> sendJson (pe_status e) (error_body (pe_code e) (pe_message e) [])
   | Crash \<Rightarrow> sendJson 500 (error_body ''internal_error'' ''internal server error'' []))"

definition refuse :: "nat \<Rightarrow> string \<Rightarrow> string \<Rightarrow> store_failure" where
  "refuse status code_name message = Refusal (PortalAccountError status code_name message)"

section \<open>The body\<close>

definition MAX_BODY_BYTES :: nat where "MAX_BODY_BYTES = 256 * 1024"

text \<open>\<open>None\<close> where the body does not end.\<close>

definition readJsonBody :: "headers \<Rightarrow> body_event list \<Rightarrow> (store_failure + jsval) option" where
  "readJsonBody hs evs = (case captureBody (readSingleHeaderValue hs ''content-length'') evs MAX_BODY_BYTES of
     NeverEnds \<Rightarrow> None
   | BodyTooLarge \<Rightarrow> Some (Inl (refuse 413 ''body_too_large'' ''request body too large''))
   | BodyFailed e \<Rightarrow> Some (Inl Crash)
   | Body raw \<Rightarrow> Some (if raw = [] then Inr (JObject [])
       else case Option.bind (utf8_text raw) json_parse of
         None \<Rightarrow> Inl (refuse 400 ''invalid_json'' ''request body is not valid JSON'')
       | Some v \<Rightarrow> if is_object v then Inr v else Inl (refuse 400 ''invalid_json'' ''request body must be a JSON object'')))"

definition requireStringField :: "jsval \<Rightarrow> string \<Rightarrow> store_failure + string" where
  "requireStringField body key = (case jget key body of
     JString v \<Rightarrow> if v = [] then Inl (refuse 400 ''missing_field'' (''missing or invalid '' @ quoted key)) else Inr v
   | _ \<Rightarrow> Inl (refuse 400 ''missing_field'' (''missing or invalid '' @ quoted key)))"

section \<open>The wizard's answers\<close>

record Applicant =
  ap_givenName :: string
  ap_familyName :: string
  ap_dateOfBirth :: string
  ap_documentNumber :: string
  ap_residenceCountry :: string

definition ISO_DATE_RE :: "string \<Rightarrow> bool" where
  "ISO_DATE_RE s = (length s = 10 \<and> s ! 4 = CHR ''-'' \<and> s ! 7 = CHR ''-''
     \<and> list_all is_digit (take 4 s) \<and> list_all is_digit (take 2 (drop 5 s)) \<and> list_all is_digit (drop 8 s))"

definition ALPHA2_RE :: "string \<Rightarrow> bool" where
  "ALPHA2_RE s = (length s = 2 \<and> list_all (\<lambda>c. let k = (of_char c :: nat) in 65 \<le> k \<and> k \<le> 90) s)"

text \<open>\<open>Date.parse\<close> of a text of that shape: a month and a day that exist, whatever the month's length.\<close>

definition date_parses :: "string \<Rightarrow> bool" where
  "date_parses s = (let month = undec (take 2 (drop 5 s)); d = undec (drop 8 s) in 1 \<le> month \<and> month \<le> 12 \<and> 1 \<le> d \<and> d \<le> 31)"

definition parseApplicant :: "jsval \<Rightarrow> store_failure + Applicant" where
  "parseApplicant raw = (if \<not> is_object raw then Inl (refuse 400 ''missing_field'' (''missing '' @ quoted ''applicant''))
     else ebind (requireStringField raw ''firstName'') (\<lambda>givenName.
       ebind (requireStringField raw ''lastName'') (\<lambda>familyName.
       ebind (requireStringField raw ''dateOfBirth'') (\<lambda>dateOfBirth.
       ebind (requireStringField raw ''country'') (\<lambda>c. let country = js_upper c in
       ebind (requireStringField raw ''documentNumber'') (\<lambda>documentNumber.
         if \<not> ISO_DATE_RE dateOfBirth \<or> \<not> date_parses dateOfBirth
         then Inl (refuse 400 ''invalid_field'' (quoted ''dateOfBirth'' @ '' must be YYYY-MM-DD''))
         else if \<not> ALPHA2_RE country
         then Inl (refuse 400 ''invalid_field'' (quoted ''country'' @ '' must be an ISO 3166-1 alpha-2 code''))
         else if length documentNumber < 6
         then Inl (refuse 400 ''invalid_field'' (quoted ''documentNumber'' @ '' must be at least 6 characters''))
         else Inr \<lparr> ap_givenName = givenName, ap_familyName = familyName, ap_dateOfBirth = dateOfBirth,
                    ap_documentNumber = documentNumber, ap_residenceCountry = country \<rparr>))))))"

definition DEFAULT_DISCLOSURE :: "claim_name list" where
  "DEFAULT_DISCLOSURE = [Over18, NotSanctioned]"

definition CHAIN_BACKED_CLAIMS :: "claim_name list" where
  "CHAIN_BACKED_CLAIMS = [Over18, Over21, NotSanctioned, JurisdictionOk]"

fun disclosed_names :: "jsval list \<Rightarrow> claim_name list \<Rightarrow> store_failure + claim_name list" where
  "disclosed_names [] names = Inr names"
| "disclosed_names (entry # rest) names =
     (case Option.bind (js_string entry) (\<lambda>s. find (\<lambda>n. claim_str n = s) DISCLOSABLE_CLAIM_NAMES) of
        None \<Rightarrow> Inl (refuse 400 ''invalid_field'' (quoted (js_String entry) @ '' is not a disclosable claim''))
      | Some n \<Rightarrow> disclosed_names rest (if n \<in> set names then names else names @ [n]))"

definition parseDisclosure :: "jsval \<Rightarrow> store_failure + claim_name list" where
  "parseDisclosure raw = (case raw of
     JUndefined \<Rightarrow> Inr DEFAULT_DISCLOSURE
   | JArray entries \<Rightarrow> ebind (disclosed_names entries []) (\<lambda>names.
       if names = [] then Inl (refuse 400 ''invalid_field'' ''choose at least one claim to disclose'')
       else if \<not> list_ex (\<lambda>n. n \<in> set CHAIN_BACKED_CLAIMS) names
       then Inl (refuse 400 ''invalid_field'' (''the claim record carries only '' @ join '', '' (map claim_str CHAIN_BACKED_CLAIMS)
              @ '', so at least one of those must be disclosed for the chain to record anything''))
       else Inr names)
   | _ \<Rightarrow> Inl (refuse 400 ''invalid_field'' (quoted ''disclose'' @ '' must be an array of claim names'')))"

section \<open>Counters per address\<close>

record window_hits =
  wh_count :: nat
  wh_resetAt :: int

record FixedWindowLimiter =
  fl_limit :: nat
  fl_windowMs :: int
  fl_hits :: "(string \<times> window_hits) list"

definition new_limiter :: "nat \<Rightarrow> int \<Rightarrow> FixedWindowLimiter" where
  "new_limiter limit windowMs = \<lparr> fl_limit = limit, fl_windowMs = windowMs, fl_hits = [] \<rparr>"

definition registerLimiter :: FixedWindowLimiter where "registerLimiter = new_limiter 10 (10 * 60000)"
definition loginLimiter :: FixedWindowLimiter where "loginLimiter = new_limiter 20 (10 * 60000)"
definition submitLimiter :: FixedWindowLimiter where "submitLimiter = new_limiter 6 (10 * 60000)"
definition onrampLimiter :: FixedWindowLimiter where "onrampLimiter = new_limiter 6 (10 * 60000)"

definition exceeded :: "string \<Rightarrow> int \<Rightarrow> FixedWindowLimiter \<Rightarrow> bool \<times> FixedWindowLimiter" where
  "exceeded key now L = (let hits = (if length (fl_hits L) > 10000 then filter (\<lambda>(k, v). \<not> wh_resetAt v \<le> now) (fl_hits L) else fl_hits L) in
     case map_get hits key of
       None \<Rightarrow> (False, L\<lparr>fl_hits := map_set key \<lparr> wh_count = 1, wh_resetAt = now + fl_windowMs L \<rparr> hits\<rparr>)
     | Some cur \<Rightarrow> if wh_resetAt cur \<le> now
         then (False, L\<lparr>fl_hits := map_set key \<lparr> wh_count = 1, wh_resetAt = now + fl_windowMs L \<rparr> hits\<rparr>)
         else (wh_count cur + 1 > fl_limit L, L\<lparr>fl_hits := map_set key (cur\<lparr>wh_count := wh_count cur + 1\<rparr>) hits\<rparr>))"

text \<open>The first of the values a proxy appended, without the space around it.\<close>

definition first_hop :: "headers \<Rightarrow> string \<Rightarrow> string option" where
  "first_hop hs name = (case hs name of None \<Rightarrow> None
     | Some (HText s) \<Rightarrow> Some (js_trim (before CHR '','' s))
     | Some (HTexts []) \<Rightarrow> None
     | Some (HTexts (s # _)) \<Rightarrow> Some (js_trim (before CHR '','' s)))"

definition clientIp :: "headers \<Rightarrow> string option \<Rightarrow> string" where
  "clientIp hs remoteAddress = (case first_hop hs ''x-forwarded-for'' of
     Some (c # first) \<Rightarrow> c # first
   | _ \<Rightarrow> (case remoteAddress of None \<Rightarrow> ''unknown'' | Some a \<Rightarrow> a))"

definition rate_limited :: "string \<Rightarrow> store_failure" where
  "rate_limited what = refuse 429 ''rate_limited'' (''too many '' @ what @ '' from this address '' @ [CHR 0xE2, CHR 0x80, CHR 0x94] @ '' try again in a few minutes'')"

definition secureCookies :: "bool \<Rightarrow> headers \<Rightarrow> bool" where
  "secureCookies configured hs = (configured \<or> first_hop hs ''x-forwarded-proto'' = Some ''https'')"

section \<open>Accounts and frames as JSON\<close>

definition or_null :: "string option \<Rightarrow> jsval" where
  "or_null x = (case x of None \<Rightarrow> JNull | Some s \<Rightarrow> JString s)"

definition kyc_status_text :: "portal_kyc_status \<Rightarrow> string" where
  "kyc_status_text k = (case k of KycNone \<Rightarrow> ''none'' | KycPending \<Rightarrow> ''pending'' | KycApproved \<Rightarrow> ''approved'' | KycRejected \<Rightarrow> ''rejected'')"

definition given :: "string \<Rightarrow> ('a \<Rightarrow> jsval) \<Rightarrow> 'a option \<Rightarrow> (string \<times> jsval) list" where
  "given key f x = (case x of None \<Rightarrow> [] | Some v \<Rightarrow> [(key, f v)])"

definition kyc_json :: "AccountKyc \<Rightarrow> jsval" where
  "kyc_json k = JObject ([(''status'', JString (kyc_status_text (ak_status k)))] @ given ''sessionId'' JString (ak_sessionId k)
     @ given ''claimBitmap'' JNum (ak_claimBitmap k) @ given ''revocationIndex'' JNum (ak_revocationIndex k)
     @ given ''txHash'' JString (ak_txHash k) @ given ''verifiedAt'' JNum (ak_verifiedAt k))"

definition onramp_json :: "onramp_record option \<Rightarrow> jsval" where
  "onramp_json x = (case x of None \<Rightarrow> JNull
     | Some r \<Rightarrow> JObject [(''tryAmount'', JString (or_tryAmount r)), (''usdcAmount'', JString (or_usdcAmount r)),
         (''stellarTxHash'', JString (or_stellarTxHash r)), (''at'', JNum (or_at r))])"

definition public_json :: "PublicAccount \<Rightarrow> jsval" where
  "public_json a = JObject [(''id'', JString (pa_id a)), (''email'', JString (pa_email a)), (''createdAt'', JNum (pa_createdAt a)),
     (''walletCAddr'', or_null (pa_walletCAddr a)), (''walletDeployTxHash'', or_null (pa_walletDeployTxHash a)),
     (''kyc'', kyc_json (pa_kyc a)), (''fundingAccount'', or_null (pa_fundingAccount a)), (''onramp'', onramp_json (pa_onramp a))]"

definition sse_frame :: "(jsval, 'r) run_event \<Rightarrow> string" where
  "sse_frame ev = (case ev of
     StepFrame step \<Rightarrow> ''data: '' @ json_stringify step @ [CHR 0x0A, CHR 0x0A]
   | DoneFrame r \<Rightarrow> ''event: done'' @ [CHR 0x0A] @ ''data: {}'' @ [CHR 0x0A, CHR 0x0A]
   | ErrorFrame message \<Rightarrow> ''event: error'' @ [CHR 0x0A] @ ''data: '' @ json_stringify (JObject [(''message'', JString message)]) @ [CHR 0x0A, CHR 0x0A])"

section \<open>Facts on the counters\<close>

text \<open>Attempts, latest first: who asked when.\<close>

fun limiter_run :: "FixedWindowLimiter \<Rightarrow> (string \<times> int) list \<Rightarrow> FixedWindowLimiter" where
  "limiter_run L [] = L"
| "limiter_run L ((k, t) # log) = snd (exceeded k t (limiter_run L log))"

fun attempts_of :: "string \<Rightarrow> (string \<times> int) list \<Rightarrow> int list" where
  "attempts_of k [] = []"
| "attempts_of k ((k', t) # log) = (if k' = k then t # attempts_of k log else attempts_of k log)"

fun let_through :: "FixedWindowLimiter \<Rightarrow> string \<Rightarrow> (string \<times> int) list \<Rightarrow> int list" where
  "let_through L k [] = []"
| "let_through L k ((k', t) # log) = (if k' = k \<and> \<not> fst (exceeded k' t (limiter_run L log)) then t # let_through L k log else let_through L k log)"

fun times_forward :: "(string \<times> int) list \<Rightarrow> int \<Rightarrow> bool" where
  "times_forward [] now = True"
| "times_forward ((k, t) # log) now = (t \<le> now \<and> times_forward log t)"

text \<open>The window of one address by its own attempts alone, with nothing ever forgotten.\<close>

definition next_window :: "int \<Rightarrow> int \<Rightarrow> window_hits option \<Rightarrow> window_hits" where
  "next_window w t x = (case x of None \<Rightarrow> \<lparr> wh_count = 1, wh_resetAt = t + w \<rparr>
     | Some c \<Rightarrow> if wh_resetAt c \<le> t then \<lparr> wh_count = 1, wh_resetAt = t + w \<rparr> else c\<lparr>wh_count := wh_count c + 1\<rparr>)"

fun window_of :: "int \<Rightarrow> int list \<Rightarrow> window_hits option" where
  "window_of w [] = None"
| "window_of w (t # ts) = Some (next_window w t (window_of w ts))"

definition live_window :: "int \<Rightarrow> window_hits option \<Rightarrow> window_hits option" where
  "live_window now x = (case x of None \<Rightarrow> None | Some c \<Rightarrow> if wh_resetAt c \<le> now then None else Some c)"

lemma live_window_later: "live_window now x = live_window now y \<Longrightarrow> now \<le> t \<Longrightarrow> live_window t x = live_window t y"
  unfolding live_window_def by (cases x; cases y; cases "wh_resetAt (the x) \<le> now"; cases "wh_resetAt (the y) \<le> now") auto

lemma next_live: "next_window w t x = next_window w t (live_window t x)"
  by (simp add: next_window_def live_window_def split: option.split)

lemma exceeded_by_window:
  assumes "distinct (map fst (fl_hits L))" "0 < fl_limit L" and n_def: "n = next_window (fl_windowMs L) t (map_get (fl_hits L) k)"
  shows "fst (exceeded k t L) = (wh_count n > fl_limit L)"
    and "live_window t (map_get (fl_hits (snd (exceeded k t L))) k') = live_window t (if k' = k then Some n else map_get (fl_hits L) k')"
    and "distinct (map fst (fl_hits (snd (exceeded k t L))))"
    and "fl_limit (snd (exceeded k t L)) = fl_limit L" "fl_windowMs (snd (exceeded k t L)) = fl_windowMs L"
proof -
  define hits where "hits = (if length (fl_hits L) > 10000 then filter (\<lambda>(k, v). \<not> wh_resetAt v \<le> t) (fl_hits L) else fl_hits L)"
  have d: "distinct (map fst hits)" using assms(1) by (simp add: hits_def distinct_map_filter)
  have g: "live_window t (map_get hits j) = live_window t (map_get (fl_hits L) j)" for j
    by (simp add: hits_def get_filter[OF assms(1)] live_window_def split: option.split)
  then have n: "n = next_window (fl_windowMs L) t (map_get hits k)" unfolding n_def by (metis next_live)
  have e: "exceeded k t L = (wh_count n > fl_limit L, L\<lparr>fl_hits := map_set k n hits\<rparr>)"
    unfolding exceeded_def Let_def hits_def[symmetric] n next_window_def using assms(2) by (simp split: option.split)
  show "fst (exceeded k t L) = (wh_count n > fl_limit L)" "fl_limit (snd (exceeded k t L)) = fl_limit L"
    "fl_windowMs (snd (exceeded k t L)) = fl_windowMs L" by (simp_all add: e)
  show "distinct (map fst (fl_hits (snd (exceeded k t L))))" using d by (simp add: e map_set_keys)
  show "live_window t (map_get (fl_hits (snd (exceeded k t L))) k') = live_window t (if k' = k then Some n else map_get (fl_hits L) k')"
    using g by (simp add: e js_map.get_put)
qed

lemma limiter_reflects:
  assumes "fl_hits L = []" "0 < fl_limit L" "times_forward log now"
  shows "fl_limit (limiter_run L log) = fl_limit L \<and> fl_windowMs (limiter_run L log) = fl_windowMs L
     \<and> distinct (map fst (fl_hits (limiter_run L log)))
     \<and> (\<forall>k. live_window now (map_get (fl_hits (limiter_run L log)) k) = live_window now (window_of (fl_windowMs L) (attempts_of k log)))"
  using assms(3)
proof (induction log arbitrary: now)
  case Nil
  then show ?case using assms(1) by (simp add: map_get_def)
next
  case (Cons a log)
  obtain k t where a: "a = (k, t)" by (cases a)
  then have t: "t \<le> now" "times_forward log t" using Cons.prems by auto
  let ?R = "limiter_run L log"
  note IH = Cons.IH[OF t(2)]
  have d: "distinct (map fst (fl_hits ?R))" and p: "0 < fl_limit ?R" using IH assms(2) by auto
  note e = exceeded_by_window[OF d p refl, where t = t and k = k]
  have n: "next_window (fl_windowMs ?R) t (map_get (fl_hits ?R) k) = next_window (fl_windowMs L) t (window_of (fl_windowMs L) (attempts_of k log))"
    using IH by (metis next_live)
  have w: "window_of (fl_windowMs L) (attempts_of j (a # log)) = (if j = k then Some (next_window (fl_windowMs L) t (window_of (fl_windowMs L) (attempts_of k log)))
      else window_of (fl_windowMs L) (attempts_of j log))" for j by (simp add: a)
  have live: "live_window t (map_get (fl_hits (snd (exceeded k t ?R))) j) = live_window t (window_of (fl_windowMs L) (attempts_of j (a # log)))" for j
  proof (cases "j = k")
    case True
    then show ?thesis using e(2)[of j] n w[of j] by (simp only: if_True simp_thms)
  next
    case False
    then show ?thesis using e(2)[of j] IH w[of j] by (simp only: if_False simp_thms)
  qed
  have run: "limiter_run L (a # log) = snd (exceeded k t ?R)" by (simp add: a)
  show ?case unfolding run using IH e(3,4,5) live_window_later[OF live t(1)] by (intro conjI allI) (metis+)
qed

lemma attempt_answer:
  assumes "fl_hits L = []" "0 < fl_limit L" "times_forward log t"
  shows "fst (exceeded k t (limiter_run L log)) = (\<exists>c. window_of (fl_windowMs L) (attempts_of k ((k, t) # log)) = Some c \<and> wh_count c > fl_limit L)"
proof -
  note r = limiter_reflects[OF assms]
  have "next_window (fl_windowMs L) t (map_get (fl_hits (limiter_run L log)) k) = next_window (fl_windowMs L) t (window_of (fl_windowMs L) (attempts_of k log))"
    using r by (metis next_live)
  then show ?thesis using r assms(2) exceeded_by_window(1)[OF _ _ refl, where t = t and k = k] by simp
qed

text \<open>What a window says of the attempts: it counts those since it opened.\<close>

lemma attempts_forward: "times_forward log now \<Longrightarrow> x \<in> set (attempts_of k log) \<Longrightarrow> x \<le> now"
proof (induction log arbitrary: now)
  case (Cons a log)
  then show ?case by (cases a) (fastforce split: if_splits)
qed simp

lemma window_counts:
  assumes "0 < w" "times_forward log now" "window_of w (attempts_of k log) = Some c"
  shows "wh_count c = length (filter (\<lambda>x. wh_resetAt c - w \<le> x) (attempts_of k log)) \<and> wh_resetAt c - w \<le> now
     \<and> (\<forall>x\<in>set (attempts_of k log). x < wh_resetAt c)"
  using assms(2,3)
proof (induction log arbitrary: now c)
  case (Cons a log)
  obtain j t where a: "a = (j, t)" by (cases a)
  have t: "t \<le> now" "times_forward log t" using Cons.prems(1) a by auto
  show ?case
  proof (cases "j = k")
    case False
    then show ?thesis using Cons.IH[OF t(2)] Cons.prems(2) t a by fastforce
  next
    case True
    have c: "c = next_window w t (window_of w (attempts_of k log))" using Cons.prems(2) a True by simp
    have early: "x \<le> t" if "x \<in> set (attempts_of k log)" for x using attempts_forward[OF t(2) that] .
    show ?thesis
    proof (cases "window_of w (attempts_of k log)")
      case None
      then have "attempts_of k log = []" by (cases "attempts_of k log") auto
      then show ?thesis using c None a True t assms(1) by (simp add: next_window_def)
    next
      case (Some c')
      note IH = Cons.IH[OF t(2) Some]
      show ?thesis
      proof (cases "wh_resetAt c' \<le> t")
        case old: True
        then have "filter (\<lambda>x. t \<le> x) (attempts_of k log) = []" using IH by (force simp: filter_empty_conv)
        then show ?thesis using c Some a True t early old assms(1) by (force simp: next_window_def)
      next
        case False
        then show ?thesis using c Some IH a True t by (auto simp: next_window_def)
      qed
    qed
  qed
qed simp

text \<open>
  Of the attempts let through, at most as many as the limit fall in the window that is open, and as many
  again in the part of a window's length before it opened.
\<close>

definition in_last :: "int \<Rightarrow> int \<Rightarrow> int list \<Rightarrow> nat" where
  "in_last w now ts = length (filter (\<lambda>x. now - w < x) ts)"

lemma length_filter_imp: "(\<And>x. P x \<Longrightarrow> Q x) \<Longrightarrow> length (filter P xs) \<le> length (filter Q xs)"
  by (induction xs) auto

lemma length_filter_cover:
  assumes "\<And>x. P x \<Longrightarrow> Q x \<or> R x"
  shows "length (filter P xs) \<le> length (filter Q xs) + length (filter R xs)"
  using assms by (induction xs) fastforce+

lemma let_through_subset: "set (let_through L k log) \<subseteq> set (attempts_of k log)"
  by (induction log) (auto split: if_splits)

lemma let_through_bound:
  assumes L: "fl_hits L = []" "0 < fl_limit L" "0 < fl_windowMs L" and "times_forward log now"
    and "window_of (fl_windowMs L) (attempts_of k log) = Some c"
  shows "length (filter (\<lambda>x. wh_resetAt c - fl_windowMs L \<le> x) (let_through L k log)) = min (wh_count c) (fl_limit L)
    \<and> length (filter (\<lambda>x. wh_resetAt c - 2 * fl_windowMs L < x \<and> x < wh_resetAt c - fl_windowMs L) (let_through L k log)) \<le> fl_limit L"
  using assms(4,5)
proof (induction log arbitrary: now c)
  case (Cons a log)
  obtain j t where a: "a = (j, t)" by (cases a)
  let ?w = "fl_windowMs L"
  have t: "t \<le> now" "times_forward log t" using Cons.prems(1) a by auto
  show ?case
  proof (cases "j = k")
    case False
    then show ?thesis using Cons.IH[OF t(2)] Cons.prems(2) a by simp
  next
    case True
    have c: "c = next_window ?w t (window_of ?w (attempts_of k log))" using Cons.prems(2) a True by simp
    have ans: "fst (exceeded k t (limiter_run L log)) = (wh_count c > fl_limit L)"
      using attempt_answer[OF L(1,2) t(2), of k] c by simp
    have early: "x \<le> t" if "x \<in> set (let_through L k log)" for x
      using attempts_forward[OF t(2)] let_through_subset that by blast
    show ?thesis
    proof (cases "window_of ?w (attempts_of k log)")
      case None
      then have "attempts_of k log = []" by (cases "attempts_of k log") auto
      then have "let_through L k log = []" using let_through_subset[of L k log] by simp
      then show ?thesis using c None a True ans L(2) by (simp add: next_window_def)
    next
      case (Some c')
      note IH = Cons.IH[OF t(2) Some]
      note W = window_counts[OF L(3) t(2) Some]
      show ?thesis
      proof (cases "wh_resetAt c' \<le> t")
        case old: True
        have past: "x < t" if "x \<in> set (let_through L k log)" for x using W let_through_subset[of L k log] that old by force
        have f: "filter (\<lambda>x. t \<le> x) (let_through L k log) = []" using past by (force simp: filter_empty_conv)
        have c1: "c = \<lparr> wh_count = 1, wh_resetAt = t + ?w \<rparr>" using c Some old by (simp add: next_window_def)
        have "length (filter (\<lambda>x. t - ?w < x \<and> x < t) (let_through L k log)) \<le> length (filter (\<lambda>x. wh_resetAt c' - ?w \<le> x) (let_through L k log))"
          by (rule length_filter_imp) (use old in auto)
        then show ?thesis using IH f c1 a True ans L(2) by (simp add: min_def split: if_splits)
      next
        case False
        then have "c = c'\<lparr>wh_count := wh_count c' + 1\<rparr>" "wh_resetAt c' - ?w \<le> t" using c Some W by (simp_all add: next_window_def)
        then show ?thesis using IH a True ans by (auto simp: min_def split: if_splits)
      qed
    qed
  qed
qed simp

lemma limiter_bounds:
  assumes L: "fl_hits L = []" "0 < fl_limit L" "0 < fl_windowMs L" and "times_forward log now"
  shows "in_last (fl_windowMs L) now (let_through L k log) \<le> 2 * fl_limit L"
    and "in_last (fl_windowMs L) now (attempts_of k log) < fl_limit L \<Longrightarrow> \<not> fst (exceeded k now (limiter_run L log))"
proof -
  let ?w = "fl_windowMs L"
  show "in_last ?w now (let_through L k log) \<le> 2 * fl_limit L"
  proof (cases "window_of ?w (attempts_of k log)")
    case None
    then have "attempts_of k log = []" by (cases "attempts_of k log") auto
    then show ?thesis using let_through_subset[of L k log] by (simp add: in_last_def)
  next
    case (Some c)
    note W = window_counts[OF L(3) assms(4) Some] and B = let_through_bound[OF L assms(4) Some]
    have "in_last ?w now (let_through L k log) \<le> length (filter (\<lambda>x. wh_resetAt c - ?w \<le> x) (let_through L k log))
        + length (filter (\<lambda>x. wh_resetAt c - 2 * ?w < x \<and> x < wh_resetAt c - ?w) (let_through L k log))"
      unfolding in_last_def by (rule length_filter_cover) (use W in auto)
    then show ?thesis using B by (auto simp: min_def split: if_splits)
  qed
  assume few: "in_last ?w now (attempts_of k log) < fl_limit L"
  have tf: "times_forward ((k, now) # log) now" using assms(4) by simp
  obtain c where c: "window_of ?w (attempts_of k ((k, now) # log)) = Some c" by simp
  have "wh_resetAt c - ?w > now - ?w" using window_counts[OF L(3) tf c] by simp
  then have "wh_count c \<le> in_last ?w now (attempts_of k ((k, now) # log))"
    using window_counts[OF L(3) tf c]
    by (simp only: in_last_def) (rule length_filter_imp, auto)
  moreover have "in_last ?w now (attempts_of k ((k, now) # log)) = Suc (in_last ?w now (attempts_of k log))"
    using L(3) by (simp add: in_last_def)
  ultimately show "\<not> fst (exceeded k now (limiter_run L log))"
    using attempt_answer[OF L(1,2) assms(4), of k] c few by auto
qed

section \<open>Facts on the disclosure\<close>

definition add_name :: "claim_name \<Rightarrow> claim_name list \<Rightarrow> claim_name list" where
  "add_name n names = (if n \<in> set names then names else names @ [n])"

lemma disclosed_names_Inr:
  "disclosed_names entries acc = Inr names \<longleftrightarrow> (\<exists>ns. set ns \<subseteq> set DISCLOSABLE_CLAIM_NAMES \<and> entries = map (\<lambda>n. JString (claim_str n)) ns \<and> names = fold add_name ns acc)"
proof (induction entries acc rule: disclosed_names.induct)
  case (2 entry rest acc)
  have find: "Option.bind (js_string entry) (\<lambda>s. find (\<lambda>n. claim_str n = s) DISCLOSABLE_CLAIM_NAMES) = Some n \<longleftrightarrow> n \<in> set DISCLOSABLE_CLAIM_NAMES \<and> entry = JString (claim_str n)" for n
  proof
    assume "Option.bind (js_string entry) (\<lambda>s. find (\<lambda>n. claim_str n = s) DISCLOSABLE_CLAIM_NAMES) = Some n"
    then obtain s where "entry = JString s" "find (\<lambda>n. claim_str n = s) DISCLOSABLE_CLAIM_NAMES = Some n" by (cases entry) auto
    then show "n \<in> set DISCLOSABLE_CLAIM_NAMES \<and> entry = JString (claim_str n)" using find_in[of _ DISCLOSABLE_CLAIM_NAMES n] by auto
  next
    assume "n \<in> set DISCLOSABLE_CLAIM_NAMES \<and> entry = JString (claim_str n)"
    then show "Option.bind (js_string entry) (\<lambda>s. find (\<lambda>n. claim_str n = s) DISCLOSABLE_CLAIM_NAMES) = Some n"
      by (auto simp: DISCLOSABLE_CLAIM_NAMES_def)
  qed
  show ?case
  proof (cases "Option.bind (js_string entry) (\<lambda>s. find (\<lambda>n. claim_str n = s) DISCLOSABLE_CLAIM_NAMES)")
    case None
    then have "\<nexists>n. n \<in> set DISCLOSABLE_CLAIM_NAMES \<and> entry = JString (claim_str n)" using find by (metis option.distinct(1))
    then show ?thesis using None by (auto simp: Cons_eq_map_conv)
  next
    case (Some n)
    then have n: "n \<in> set DISCLOSABLE_CLAIM_NAMES" "entry = JString (claim_str n)" using find by auto
    have same: "claim_str k = claim_str n \<longleftrightarrow> k = n" for k using claim_named_iff by (metis option.inject)
    have step: "disclosed_names (entry # rest) acc = disclosed_names rest (add_name n acc)" by (simp add: Some add_name_def)
    have IH: "disclosed_names rest (add_name n acc) = Inr names \<longleftrightarrow> (\<exists>ns. set ns \<subseteq> set DISCLOSABLE_CLAIM_NAMES \<and> rest = map (\<lambda>n. JString (claim_str n)) ns \<and> names = fold add_name ns (add_name n acc))"
      using 2[OF Some] unfolding add_name_def[symmetric] .
    show ?thesis
      unfolding step IH using n same by (auto simp: Cons_eq_map_conv) (metis fold_simps(2) list.simps(9) set_ConsD subset_code(1))+
  qed
qed auto

lemma fold_add_name: "set (fold add_name ns acc) = set acc \<union> set ns \<and> (distinct acc \<longrightarrow> distinct (fold add_name ns acc))"
proof (induction ns arbitrary: acc)
  case (Cons n ns)
  have "set (add_name n acc) = insert n (set acc)" "distinct acc \<longrightarrow> distinct (add_name n acc)" by (auto simp: add_name_def)
  then show ?case using Cons[of "add_name n acc"] by auto
qed simp

section \<open>Properties\<close>

text \<open>
  C33. The counters are exact and forget nothing that matters: with a clock that does not run backwards, what
  any of the four limiters answers an address depends on that address's own attempts alone, as if nothing were
  ever pruned; in any ten minutes at most twice the limit is let through, and who stayed below the limit for ten
  minutes is never refused.
\<close>

theorem limiter_exact:
  assumes "L \<in> {registerLimiter, loginLimiter, submitLimiter, onrampLimiter}" "times_forward log now"
  shows "(fst (exceeded k now (limiter_run L log)) \<longleftrightarrow> wh_count (next_window 600000 now (window_of 600000 (attempts_of k log))) > fl_limit L)
     \<and> in_last 600000 now (let_through L k log) \<le> 2 * fl_limit L
     \<and> (in_last 600000 now (attempts_of k log) < fl_limit L \<longrightarrow> \<not> fst (exceeded k now (limiter_run L log)))"
proof -
  have L: "fl_hits L = []" "0 < fl_limit L" "fl_windowMs L = 600000"
    using assms(1) by (auto simp: registerLimiter_def loginLimiter_def submitLimiter_def onrampLimiter_def new_limiter_def)
  then show ?thesis
    using attempt_answer[OF L(1,2) assms(2), of k] limiter_bounds[OF L(1,2) _ assms(2), of k] by simp
qed

theorem limiter_exact_witness:
  "fst (exceeded ''a'' 700000 (limiter_run submitLimiter (map (\<lambda>t. (''a'', t)) [699999, 5, 4, 3, 2, 1, 0]))) = False"
proof -
  let ?log = "map (\<lambda>t. (''a'', t)) [699999, 5, 4, 3, 2, 1, 0 :: int]"
  have "in_last 600000 700000 (attempts_of ''a'' ?log) < fl_limit submitLimiter" by (simp add: in_last_def submitLimiter_def new_limiter_def)
  moreover have "submitLimiter \<in> {registerLimiter, loginLimiter, submitLimiter, onrampLimiter}" "times_forward ?log 700000" by simp_all
  ultimately show ?thesis using limiter_exact[of submitLimiter ?log 700000 "''a''"] by blast
qed

text \<open>
  What a page may disclose: a disclosure is accepted exactly when it is left out, or names only
  disclosable claims and among them one the chain has a bit for; it is then the names in the order they
  first came, none twice.
\<close>

theorem disclosure_exact:
  "parseDisclosure raw = Inr names \<longleftrightarrow> raw = JUndefined \<and> names = [Over18, NotSanctioned]
     \<or> (\<exists>ns. raw = JArray (map (\<lambda>n. JString (claim_str n)) ns) \<and> set ns \<subseteq> set DISCLOSABLE_CLAIM_NAMES \<and> set ns \<inter> set CHAIN_BACKED_CLAIMS \<noteq> {}
          \<and> names = fold add_name ns [] \<and> set names = set ns \<and> distinct names)"
proof (cases raw)
  case (JArray entries)
  have chain: "list_ex (\<lambda>n. n \<in> set CHAIN_BACKED_CLAIMS) xs \<longleftrightarrow> set xs \<inter> set CHAIN_BACKED_CLAIMS \<noteq> {}" for xs by (auto simp: list_ex_iff)
  have "parseDisclosure raw = Inr names \<longleftrightarrow> disclosed_names entries [] = Inr names \<and> set names \<inter> set CHAIN_BACKED_CLAIMS \<noteq> {}"
    unfolding JArray parseDisclosure_def chain by (auto simp: res_simps)
  then have e: "parseDisclosure raw = Inr names \<longleftrightarrow> (\<exists>ns. set ns \<subseteq> set DISCLOSABLE_CLAIM_NAMES \<and> entries = map (\<lambda>n. JString (claim_str n)) ns \<and> names = fold add_name ns [])
      \<and> set names \<inter> set CHAIN_BACKED_CLAIMS \<noteq> {}" by (simp only: disclosed_names_Inr)
  have f: "names = fold add_name ns [] \<Longrightarrow> set names = set ns \<and> distinct names" for ns using fold_add_name[of ns "[]"] by simp
  show ?thesis unfolding e unfolding JArray using f by (simp only: jsval.simps) blast
qed (auto simp: parseDisclosure_def DEFAULT_DISCLOSURE_def)

end
