(* ===== verification/Portal.thy ===== *)
theory Portal
imports PortalRequest
begin

text \<open>
  The routes of the portal's API and the runs they start (\<open>scripts/onboard/portal-api.ts\<close>). A request is
  handled in one step up to the reading of its body and in another after it, so what others do in between
  is between the two; a run is handled in the steps between its awaits. What the wallet deployment, the
  pipeline, the purchase, the reads of the chain and the timers come back with is part of the events.
  The clock is that of the wiring in \<open>scripts/demo-web.ts\<close>: seconds are the whole seconds of \<open>Date.now()\<close>.
\<close>

section \<open>State\<close>

record OnboardingResult =
  ob_ok :: bool
  ob_subject :: string
  ob_txHash :: "string option"
  ob_claimBitmap :: "jsnum option"
  ob_revocationIndex :: "jsnum option"

record OnrampResult =
  om_fundingAccount :: string
  om_tryAmount :: string
  om_usdcAmount :: string
  om_quoteId :: string
  om_depositId :: string
  om_stellarTxHash :: string
  om_usdcBalance :: string

record wallet_result =
  wr_address :: string
  wr_keyId :: string
  wr_deployTxHash :: string

record PortalApiDeps =
  pd_scrypt :: scrypt
  pd_sha :: "bytes \<Rightarrow> bytes"
  pd_gateContractId :: string
  pd_chain :: jsval
  pd_secureCookies :: bool
  pd_maxActiveRuns :: "nat option"
  pd_chainEnabled :: bool

text \<open>The clock and what is drawn or read while one step runs.\<close>

record moment =
  mo_ms :: int
  mo_id :: string
  mo_salt :: bytes
  mo_token :: bytes
  mo_runId :: string
  mo_connection :: string
  mo_view :: "jsval option"
  mo_onramp :: "(string option \<times> string option) option"

definition seconds :: "moment \<Rightarrow> int" where
  "seconds m = mo_ms m div 1000"

record portal_request =
  pq_method :: "string option"
  pq_pathname :: string
  pq_runId :: "string option"
  pq_headers :: headers
  pq_remote :: "string option"
  pq_body :: "body_event list"

text \<open>A handler that waits for its body, with the account it has read.\<close>

datatype waiting = AtRegister | AtLogin | AtSubmit AccountRecord | AtOnramp AccountRecord

text \<open>A runner: it waits for the wallet, waits for the pipeline on a wallet, or has settled.\<close>

datatype runner_phase = Deploying | Piping string | Settled

record kyc_task =
  kt_account :: string
  kt_userName :: string
  kt_green :: bool
  kt_applicant :: Applicant
  kt_disclose :: "claim_name list"
  kt_phase :: runner_phase

record purchase =
  pu_account :: string
  pu_wallet :: string
  pu_tryAmount :: jsnum
  pu_open :: bool

type_synonym 'r registry = "(jsval, 'r, string) InMemoryRunRegistry"

record portal =
  po_accounts :: AccountStore
  po_sessions :: PortalSessionStore
  po_runs :: "OnboardingResult registry"
  po_onrampRuns :: "OnrampResult registry"
  po_register :: FixedWindowLimiter
  po_login :: FixedWindowLimiter
  po_submit :: FixedWindowLimiter
  po_onramp :: FixedWindowLimiter
  po_waiting :: "string \<rightharpoonup> portal_request \<times> waiting"
  po_tasks :: "string \<rightharpoonup> kyc_task"
  po_purchases :: "string \<rightharpoonup> purchase"

definition portal_boot :: "AccountStore \<Rightarrow> PortalSessionStore \<Rightarrow> portal" where
  "portal_boot accounts sessions = \<lparr> po_accounts = accounts, po_sessions = sessions, po_runs = new_registry None, po_onrampRuns = new_registry None,
     po_register = registerLimiter, po_login = loginLimiter, po_submit = submitLimiter, po_onramp = onrampLimiter,
     po_waiting = Map.empty, po_tasks = Map.empty, po_purchases = Map.empty \<rparr>"

section \<open>The signed-in account\<close>

fun first_account :: "PortalApiDeps \<Rightarrow> moment \<Rightarrow> string list \<Rightarrow> portal \<Rightarrow> AccountRecord option \<times> portal" where
  "first_account deps m [] s = (None, s)"
| "first_account deps m (token # tokens) s =
     (case portal_session_resolve (pd_sha deps) token (seconds m) (po_sessions s) of (found, sessions) \<Rightarrow>
       let s1 = s\<lparr>po_sessions := sessions\<rparr> in
       case Option.bind found (account_get (po_accounts s1)) of
         Some account \<Rightarrow> (Some account, s1)
       | None \<Rightarrow> first_account deps m tokens s1)"

definition cookies_of :: "portal_request \<Rightarrow> string list" where
  "cookies_of q = readCookies (readSingleHeaderValue (pq_headers q) ''cookie'') PORTAL_COOKIE_NAME"

definition requireAccount :: "PortalApiDeps \<Rightarrow> moment \<Rightarrow> portal_request \<Rightarrow> portal \<Rightarrow> (store_failure + AccountRecord) \<times> portal" where
  "requireAccount deps m q s = (case first_account deps m (cookies_of q) s of
     (None, s1) \<Rightarrow> (Inl (Refusal UnauthenticatedError), s1)
   | (Some account, s1) \<Rightarrow> (Inr account, s1))"

definition accountPayload :: "PortalApiDeps \<Rightarrow> portal \<Rightarrow> AccountRecord \<Rightarrow> jsval" where
  "accountPayload deps s account = JObject [(''account'', public_json (toPublicAccount account)), (''chainEnabled'', JBool (pd_chainEnabled deps)),
     (''activeRunId'', or_null (activeRunId (po_runs s) (ac_id account))),
     (''activeOnrampRunId'', or_null (activeRunId (po_onrampRuns s) (ac_id account)))]"

definition caller :: "portal_request \<Rightarrow> string" where
  "caller q = clientIp (pq_headers q) (pq_remote q)"

definition sign_in_answer :: "PortalApiDeps \<Rightarrow> moment \<Rightarrow> portal_request \<Rightarrow> nat \<Rightarrow> AccountRecord \<Rightarrow> portal \<Rightarrow> portal_answer \<times> portal" where
  "sign_in_answer deps m q status account s =
     (case portal_session_create (pd_sha deps) (mo_token m) (ac_id account) (seconds m) (po_sessions s) of (token, sessions) \<Rightarrow>
       let s1 = s\<lparr>po_sessions := sessions\<rparr> in
       (Reply status (Some (portalSessionCookie (secureCookies (pd_secureCookies deps) (pq_headers q)) token)) (accountPayload deps s1 account), s1))"

section \<open>Account routes\<close>

definition post_register :: "portal_request \<Rightarrow> moment \<Rightarrow> portal \<Rightarrow> (portal_answer + waiting) \<times> portal" where
  "post_register q m s = (case exceeded (caller q) (mo_ms m) (po_register s) of (over, L) \<Rightarrow>
     (if over then Inl (sendError (rate_limited ''sign-ups'')) else Inr AtRegister, s\<lparr>po_register := L\<rparr>))"

definition register_body :: "PortalApiDeps \<Rightarrow> moment \<Rightarrow> portal_request \<Rightarrow> jsval \<Rightarrow> portal \<Rightarrow> portal_answer \<times> portal" where
  "register_body deps m q body s =
     (case ebind (requireStringField body ''email'') (\<lambda>rawEmail. ebind (requireStringField body ''password'') (\<lambda>password.
        ebind (map_err Refusal (assertEmail rawEmail)) (\<lambda>email. ebind (map_err Refusal (assertPassword password)) (\<lambda>_. Inr (email, password))))) of
       Inl e \<Rightarrow> (sendError e, s)
     | Inr (email, password) \<Rightarrow>
         (case account_create (pd_scrypt deps) (mo_id m) (mo_salt m) \<lparr> su_email = email, su_password = password, su_now = JInt (seconds m) \<rparr> (po_accounts s) of
            (Inl e, accounts) \<Rightarrow> (sendError e, s\<lparr>po_accounts := accounts\<rparr>)
          | (Inr account, accounts) \<Rightarrow> sign_in_answer deps m q 201 account (s\<lparr>po_accounts := accounts\<rparr>)))"

definition post_login :: "portal_request \<Rightarrow> moment \<Rightarrow> portal \<Rightarrow> (portal_answer + waiting) \<times> portal" where
  "post_login q m s = (case exceeded (caller q) (mo_ms m) (po_login s) of (over, L) \<Rightarrow>
     (if over then Inl (sendError (rate_limited ''sign-in attempts'')) else Inr AtLogin, s\<lparr>po_login := L\<rparr>))"

definition login_body :: "PortalApiDeps \<Rightarrow> moment \<Rightarrow> portal_request \<Rightarrow> jsval \<Rightarrow> portal \<Rightarrow> portal_answer \<times> portal" where
  "login_body deps m q body s =
     (case ebind (requireStringField body ''email'') (\<lambda>email. ebind (requireStringField body ''password'') (\<lambda>password.
        map_err Refusal (authenticate (pd_scrypt deps) (po_accounts s) email password))) of
       Inl e \<Rightarrow> (sendError e, s)
     | Inr account \<Rightarrow> sign_in_answer deps m q 200 account s)"

definition post_logout :: "PortalApiDeps \<Rightarrow> portal_request \<Rightarrow> portal \<Rightarrow> portal_answer \<times> portal" where
  "post_logout deps q s = (Reply 200 (Some (clearedPortalSessionCookie (secureCookies (pd_secureCookies deps) (pq_headers q)))) (JObject [(''ok'', JBool True)]),
     s\<lparr>po_sessions := fold (portal_session_destroy (pd_sha deps)) (cookies_of q) (po_sessions s)\<rparr>)"

definition get_me :: "PortalApiDeps \<Rightarrow> AccountRecord \<Rightarrow> portal \<Rightarrow> portal_answer \<times> portal" where
  "get_me deps account s = (sendJson 200 (accountPayload deps s account), s)"

section \<open>Verification\<close>

definition no_patch :: account_patch where
  "no_patch = \<lparr> ap_walletCAddr = None, ap_walletKeyId = None, ap_walletDeployTxHash = None, ap_kyc = None, ap_fundingAccount = None, ap_onramp = None \<rparr>"

definition set_pending :: "AccountRecord \<Rightarrow> portal \<Rightarrow> (portal_error + AccountRecord) \<times> portal" where
  "set_pending account s = (case account_update (ac_id account) (no_patch\<lparr>ap_kyc := Some ((ac_kyc account)\<lparr>ak_status := KycPending\<rparr>)\<rparr>) (po_accounts s) of
     (r, accounts) \<Rightarrow> (r, s\<lparr>po_accounts := accounts\<rparr>))"

definition post_kyc_start :: "PortalApiDeps \<Rightarrow> AccountRecord \<Rightarrow> portal \<Rightarrow> portal_answer \<times> portal" where
  "post_kyc_start deps account s = (if ak_status (ac_kyc account) = KycApproved then (sendJson 200 (accountPayload deps s account), s)
     else case set_pending account s of
       (Inl e, s1) \<Rightarrow> (sendError (Refusal e), s1)
     | (Inr updated, s1) \<Rightarrow> (sendJson 200 (accountPayload deps s1 updated), s1))"

definition chain_unavailable :: store_failure where
  "chain_unavailable = refuse 503 ''chain_unavailable''
     ''the on-chain half is disabled on this server (no funded signer at boot), so a credential cannot be attested''"

definition busy :: store_failure where
  "busy = refuse 503 ''busy'' (''the demo is running its maximum number of verifications right now '' @ [CHR 0xE2, CHR 0x80, CHR 0x94] @ '' try again in a minute'')"

definition in_progress :: "string \<Rightarrow> string \<Rightarrow> portal_answer" where
  "in_progress message i = sendJson 409 (error_body ''run_in_progress'' message [(''runId'', JString i)])"

text \<open>The runner up to its first await.\<close>

definition begin_runner :: "string \<Rightarrow> portal \<Rightarrow> runner_phase" where
  "begin_runner accountId s = (case Option.bind (account_get (po_accounts s) accountId) ac_walletCAddr of None \<Rightarrow> Deploying | Some cAddr \<Rightarrow> Piping cAddr)"

definition start_kyc_run :: "moment \<Rightarrow> AccountRecord \<Rightarrow> bool \<Rightarrow> Applicant \<Rightarrow> claim_name list \<Rightarrow> portal \<Rightarrow> portal" where
  "start_kyc_run m account green applicant names s =
     s\<lparr>po_runs := run_start (mo_runId m) (ac_id account) (po_runs s),
       po_tasks := (po_tasks s)(mo_runId m \<mapsto> \<lparr> kt_account = ac_id account, kt_userName = ac_email account, kt_green = green, kt_applicant = applicant,
         kt_disclose = names, kt_phase = begin_runner (ac_id account) s \<rparr>)\<rparr>"

definition submit_body :: "PortalApiDeps \<Rightarrow> moment \<Rightarrow> portal_request \<Rightarrow> AccountRecord \<Rightarrow> jsval \<Rightarrow> portal \<Rightarrow> portal_answer \<times> portal" where
  "submit_body deps m q account body s =
     (case requireStringField body ''scenario'' of Inl e \<Rightarrow> (sendError e, s)
      | Inr scenario \<Rightarrow>
        if scenario \<noteq> ''approved'' \<and> scenario \<noteq> ''rejected''
        then (sendError (refuse 400 ''invalid_field'' (quoted ''scenario'' @ '' must be '' @ quoted ''approved'' @ '' or '' @ quoted ''rejected'')), s)
        else if \<not> pd_chainEnabled deps then (sendError chain_unavailable, s)
        else (case exceeded (caller q) (mo_ms m) (po_submit s) of (over, L) \<Rightarrow>
          let s1 = s\<lparr>po_submit := L\<rparr> in
          if over then (sendError (rate_limited ''verification runs''), s1)
          else (case activeRunId (po_runs s1) (ac_id account) of
            Some active \<Rightarrow> (in_progress ''a KYC run is already in progress'' active, s1)
          | None \<Rightarrow>
              if activeCount (po_runs s1) \<ge> (case pd_maxActiveRuns deps of None \<Rightarrow> 3 | Some n \<Rightarrow> n) then (sendError busy, s1)
              else (case ebind (parseApplicant (jget ''applicant'' body)) (\<lambda>applicant. ebind (parseDisclosure (jget ''disclose'' body)) (\<lambda>names. Inr (applicant, names))) of
                Inl e \<Rightarrow> (sendError e, s1)
              | Inr (applicant, names) \<Rightarrow>
                  (case set_pending account s1 of
                     (Inl e, s2) \<Rightarrow> (sendError (Refusal e), s2)
                   | (Inr _, s2) \<Rightarrow> (sendJson 202 (JObject [(''runId'', JString (mo_runId m))]),
                       start_kyc_run m account (scenario = ''approved'') applicant names s2))))))"

definition kyc_completion :: "moment \<Rightarrow> string \<Rightarrow> OnboardingResult RunCompletion \<Rightarrow> AccountStore \<Rightarrow> AccountStore" where
  "kyc_completion m accountId completion accounts = (case account_get accounts accountId of None \<Rightarrow> accounts
     | Some current \<Rightarrow> if rc_error completion \<noteq> None then accounts
       else (case rc_result completion of None \<Rightarrow> accounts
       | Some result \<Rightarrow>
         if rc_late completion \<and> ak_status (ac_kyc current) = KycApproved then accounts
         else let verified = (ob_txHash result \<noteq> None) in
           snd (account_update accountId (no_patch\<lparr>ap_kyc := Some \<lparr>
             ak_status = (if verified then KycApproved else KycRejected), ak_sessionId = None,
             ak_claimBitmap = ob_claimBitmap result, ak_revocationIndex = ob_revocationIndex result,
             ak_txHash = ob_txHash result, ak_verifiedAt = (if verified then Some (JInt (seconds m)) else None) \<rparr>\<rparr>) accounts)))"

text \<open>What a registry did to a run, and the callbacks it made, in their order.\<close>

definition kyc_moved :: "moment \<Rightarrow> string \<Rightarrow> OnboardingResult registry \<Rightarrow> portal \<Rightarrow> portal" where
  "kyc_moved m accountId g s = s\<lparr>po_runs := g,
     po_accounts := fold (\<lambda>(i, c). kyc_completion m accountId c) (drop (length (rg_completions (po_runs s))) (rg_completions g)) (po_accounts s)\<rparr>"

definition settle_kyc :: "moment \<Rightarrow> string \<Rightarrow> kyc_task \<Rightarrow> string + OnboardingResult \<Rightarrow> portal \<Rightarrow> portal" where
  "settle_kyc m i task outcome s =
     (kyc_moved m (kt_account task) (run_settle i outcome (po_runs s)) s)\<lparr>po_tasks := (po_tasks s)(i \<mapsto> task\<lparr>kt_phase := Settled\<rparr>)\<rparr>"

definition abandoned :: string where
  "abandoned = ''run abandoned before the pipeline started (timeout); nothing was written''"

text \<open>The runner when its wallet is deployed.\<close>

definition wallet_deployed :: "moment \<Rightarrow> string \<Rightarrow> kyc_task \<Rightarrow> wallet_result \<Rightarrow> portal \<Rightarrow> portal" where
  "wallet_deployed m i task wallet s =
     (case (case Option.bind (account_get (po_accounts s) (kt_account task)) ac_walletCAddr of
        Some fresh \<Rightarrow> (Inr fresh, s)
      | None \<Rightarrow> (case account_update (kt_account task) (no_patch\<lparr>ap_walletCAddr := Some (wr_address wallet), ap_walletKeyId := Some (wr_keyId wallet),
             ap_walletDeployTxHash := Some (wr_deployTxHash wallet)\<rparr>) (po_accounts s) of
          (Inl e, accounts) \<Rightarrow> (Inl (pe_message e), s\<lparr>po_accounts := accounts\<rparr>)
        | (Inr _, accounts) \<Rightarrow> (Inr (wr_address wallet), s\<lparr>po_accounts := accounts\<rparr>))) of
       (Inl message, s1) \<Rightarrow> settle_kyc m i task (Inl message) s1
     | (Inr cAddr, s1) \<Rightarrow> if i \<in> set (rg_completed (po_runs s1)) then settle_kyc m i task (Inl abandoned) s1
         else s1\<lparr>po_tasks := (po_tasks s1)(i \<mapsto> task\<lparr>kt_phase := Piping cAddr\<rparr>)\<rparr>)"

section \<open>Purchases\<close>

definition ONRAMP_MIN_TRY :: int where "ONRAMP_MIN_TRY = 50"
definition ONRAMP_MAX_TRY :: int where "ONRAMP_MAX_TRY = 5000"

definition onramp_body :: "PortalApiDeps \<Rightarrow> moment \<Rightarrow> AccountRecord \<Rightarrow> jsval \<Rightarrow> portal \<Rightarrow> portal_answer \<times> portal" where
  "onramp_body deps m account body s = (let tryAmount = js_to_number (jget ''tryAmount'' body) in
     if \<not> js_isFinite tryAmount \<or> js_less tryAmount ONRAMP_MIN_TRY \<or> js_greater tryAmount ONRAMP_MAX_TRY
     then (sendError (refuse 400 ''invalid_field'' (quoted ''tryAmount'' @ '' must be between '' @ dec 50 @ '' and '' @ dec 5000)), s)
     else if \<not> pd_chainEnabled deps then (sendError (refuse 503 ''chain_unavailable'' ''the on-chain half is disabled on this server''), s)
     else case ac_walletCAddr account of
       None \<Rightarrow> (sendError (refuse 409 ''not_verified'' ''complete identity verification first''), s)
     | Some wallet \<Rightarrow>
       if ak_status (ac_kyc account) \<noteq> KycApproved then (sendError (refuse 409 ''not_verified'' ''complete identity verification first''), s)
       else case activeRunId (po_onrampRuns s) (ac_id account) of
         Some active \<Rightarrow> (in_progress ''a purchase is already in progress'' active, s)
       | None \<Rightarrow> (sendJson 202 (JObject [(''runId'', JString (mo_runId m))]),
           s\<lparr>po_onrampRuns := run_start (mo_runId m) (ac_id account) (po_onrampRuns s),
             po_purchases := (po_purchases s)(mo_runId m \<mapsto> \<lparr> pu_account = ac_id account, pu_wallet = wallet, pu_tryAmount = tryAmount, pu_open = True \<rparr>)\<rparr>))"

definition onramp_completion :: "moment \<Rightarrow> string \<Rightarrow> OnrampResult RunCompletion \<Rightarrow> AccountStore \<Rightarrow> AccountStore" where
  "onramp_completion m accountId completion accounts = (case rc_result completion of None \<Rightarrow> accounts
     | Some r \<Rightarrow> snd (account_update accountId (no_patch\<lparr>ap_fundingAccount := Some (om_fundingAccount r),
         ap_onramp := (if om_stellarTxHash r = [] then None else Some \<lparr> or_tryAmount = om_tryAmount r, or_usdcAmount = om_usdcAmount r,
            or_stellarTxHash = om_stellarTxHash r, or_at = JInt (seconds m) \<rparr>)\<rparr>) accounts))"

definition onramp_moved :: "moment \<Rightarrow> string \<Rightarrow> OnrampResult registry \<Rightarrow> portal \<Rightarrow> portal" where
  "onramp_moved m accountId g s = s\<lparr>po_onrampRuns := g,
     po_accounts := fold (\<lambda>(i, c). onramp_completion m accountId c) (drop (length (rg_completions (po_onrampRuns s))) (rg_completions g)) (po_accounts s)\<rparr>"

definition onramp_state :: "PortalApiDeps \<Rightarrow> moment \<Rightarrow> AccountRecord \<Rightarrow> portal_answer" where
  "onramp_state deps m account = (case mo_onramp m of None \<Rightarrow> sendError Crash
     | Some (funding, balance) \<Rightarrow> sendJson 200 (JObject [
         (''allowed'', JBool (pd_chainEnabled deps \<and> ac_walletCAddr account \<noteq> None \<and> ak_status (ac_kyc account) = KycApproved)),
         (''fundingAccount'', or_null funding), (''usdcBalance'', or_null balance), (''last'', onramp_json (ac_onramp account)),
         (''min'', JNum (JInt ONRAMP_MIN_TRY)), (''max'', JNum (JInt ONRAMP_MAX_TRY))]))"

definition kyc_record :: "PortalApiDeps \<Rightarrow> moment \<Rightarrow> AccountRecord \<Rightarrow> portal_answer" where
  "kyc_record deps m account = (if \<not> pd_chainEnabled deps \<or> ac_walletCAddr account = None
     then sendJson 200 (JObject [(''view'', JNull), (''chainEnabled'', JBool (pd_chainEnabled deps))])
     else case mo_view m of None \<Rightarrow> sendError Crash
     | Some view \<Rightarrow> sendJson 200 (JObject [(''view'', view), (''chainEnabled'', JBool True), (''gateContractId'', JString (pd_gateContractId deps)),
         (''chain'', pd_chain deps)]))"

section \<open>Streams\<close>

text \<open>
  The owner is checked before anything is written. A stream of a finished run is given its frames and
  ends; one that ends with its terminal frame takes itself off a list nothing is sent to any more,
  which is left out.
\<close>

definition streamRun :: "run_kind \<Rightarrow> 'r registry \<Rightarrow> string option \<Rightarrow> AccountRecord \<Rightarrow> string \<Rightarrow> portal_answer \<times> 'r registry" where
  "streamRun kind g runId account connection = (case runId of
     None \<Rightarrow> (sendError (refuse 400 ''missing_field'' (''missing '' @ quoted ''runId'')), g)
   | Some i \<Rightarrow> if i = [] then (sendError (refuse 400 ''missing_field'' (''missing '' @ quoted ''runId'')), g)
     else case run_describe g i of
       None \<Rightarrow> (sendError (refuse 404 ''not_found'' ''no such run''), g)
     | Some (owner, finished) \<Rightarrow> if owner \<noteq> ac_id account then (sendError (refuse 404 ''not_found'' ''no such run''), g)
         else (EventStream kind i connection, snd (run_subscribe i (ac_id account) connection g)))"

section \<open>The route table\<close>

definition strip_slashes :: "string \<Rightarrow> string" where
  "strip_slashes p = (let t = rev (dropWhile (\<lambda>c. c = CHR ''/'') (rev p)) in if t = [] then ''/'' else t)"

definition route_key :: "portal_request \<Rightarrow> string" where
  "route_key q = js_upper (case pq_method q of None \<Rightarrow> ''GET'' | Some method \<Rightarrow> method) @ '' '' @ strip_slashes (pq_pathname q)"

definition with_account :: "PortalApiDeps \<Rightarrow> moment \<Rightarrow> portal_request \<Rightarrow> (AccountRecord \<Rightarrow> portal \<Rightarrow> (portal_answer + waiting) \<times> portal)
     \<Rightarrow> portal \<Rightarrow> (portal_answer + waiting) \<times> portal" where
  "with_account deps m q f s = (case requireAccount deps m q s of (Inl e, s1) \<Rightarrow> (Inl (sendError e), s1) | (Inr account, s1) \<Rightarrow> f account s1)"

definition answered :: "portal_answer \<times> portal \<Rightarrow> (portal_answer + waiting) \<times> portal" where
  "answered r = (Inl (fst r), snd r)"

definition handlePortalApi :: "PortalApiDeps \<Rightarrow> moment \<Rightarrow> portal_request \<Rightarrow> portal \<Rightarrow> (portal_answer + waiting) \<times> portal" where
  "handlePortalApi deps m q s = (let key = route_key q in
     if key = ''POST /api/register'' then post_register q m s
     else if key = ''POST /api/login'' then post_login q m s
     else if key = ''POST /api/logout'' then answered (post_logout deps q s)
     else if key = ''GET /api/me'' then with_account deps m q (\<lambda>a s1. answered (get_me deps a s1)) s
     else if key = ''POST /api/kyc/start'' then with_account deps m q (\<lambda>a s1. answered (post_kyc_start deps a s1)) s
     else if key = ''POST /api/kyc/submit'' then with_account deps m q (\<lambda>a s1. (Inr (AtSubmit a), s1)) s
     else if key = ''GET /api/kyc/stream'' then with_account deps m q (\<lambda>a s1.
        (case streamRun KycRuns (po_runs s1) (pq_runId q) a (mo_connection m) of (r, g) \<Rightarrow> (Inl r, s1\<lparr>po_runs := g\<rparr>))) s
     else if key = ''POST /api/onramp/start'' then with_account deps m q (\<lambda>a s1.
        (case exceeded (caller q) (mo_ms m) (po_onramp s1) of (over, L) \<Rightarrow>
           (if over then Inl (sendError (rate_limited ''purchases'')) else Inr (AtOnramp a), s1\<lparr>po_onramp := L\<rparr>))) s
     else if key = ''GET /api/onramp/stream'' then with_account deps m q (\<lambda>a s1.
        (case streamRun OnrampRuns (po_onrampRuns s1) (pq_runId q) a (mo_connection m) of (r, g) \<Rightarrow> (Inl r, s1\<lparr>po_onrampRuns := g\<rparr>))) s
     else if key = ''GET /api/onramp/state'' then with_account deps m q (\<lambda>a s1. (Inl (onramp_state deps m a), s1)) s
     else if key = ''GET /api/kyc/record'' then with_account deps m q (\<lambda>a s1. (Inl (kyc_record deps m a), s1)) s
     else (Inl (sendJson 404 (error_body ''not_found'' ''no such API route'' [])), s))"

text \<open>A handler when its body is there, or cannot be read.\<close>

definition body_read :: "PortalApiDeps \<Rightarrow> moment \<Rightarrow> portal_request \<Rightarrow> waiting \<Rightarrow> portal \<Rightarrow> portal_answer \<times> portal" where
  "body_read deps m q w s = (case readJsonBody (pq_headers q) (pq_body q) of None \<Rightarrow> (Unanswered, s)
     | Some (Inl e) \<Rightarrow> (sendError e, s)
     | Some (Inr body) \<Rightarrow> (case w of
         AtRegister \<Rightarrow> register_body deps m q body s
       | AtLogin \<Rightarrow> login_body deps m q body s
       | AtSubmit account \<Rightarrow> submit_body deps m q account body s
       | AtOnramp account \<Rightarrow> onramp_body deps m account body s))"

section \<open>Steps\<close>

datatype portal_event = Arrive moment portal_request | BodyRead moment string | RunnerStep run_kind string jsval
  | WalletDeployed moment string wallet_result | WalletFailed moment string string
  | PipelineEnded moment string "string + OnboardingResult" | PurchaseEnded moment string "string + OnrampResult"
  | RunTimedOut moment run_kind string | RunEvicted run_kind string

fun portal_step :: "PortalApiDeps \<Rightarrow> portal_event \<Rightarrow> portal \<Rightarrow> portal" where
  "portal_step deps (Arrive m q) s = (case handlePortalApi deps m q s of
     (Inl answer, s1) \<Rightarrow> s1 | (Inr w, s1) \<Rightarrow> s1\<lparr>po_waiting := (po_waiting s1)(mo_connection m \<mapsto> (q, w))\<rparr>)"
| "portal_step deps (BodyRead m c) s = (case po_waiting s c of None \<Rightarrow> s
     | Some (q, w) \<Rightarrow> snd (body_read deps m q w (s\<lparr>po_waiting := (po_waiting s)(c := None)\<rparr>)))"
| "portal_step deps (RunnerStep KycRuns i x) s = s\<lparr>po_runs := run_emit i x (po_runs s)\<rparr>"
| "portal_step deps (RunnerStep OnrampRuns i x) s = s\<lparr>po_onrampRuns := run_emit i x (po_onrampRuns s)\<rparr>"
| "portal_step deps (WalletDeployed m i w) s = (case po_tasks s i of None \<Rightarrow> s | Some task \<Rightarrow> wallet_deployed m i task w s)"
| "portal_step deps (WalletFailed m i message) s = (case po_tasks s i of None \<Rightarrow> s | Some task \<Rightarrow> settle_kyc m i task (Inl message) s)"
| "portal_step deps (PipelineEnded m i outcome) s = (case po_tasks s i of None \<Rightarrow> s | Some task \<Rightarrow> settle_kyc m i task outcome s)"
| "portal_step deps (PurchaseEnded m i outcome) s = (case po_purchases s i of None \<Rightarrow> s
     | Some p \<Rightarrow> (onramp_moved m (pu_account p) (run_settle i outcome (po_onrampRuns s)) s)\<lparr>po_purchases := (po_purchases s)(i \<mapsto> p\<lparr>pu_open := False\<rparr>)\<rparr>)"
| "portal_step deps (RunTimedOut m KycRuns i) s = (case po_tasks s i of None \<Rightarrow> s | Some task \<Rightarrow> kyc_moved m (kt_account task) (run_timeout i (po_runs s)) s)"
| "portal_step deps (RunTimedOut m OnrampRuns i) s = (case po_purchases s i of None \<Rightarrow> s | Some p \<Rightarrow> onramp_moved m (pu_account p) (run_timeout i (po_onrampRuns s)) s)"
| "portal_step deps (RunEvicted KycRuns i) s = s\<lparr>po_runs := run_evict i (po_runs s)\<rparr>"
| "portal_step deps (RunEvicted OnrampRuns i) s = s\<lparr>po_onrampRuns := run_evict i (po_onrampRuns s)\<rparr>"

end
