(* ===== verification/RunLedger.thy ===== *)
theory RunLedger
imports KycRun
begin

text \<open>
  What the portal needs of the registry of runs, for a registry it alone drives: which runs it started and
  for whom, which of their runners have settled, and which connections follow which run. Shared by
  the registry of verifications and that of purchases.
\<close>

section \<open>Open runs\<close>

definition open_runs :: "(string \<Rightarrow> bool) \<Rightarrow> ('s, 'r, 'l) InMemoryRunRegistry \<Rightarrow> nat" where
  "open_runs P g = length (filter ((\<lambda>st. P (rn_accountId st) \<and> \<not> rn_done st) \<circ> snd) (rg_runs g))"

lemma activeCount_open: "activeCount g = open_runs (\<lambda>_. True) g"
  by (simp add: activeCount_def open_runs_def filter_map)

lemma no_active_run: "activeRunId g a = None \<Longrightarrow> open_runs (\<lambda>x. x = a) g = 0"
  by (auto simp: activeRunId_def open_runs_def find_None_iff filter_empty_conv)

lemma count_update:
  "map_get m k = Some old \<Longrightarrow> (Q v \<Longrightarrow> Q old) \<Longrightarrow> length (filter (Q \<circ> snd) (map_set k v m)) \<le> length (filter (Q \<circ> snd) m)"
  unfolding map_set_def map_get_def by (induction m) (auto split: if_splits)

lemma count_delete: "length (filter (Q \<circ> snd) (map_delete k m)) \<le> length (filter (Q \<circ> snd) m)"
  unfolding map_delete_def by (induction m) auto

lemma publish_open: "open_runs P (publish i ev g) \<le> open_runs P g"
  by (auto simp: publish_def open_runs_def split: option.split intro!: count_update)

lemma finish_open: "open_runs P (run_finish i ev c g) \<le> open_runs P g"
  using publish_open[of P i ev "g\<lparr>rg_completed := i # rg_completed g\<rparr>"]
  by (auto simp: run_finish_def Let_def open_runs_def split: run_event.split)

lemma step_open:
  assumes "\<And>i a. act \<noteq> Start i a"
  shows "open_runs P (run_step act g) \<le> open_runs P g"
proof (cases act)
  case (Emit i x)
  then show ?thesis using publish_open[of P i "StepFrame x" g] by (simp add: run_emit_def)
next
  case (Settle i r)
  then show ?thesis by (simp add: settle_finish finish_open)
next
  case (Timeout i)
  then show ?thesis by (simp add: timeout_finish finish_open)
next
  case (Evict i)
  then show ?thesis by (simp add: run_evict_def open_runs_def count_delete)
next
  case (Subscribe i a l)
  then show ?thesis by (auto simp: run_subscribe_def open_runs_def Let_def split: option.split intro!: count_update)
next
  case (Unsubscribe i l)
  then show ?thesis by (auto simp: run_unsubscribe_def open_runs_def split: option.split intro!: count_update)
qed (use assms in blast)

lemma start_open: "map_get (rg_runs g) i = None \<Longrightarrow> open_runs P (run_start i a g) = open_runs P g + (if P a then 1 else 0)"
  using map_set_fresh[of i "rg_runs g"] by (simp add: run_start_def open_runs_def map_get_def map_of_eq_None_iff)

section \<open>The ledger\<close>

text \<open>\<open>T\<close>: the account of a run and whether its runner still runs; \<open>C\<close>: the connections seen; \<open>S\<close>: the streams opened.\<close>

definition ledger :: "(string \<rightharpoonup> string \<times> bool) \<Rightarrow> 'l set \<Rightarrow> (string \<times> 'l) set \<Rightarrow> ('s, 'r, 'l) run_action list \<Rightarrow> bool" where
  "ledger T C S log = ((\<forall>act\<in>set log. action_id act \<in> dom T)
     \<and> (\<forall>i l. Unsubscribe i l \<notin> set log) \<and> (\<forall>i a l. Subscribe i a l \<in> set log \<longrightarrow> l \<in> C)
     \<and> (\<forall>i a b. T i = Some (a, b) \<longrightarrow> Start i a \<in> set log) \<and> (\<forall>i a. T i = Some (a, True) \<longrightarrow> (\<forall>r. Settle i r \<notin> set log))
     \<and> (\<forall>(i, l)\<in>S. \<exists>a. Subscribe i a l \<in> set log \<and> Start i a \<in> set log))"

definition registry_ok :: "(string \<rightharpoonup> string \<times> bool) \<Rightarrow> 'l set \<Rightarrow> (string \<times> 'l) set \<Rightarrow> ('s, 'r, 'l) InMemoryRunRegistry \<Rightarrow> bool" where
  "registry_ok T C S g = (\<exists>log. registry_run None log g \<and> ledger T C S log)"

lemma ledgerD:
  assumes "ledger T C S log"
  shows "act \<in> set log \<Longrightarrow> action_id act \<in> dom T" "Unsubscribe i l \<notin> set log" "Subscribe i a l \<in> set log \<Longrightarrow> l \<in> C"
    "T i = Some (a, b) \<Longrightarrow> Start i a \<in> set log" "T i = Some (a, True) \<Longrightarrow> Settle i r \<notin> set log"
    "(i, l) \<in> S \<Longrightarrow> \<exists>a. Subscribe i a l \<in> set log \<and> Start i a \<in> set log"
  using assms unfolding ledger_def by blast+

lemma ledgerI:
  assumes "\<And>act. act \<in> set log \<Longrightarrow> action_id act \<in> dom T" "\<And>i l. Unsubscribe i l \<notin> set log" "\<And>i a l. Subscribe i a l \<in> set log \<Longrightarrow> l \<in> C"
    "\<And>i a b. T i = Some (a, b) \<Longrightarrow> Start i a \<in> set log" "\<And>i a r. T i = Some (a, True) \<Longrightarrow> Settle i r \<notin> set log"
    "\<And>i l. (i, l) \<in> S \<Longrightarrow> \<exists>a. Subscribe i a l \<in> set log \<and> Start i a \<in> set log"
  shows "ledger T C S log"
  using assms unfolding ledger_def by blast

lemma registry_ok_step:
  assumes "registry_ok T C S g" "\<And>log. registry_run None log g \<Longrightarrow> ledger T C S log \<Longrightarrow> run_allowed log act g \<and> ledger T' C' S' (act # log)"
  shows "registry_ok T' C' S' (run_step act g)"
proof -
  obtain log where "registry_run None log g" "ledger T C S log" using assms(1) by (auto simp: registry_ok_def)
  then have "registry_run None (act # log) (run_step act g)" "ledger T' C' S' (act # log)" using assms(2)[of log] registry_run.act by blast+
  then show ?thesis unfolding registry_ok_def by blast
qed

lemma registry_ok_new: "registry_ok Map.empty C {} (new_registry None)"
  unfolding registry_ok_def by (intro exI[of _ "[]"] conjI registry_run.fresh) (simp add: ledger_def)

lemma registry_ok_connection: "registry_ok T C S g \<Longrightarrow> C \<subseteq> C' \<Longrightarrow> registry_ok T C' S g"
proof -
  assume "registry_ok T C S g" and c: "C \<subseteq> C'"
  then obtain log where "registry_run None log g" and L: "ledger T C S log" by (auto simp: registry_ok_def)
  moreover have "ledger T C' S log" by (rule ledgerI) (use ledgerD[OF L] c in \<open>blast+\<close>)
  ultimately show ?thesis unfolding registry_ok_def by blast
qed

lemma registry_ok_start:
  assumes "registry_ok T C S g" "T i = None"
  shows "registry_ok (T(i \<mapsto> (a, True))) C S (run_start i a g)"
proof -
  have "registry_ok (T(i \<mapsto> (a, True))) C S (run_step (Start i a) g)"
  proof (rule registry_ok_step[OF assms(1)])
    fix log
    assume "registry_run None log g" and L: "ledger T C S log"
    note D = ledgerD[OF L]
    have "act \<in> set log \<Longrightarrow> action_id act \<noteq> i" for act using D(1) assms(2) by blast
    moreover have "ledger (T(i \<mapsto> (a, True))) C S (Start i a # log)"
    proof (rule ledgerI)
      fix k b r assume "(T(i \<mapsto> (a, True))) k = Some (b, True)"
      then show "Settle k r \<notin> set (Start i a # log)" using D(5)[of k b r] D(1)[of "Settle i r"] assms(2) by (auto split: if_splits)
    next
      fix k l assume "(k, l) \<in> S"
      then show "\<exists>b. Subscribe k b l \<in> set (Start i a # log) \<and> Start k b \<in> set (Start i a # log)" using D(6) by fastforce
    qed (use D in \<open>auto split: if_splits\<close>)
    ultimately show "run_allowed log (Start i a) g \<and> ledger (T(i \<mapsto> (a, True))) C S (Start i a # log)" by simp
  qed
  then show ?thesis by simp
qed

lemma registry_ok_emit:
  assumes "registry_ok T C S g" "T i = Some (a, b)"
  shows "registry_ok T C S (run_emit i x g)"
proof -
  have "registry_ok T C S (run_step (Emit i x) g)"
  proof (rule registry_ok_step[OF assms(1)])
    fix log assume "registry_run None log g" and L: "ledger T C S log"
    have "Start i a \<in> set log" using ledgerD(4)[OF L assms(2)] .
    then have "\<exists>a'. Start i a' \<in> set log" by blast
    then show "run_allowed log (Emit i x) g \<and> ledger T C S (Emit i x # log)" using L assms(2) by (auto simp: ledger_def)
  qed
  then show ?thesis by simp
qed

lemma registry_ok_timeout:
  assumes "registry_ok T C S g" "T i = Some (a, b)"
  shows "registry_ok T C S (run_timeout i g)"
proof -
  have "registry_ok T C S (run_step (Timeout i) g)"
  proof (rule registry_ok_step[OF assms(1)])
    fix log assume "registry_run None log g" and L: "ledger T C S log"
    have "Start i a \<in> set log" using ledgerD(4)[OF L assms(2)] .
    then have "\<exists>a'. Start i a' \<in> set log" by blast
    then show "run_allowed log (Timeout i) g \<and> ledger T C S (Timeout i # log)" using L assms(2) by (auto simp: ledger_def)
  qed
  then show ?thesis by simp
qed

lemma registry_ok_settle:
  assumes "registry_ok T C S g" "T i = Some (a, True)"
  shows "registry_ok (T(i \<mapsto> (a, False))) C S (run_settle i r g)"
proof -
  have "registry_ok (T(i \<mapsto> (a, False))) C S (run_step (Settle i r) g)"
  proof (rule registry_ok_step[OF assms(1)])
    fix log assume "registry_run None log g" and L: "ledger T C S log"
    note D = ledgerD[OF L]
    have "Start i a \<in> set log" "\<forall>r'. Settle i r' \<notin> set log" using D(4,5)[of i a] assms(2) by auto
    moreover have "ledger (T(i \<mapsto> (a, False))) C S (Settle i r # log)"
    proof (rule ledgerI)
      fix k l assume "(k, l) \<in> S"
      then show "\<exists>b. Subscribe k b l \<in> set (Settle i r # log) \<and> Start k b \<in> set (Settle i r # log)" using D(6) by fastforce
    qed (use D assms(2) in \<open>auto split: if_splits\<close>)
    ultimately show "run_allowed log (Settle i r) g \<and> ledger (T(i \<mapsto> (a, False))) C S (Settle i r # log)" by auto
  qed
  then show ?thesis by simp
qed

lemma completed_started: "registry_run t log g \<Longrightarrow> i \<in> set (rg_completed g) \<Longrightarrow> \<exists>a. Start i a \<in> set log"
  using runs_okD(4)[OF registry_runs_ok] by (auto simp: starts_def)

lemma registry_ok_evict:
  assumes "registry_ok T C S g" "i \<in> set (rg_completed g)"
  shows "registry_ok T C S (run_evict i g)"
proof -
  have "registry_ok T C S (run_step (Evict i) g)"
  proof (rule registry_ok_step[OF assms(1)])
    fix log
    assume R: "registry_run None log g" and L: "ledger T C S log"
    obtain a where "Start i a \<in> set log" using completed_started[OF R assms(2)] by blast
    then have "i \<in> dom T" using ledgerD(1)[OF L, of "Start i a"] by simp
    then show "run_allowed log (Evict i) g \<and> ledger T C S (Evict i # log)" using assms(2) L by (simp add: ledger_def)
  qed
  then show ?thesis by simp
qed

lemma described_started:
  assumes "registry_run t log g" "run_describe g i = Some (a, d)"
  shows "Start i a \<in> set log"
  using runs_okD(2)[OF registry_runs_ok[OF assms(1)]] assms(2) by (auto simp: run_describe_def starts_def)

lemma registry_ok_subscribe:
  assumes "registry_ok T C S g" "l \<notin> C" "run_describe g i = Some (a, d)"
  shows "registry_ok T (insert l C) (insert (i, l) S) (snd (run_subscribe i a l g))"
proof -
  have "registry_ok T (insert l C) (insert (i, l) S) (run_step (Subscribe i a l) g)"
  proof (rule registry_ok_step[OF assms(1)])
    fix log
    assume R: "registry_run None log g" and L: "ledger T C S log"
    have st: "Start i a \<in> set log" using described_started[OF R assms(3)] .
    then have "i \<in> dom T" using ledgerD(1)[OF L, of "Start i a"] by simp
    moreover have "\<forall>i' a'. Subscribe i' a' l \<notin> set log" using ledgerD(3)[OF L] assms(2) by blast
    ultimately show "run_allowed log (Subscribe i a l) g \<and> ledger T (insert l C) (insert (i, l) S) (Subscribe i a l # log)"
      using L st unfolding ledger_def by auto
  qed
  then show ?thesis by simp
qed

text \<open>A stream has received exactly the frames of its run.\<close>

lemma stream_frames:
  assumes "registry_ok T C S g" "(i, l) \<in> S" "map_get (rg_runs g) i = Some st"
  shows "rg_received g l = rn_events st \<and> frames_ok (rn_done st) (rn_events st)"
proof -
  obtain log where R: "registry_run None log g" and L: "ledger T C S log" using assms(1) by (auto simp: registry_ok_def)
  obtain a where a: "Subscribe i a l \<in> set log" "Start i a \<in> set log" using ledgerD(6)[OF L assms(2)] by blast
  note D = runs_okD[OF registry_runs_ok[OF R]]
  have "(i, rn_accountId st) \<in> starts log" "(i, a) \<in> starts log" using D(2)[OF assms(3)] a(2) by (auto simp: starts_def)
  then have "a = rn_accountId st" using D(5) by blast
  then show ?thesis using frames_in_order[OF R assms(3)] a ledgerD(2)[OF L] by blast
qed

lemma run_of_account:
  assumes "registry_ok T C S g" "map_get (rg_runs g) i = Some st"
  shows "\<exists>b. T i = Some (rn_accountId st, b)"
proof -
  obtain log where R: "registry_run None log g" and L: "ledger T C S log" using assms(1) by (auto simp: registry_ok_def)
  note D = runs_okD[OF registry_runs_ok[OF R]]
  have s: "(i, rn_accountId st) \<in> starts log" using D(2)[OF assms(2)] by blast
  then have "i \<in> dom T" using ledgerD(1)[OF L, of "Start i (rn_accountId st)"] by (simp add: starts_def)
  then obtain a b where t: "T i = Some (a, b)" by auto
  then have "(i, a) \<in> starts log" using ledgerD(4)[OF L] by (simp add: starts_def)
  then show ?thesis using D(5)[OF s] t by blast
qed

lemma unknown_run: "registry_ok T C S g \<Longrightarrow> T i = None \<Longrightarrow> map_get (rg_runs g) i = None"
  using run_of_account[of T C S g i] by (cases "map_get (rg_runs g) i") auto

end
