(* ===== verification/PortalFacts.thy ===== *)
theory PortalFacts
imports Portal RunLedger
begin

text \<open>
  What the routes of the portal and its runs do, and what they keep: who an answer is for, the bound on
  open runs, the wallet of an account and the ground of every verdict.
\<close>

section \<open>Accounts in the store\<close>

lemma update_get: "account_get (snd (account_update i p A)) j = (if j = i then map_option (patched p) (account_get A i) else account_get A j)"
  by (auto simp: account_update_def account_get_def accounts_persist_def Let_def js_map.get_put split: option.split)

lemma update_result: "fst (account_update i p A) = (case account_get A i of None \<Rightarrow> Inl UnauthenticatedError | Some a \<Rightarrow> Inr (patched p a))"
  by (simp add: account_update_def account_get_def Let_def split: option.split)

lemma create_get:
  assumes "account_create K fresh salt u A = (r, A')"
  shows "(\<exists>e. r = Inl e) \<and> A' = A \<or> (\<exists>a. r = Inr a \<and> ac_id a = fresh \<and> ac_walletCAddr a = None \<and> ac_kyc a = no_kyc
     \<and> (\<forall>j. account_get A' j = (if j = fresh then Some a else account_get A j)))"
  using assms by (auto simp: account_create_def account_get_def accounts_persist_def Let_def js_map.get_put split: sum.splits option.splits if_splits)

section \<open>Who a request is from\<close>

definition signed_in_as :: "PortalApiDeps \<Rightarrow> moment \<Rightarrow> portal_request \<Rightarrow> portal \<Rightarrow> AccountRecord \<Rightarrow> bool" where
  "signed_in_as deps m q s a = (\<exists>token\<in>set (cookies_of q). \<exists>i.
     fst (portal_session_resolve (pd_sha deps) token (seconds m) (po_sessions s)) = Some i \<and> account_get (po_accounts s) i = Some a)"

lemma resolve_again:
  "fst (portal_session_resolve sha t now (snd (portal_session_resolve sha u now S))) = Some a \<Longrightarrow> fst (portal_session_resolve sha t now S) = Some a"
  by (auto simp: portal_session_resolve_def sessions_persist_def js_map.get_remove split: if_splits option.splits)

lemma first_account_frame: "\<exists>x. snd (first_account deps m ts s) = s\<lparr>po_sessions := x\<rparr>"
proof (induction ts arbitrary: s)
  case Nil
  have "s = s\<lparr>po_sessions := po_sessions s\<rparr>" by simp
  then show ?case by (auto intro: exI[of _ "po_sessions s"])
next
  case (Cons t ts)
  obtain f x where x: "portal_session_resolve (pd_sha deps) t (seconds m) (po_sessions s) = (f, x)" by fastforce
  obtain y where y: "snd (first_account deps m ts (s\<lparr>po_sessions := x\<rparr>)) = s\<lparr>po_sessions := x\<rparr>\<lparr>po_sessions := y\<rparr>" using Cons.IH by blast
  show ?case using y by (cases "Option.bind f (account_get (po_accounts s))") (auto simp: x)
qed

lemma first_account_from:
  "fst (first_account deps m ts s) = Some a \<Longrightarrow> \<exists>token\<in>set ts. \<exists>i.
     fst (portal_session_resolve (pd_sha deps) token (seconds m) (po_sessions s)) = Some i \<and> account_get (po_accounts s) i = Some a"
proof (induction ts arbitrary: s)
  case (Cons t ts)
  obtain f x where x: "portal_session_resolve (pd_sha deps) t (seconds m) (po_sessions s) = (f, x)" by fastforce
  show ?case
  proof (cases "Option.bind f (account_get (po_accounts s))")
    case None
    then obtain token i where t: "token \<in> set ts" "fst (portal_session_resolve (pd_sha deps) token (seconds m) x) = Some i" "account_get (po_accounts s) i = Some a"
      using Cons.IH[of "s\<lparr>po_sessions := x\<rparr>"] Cons.prems by (auto simp: x)
    have "fst (portal_session_resolve (pd_sha deps) token (seconds m) (po_sessions s)) = Some i"
      using resolve_again[of "pd_sha deps" token "seconds m" t "po_sessions s" i] t(2) by (simp add: x)
    then show ?thesis using t by auto
  next
    case (Some b)
    then obtain i where "f = Some i" "account_get (po_accounts s) i = Some b" by (cases f) auto
    then show ?thesis using Cons.prems Some by (auto simp: x)
  qed
qed simp

lemma requireAccount_cases:
  obtains x where "requireAccount deps m q s = (Inl (Refusal UnauthenticatedError), s\<lparr>po_sessions := x\<rparr>)"
  | x a where "requireAccount deps m q s = (Inr a, s\<lparr>po_sessions := x\<rparr>)" "signed_in_as deps m q s a"
proof -
  obtain r t where rt: "first_account deps m (cookies_of q) s = (r, t)" by fastforce
  obtain x where x: "t = s\<lparr>po_sessions := x\<rparr>" using first_account_frame[of deps m "cookies_of q" s] rt by auto
  show thesis
  proof (cases r)
    case None
    then show thesis using that(1)[of x] x rt by (simp add: requireAccount_def)
  next
    case (Some a)
    then have "signed_in_as deps m q s a" using first_account_from[of deps m "cookies_of q" s a] rt by (simp add: signed_in_as_def)
    then show thesis using that(2)[of a x] x rt Some by (simp add: requireAccount_def)
  qed
qed

section \<open>What a handler does before its body\<close>

text \<open>Everything but the sessions, the counters, the accounts and the two registries is as before.\<close>

definition same_work :: "portal \<Rightarrow> portal \<Rightarrow> bool" where
  "same_work s t = (po_tasks t = po_tasks s \<and> po_purchases t = po_purchases s \<and> po_waiting t = po_waiting s)"

definition same_runs :: "portal \<Rightarrow> portal \<Rightarrow> bool" where
  "same_runs s t = (po_runs t = po_runs s \<and> po_onrampRuns t = po_onrampRuns s)"

definition same_or_pending :: "portal \<Rightarrow> portal \<Rightarrow> bool" where
  "same_or_pending s t = (po_accounts t = po_accounts s
     \<or> (\<exists>i k. po_accounts t = snd (account_update i (no_patch\<lparr>ap_kyc := Some (k\<lparr>ak_status := KycPending\<rparr>)\<rparr>) (po_accounts s))))"

definition opens_stream :: "moment \<Rightarrow> string \<Rightarrow> string \<Rightarrow> 'r registry \<Rightarrow> 'r registry \<Rightarrow> bool" where
  "opens_stream m i owner g g' = ((\<exists>d. run_describe g i = Some (owner, d)) \<and> g' = snd (run_subscribe i owner (mo_connection m) g))"

definition no_stream :: "portal_answer + waiting \<Rightarrow> bool" where
  "no_stream r = (case r of Inl (EventStream k i l) \<Rightarrow> False | _ \<Rightarrow> True)"

definition route_effect :: "PortalApiDeps \<Rightarrow> moment \<Rightarrow> portal_request \<Rightarrow> portal \<Rightarrow> (portal_answer + waiting) \<times> portal \<Rightarrow> bool" where
  "route_effect deps m q s res = (case res of (r, t) \<Rightarrow> same_work s t \<and> same_or_pending s t
     \<and> (\<forall>a. r = Inr (AtSubmit a) \<or> r = Inr (AtOnramp a) \<longrightarrow> signed_in_as deps m q s a)
     \<and> (no_stream r \<and> same_runs s t
       \<or> (\<exists>i a. r = Inl (EventStream KycRuns i (mo_connection m)) \<and> signed_in_as deps m q s a \<and> opens_stream m i (ac_id a) (po_runs s) (po_runs t) \<and> po_onrampRuns t = po_onrampRuns s)
       \<or> (\<exists>i a. r = Inl (EventStream OnrampRuns i (mo_connection m)) \<and> signed_in_as deps m q s a \<and> opens_stream m i (ac_id a) (po_onrampRuns s) (po_onrampRuns t) \<and> po_runs t = po_runs s)))"

lemma sendError_reply: "\<exists>n b. sendError e = Reply n None b"
  by (auto simp: sendError_def sendJson_def split: store_failure.split)

lemma no_stream_simps [simp]: "no_stream (Inl (sendError e))" "no_stream (Inl (sendJson n b))" "no_stream (Inl (Reply n c b))" "no_stream (Inr w)"
  "no_stream (Inl (in_progress x i))"
  using sendError_reply[of e] by (auto simp: no_stream_def sendJson_def in_progress_def)

lemma route_effect_plain:
  "same_work s t \<Longrightarrow> same_or_pending s t \<Longrightarrow> same_runs s t \<Longrightarrow> no_stream r \<Longrightarrow> (\<And>a. r = Inr (AtSubmit a) \<or> r = Inr (AtOnramp a) \<Longrightarrow> signed_in_as deps m q s a)
     \<Longrightarrow> route_effect deps m q s (r, t)"
  by (simp add: route_effect_def)

lemma with_account_effect:
  assumes "\<And>a x. signed_in_as deps m q s a \<Longrightarrow> route_effect deps m q s (f a (s\<lparr>po_sessions := x\<rparr>))"
  shows "route_effect deps m q s (with_account deps m q f s)"
proof (cases rule: requireAccount_cases[of deps m q s])
  case (1 x)
  then show ?thesis by (auto simp: with_account_def same_work_def same_or_pending_def same_runs_def intro!: route_effect_plain)
next
  case (2 x a)
  then show ?thesis using assms by (simp add: with_account_def)
qed

lemma stream_effect:
  assumes "streamRun kind g runId a l = (r, g')"
  shows "(\<exists>e. r = sendError e) \<and> g' = g
     \<or> (\<exists>i d. r = EventStream kind i l \<and> run_describe g i = Some (ac_id a, d) \<and> g' = snd (run_subscribe i (ac_id a) l g))"
proof (cases "\<exists>i d. runId = Some i \<and> i \<noteq> [] \<and> run_describe g i = Some (ac_id a, d)")
  case True
  then show ?thesis using assms unfolding streamRun_def by auto
next
  case False
  then have "\<exists>e. (r, g') = (sendError e, g)" using assms unfolding streamRun_def by (fastforce split: option.splits if_splits)
  then show ?thesis by blast
qed

lemma handle_effect: "route_effect deps m q s (handlePortalApi deps m q s)"
proof -
  have plain: "route_effect deps m q s (r, t)" if "same_work s t" "po_accounts t = po_accounts s" "same_runs s t" "no_stream r" "\<And>w. r \<noteq> Inr w" for r t
    using that by (auto simp: same_or_pending_def intro!: route_effect_plain)
  note frames = same_work_def same_runs_def
  have register: "route_effect deps m q s (post_register q m s)"
    by (auto simp: post_register_def frames same_or_pending_def split: prod.split intro!: route_effect_plain)
  have login: "route_effect deps m q s (post_login q m s)"
    by (auto simp: post_login_def frames same_or_pending_def split: prod.split intro!: route_effect_plain)
  have logout: "route_effect deps m q s (answered (post_logout deps q s))"
    by (auto simp: answered_def post_logout_def frames intro!: plain)
  have start: "route_effect deps m q s (answered (post_kyc_start deps a (s\<lparr>po_sessions := x\<rparr>)))" for a x
    by (auto simp: answered_def post_kyc_start_def set_pending_def frames same_or_pending_def split: prod.split sum.split intro!: route_effect_plain)
      (metis snd_conv)+
  have kyc_stream: "route_effect deps m q s (case streamRun KycRuns (po_runs (s\<lparr>po_sessions := x\<rparr>)) (pq_runId q) a (mo_connection m) of (r, g) \<Rightarrow> (Inl r, s\<lparr>po_sessions := x\<rparr>\<lparr>po_runs := g\<rparr>))"
    if "signed_in_as deps m q s a" for a x
  proof -
    obtain r g where g: "streamRun KycRuns (po_runs s) (pq_runId q) a (mo_connection m) = (r, g)" by fastforce
    from stream_effect[OF g] show ?thesis using that
      by (auto simp: g route_effect_def frames same_or_pending_def opens_stream_def)
  qed
  have onramp_stream: "route_effect deps m q s (case streamRun OnrampRuns (po_onrampRuns (s\<lparr>po_sessions := x\<rparr>)) (pq_runId q) a (mo_connection m) of (r, g) \<Rightarrow> (Inl r, s\<lparr>po_sessions := x\<rparr>\<lparr>po_onrampRuns := g\<rparr>))"
    if "signed_in_as deps m q s a" for a x
  proof -
    obtain r g where g: "streamRun OnrampRuns (po_onrampRuns s) (pq_runId q) a (mo_connection m) = (r, g)" by fastforce
    from stream_effect[OF g] show ?thesis using that
      by (auto simp: g route_effect_def frames same_or_pending_def opens_stream_def)
  qed
  have onramp_start: "route_effect deps m q s (case exceeded (caller q) (mo_ms m) (po_onramp (s\<lparr>po_sessions := x\<rparr>)) of (over, L) \<Rightarrow>
      (if over then Inl (sendError (rate_limited ''purchases'')) else Inr (AtOnramp a), s\<lparr>po_sessions := x\<rparr>\<lparr>po_onramp := L\<rparr>))" if "signed_in_as deps m q s a" for a x
    using that by (auto simp: frames same_or_pending_def split: prod.split intro!: route_effect_plain)
  have submit: "route_effect deps m q s (Inr (AtSubmit a), s\<lparr>po_sessions := x\<rparr>)" if "signed_in_as deps m q s a" for a x
    using that by (auto simp: frames same_or_pending_def intro!: route_effect_plain)
  have me: "route_effect deps m q s (answered (get_me deps a (s\<lparr>po_sessions := x\<rparr>)))" for a x
    by (auto simp: answered_def get_me_def frames intro!: plain)
  have state: "route_effect deps m q s (Inl (onramp_state deps m a), s\<lparr>po_sessions := x\<rparr>)" for a x
    by (auto simp: onramp_state_def frames split: option.split intro!: plain)
  have view: "route_effect deps m q s (Inl (kyc_record deps m a), s\<lparr>po_sessions := x\<rparr>)" for a x
    by (auto simp: kyc_record_def frames split: option.split intro!: plain)
  have none: "route_effect deps m q s (Inl (sendJson 404 (error_body ''not_found'' ''no such API route'' [])), s)"
    by (auto simp: frames intro!: plain)
  show ?thesis
    unfolding handlePortalApi_def Let_def
    by (intro if_split[where P = "route_effect deps m q s", THEN iffD2] conjI impI)
      (rule register login logout none
        | (rule with_account_effect, rule me start view state)
        | (rule with_account_effect, rule submit kyc_stream onramp_stream onramp_start, assumption))+
qed

section \<open>What the accounts keep\<close>

text \<open>Accounts stay, and so do their wallets.\<close>

definition keeps :: "AccountStore \<Rightarrow> AccountStore \<Rightarrow> bool" where
  "keeps A B = (\<forall>i a. account_get A i = Some a \<longrightarrow> (\<exists>b. account_get B i = Some b \<and> (\<forall>w. ac_walletCAddr a = Some w \<longrightarrow> ac_walletCAddr b = Some w)))"

lemma keeps_refl [simp]: "keeps A A"
  by (simp add: keeps_def)

lemma keeps_trans: "keeps A B \<Longrightarrow> keeps B C \<Longrightarrow> keeps A C"
  unfolding keeps_def by meson

lemma keepsD: "keeps A B \<Longrightarrow> account_get A i = Some a \<Longrightarrow> \<exists>b. account_get B i = Some b \<and> (\<forall>w. ac_walletCAddr a = Some w \<longrightarrow> ac_walletCAddr b = Some w)"
  unfolding keeps_def by blast

lemma update_keeps: "ap_walletCAddr p = None \<or> Option.bind (account_get A i) ac_walletCAddr = None \<Longrightarrow> keeps A (snd (account_update i p A))"
  by (auto simp: keeps_def update_get patched_def split: option.split)

text \<open>The ground of a verdict: an approved account has a wallet, and the transaction a verification reported for it and that wallet.\<close>

definition approved_by :: "(string \<Rightarrow> string \<Rightarrow> string \<Rightarrow> bool) \<Rightarrow> AccountRecord \<Rightarrow> bool" where
  "approved_by R a = (ak_status (ac_kyc a) = KycApproved \<longrightarrow> (\<exists>w tx. ac_walletCAddr a = Some w \<and> ak_txHash (ac_kyc a) = Some tx \<and> R (ac_id a) w tx))"

definition verdicts_ok :: "(string \<Rightarrow> string \<Rightarrow> string \<Rightarrow> bool) \<Rightarrow> AccountStore \<Rightarrow> bool" where
  "verdicts_ok R A = (\<forall>i a. account_get A i = Some a \<longrightarrow> ac_id a = i \<and> approved_by R a)"

lemma verdicts_mono: "verdicts_ok R A \<Longrightarrow> (\<And>i w tx. R i w tx \<Longrightarrow> R' i w tx) \<Longrightarrow> verdicts_ok R' A"
  unfolding verdicts_ok_def approved_by_def by meson

lemma verdicts_update:
  assumes "verdicts_ok R A" "\<And>a. account_get A i = Some a \<Longrightarrow> ac_id a = i \<Longrightarrow> approved_by R a \<Longrightarrow> approved_by R (patched p a)"
  shows "verdicts_ok R (snd (account_update i p A))"
  using assms unfolding verdicts_ok_def update_get by (auto split: if_splits)

lemma pending_update:
  assumes "verdicts_ok R A"
  shows "verdicts_ok R (snd (account_update i (no_patch\<lparr>ap_kyc := Some (k\<lparr>ak_status := KycPending\<rparr>)\<rparr>) A))"
    and "keeps A (snd (account_update i (no_patch\<lparr>ap_kyc := Some (k\<lparr>ak_status := KycPending\<rparr>)\<rparr>) A))"
  by (rule verdicts_update[OF assms]) (simp_all add: approved_by_def patched_def no_patch_def update_keeps)

lemma same_or_pending_ok:
  assumes "same_or_pending s t" "verdicts_ok R (po_accounts s)"
  shows "verdicts_ok R (po_accounts t) \<and> keeps (po_accounts s) (po_accounts t)"
  using assms pending_update by (auto simp: same_or_pending_def)

lemma completion_ok:
  assumes "verdicts_ok R A"
    and "\<And>r tx. rc_result c = Some r \<Longrightarrow> ob_txHash r = Some tx \<Longrightarrow> \<exists>a w. account_get A i = Some a \<and> ac_walletCAddr a = Some w \<and> R i w tx"
  shows "verdicts_ok R (kyc_completion m i c A) \<and> keeps A (kyc_completion m i c A)"
proof (cases "kyc_completion m i c A = A")
  case False
  then obtain a r where r: "rc_result c = Some r" "account_get A i = Some a" and
    k: "kyc_completion m i c A = snd (account_update i (no_patch\<lparr>ap_kyc := Some \<lparr>
             ak_status = (if ob_txHash r \<noteq> None then KycApproved else KycRejected), ak_sessionId = None,
             ak_claimBitmap = ob_claimBitmap r, ak_revocationIndex = ob_revocationIndex r,
             ak_txHash = ob_txHash r, ak_verifiedAt = (if ob_txHash r \<noteq> None then Some (JInt (seconds m)) else None) \<rparr>\<rparr>) A)"
    unfolding kyc_completion_def Let_def by (auto split: option.splits if_splits)
  show ?thesis unfolding k
    by (intro conjI verdicts_update[OF assms(1)] update_keeps)
      (use assms(2)[OF r(1)] r(2) in \<open>auto simp: approved_by_def patched_def no_patch_def\<close>)
qed (use assms(1) in simp)

lemma completions_ok:
  assumes "verdicts_ok R A" "\<And>j c r tx. (j, c) \<in> set cs \<Longrightarrow> rc_result c = Some r \<Longrightarrow> ob_txHash r = Some tx
       \<Longrightarrow> \<exists>a w. account_get A i = Some a \<and> ac_walletCAddr a = Some w \<and> R i w tx"
  shows "verdicts_ok R (fold (\<lambda>(j, c). kyc_completion m i c) cs A) \<and> keeps A (fold (\<lambda>(j, c). kyc_completion m i c) cs A)"
  using assms
proof (induction cs arbitrary: A)
  case (Cons x cs)
  obtain j c where x: "x = (j, c)" by (cases x)
  let ?B = "kyc_completion m i c A"
  have B: "verdicts_ok R ?B" "keeps A ?B" using completion_ok[OF Cons.prems(1), of c i m] Cons.prems(2)[of j c] x by auto
  have "verdicts_ok R (fold (\<lambda>(j, c). kyc_completion m i c) cs ?B) \<and> keeps ?B (fold (\<lambda>(j, c). kyc_completion m i c) cs ?B)"
  proof (rule Cons.IH[OF B(1)])
    fix j' c' r tx assume c: "(j', c') \<in> set cs" "rc_result c' = Some r" "ob_txHash r = Some tx"
    then obtain a w where "account_get A i = Some a" "ac_walletCAddr a = Some w" "R i w tx" using Cons.prems(2)[of j' c' r tx] by auto
    then show "\<exists>a w. account_get ?B i = Some a \<and> ac_walletCAddr a = Some w \<and> R i w tx" using keepsD[OF B(2)] by blast
  qed
  then show ?case using keeps_trans[OF B(2)] by (simp add: x)
qed simp

lemma onramp_completion_ok:
  assumes "verdicts_ok R A"
  shows "verdicts_ok R (fold (\<lambda>(j, c). onramp_completion m i c) cs A) \<and> keeps A (fold (\<lambda>(j, c). onramp_completion m i c) cs A)"
  using assms
proof (induction cs arbitrary: A)
  case (Cons x cs)
  obtain j c where x: "x = (j, c)" by (cases x)
  let ?B = "onramp_completion m i c A"
  have B: "verdicts_ok R ?B" "keeps A ?B"
    using Cons.prems by (auto simp: onramp_completion_def approved_by_def patched_def no_patch_def split: option.split intro!: verdicts_update update_keeps)
  then show ?case using Cons.IH[OF B(1)] keeps_trans[OF B(2)] by (simp add: x)
qed simp

text \<open>The callbacks a registry makes when a run settles carry the outcome of its runner.\<close>

lemma settle_completions:
  "(j, c) \<in> set (drop (length (rg_completions g)) (rg_completions (run_settle i x g))) \<Longrightarrow> rc_result c = Some r \<Longrightarrow> x = Inr r"
  by (auto simp: run_settle_def run_finish_def Let_def split: sum.splits if_splits)

lemma timeout_completions:
  "(j, c) \<in> set (drop (length (rg_completions g)) (rg_completions (run_timeout i g))) \<Longrightarrow> rc_result c = None"
  by (auto simp: run_timeout_def run_finish_def Let_def split: if_splits)

section \<open>What a handler does with its body\<close>

definition max_active :: "PortalApiDeps \<Rightarrow> nat" where
  "max_active deps = (case pd_maxActiveRuns deps of None \<Rightarrow> 3 | Some n \<Rightarrow> n)"

definition same_or_created :: "moment \<Rightarrow> portal \<Rightarrow> portal \<Rightarrow> bool" where
  "same_or_created m s t = (same_or_pending s t \<or> (\<exists>a. ac_id a = mo_id m \<and> ac_walletCAddr a = None \<and> ac_kyc a = no_kyc
     \<and> (\<forall>j. account_get (po_accounts t) j = (if j = mo_id m then Some a else account_get (po_accounts s) j))))"

definition starts_kyc :: "PortalApiDeps \<Rightarrow> moment \<Rightarrow> waiting \<Rightarrow> portal \<Rightarrow> portal \<Rightarrow> bool" where
  "starts_kyc deps m w s t = (\<exists>a green applicant names s2. w = AtSubmit a \<and> activeRunId (po_runs s) (ac_id a) = None \<and> activeCount (po_runs s) < max_active deps
     \<and> same_work s s2 \<and> same_runs s s2 \<and> same_or_pending s s2 \<and> account_get (po_accounts s2) (ac_id a) \<noteq> None
     \<and> t = start_kyc_run m a green applicant names s2)"

definition starts_purchase :: "moment \<Rightarrow> waiting \<Rightarrow> portal \<Rightarrow> portal \<Rightarrow> bool" where
  "starts_purchase m w s t = (\<exists>a wallet amount. w = AtOnramp a \<and> ac_walletCAddr a = Some wallet \<and> activeRunId (po_onrampRuns s) (ac_id a) = None
     \<and> t = s\<lparr>po_onrampRuns := run_start (mo_runId m) (ac_id a) (po_onrampRuns s),
             po_purchases := (po_purchases s)(mo_runId m \<mapsto> \<lparr> pu_account = ac_id a, pu_wallet = wallet, pu_tryAmount = amount, pu_open = True \<rparr>)\<rparr>)"

definition body_effect :: "PortalApiDeps \<Rightarrow> moment \<Rightarrow> waiting \<Rightarrow> portal \<Rightarrow> portal \<Rightarrow> bool" where
  "body_effect deps m w s t = (same_work s t \<and> same_runs s t \<and> same_or_created m s t \<or> starts_kyc deps m w s t \<or> starts_purchase m w s t)"

lemma body_effect_plain: "same_work s t \<Longrightarrow> same_runs s t \<Longrightarrow> same_or_pending s t \<Longrightarrow> body_effect deps m w s t"
  by (simp add: body_effect_def same_or_created_def)

lemma same_refl [simp]: "same_work s s" "same_runs s s" "same_or_pending s s"
  by (simp_all add: same_work_def same_runs_def same_or_pending_def)

lemma body_effect_same [simp]: "body_effect deps m w s s"
  by (rule body_effect_plain) simp_all

lemma sign_in_frame: "\<exists>x. snd (sign_in_answer deps m q n a s) = s\<lparr>po_sessions := x\<rparr>"
  by (simp add: sign_in_answer_def Let_def split: prod.split) blast

lemma register_effect: "body_effect deps m w s (snd (register_body deps m q body s))"
proof (cases "snd (register_body deps m q body s) = s")
  case False
  let ?u = "\<lambda>email password. \<lparr> su_email = email, su_password = password, su_now = JInt (seconds m) \<rparr>"
  obtain email password r A where r: "account_create (pd_scrypt deps) (mo_id m) (mo_salt m) (?u email password) (po_accounts s) = (r, A)"
    and t: "snd (register_body deps m q body s) = (case r of Inl e \<Rightarrow> s\<lparr>po_accounts := A\<rparr> | Inr a \<Rightarrow> snd (sign_in_answer deps m q 201 a (s\<lparr>po_accounts := A\<rparr>)))"
    using False unfolding register_body_def by (auto split: sum.splits prod.splits)
  obtain x where x: "(case r of Inl e \<Rightarrow> s\<lparr>po_accounts := A\<rparr> | Inr a \<Rightarrow> snd (sign_in_answer deps m q 201 a (s\<lparr>po_accounts := A\<rparr>))) = s\<lparr>po_accounts := A\<rparr>\<lparr>po_sessions := x\<rparr>"
  proof (cases r)
    case (Inl e)
    then show ?thesis using that[of "po_sessions s"] by simp
  next
    case (Inr a)
    then show ?thesis using sign_in_frame[of deps m q 201 a "s\<lparr>po_accounts := A\<rparr>"] that by auto
  qed
  have "same_or_created m s (s\<lparr>po_accounts := A, po_sessions := x\<rparr>)"
    using create_get[OF r] by (auto simp: same_or_created_def same_or_pending_def)
  then show ?thesis unfolding t x by (simp add: body_effect_def same_work_def same_runs_def)
qed simp

lemma login_effect: "body_effect deps m w s (snd (login_body deps m q body s))"
proof (cases "snd (login_body deps m q body s) = s")
  case False
  then obtain a where "snd (login_body deps m q body s) = snd (sign_in_answer deps m q 200 a s)" unfolding login_body_def by (auto split: sum.splits)
  then obtain x where "snd (login_body deps m q body s) = s\<lparr>po_sessions := x\<rparr>" using sign_in_frame by metis
  then show ?thesis by (auto simp: same_work_def same_runs_def same_or_pending_def intro!: body_effect_plain)
qed simp

lemma submit_effect: "body_effect deps m (AtSubmit a) s (snd (submit_body deps m q a body s))"
proof -
  obtain over L where e: "exceeded (caller q) (mo_ms m) (po_submit s) = (over, L)" by fastforce
  let ?s1 = "s\<lparr>po_submit := L\<rparr>"
  have frames: "body_effect deps m (AtSubmit a) s ?s1" by (auto simp: same_work_def same_runs_def same_or_pending_def intro!: body_effect_plain)
  obtain r s2 where p: "set_pending a ?s1 = (r, s2)" by fastforce
  have s2: "same_work s s2" "same_runs s s2" "same_or_pending s s2"
    using p by (auto simp: set_pending_def same_work_def same_runs_def same_or_pending_def split: prod.splits) (metis snd_conv)
  have r: "r = Inr b \<Longrightarrow> account_get (po_accounts s2) (ac_id a) \<noteq> None" for b
    using p update_result[of "ac_id a" "no_patch\<lparr>ap_kyc := Some ((ac_kyc a)\<lparr>ak_status := KycPending\<rparr>)\<rparr>" "po_accounts s"]
      update_get[of "ac_id a" "no_patch\<lparr>ap_kyc := Some ((ac_kyc a)\<lparr>ak_status := KycPending\<rparr>)\<rparr>" "po_accounts s" "ac_id a"]
    by (auto simp: set_pending_def split: prod.splits option.splits)
  have pending: "body_effect deps m (AtSubmit a) s s2" using s2 by (rule body_effect_plain)
  have start: "body_effect deps m (AtSubmit a) s (start_kyc_run m a green applicant names s2)"
    if "r = Inr b" "activeRunId (po_runs s) (ac_id a) = None" "\<not> activeCount (po_runs s) \<ge> (case pd_maxActiveRuns deps of None \<Rightarrow> 3 | Some n \<Rightarrow> n)" for b green applicant names
    using that s2 r[OF that(1)] unfolding body_effect_def starts_kyc_def max_active_def by (metis not_le)
  show ?thesis
    unfolding submit_body_def e Let_def p prod.case
    by (simp add: frames pending start split: sum.split option.split prod.split)
qed

lemma onramp_effect: "body_effect deps m (AtOnramp a) s (snd (onramp_body deps m a body s))"
proof -
  have start: "body_effect deps m (AtOnramp a) s (s\<lparr>po_onrampRuns := run_start (mo_runId m) (ac_id a) (po_onrampRuns s),
       po_purchases := (po_purchases s)(mo_runId m \<mapsto> \<lparr> pu_account = ac_id a, pu_wallet = wallet, pu_tryAmount = amount, pu_open = True \<rparr>)\<rparr>)"
    if "ac_walletCAddr a = Some wallet" "activeRunId (po_onrampRuns s) (ac_id a) = None" for wallet amount
    unfolding body_effect_def starts_purchase_def using that by blast
  show ?thesis unfolding onramp_body_def Let_def by (simp add: start split: option.split)
qed

lemma body_read_effect: "body_effect deps m w s (snd (body_read deps m q w s))"
  using register_effect[of deps m w s q] login_effect[of deps m w s q] submit_effect onramp_effect
  by (auto simp: body_read_def split: option.split sum.split waiting.split)

section \<open>Runs of the portal\<close>

text \<open>What can happen next: names are drawn fresh, a runner goes on while it has not settled, a run is evicted when it is over.\<close>

definition connections :: "portal_event list \<Rightarrow> string set" where
  "connections log = {mo_connection m | m q. Arrive m q \<in> set log}"

fun portal_allowed :: "portal_event list \<Rightarrow> portal_event \<Rightarrow> portal \<Rightarrow> bool" where
  "portal_allowed log (Arrive m q) s = (mo_connection m \<notin> connections log)"
| "portal_allowed log (BodyRead m c) s = (account_get (po_accounts s) (mo_id m) = None \<and> po_tasks s (mo_runId m) = None \<and> po_purchases s (mo_runId m) = None)"
| "portal_allowed log (RunnerStep KycRuns i x) s = (\<exists>t. po_tasks s i = Some t \<and> kt_phase t \<noteq> Settled)"
| "portal_allowed log (RunnerStep OnrampRuns i x) s = (\<exists>p. po_purchases s i = Some p \<and> pu_open p)"
| "portal_allowed log (WalletDeployed m i w) s = (\<exists>t. po_tasks s i = Some t \<and> kt_phase t = Deploying)"
| "portal_allowed log (WalletFailed m i x) s = (\<exists>t. po_tasks s i = Some t \<and> kt_phase t = Deploying)"
| "portal_allowed log (PipelineEnded m i r) s = (\<exists>t c. po_tasks s i = Some t \<and> kt_phase t = Piping c)"
| "portal_allowed log (PurchaseEnded m i r) s = (\<exists>p. po_purchases s i = Some p \<and> pu_open p)"
| "portal_allowed log (RunTimedOut m k i) s = True"
| "portal_allowed log (RunEvicted KycRuns i) s = (i \<in> set (rg_completed (po_runs s)))"
| "portal_allowed log (RunEvicted OnrampRuns i) s = (i \<in> set (rg_completed (po_onrampRuns s)))"

inductive portal_run :: "PortalApiDeps \<Rightarrow> portal \<Rightarrow> portal_event list \<Rightarrow> portal \<Rightarrow> bool" for deps boot where
  booted: "portal_run deps boot [] boot"
| happens: "portal_run deps boot log s \<Longrightarrow> portal_allowed log e s \<Longrightarrow> portal_run deps boot (e # log) (portal_step deps e s)"

inductive_cases portal_run_ConsE: "portal_run deps boot (e # log) s"

text \<open>The streams opened so far.\<close>

fun portal_state :: "PortalApiDeps \<Rightarrow> portal \<Rightarrow> portal_event list \<Rightarrow> portal" where
  "portal_state deps boot [] = boot"
| "portal_state deps boot (e # log) = portal_step deps e (portal_state deps boot log)"

lemma portal_run_state: "portal_run deps boot log s \<Longrightarrow> s = portal_state deps boot log"
  by (induction rule: portal_run.induct) auto

definition stream_opened :: "run_kind \<Rightarrow> portal_answer + waiting \<Rightarrow> (string \<times> string) set" where
  "stream_opened kind r = (case r of Inl (EventStream k i l) \<Rightarrow> if k = kind then {(i, l)} else {} | _ \<Rightarrow> {})"

fun streams :: "PortalApiDeps \<Rightarrow> portal \<Rightarrow> run_kind \<Rightarrow> portal_event list \<Rightarrow> (string \<times> string) set" where
  "streams deps boot kind [] = {}"
| "streams deps boot kind (Arrive m q # log) = stream_opened kind (fst (handlePortalApi deps m q (portal_state deps boot log))) \<union> streams deps boot kind log"
| "streams deps boot kind (_ # log) = streams deps boot kind log"

section \<open>What every run of the portal keeps\<close>

definition kyc_ledger :: "portal \<Rightarrow> string \<rightharpoonup> string \<times> bool" where
  "kyc_ledger s = (\<lambda>i. map_option (\<lambda>t. (kt_account t, kt_phase t \<noteq> Settled)) (po_tasks s i))"

definition purchase_ledger :: "portal \<Rightarrow> string \<rightharpoonup> string \<times> bool" where
  "purchase_ledger s = (\<lambda>i. map_option (\<lambda>p. (pu_account p, pu_open p)) (po_purchases s i))"

text \<open>Every run is an account's, on that account's wallet; so is what waits for a body.\<close>

definition has_account :: "portal \<Rightarrow> string \<Rightarrow> string option \<Rightarrow> bool" where
  "has_account s i w = (\<exists>a. account_get (po_accounts s) i = Some a \<and> (\<forall>c. w = Some c \<longrightarrow> ac_walletCAddr a = Some c))"

definition task_wallet :: "kyc_task \<Rightarrow> string option" where
  "task_wallet t = (case kt_phase t of Piping c \<Rightarrow> Some c | _ \<Rightarrow> None)"

definition tasks_ok :: "portal \<Rightarrow> bool" where
  "tasks_ok s = (\<forall>i t. po_tasks s i = Some t \<longrightarrow> has_account s (kt_account t) (task_wallet t))"

definition purchases_ok :: "portal \<Rightarrow> bool" where
  "purchases_ok s = (\<forall>i p. po_purchases s i = Some p \<longrightarrow> has_account s (pu_account p) (Some (pu_wallet p)))"

definition waiting_ok :: "portal \<Rightarrow> bool" where
  "waiting_ok s = (\<forall>c q a. po_waiting s c = Some (q, AtSubmit a) \<or> po_waiting s c = Some (q, AtOnramp a) \<longrightarrow> has_account s (ac_id a) (ac_walletCAddr a))"

definition bounds_ok :: "PortalApiDeps \<Rightarrow> portal \<Rightarrow> bool" where
  "bounds_ok deps s = ((\<forall>a. open_runs (\<lambda>x. x = a) (po_runs s) \<le> 1) \<and> (\<forall>a. open_runs (\<lambda>x. x = a) (po_onrampRuns s) \<le> 1)
     \<and> open_runs (\<lambda>_. True) (po_runs s) \<le> max_active deps)"

definition registries_ok :: "string set \<Rightarrow> (run_kind \<Rightarrow> (string \<times> string) set) \<Rightarrow> portal \<Rightarrow> bool" where
  "registries_ok C S s = (registry_ok (kyc_ledger s) C (S KycRuns) (po_runs s) \<and> registry_ok (purchase_ledger s) C (S OnrampRuns) (po_onrampRuns s))"

definition portal_ok :: "PortalApiDeps \<Rightarrow> (string \<Rightarrow> string \<Rightarrow> string \<Rightarrow> bool) \<Rightarrow> string set \<Rightarrow> (run_kind \<Rightarrow> (string \<times> string) set) \<Rightarrow> portal \<Rightarrow> bool" where
  "portal_ok deps R C S s = (registries_ok C S s \<and> bounds_ok deps s \<and> verdicts_ok R (po_accounts s) \<and> tasks_ok s \<and> purchases_ok s \<and> waiting_ok s)"

lemma has_account_keeps: "has_account s i w \<Longrightarrow> keeps (po_accounts s) (po_accounts t) \<Longrightarrow> has_account t i w"
  unfolding has_account_def keeps_def by meson

lemma work_keeps:
  assumes "keeps (po_accounts s) (po_accounts t)"
  shows "tasks_ok s \<Longrightarrow> po_tasks t = po_tasks s \<Longrightarrow> tasks_ok t" "purchases_ok s \<Longrightarrow> po_purchases t = po_purchases s \<Longrightarrow> purchases_ok t"
    "waiting_ok s \<Longrightarrow> po_waiting t = po_waiting s \<Longrightarrow> waiting_ok t"
  using has_account_keeps[OF _ assms] unfolding tasks_ok_def purchases_ok_def waiting_ok_def by auto

lemma bounds_mono:
  assumes "bounds_ok deps s" "\<And>P. open_runs P (po_runs t) \<le> open_runs P (po_runs s)" "\<And>P. open_runs P (po_onrampRuns t) \<le> open_runs P (po_onrampRuns s)"
  shows "bounds_ok deps t"
  using assms unfolding bounds_ok_def by (meson order_trans)

lemma ledgers_same: "same_work s t \<Longrightarrow> kyc_ledger t = kyc_ledger s \<and> purchase_ledger t = purchase_ledger s"
  by (simp add: same_work_def kyc_ledger_def purchase_ledger_def)

lemma portal_ok_same:
  assumes "portal_ok deps R C S s" "same_work s t" "same_runs s t" "keeps (po_accounts s) (po_accounts t)" "verdicts_ok R' (po_accounts t)" "C \<subseteq> C'"
  shows "portal_ok deps R' C' S t"
proof -
  have "registries_ok C' S t"
    using assms(1,3,6) ledgers_same[OF assms(2)] registry_ok_connection unfolding portal_ok_def registries_ok_def same_runs_def by metis
  moreover have "bounds_ok deps t" using assms(1,3) by (simp add: portal_ok_def bounds_ok_def same_runs_def)
  ultimately show ?thesis
    using assms(1,2,5) work_keeps[OF assms(4)] by (simp add: portal_ok_def same_work_def)
qed

lemma subscribe_open: "open_runs P (snd (run_subscribe i a l g)) \<le> open_runs P g"
  using step_open[of "Subscribe i a l"] by simp

lemma opened_registry:
  "registry_ok T C S g \<Longrightarrow> mo_connection m \<notin> C \<Longrightarrow> opens_stream m i a g g'
     \<Longrightarrow> registry_ok T (insert (mo_connection m) C) (insert (i, mo_connection m) S) g'"
  unfolding opens_stream_def using registry_ok_subscribe by fast

lemma signed_in_account:
  assumes "signed_in_as deps m q s a" "verdicts_ok R (po_accounts s)"
  shows "has_account s (ac_id a) (ac_walletCAddr a)"
  using assms unfolding signed_in_as_def verdicts_ok_def has_account_def by blast

lemma arrive_ok:
  assumes ok: "portal_ok deps R C S s" and fresh: "mo_connection m \<notin> C" and h: "handlePortalApi deps m q s = (r, t)"
  shows "portal_ok deps R (insert (mo_connection m) C) (\<lambda>k. stream_opened k r \<union> S k) (portal_step deps (Arrive m q) s)"
proof -
  let ?C = "insert (mo_connection m) C" and ?S = "\<lambda>k. stream_opened k r \<union> S k"
  have reg: "registry_ok (kyc_ledger s) C (S KycRuns) (po_runs s)" "registry_ok (purchase_ledger s) C (S OnrampRuns) (po_onrampRuns s)"
    and v: "verdicts_ok R (po_accounts s)" and b: "bounds_ok deps s"
    using ok by (simp_all add: portal_ok_def registries_ok_def)
  have eff: "route_effect deps m q s (r, t)" using handle_effect[of deps m q s] by (simp add: h)
  then have work: "same_work s t" and acc: "same_or_pending s t"
    and waits: "\<And>a. r = Inr (AtSubmit a) \<or> r = Inr (AtOnramp a) \<Longrightarrow> signed_in_as deps m q s a" by (auto simp: route_effect_def)
  have acct: "verdicts_ok R (po_accounts t)" "keeps (po_accounts s) (po_accounts t)" using same_or_pending_ok[OF acc v] by auto
  have led: "kyc_ledger t = kyc_ledger s" "purchase_ledger t = purchase_ledger s" using ledgers_same[OF work] by auto
  have mono: "registry_ok T C D g \<Longrightarrow> registry_ok T ?C D g" for T D and g :: "'r registry" by (rule registry_ok_connection) auto
  have mono2: "registry_ok T C D g \<Longrightarrow> registry_ok T ?C D g" for T D and g :: "OnrampResult registry" by (rule registry_ok_connection) auto
  have cases: "no_stream r \<and> same_runs s t
     \<or> (\<exists>i a. r = Inl (EventStream KycRuns i (mo_connection m)) \<and> signed_in_as deps m q s a \<and> opens_stream m i (ac_id a) (po_runs s) (po_runs t) \<and> po_onrampRuns t = po_onrampRuns s)
     \<or> (\<exists>i a. r = Inl (EventStream OnrampRuns i (mo_connection m)) \<and> signed_in_as deps m q s a \<and> opens_stream m i (ac_id a) (po_onrampRuns s) (po_onrampRuns t) \<and> po_runs t = po_runs s)"
    using eff unfolding route_effect_def prod.case by (elim conjE)
  consider "no_stream r" "same_runs s t"
    | i and a :: AccountRecord where "r = Inl (EventStream KycRuns i (mo_connection m))" "opens_stream m i (ac_id a) (po_runs s) (po_runs t)" "po_onrampRuns t = po_onrampRuns s"
    | i and a :: AccountRecord where "r = Inl (EventStream OnrampRuns i (mo_connection m))" "opens_stream m i (ac_id a) (po_onrampRuns s) (po_onrampRuns t)" "po_runs t = po_runs s"
    using cases by (elim disjE exE conjE) (rule that; assumption)+
  then have "registries_ok ?C ?S t \<and> bounds_ok deps t"
  proof cases
    case 1
    have "stream_opened k r = {}" for k using 1(1) by (auto simp: no_stream_def stream_opened_def split: sum.splits portal_answer.splits)
    then show ?thesis using reg b 1(2) by (simp add: registries_ok_def led same_runs_def mono mono2 bounds_ok_def)
  next
    case 2
    have "bounds_ok deps t" by (rule bounds_mono[OF b]) (use 2 subscribe_open in \<open>auto simp: opens_stream_def\<close>)
    then show ?thesis using 2 reg opened_registry[OF reg(1) fresh 2(2)] by (simp add: registries_ok_def led stream_opened_def mono2)
  next
    case 3
    have "bounds_ok deps t" by (rule bounds_mono[OF b]) (use 3 subscribe_open in \<open>auto simp: opens_stream_def\<close>)
    then show ?thesis using 3 reg opened_registry[OF reg(2) fresh 3(2)] by (simp add: registries_ok_def led stream_opened_def mono)
  qed
  moreover have "tasks_ok t" "purchases_ok t" "waiting_ok t"
    using ok work work_keeps[OF acct(2)] by (auto simp: portal_ok_def same_work_def)
  ultimately have t: "portal_ok deps R ?C ?S t" using acct(1) by (simp add: portal_ok_def)
  show ?thesis
  proof (cases r)
    case (Inl x)
    then show ?thesis using t by (simp add: h)
  next
    case (Inr w)
    have "has_account t (ac_id a) (ac_walletCAddr a)" if "w = AtSubmit a \<or> w = AtOnramp a" for a
      using signed_in_account[OF _ v] waits[of a] that Inr has_account_keeps[OF _ acct(2)] by auto
    then have "waiting_ok (t\<lparr>po_waiting := (po_waiting t)(mo_connection m \<mapsto> (q, w))\<rparr>)"
      using t by (auto simp: portal_ok_def waiting_ok_def has_account_def)
    then show ?thesis using t Inr by (simp add: h portal_ok_def registries_ok_def bounds_ok_def tasks_ok_def purchases_ok_def has_account_def kyc_ledger_def purchase_ledger_def)
  qed
qed

section \<open>Steps on runs\<close>

lemma verdicts_created:
  assumes "same_or_created m s t" "verdicts_ok R (po_accounts s)" "account_get (po_accounts s) (mo_id m) = None"
  shows "verdicts_ok R (po_accounts t) \<and> keeps (po_accounts s) (po_accounts t)"
proof (cases "same_or_pending s t")
  case True
  then show ?thesis using same_or_pending_ok assms(2) by blast
next
  case False
  then obtain a where a: "ac_id a = mo_id m" "ac_kyc a = no_kyc"
    "\<And>j. account_get (po_accounts t) j = (if j = mo_id m then Some a else account_get (po_accounts s) j)"
    using assms(1) by (auto simp: same_or_created_def)
  then have "approved_by R a" by (simp add: approved_by_def no_kyc_def)
  then show ?thesis using a assms(2,3) by (auto simp: verdicts_ok_def keeps_def)
qed

lemma has_account_run:
  "has_account s i w \<Longrightarrow> has_account (s\<lparr>po_runs := g\<rparr>) i w" "has_account s i w \<Longrightarrow> has_account (s\<lparr>po_tasks := T\<rparr>) i w"
  by (simp_all add: has_account_def)

lemma begin_task: "account_get (po_accounts s) i \<noteq> None \<Longrightarrow> has_account s i (case begin_runner i s of Piping c \<Rightarrow> Some c | _ \<Rightarrow> None)"
  by (auto simp: has_account_def begin_runner_def split: option.splits)

lemma kyc_start_ok:
  assumes ok: "portal_ok deps R C S s" and w: "starts_kyc deps m w s t" and fresh: "po_tasks s (mo_runId m) = None"
  shows "portal_ok deps R C S t"
proof -
  obtain a green applicant names s2 where idle: "activeRunId (po_runs s) (ac_id a) = None" "activeCount (po_runs s) < max_active deps"
    and s2: "same_work s s2" "same_runs s s2" "same_or_pending s s2" "account_get (po_accounts s2) (ac_id a) \<noteq> None"
    and t: "t = start_kyc_run m a green applicant names s2" using w by (auto simp: starts_kyc_def)
  have acct: "verdicts_ok R (po_accounts s2)" "keeps (po_accounts s) (po_accounts s2)"
    using same_or_pending_ok[OF s2(3)] ok by (auto simp: portal_ok_def)
  have ok2: "portal_ok deps R C S s2" using portal_ok_same[OF ok s2(1,2) acct(2,1)] by simp
  have runs: "po_runs s2 = po_runs s" "po_tasks s2 = po_tasks s" using s2(1,2) by (simp_all add: same_runs_def same_work_def)
  let ?i = "mo_runId m"
  have led: "kyc_ledger t = (kyc_ledger s2)(?i \<mapsto> (ac_id a, True))" "purchase_ledger t = purchase_ledger s2"
    by (auto simp: t start_kyc_run_def kyc_ledger_def purchase_ledger_def begin_runner_def split: option.split)
  have absent: "kyc_ledger s2 ?i = None" using fresh runs by (simp add: kyc_ledger_def)
  have reg: "registry_ok (kyc_ledger s2) C (S KycRuns) (po_runs s2)" using ok2 by (simp add: portal_ok_def registries_ok_def)
  have no_run: "map_get (rg_runs (po_runs s2)) ?i = None" using unknown_run[OF reg absent] .
  have "registries_ok C S t" using ok2 registry_ok_start[OF reg absent, of "ac_id a"]
    by (simp add: portal_ok_def registries_ok_def led) (simp add: t start_kyc_run_def)
  moreover have "bounds_ok deps t"
    using ok2 start_open[OF no_run] no_active_run[OF idle(1)] idle(2)
    by (auto simp: portal_ok_def bounds_ok_def t start_kyc_run_def runs activeCount_open)
  moreover have "tasks_ok t"
    using ok2 begin_task[OF s2(4)] by (auto simp: portal_ok_def tasks_ok_def t start_kyc_run_def has_account_def task_wallet_def)
  ultimately show ?thesis
    using ok2 by (simp add: portal_ok_def t start_kyc_run_def purchases_ok_def waiting_ok_def has_account_def)
qed

lemma purchase_start_ok:
  assumes ok: "portal_ok deps R C S s" and w: "starts_purchase m w s t" and fresh: "po_purchases s (mo_runId m) = None"
    and acct: "\<And>a. w = AtOnramp a \<Longrightarrow> has_account s (ac_id a) (ac_walletCAddr a)"
  shows "portal_ok deps R C S t"
proof -
  obtain a wallet amount where idle: "activeRunId (po_onrampRuns s) (ac_id a) = None" and a: "w = AtOnramp a" "ac_walletCAddr a = Some wallet"
    and t: "t = s\<lparr>po_onrampRuns := run_start (mo_runId m) (ac_id a) (po_onrampRuns s),
       po_purchases := (po_purchases s)(mo_runId m \<mapsto> \<lparr> pu_account = ac_id a, pu_wallet = wallet, pu_tryAmount = amount, pu_open = True \<rparr>)\<rparr>"
    using w by (auto simp: starts_purchase_def)
  let ?i = "mo_runId m"
  have led: "purchase_ledger t = (purchase_ledger s)(?i \<mapsto> (ac_id a, True))" "kyc_ledger t = kyc_ledger s"
    by (auto simp: t kyc_ledger_def purchase_ledger_def)
  have absent: "purchase_ledger s ?i = None" using fresh by (simp add: purchase_ledger_def)
  have reg: "registry_ok (purchase_ledger s) C (S OnrampRuns) (po_onrampRuns s)" using ok by (simp add: portal_ok_def registries_ok_def)
  have no_run: "map_get (rg_runs (po_onrampRuns s)) ?i = None" using unknown_run[OF reg absent] .
  have "registries_ok C S t" using ok registry_ok_start[OF reg absent, of "ac_id a"]
    by (simp add: portal_ok_def registries_ok_def led) (simp add: t)
  moreover have "bounds_ok deps t"
    using ok start_open[OF no_run] no_active_run[OF idle] by (auto simp: portal_ok_def bounds_ok_def t)
  moreover have "purchases_ok t"
    using ok acct[OF a(1)] a(2) by (auto simp: portal_ok_def purchases_ok_def t has_account_def)
  ultimately show ?thesis
    using ok by (simp add: portal_ok_def t tasks_ok_def waiting_ok_def has_account_def)
qed

lemma body_ok:
  assumes ok: "portal_ok deps R C S s" and fresh: "portal_allowed log (BodyRead m c) s"
  shows "portal_ok deps R C S (portal_step deps (BodyRead m c) s)"
proof (cases "po_waiting s c")
  case None
  then show ?thesis using ok by simp
next
  case (Some qw)
  obtain q w where qw: "qw = (q, w)" by (cases qw)
  let ?s = "s\<lparr>po_waiting := (po_waiting s)(c := None)\<rparr>"
  let ?t = "snd (body_read deps m q w ?s)"
  have ok': "portal_ok deps R C S ?s"
    using ok by (auto simp: portal_ok_def registries_ok_def bounds_ok_def kyc_ledger_def purchase_ledger_def tasks_ok_def purchases_ok_def waiting_ok_def has_account_def)
  have acct: "has_account ?s (ac_id a) (ac_walletCAddr a)" if "w = AtOnramp a" for a
    using ok Some qw that by (fastforce simp: portal_ok_def waiting_ok_def has_account_def)
  have "body_effect deps m w ?s ?t" by (rule body_read_effect)
  then consider "same_work ?s ?t" "same_runs ?s ?t" "same_or_created m ?s ?t" | "starts_kyc deps m w ?s ?t" | "starts_purchase m w ?s ?t"
    unfolding body_effect_def by blast
  then have "portal_ok deps R C S ?t"
  proof cases
    case 1
    have "verdicts_ok R (po_accounts ?t) \<and> keeps (po_accounts ?s) (po_accounts ?t)"
      by (rule verdicts_created[OF 1(3)]) (use ok' fresh in \<open>simp_all add: portal_ok_def\<close>)
    then show ?thesis using portal_ok_same[OF ok' 1(1,2)] by blast
  next
    case 2
    then show ?thesis using kyc_start_ok[OF ok'] fresh by simp
  next
    case 3
    then show ?thesis using purchase_start_ok[OF ok' _ _ acct] fresh by simp
  qed
  then show ?thesis by (simp add: Some qw)
qed

lemma settle_kyc_ok:
  assumes ok: "portal_ok deps R C S s" and task: "po_tasks s i = Some task" "kt_phase task \<noteq> Settled"
    and mono: "\<And>j w tx. R j w tx \<Longrightarrow> R' j w tx"
    and ground: "\<And>r tx. outcome = Inr r \<Longrightarrow> ob_txHash r = Some tx \<Longrightarrow> \<exists>w. kt_phase task = Piping w \<and> R' (kt_account task) w tx"
  shows "portal_ok deps R' C S (settle_kyc m i task outcome s)"
proof -
  let ?t = "settle_kyc m i task outcome s" and ?a = "kt_account task"
  let ?cs = "drop (length (rg_completions (po_runs s))) (rg_completions (run_settle i outcome (po_runs s)))"
  have acct: "has_account s ?a (task_wallet task)" using ok task(1) by (simp add: portal_ok_def tasks_ok_def)
  have v: "verdicts_ok R' (po_accounts s)" by (rule verdicts_mono[where R = R]) (use ok mono in \<open>auto simp: portal_ok_def\<close>)
  have "verdicts_ok R' (fold (\<lambda>(j, c). kyc_completion m ?a c) ?cs (po_accounts s)) \<and> keeps (po_accounts s) (fold (\<lambda>(j, c). kyc_completion m ?a c) ?cs (po_accounts s))"
  proof (rule completions_ok[OF v])
    fix j c r tx assume c: "(j, c) \<in> set ?cs" "rc_result c = Some r" and tx: "ob_txHash r = Some tx"
    from ground[OF settle_completions[OF c] tx] acct
    show "\<exists>a w. account_get (po_accounts s) ?a = Some a \<and> ac_walletCAddr a = Some w \<and> R' ?a w tx" by (auto simp: has_account_def task_wallet_def)
  qed
  then have A: "verdicts_ok R' (po_accounts ?t)" "keeps (po_accounts s) (po_accounts ?t)" by (simp_all add: settle_kyc_def kyc_moved_def)
  have led: "kyc_ledger ?t = (kyc_ledger s)(i \<mapsto> (?a, False))" "purchase_ledger ?t = purchase_ledger s"
    by (auto simp: settle_kyc_def kyc_moved_def kyc_ledger_def purchase_ledger_def)
  have running: "kyc_ledger s i = Some (?a, True)" using task by (simp add: kyc_ledger_def)
  have fields: "po_runs ?t = run_settle i outcome (po_runs s)" "po_onrampRuns ?t = po_onrampRuns s" "po_purchases ?t = po_purchases s" "po_waiting ?t = po_waiting s"
    "po_tasks ?t = (po_tasks s)(i \<mapsto> task\<lparr>kt_phase := Settled\<rparr>)" by (simp_all add: settle_kyc_def kyc_moved_def)
  have reg: "registry_ok (kyc_ledger s) C (S KycRuns) (po_runs s)" using ok by (simp add: portal_ok_def registries_ok_def)
  have "registries_ok C S ?t" using ok registry_ok_settle[OF reg running] by (simp add: portal_ok_def registries_ok_def led fields)
  moreover have "bounds_ok deps ?t"
    by (rule bounds_mono) (use ok step_open[of "Settle i outcome"] in \<open>auto simp: portal_ok_def fields\<close>)
  moreover have "tasks_ok ?t"
    unfolding tasks_ok_def
  proof (intro allI impI)
    fix j x assume x: "po_tasks ?t j = Some x"
    show "has_account ?t (kt_account x) (task_wallet x)"
    proof (cases "j = i")
      case True
      then show ?thesis using x has_account_keeps[OF acct A(2)] by (auto simp: fields has_account_def task_wallet_def)
    next
      case False
      then show ?thesis using x ok has_account_keeps[OF _ A(2)] by (simp add: fields portal_ok_def tasks_ok_def)
    qed
  qed
  ultimately show ?thesis using ok work_keeps[OF A(2)] A(1) by (simp add: portal_ok_def fields)
qed

lemma wallet_ok:
  assumes ok: "portal_ok deps R C S s" and task: "po_tasks s i = Some task" "kt_phase task = Deploying"
  shows "portal_ok deps R C S (wallet_deployed m i task wallet s)"
proof -
  let ?a = "kt_account task"
  let ?p = "no_patch\<lparr>ap_walletCAddr := Some (wr_address wallet), ap_walletKeyId := Some (wr_keyId wallet), ap_walletDeployTxHash := Some (wr_deployTxHash wallet)\<rparr>"
  define A where "A = (case Option.bind (account_get (po_accounts s) ?a) ac_walletCAddr of Some fresh \<Rightarrow> po_accounts s | None \<Rightarrow> snd (account_update ?a ?p (po_accounts s)))"
  define c where "c = (case Option.bind (account_get (po_accounts s) ?a) ac_walletCAddr of Some fresh \<Rightarrow> fresh | None \<Rightarrow> wr_address wallet)"
  let ?s = "s\<lparr>po_accounts := A\<rparr>"
  have "has_account s ?a (task_wallet task)" using ok task(1) by (simp add: portal_ok_def tasks_ok_def)
  then obtain a where a: "account_get (po_accounts s) ?a = Some a" by (auto simp: has_account_def)
  have wallet: "has_account ?s ?a (Some c)"
    by (auto simp: has_account_def A_def c_def a update_get patched_def no_patch_def split: option.split)
  have same: "s = s\<lparr>po_accounts := po_accounts s\<rparr>" by simp
  obtain b B where e: "account_update ?a ?p (po_accounts s) = (Inr b, B)"
    using update_result[of ?a ?p "po_accounts s"] a by (cases "account_update ?a ?p (po_accounts s)") auto
  have t: "wallet_deployed m i task wallet s = (if i \<in> set (rg_completed (po_runs s)) then settle_kyc m i task (Inl abandoned) ?s
      else ?s\<lparr>po_tasks := (po_tasks s)(i \<mapsto> task\<lparr>kt_phase := Piping c\<rparr>)\<rparr>)"
    unfolding wallet_deployed_def A_def c_def e by (simp split: option.split)
  have V: "verdicts_ok R (po_accounts s)" using ok by (simp add: portal_ok_def)
  have k: "keeps (po_accounts s) A" "verdicts_ok R A"
  proof -
    show "keeps (po_accounts s) A" unfolding A_def by (auto split: option.split intro: update_keeps)
    have "verdicts_ok R (snd (account_update ?a ?p (po_accounts s)))" if "ac_walletCAddr a = None"
      by (rule verdicts_update[OF V]) (use a that in \<open>auto simp: approved_by_def patched_def no_patch_def\<close>)
    then show "verdicts_ok R A" using V a by (auto simp: A_def split: option.split)
  qed
  have s: "portal_ok deps R C S ?s" by (rule portal_ok_same[OF ok]) (use k in \<open>auto simp: same_work_def same_runs_def\<close>)
  show ?thesis
  proof (cases "i \<in> set (rg_completed (po_runs s))")
    case True
    then show ?thesis unfolding t using settle_kyc_ok[OF s, of i task R "Inl abandoned"] task by simp
  next
    case False
    have led: "kyc_ledger (?s\<lparr>po_tasks := (po_tasks s)(i \<mapsto> task\<lparr>kt_phase := Piping c\<rparr>)\<rparr>) = kyc_ledger ?s"
      using task by (auto simp: kyc_ledger_def)
    then show ?thesis unfolding t using False s wallet
      by (auto simp: portal_ok_def registries_ok_def bounds_ok_def tasks_ok_def purchases_ok_def waiting_ok_def has_account_def purchase_ledger_def task_wallet_def)
  qed
qed

lemma purchase_end_ok:
  assumes ok: "portal_ok deps R C S s" and p: "po_purchases s i = Some p" "pu_open p"
  shows "portal_ok deps R C S (portal_step deps (PurchaseEnded m i outcome) s)"
proof -
  let ?t = "portal_step deps (PurchaseEnded m i outcome) s"
  have A: "verdicts_ok R (po_accounts ?t)" "keeps (po_accounts s) (po_accounts ?t)"
  proof -
    have v: "verdicts_ok R (po_accounts s)" using ok by (simp add: portal_ok_def)
    show "verdicts_ok R (po_accounts ?t)" "keeps (po_accounts s) (po_accounts ?t)"
      using v by (simp_all add: p onramp_moved_def onramp_completion_ok[OF v])
  qed
  have led: "purchase_ledger ?t = (purchase_ledger s)(i \<mapsto> (pu_account p, False))" "kyc_ledger ?t = kyc_ledger s"
    by (auto simp: p onramp_moved_def kyc_ledger_def purchase_ledger_def)
  have running: "purchase_ledger s i = Some (pu_account p, True)" using p by (simp add: purchase_ledger_def)
  have fields: "po_onrampRuns ?t = run_settle i outcome (po_onrampRuns s)" "po_runs ?t = po_runs s" "po_tasks ?t = po_tasks s" "po_waiting ?t = po_waiting s"
    "po_purchases ?t = (po_purchases s)(i \<mapsto> p\<lparr>pu_open := False\<rparr>)" by (simp_all add: p onramp_moved_def)
  have reg: "registry_ok (purchase_ledger s) C (S OnrampRuns) (po_onrampRuns s)" using ok by (simp add: portal_ok_def registries_ok_def)
  have "registries_ok C S ?t" using ok registry_ok_settle[OF reg running] unfolding portal_ok_def registries_ok_def led fields by simp
  moreover have "bounds_ok deps ?t"
    by (rule bounds_mono) (use ok step_open[of "Settle i outcome"] in \<open>auto simp: portal_ok_def fields simp del: portal_step.simps\<close>)
  moreover have "purchases_ok ?t"
    unfolding purchases_ok_def fields
    using ok p(1) has_account_keeps[OF _ A(2)] by (auto simp: portal_ok_def purchases_ok_def simp del: portal_step.simps split: if_splits)
  ultimately show ?thesis
    using ok work_keeps[OF A(2)] A(1) fields unfolding portal_ok_def by blast
qed

end
