(* ===== verification/PortalRuns.thy ===== *)
theory PortalRuns
imports PortalFacts
begin

text \<open>
  What holds after any run of the portal: whose streams carry what, how many runs are open, whose verdicts
  stand on which verification, and that the wallet of an account never changes.
\<close>

section \<open>The invariant\<close>

lemma registry_drives:
  assumes "portal_ok deps R C S s" "registry_ok (kyc_ledger s) C (S KycRuns) g" "\<And>P. open_runs P g \<le> open_runs P (po_runs s)"
  shows "portal_ok deps R C S (s\<lparr>po_runs := g\<rparr>)"
  using assms bounds_mono[of deps s "s\<lparr>po_runs := g\<rparr>"]
  by (simp add: portal_ok_def registries_ok_def tasks_ok_def purchases_ok_def waiting_ok_def has_account_def kyc_ledger_def purchase_ledger_def)

lemma onramp_drives:
  assumes "portal_ok deps R C S s" "registry_ok (purchase_ledger s) C (S OnrampRuns) g" "\<And>P. open_runs P g \<le> open_runs P (po_onrampRuns s)"
  shows "portal_ok deps R C S (s\<lparr>po_onrampRuns := g\<rparr>)"
  using assms bounds_mono[of deps s "s\<lparr>po_onrampRuns := g\<rparr>"]
  by (simp add: portal_ok_def registries_ok_def tasks_ok_def purchases_ok_def waiting_ok_def has_account_def kyc_ledger_def purchase_ledger_def)

lemma drive_open: "open_runs P (run_emit i x g) \<le> open_runs P g" "open_runs P (run_timeout i g) \<le> open_runs P g" "open_runs P (run_evict i g) \<le> open_runs P g"
  using step_open[of "Emit i x" P g] step_open[of "Timeout i" P g] step_open[of "Evict i" P g] by simp_all

lemma portal_ok_registries: "portal_ok deps R C S s \<Longrightarrow> registry_ok (kyc_ledger s) C (S KycRuns) (po_runs s) \<and> registry_ok (purchase_ledger s) C (S OnrampRuns) (po_onrampRuns s)"
  by (simp add: portal_ok_def registries_ok_def)

text \<open>A timeout calls the callback with an error, which changes no account.\<close>

lemma kyc_errors: "(\<And>j c. (j, c) \<in> set cs \<Longrightarrow> rc_result c = None) \<Longrightarrow> fold (\<lambda>(j, c). kyc_completion m i c) cs A = A"
proof (induction cs)
  case (Cons x cs)
  obtain j c where x: "x = (j, c)" by (cases x)
  then have "rc_result c = None" using Cons.prems by auto
  then have one: "kyc_completion m i c A = A" by (simp add: kyc_completion_def split: option.split)
  have "fold (\<lambda>(j, c). kyc_completion m i c) cs A = A" by (rule Cons.IH) (rule Cons.prems, rule list.set_intros(2))
  then show ?case using one by (simp add: x)
qed simp

lemma onramp_errors: "(\<And>j c. (j, c) \<in> set cs \<Longrightarrow> rc_result c = None) \<Longrightarrow> fold (\<lambda>(j, c). onramp_completion m i c) cs A = A"
proof (induction cs)
  case (Cons x cs)
  obtain j c where x: "x = (j, c)" by (cases x)
  then have "rc_result c = None" using Cons.prems by auto
  then have one: "onramp_completion m i c A = A" by (simp add: onramp_completion_def)
  have "fold (\<lambda>(j, c). onramp_completion m i c) cs A = A" by (rule Cons.IH) (rule Cons.prems, rule list.set_intros(2))
  then show ?case using one by (simp add: x)
qed simp

lemma timeout_moves:
  "kyc_moved m a (run_timeout i (po_runs s)) s = s\<lparr>po_runs := run_timeout i (po_runs s)\<rparr>"
  "onramp_moved m a (run_timeout i (po_onrampRuns s)) s = s\<lparr>po_onrampRuns := run_timeout i (po_onrampRuns s)\<rparr>"
  by (simp_all add: kyc_moved_def onramp_moved_def kyc_errors[OF timeout_completions] onramp_errors[OF timeout_completions])

text \<open>What has been verified: account, wallet and transaction of every pipeline that ended with one.\<close>

fun verifications :: "PortalApiDeps \<Rightarrow> portal \<Rightarrow> portal_event list \<Rightarrow> (string \<times> string \<times> string) set" where
  "verifications deps boot [] = {}"
| "verifications deps boot (PipelineEnded m i (Inr r) # log) =
     {(kt_account t, w, tx) | t w tx. po_tasks (portal_state deps boot log) i = Some t \<and> kt_phase t = Piping w \<and> ob_txHash r = Some tx}
       \<union> verifications deps boot log"
| "verifications deps boot (_ # log) = verifications deps boot log"

text \<open>The verdicts the portal booted with.\<close>

definition stored_verdict :: "AccountStore \<Rightarrow> string \<Rightarrow> string \<Rightarrow> string \<Rightarrow> bool" where
  "stored_verdict A i w tx = (\<exists>a. account_get A i = Some a \<and> ak_status (ac_kyc a) = KycApproved \<and> ac_walletCAddr a = Some w \<and> ak_txHash (ac_kyc a) = Some tx)"

definition ground :: "PortalApiDeps \<Rightarrow> portal \<Rightarrow> portal_event list \<Rightarrow> string \<Rightarrow> string \<Rightarrow> string \<Rightarrow> bool" where
  "ground deps boot log i w tx = (stored_verdict (po_accounts boot) i w tx \<or> (i, w, tx) \<in> verifications deps boot log)"

text \<open>What a portal may boot with: accounts under their ids, the approved ones with a wallet and a transaction.\<close>

definition stored_ok :: "AccountStore \<Rightarrow> bool" where
  "stored_ok A = verdicts_ok (stored_verdict A) A"

lemma boot_accounts [simp]: "po_accounts (portal_boot A ss) = A"
  by (simp add: portal_boot_def)

lemma no_open_runs [simp]: "open_runs P (new_registry t) = 0"
  by (simp add: open_runs_def new_registry_def)

lemma boot_ok:
  assumes "stored_ok A"
  shows "portal_ok deps (ground deps (portal_boot A ss) []) {} (\<lambda>k. {}) (portal_boot A ss)"
proof -
  have g: "ground deps (portal_boot A ss) [] = stored_verdict A" by (auto simp: ground_def portal_boot_def fun_eq_iff)
  show ?thesis
    unfolding g using assms
    by (simp add: portal_ok_def registries_ok_def portal_boot_def kyc_ledger_def purchase_ledger_def registry_ok_new stored_ok_def
        bounds_ok_def tasks_ok_def purchases_ok_def waiting_ok_def)
qed

lemma ground_mono: "ground deps boot log i w tx \<Longrightarrow> ground deps boot (e # log) i w tx"
  by (cases "(deps, boot, e # log)" rule: verifications.cases) (auto simp: ground_def)

lemma connections_Cons: "connections (e # log) = (case e of Arrive m q \<Rightarrow> insert (mo_connection m) (connections log) | _ \<Rightarrow> connections log)"
  by (auto simp: connections_def split: portal_event.split)

lemma step_ok:
  assumes ok: "portal_ok deps (ground deps boot log) (connections log) (\<lambda>k. streams deps boot k log) s" and s: "s = portal_state deps boot log"
    and allowed: "portal_allowed log e s"
  shows "portal_ok deps (ground deps boot (e # log)) (connections (e # log)) (\<lambda>k. streams deps boot k (e # log)) (portal_step deps e s)"
proof -
  let ?R = "ground deps boot (e # log)" and ?C = "connections log" and ?S = "\<lambda>k. streams deps boot k log"
  have ok': "portal_ok deps ?R ?C ?S s"
    using ok verdicts_mono[of "ground deps boot log" "po_accounts s" ?R] ground_mono by (simp add: portal_ok_def)
  note reg = portal_ok_registries[OF ok', THEN conjunct1] portal_ok_registries[OF ok', THEN conjunct2]
  show ?thesis
  proof (cases e)
    case (Arrive m q)
    obtain r t where h: "handlePortalApi deps m q s = (r, t)" by fastforce
    have "portal_ok deps ?R (insert (mo_connection m) ?C) (\<lambda>k. stream_opened k r \<union> ?S k) (portal_step deps (Arrive m q) s)"
      using arrive_ok[OF ok' _ h] allowed Arrive by simp
    then show ?thesis using h s by (simp add: Arrive connections_Cons)
  next
    case (BodyRead m c)
    then show ?thesis using body_ok[OF ok'] allowed by (simp add: connections_Cons del: portal_step.simps)
  next
    case (RunnerStep k i x)
    show ?thesis
    proof (cases k)
      case KycRuns
      then obtain t :: kyc_task where t: "kyc_ledger s i = Some (kt_account t, True)" using allowed RunnerStep by (auto simp: kyc_ledger_def)
      then have "portal_ok deps ?R ?C ?S (s\<lparr>po_runs := run_emit i x (po_runs s)\<rparr>)"
        using registry_drives[OF ok' registry_ok_emit[OF reg(1) t] drive_open(1)] by simp
      then show ?thesis by (simp add: RunnerStep KycRuns connections_Cons)
    next
      case OnrampRuns
      then obtain p :: purchase where p: "purchase_ledger s i = Some (pu_account p, True)" using allowed RunnerStep by (auto simp: purchase_ledger_def)
      then have "portal_ok deps ?R ?C ?S (s\<lparr>po_onrampRuns := run_emit i x (po_onrampRuns s)\<rparr>)"
        using onramp_drives[OF ok' registry_ok_emit[OF reg(2) p] drive_open(1)] by simp
      then show ?thesis by (simp add: RunnerStep OnrampRuns connections_Cons)
    qed
  next
    case (WalletDeployed m i w)
    then show ?thesis using wallet_ok[OF ok'] allowed by (auto simp: connections_Cons)
  next
    case (WalletFailed m i message)
    then show ?thesis using settle_kyc_ok[OF ok', of i _ ?R "Inl message"] allowed by (auto simp: connections_Cons)
  next
    case (PipelineEnded m i r)
    then obtain t c where t: "po_tasks s i = Some t" "kt_phase t = Piping c" using allowed by auto
    have "portal_ok deps ?R ?C ?S (settle_kyc m i t r s)"
      by (rule settle_kyc_ok[OF ok']) (use t s PipelineEnded in \<open>auto simp: ground_def\<close>)
    then show ?thesis using t(1) by (cases r) (simp_all add: PipelineEnded connections_Cons)
  next
    case (PurchaseEnded m i r)
    then show ?thesis using purchase_end_ok[OF ok'] allowed by (auto simp: connections_Cons simp del: portal_step.simps)
  next
    case (RunTimedOut m k i)
    show ?thesis
    proof (cases k)
      case KycRuns
      have "portal_ok deps ?R ?C ?S (s\<lparr>po_runs := run_timeout i (po_runs s)\<rparr>)" if "po_tasks s i = Some t" for t
        using registry_drives[OF ok' registry_ok_timeout[OF reg(1), of i "kt_account t"] drive_open(2)] that by (simp add: kyc_ledger_def)
      then show ?thesis using ok' by (simp add: RunTimedOut KycRuns connections_Cons timeout_moves split: option.split)
    next
      case OnrampRuns
      have "portal_ok deps ?R ?C ?S (s\<lparr>po_onrampRuns := run_timeout i (po_onrampRuns s)\<rparr>)" if "po_purchases s i = Some p" for p
        using onramp_drives[OF ok' registry_ok_timeout[OF reg(2), of i "pu_account p"] drive_open(2)] that by (simp add: purchase_ledger_def)
      then show ?thesis using ok' by (simp add: RunTimedOut OnrampRuns connections_Cons timeout_moves split: option.split)
    qed
  next
    case (RunEvicted k i)
    show ?thesis
    proof (cases k)
      case KycRuns
      then have "portal_ok deps ?R ?C ?S (s\<lparr>po_runs := run_evict i (po_runs s)\<rparr>)"
        using registry_drives[OF ok' registry_ok_evict[OF reg(1)] drive_open(3)] allowed RunEvicted by simp
      then show ?thesis by (simp add: RunEvicted KycRuns connections_Cons)
    next
      case OnrampRuns
      then have "portal_ok deps ?R ?C ?S (s\<lparr>po_onrampRuns := run_evict i (po_onrampRuns s)\<rparr>)"
        using onramp_drives[OF ok' registry_ok_evict[OF reg(2)] drive_open(3)] allowed RunEvicted by simp
      then show ?thesis by (simp add: RunEvicted OnrampRuns connections_Cons)
    qed
  qed
qed

lemma run_keeps_ok:
  "portal_run deps (portal_boot A ss) log s \<Longrightarrow> stored_ok A
     \<Longrightarrow> portal_ok deps (ground deps (portal_boot A ss) log) (connections log) (\<lambda>k. streams deps (portal_boot A ss) k log) s"
proof (induction rule: portal_run.induct)
  case booted
  then show ?case using boot_ok by (simp add: connections_def)
next
  case (happens log s e)
  then show ?case using step_ok[OF _ portal_run_state] by blast
qed

section \<open>What stays from step to step\<close>

lemma kyc_completion_keeps: "keeps A (kyc_completion m i c A)"
  by (auto simp: kyc_completion_def Let_def no_patch_def split: option.split intro!: update_keeps)

lemma kyc_fold_keeps: "keeps A (fold (\<lambda>(j, c). kyc_completion m i c) cs A)"
proof (induction cs arbitrary: A)
  case (Cons x cs)
  show ?case using keeps_trans[OF kyc_completion_keeps Cons.IH] by (cases x) simp
qed simp

lemma onramp_completion_keeps: "keeps A (onramp_completion m i c A)"
  by (auto simp: onramp_completion_def no_patch_def split: option.split intro!: update_keeps)

lemma onramp_fold_keeps: "keeps A (fold (\<lambda>(j, c). onramp_completion m i c) cs A)"
proof (induction cs arbitrary: A)
  case (Cons x cs)
  show ?case using keeps_trans[OF onramp_completion_keeps Cons.IH] by (cases x) simp
qed simp

lemma settle_keeps: "keeps (po_accounts s) (po_accounts (settle_kyc m i t r s))"
  by (simp add: settle_kyc_def kyc_moved_def kyc_fold_keeps)

lemma wallet_keeps: "keeps (po_accounts s) (po_accounts (wallet_deployed m i t w s))"
proof (cases "Option.bind (account_get (po_accounts s) (kt_account t)) ac_walletCAddr")
  case (Some c)
  then show ?thesis using settle_keeps[of s m i t] by (auto simp: wallet_deployed_def)
next
  case None
  let ?p = "no_patch\<lparr>ap_walletCAddr := Some (wr_address w), ap_walletKeyId := Some (wr_keyId w), ap_walletDeployTxHash := Some (wr_deployTxHash w)\<rparr>"
  obtain r B where e: "account_update (kt_account t) ?p (po_accounts s) = (r, B)" by fastforce
  have B: "keeps (po_accounts s) B" using update_keeps[of ?p "po_accounts s" "kt_account t"] None e by simp
  have k: "keeps (po_accounts s) (po_accounts (settle_kyc m i t x (s\<lparr>po_accounts := B\<rparr>)))" for x
    using keeps_trans[OF B] settle_keeps[of "s\<lparr>po_accounts := B\<rparr>" m i t x] by simp
  show ?thesis unfolding wallet_deployed_def None e by (cases r) (auto simp: k B)
qed

lemma pending_keeps: "same_or_pending s t \<Longrightarrow> keeps (po_accounts s) (po_accounts t)"
  by (auto simp: same_or_pending_def no_patch_def intro!: update_keeps)

lemma created_keeps: "same_or_created m s t \<Longrightarrow> account_get (po_accounts s) (mo_id m) = None \<Longrightarrow> keeps (po_accounts s) (po_accounts t)"
  using pending_keeps by (auto simp: same_or_created_def keeps_def)

lemma body_keeps:
  assumes "body_effect deps m w s t" "account_get (po_accounts s) (mo_id m) = None"
  shows "keeps (po_accounts s) (po_accounts t)"
  using assms created_keeps pending_keeps
  by (auto simp: body_effect_def starts_kyc_def starts_purchase_def start_kyc_run_def)

lemma arrive_frame:
  assumes "handlePortalApi deps m q s = (r, t)"
  shows "same_work s t" "keeps (po_accounts s) (po_accounts t)"
  using handle_effect[of deps m q s] pending_keeps by (auto simp: assms route_effect_def)

lemma step_keeps:
  assumes "portal_allowed log e s"
  shows "keeps (po_accounts s) (po_accounts (portal_step deps e s))"
proof (cases e)
  case (Arrive m q)
  obtain r t where h: "handlePortalApi deps m q s = (r, t)" by fastforce
  show ?thesis using arrive_frame(2)[OF h] by (simp add: Arrive h split: sum.split)
next
  case (BodyRead m c)
  have "keeps (po_accounts s) (po_accounts (snd (body_read deps m q w (s\<lparr>po_waiting := W\<rparr>))))" for q w W
    using body_keeps[OF body_read_effect[of deps m w "s\<lparr>po_waiting := W\<rparr>" q]] assms by (simp add: BodyRead)
  then show ?thesis by (simp add: BodyRead split: option.split prod.split)
next
  case (RunnerStep k i x)
  then show ?thesis by (cases k) simp_all
next
  case (RunTimedOut m k i)
  then show ?thesis by (cases k) (simp_all add: timeout_moves split: option.split)
next
  case (RunEvicted k i)
  then show ?thesis by (cases k) simp_all
next
  case (PurchaseEnded m i r)
  then show ?thesis by (simp add: onramp_moved_def onramp_fold_keeps split: option.split)
qed (simp_all add: wallet_keeps settle_keeps split: option.split)

text \<open>A run stays the account's it was started for.\<close>

lemma wallet_ledgers: "po_tasks s i = Some t \<Longrightarrow> \<exists>u. po_tasks (wallet_deployed m i t w s) = (po_tasks s)(i \<mapsto> u) \<and> kt_account u = kt_account t"
  "po_purchases (wallet_deployed m i t w s) = po_purchases s"
  by (auto simp: wallet_deployed_def settle_kyc_def kyc_moved_def split: option.split prod.split sum.split)

lemma body_ledgers:
  assumes "body_effect deps m w s t" "po_tasks s (mo_runId m) = None" "po_purchases s (mo_runId m) = None"
  shows "po_tasks s i = Some x \<Longrightarrow> po_tasks t i = Some x" "po_purchases s i = Some p \<Longrightarrow> po_purchases t i = Some p"
  using assms by (auto simp: body_effect_def same_work_def starts_kyc_def starts_purchase_def start_kyc_run_def)

lemma step_task:
  assumes "portal_allowed log e s" "po_tasks s i = Some x"
  shows "\<exists>y. po_tasks (portal_step deps e s) i = Some y \<and> kt_account y = kt_account x"
proof (cases e)
  case (Arrive m q)
  obtain r t where h: "handlePortalApi deps m q s = (r, t)" by fastforce
  show ?thesis using arrive_frame(1)[OF h] assms(2) by (auto simp: Arrive h same_work_def split: sum.split)
next
  case (BodyRead m c)
  have "po_tasks (snd (body_read deps m q w (s\<lparr>po_waiting := W\<rparr>))) i = Some x" for q w W
    using body_ledgers(1)[OF body_read_effect[of deps m w "s\<lparr>po_waiting := W\<rparr>" q], of i x] assms by (simp add: BodyRead)
  then show ?thesis using assms(2) by (auto simp: BodyRead split: option.split prod.split)
next
  case (RunnerStep k j y)
  then show ?thesis using assms(2) by (cases k) simp_all
next
  case (RunTimedOut m k j)
  then show ?thesis using assms(2) by (cases k) (auto simp: timeout_moves split: option.split)
next
  case (RunEvicted k j)
  then show ?thesis using assms(2) by (cases k) simp_all
next
  case (WalletDeployed m j w)
  then obtain t where t: "po_tasks s j = Some t" using assms(1) by auto
  then show ?thesis using wallet_ledgers(1)[OF t, of m w] assms(2) by (auto simp: WalletDeployed)
qed (use assms in \<open>auto simp: settle_kyc_def kyc_moved_def onramp_moved_def\<close>)

lemma step_purchase:
  assumes "portal_allowed log e s" "po_purchases s i = Some x"
  shows "\<exists>y. po_purchases (portal_step deps e s) i = Some y \<and> pu_account y = pu_account x"
proof (cases e)
  case (Arrive m q)
  obtain r t where h: "handlePortalApi deps m q s = (r, t)" by fastforce
  show ?thesis using arrive_frame(1)[OF h] assms(2) by (auto simp: Arrive h same_work_def split: sum.split)
next
  case (BodyRead m c)
  have "po_purchases (snd (body_read deps m q w (s\<lparr>po_waiting := W\<rparr>))) i = Some x" for q w W
    using body_ledgers(2)[OF body_read_effect[of deps m w "s\<lparr>po_waiting := W\<rparr>" q], of i x] assms by (simp add: BodyRead)
  then show ?thesis using assms(2) by (auto simp: BodyRead split: option.split prod.split)
next
  case (RunnerStep k j y)
  then show ?thesis using assms(2) by (cases k) simp_all
next
  case (RunTimedOut m k j)
  then show ?thesis using assms(2) by (cases k) (auto simp: timeout_moves split: option.split)
next
  case (RunEvicted k j)
  then show ?thesis using assms(2) by (cases k) simp_all
qed (use assms in \<open>auto simp: settle_kyc_def kyc_moved_def onramp_moved_def wallet_ledgers\<close>)

lemma portal_run_suffix: "portal_run deps boot (later @ earlier) s \<Longrightarrow> portal_run deps boot earlier (portal_state deps boot earlier)"
proof (induction later arbitrary: s)
  case Nil
  then show ?case using portal_run_state by fastforce
next
  case (Cons e later)
  then show ?case by (auto elim: portal_run_ConsE)
qed

lemma later_state:
  assumes "portal_run deps boot (later @ earlier) s"
  shows "keeps (po_accounts (portal_state deps boot earlier)) (po_accounts s)"
    "po_tasks (portal_state deps boot earlier) i = Some x \<Longrightarrow> \<exists>y. po_tasks s i = Some y \<and> kt_account y = kt_account x"
    "po_purchases (portal_state deps boot earlier) i = Some p \<Longrightarrow> \<exists>y. po_purchases s i = Some y \<and> pu_account y = pu_account p"
  using assms
proof (induction later arbitrary: s)
  case Nil
  { case 1 then show ?case using portal_run_state by fastforce }
  { case 2 then show ?case using portal_run_state by fastforce }
  { case 3 then show ?case using portal_run_state by fastforce }
next
  case (Cons e later)
  { case 1
    then obtain t where t: "portal_run deps boot (later @ earlier) t" "portal_allowed (later @ earlier) e t" "s = portal_step deps e t"
      by (auto elim: portal_run_ConsE)
    then show ?case using keeps_trans[OF Cons.IH(1)[OF t(1)] step_keeps[OF t(2)]] by simp }
  { case 2
    then obtain t where t: "portal_run deps boot (later @ earlier) t" "portal_allowed (later @ earlier) e t" "s = portal_step deps e t"
      by (auto elim: portal_run_ConsE)
    then show ?case using Cons.IH(2)[OF 2(1) t(1)] step_task[OF t(2)] by metis }
  { case 3
    then obtain t where t: "portal_run deps boot (later @ earlier) t" "portal_allowed (later @ earlier) e t" "s = portal_step deps e t"
      by (auto elim: portal_run_ConsE)
    then show ?case using Cons.IH(3)[OF 3(1) t(1)] step_purchase[OF t(2)] by metis }
qed

section \<open>Helpers of the properties\<close>

lemma opened_by_owner:
  assumes "handlePortalApi deps m q s = (Inl (EventStream kind i l), t)" "verdicts_ok R (po_accounts s)"
  shows "\<exists>token\<in>set (cookies_of q). \<exists>owner d. fst (portal_session_resolve (pd_sha deps) token (seconds m) (po_sessions s)) = Some owner
     \<and> (case kind of KycRuns \<Rightarrow> run_describe (po_runs s) i = Some (owner, d) | OnrampRuns \<Rightarrow> run_describe (po_onrampRuns s) i = Some (owner, d))"
proof -
  have own: "\<exists>token\<in>set (cookies_of q). fst (portal_session_resolve (pd_sha deps) token (seconds m) (po_sessions s)) = Some (ac_id a)"
    if "signed_in_as deps m q s a" for a
    using that assms(2) by (fastforce simp: signed_in_as_def verdicts_ok_def)
  have cases: "(\<exists>a. kind = KycRuns \<and> signed_in_as deps m q s a \<and> opens_stream m i (ac_id a) (po_runs s) (po_runs t))
      \<or> (\<exists>a. kind = OnrampRuns \<and> signed_in_as deps m q s a \<and> opens_stream m i (ac_id a) (po_onrampRuns s) (po_onrampRuns t))"
    using handle_effect[of deps m q s] unfolding assms(1) route_effect_def prod.case by (auto simp: no_stream_def)
  then show ?thesis
  proof (elim disjE exE conjE)
    fix a assume "kind = KycRuns" "signed_in_as deps m q s a" "opens_stream m i (ac_id a) (po_runs s) (po_runs t)"
    then show ?thesis using own[of a] by (auto simp: opens_stream_def)
  next
    fix a assume "kind = OnrampRuns" "signed_in_as deps m q s a" "opens_stream m i (ac_id a) (po_onrampRuns s) (po_onrampRuns t)"
    then show ?thesis using own[of a] by (auto simp: opens_stream_def)
  qed
qed

lemma described_account: "registry_ok T C S g \<Longrightarrow> run_describe g i = Some (a, d) \<Longrightarrow> \<exists>b. T i = Some (a, b)"
  using run_of_account[of T C S g i] by (auto simp: run_describe_def)

text \<open>The account a stream was opened for is the account of its run at any later time.\<close>

lemma stream_owner:
  assumes ok: "portal_ok deps R C S s" and run: "portal_run deps boot (later @ earlier) s"
    and ok0: "portal_ok deps R0 C0 S0 (portal_state deps boot earlier)" "run_describe (po_runs (portal_state deps boot earlier)) i = Some (a, d)"
    and st: "map_get (rg_runs (po_runs s)) i = Some st"
  shows "rn_accountId st = a"
proof -
  obtain b where "kyc_ledger (portal_state deps boot earlier) i = Some (a, b)"
    using described_account[OF portal_ok_registries[OF ok0(1), THEN conjunct1] ok0(2)] by blast
  then obtain x where x: "po_tasks (portal_state deps boot earlier) i = Some x" "kt_account x = a" by (auto simp: kyc_ledger_def)
  obtain y where "po_tasks s i = Some y" "kt_account y = a" using later_state(2)[OF run x(1)] x(2) by blast
  then show ?thesis using run_of_account[OF portal_ok_registries[OF ok, THEN conjunct1] st] by (simp add: kyc_ledger_def)
qed

lemma streams_later: "streams deps boot k earlier \<subseteq> streams deps boot k (later @ earlier)"
proof (induction later)
  case (Cons e later)
  then show ?case by (cases e) auto
qed simp

text \<open>A run that settles with a result calls its callback.\<close>

lemma settle_calls: "drop (length (rg_completions g)) (rg_completions (run_settle i (Inr r) g)) = [(i, \<lparr> rc_result = Some r, rc_error = None, rc_late = i \<in> set (rg_completed g) \<rparr>)]"
  by (simp add: run_settle_def run_finish_def Let_def)

lemma settled_inactive:
  assumes "registry_ok T C S g" "T i = Some (a, True)"
  shows "activeRunId (run_settle i r g) b \<noteq> Some i"
proof -
  obtain log where R: "registry_run None log g" and L: "ledger T C S log" using assms(1) by (auto simp: registry_ok_def)
  have "Start i a \<in> set log" "\<forall>r'. Settle i r' \<notin> set log" using ledgerD(4,5)[OF L] assms(2) by blast+
  then have "run_allowed log (Settle i r) g" by auto
  then have "registry_run None (Settle i r # log) (run_settle i r g)" using registry_run.act[OF R] by fastforce
  then have "i \<in> set (rg_completed (run_settle i r g)) \<and> runs_ok (starts (Settle i r # log)) (run_settle i r g)"
    using registry_runs_ok by (auto simp: run_settle_def run_finish_def Let_def split: sum.split)
  then show ?thesis using active_open by blast
qed

lemma count_drops:
  "map_get m k = Some old \<Longrightarrow> Q old \<Longrightarrow> \<not> Q v \<Longrightarrow> Suc (length (filter (Q \<circ> snd) (map_set k v m))) = length (filter (Q \<circ> snd) m)"
  unfolding map_set_def map_get_def by (induction m) (auto split: if_splits)

text \<open>An account whose one open run settles has none.\<close>

lemma settle_frees:
  assumes "registry_ok T C S g" "T i = Some (a, True)" "i \<notin> set (rg_completed g)" "open_runs (\<lambda>x. x = a) g \<le> 1"
  shows "activeRunId (run_settle i r g) a = None"
proof -
  obtain log where R: "registry_run None log g" and L: "ledger T C S log" using assms(1) by (auto simp: registry_ok_def)
  have "(i, a) \<in> starts log" using ledgerD(4)[OF L assms(2)] by (simp add: starts_def)
  with runs_okD(3)[OF registry_runs_ok[OF R] _ assms(3)] obtain st where st: "map_get (rg_runs g) i = Some st" "rn_accountId st = a" by blast
  then have live: "\<not> rn_done st" using runs_okD(2)[OF registry_runs_ok[OF R]] assms(3) by blast
  have "Suc (open_runs (\<lambda>x. x = a) (run_settle i r g)) = open_runs (\<lambda>x. x = a) g"
    unfolding settle_finish finish_first[OF assms(3)] open_runs_def
    by (simp add: publish_def st(1), rule count_drops[OF st(1)]) (simp_all add: st(2) live)
  then have none: "open_runs (\<lambda>x. x = a) (run_settle i r g) = 0" using assms(4) by simp
  then show ?thesis by (auto simp: activeRunId_def open_runs_def find_None_iff filter_empty_conv)
qed

lemma verified_approved:
  assumes "stored_ok A" "portal_run deps (portal_boot A ss) (PipelineEnded m i (Inr r) # log) s" "ob_txHash r = Some tx"
    and "po_tasks (portal_state deps (portal_boot A ss) log) i = Some t"
  shows "(\<exists>a. account_get (po_accounts s) (kt_account t) = Some a \<and> ak_status (ac_kyc a) = KycApproved \<and> ac_walletCAddr a \<noteq> None
       \<and> (i \<notin> set (rg_completed (po_runs (portal_state deps (portal_boot A ss) log))) \<longrightarrow> ak_txHash (ac_kyc a) = Some tx))
     \<and> (\<forall>b. activeRunId (po_runs s) b \<noteq> Some i)
     \<and> (i \<notin> set (rg_completed (po_runs (portal_state deps (portal_boot A ss) log))) \<longrightarrow> activeRunId (po_runs s) (kt_account t) = None)"
proof -
  let ?boot = "portal_boot A ss"
  obtain s0 where s0: "portal_run deps ?boot log s0" "portal_allowed log (PipelineEnded m i (Inr r)) s0" "s = portal_step deps (PipelineEnded m i (Inr r)) s0"
    using assms(2) by (auto elim: portal_run_ConsE)
  have t: "po_tasks s0 i = Some t" "s0 = portal_state deps ?boot log" using assms(4) portal_run_state[OF s0(1)] by auto
  then obtain c where c: "kt_phase t = Piping c" using s0(2) by auto
  have ok: "portal_ok deps (ground deps ?boot log) (connections log) (\<lambda>k. streams deps ?boot k log) s0" by (rule run_keeps_ok[OF s0(1) assms(1)])
  have "has_account s0 (kt_account t) (task_wallet t)" using ok t(1) by (simp add: portal_ok_def tasks_ok_def)
  then have "has_account s0 (kt_account t) (Some c)" by (simp add: task_wallet_def c)
  then obtain a where a: "account_get (po_accounts s0) (kt_account t) = Some a" "ac_walletCAddr a = Some c" by (auto simp: has_account_def)
  have led: "kyc_ledger s0 i = Some (kt_account t, True)" using t(1) c by (simp add: kyc_ledger_def)
  have inactive: "activeRunId (po_runs s) b \<noteq> Some i" for b
    using settled_inactive[OF portal_ok_registries[OF ok, THEN conjunct1] led, of "Inr r" b] s0(3) t(1) by (simp add: settle_kyc_def kyc_moved_def)
  have free: "activeRunId (po_runs s) (kt_account t) = None" if "i \<notin> set (rg_completed (po_runs s0))"
    using settle_frees[OF portal_ok_registries[OF ok, THEN conjunct1] led that, of "Inr r"] ok s0(3) t(1)
    by (simp add: settle_kyc_def kyc_moved_def portal_ok_def bounds_ok_def)
  have e: "po_accounts s = kyc_completion m (kt_account t) \<lparr> rc_result = Some r, rc_error = None, rc_late = i \<in> set (rg_completed (po_runs s0)) \<rparr> (po_accounts s0)"
    using s0(3) t(1) by (simp add: settle_kyc_def kyc_moved_def settle_calls)
  let ?late = "i \<in> set (rg_completed (po_runs s0))"
  have "\<exists>b. account_get (po_accounts s) (kt_account t) = Some b \<and> ak_status (ac_kyc b) = KycApproved \<and> ac_walletCAddr b \<noteq> None
      \<and> (\<not> ?late \<longrightarrow> ak_txHash (ac_kyc b) = Some tx)"
  proof (cases "?late \<and> ak_status (ac_kyc a) = KycApproved")
    case True
    then show ?thesis using a by (simp add: e kyc_completion_def)
  next
    case False
    then show ?thesis using a assms(3) by (auto simp: e kyc_completion_def update_get patched_def no_patch_def)
  qed
  then show ?thesis using inactive free t(2) by simp
qed

section \<open>Properties\<close>

text \<open>
  C31. Streams: a page is given the stream of a verification only when one of its cookies signs in the
  account the run belongs to; from then on, whatever happens in between, it has received exactly the
  frames of that run, in order, steps first and at most one outcome, last.
\<close>

theorem streams_exact:
  assumes "stored_ok A" "portal_run deps (portal_boot A ss) (later @ Arrive m q # earlier) s"
    and "handlePortalApi deps m q (portal_state deps (portal_boot A ss) earlier) = (Inl (EventStream KycRuns i l), t)"
    and "map_get (rg_runs (po_runs s)) i = Some st"
  shows "(\<exists>token\<in>set (cookies_of q). fst (portal_session_resolve (pd_sha deps) token (seconds m)
       (po_sessions (portal_state deps (portal_boot A ss) earlier))) = Some (rn_accountId st))
     \<and> rg_received (po_runs s) l = rn_events st \<and> frames_ok (rn_done st) (rn_events st)"
proof -
  let ?boot = "portal_boot A ss"
  have ok: "portal_ok deps (ground deps ?boot (later @ Arrive m q # earlier)) (connections (later @ Arrive m q # earlier))
      (\<lambda>k. streams deps ?boot k (later @ Arrive m q # earlier)) s" by (rule run_keeps_ok[OF assms(2,1)])
  have run: "portal_run deps ?boot ((later @ [Arrive m q]) @ earlier) s" using assms(2) by simp
  note ok0 = run_keeps_ok[OF portal_run_suffix[OF run] assms(1)]
  have "verdicts_ok (ground deps ?boot earlier) (po_accounts (portal_state deps ?boot earlier))" using ok0 by (simp add: portal_ok_def)
  from opened_by_owner[OF assms(3) this] obtain token owner d where o: "token \<in> set (cookies_of q)"
    "fst (portal_session_resolve (pd_sha deps) token (seconds m) (po_sessions (portal_state deps ?boot earlier))) = Some owner"
    "run_describe (po_runs (portal_state deps ?boot earlier)) i = Some (owner, d)" by auto
  have "rn_accountId st = owner" by (rule stream_owner[OF ok run ok0 o(3) assms(4)])
  moreover have "(i, l) \<in> streams deps ?boot KycRuns (later @ Arrive m q # earlier)"
    using streams_later[of deps ?boot KycRuns "Arrive m q # earlier" later] by (auto simp: assms(3) stream_opened_def)
  ultimately show ?thesis
    using o stream_frames[OF portal_ok_registries[OF ok, THEN conjunct1] _ assms(4)] by blast
qed

text \<open>
  C28. Nobody is approved for nothing: after any run of the portal an approved account has a wallet and
  a transaction, and that transaction is the one a verification of this account on this wallet ended with, or
  the one its file held at the start.
\<close>

theorem verdicts_have_ground:
  assumes "stored_ok A" "portal_run deps (portal_boot A ss) log s" "account_get (po_accounts s) i = Some a" "ak_status (ac_kyc a) = KycApproved"
  shows "\<exists>w tx. ac_walletCAddr a = Some w \<and> ak_txHash (ac_kyc a) = Some tx
     \<and> ((i, w, tx) \<in> verifications deps (portal_boot A ss) log \<or> stored_verdict A i w tx)"
proof -
  have "verdicts_ok (ground deps (portal_boot A ss) log) (po_accounts s)" using run_keeps_ok[OF assms(2,1)] by (simp add: portal_ok_def)
  then have "ac_id a = i" "approved_by (ground deps (portal_boot A ss) log) a" using assms(3) by (simp_all add: verdicts_ok_def)
  then show ?thesis using assms(4) unfolding approved_by_def ground_def boot_accounts by blast
qed

text \<open>
  C29. One wallet for life: once an account has a wallet it has that wallet after anything that follows,
  and every verification and every purchase under way for the account is for that wallet.
\<close>

theorem wallet_fixed:
  assumes "stored_ok A" "portal_run deps (portal_boot A ss) (later @ earlier) s"
    and "account_get (po_accounts (portal_state deps (portal_boot A ss) earlier)) i = Some a" "ac_walletCAddr a = Some w"
  shows "(\<exists>b. account_get (po_accounts s) i = Some b \<and> ac_walletCAddr b = Some w)
     \<and> (\<forall>j t c. po_tasks s j = Some t \<and> kt_account t = i \<and> kt_phase t = Piping c \<longrightarrow> c = w)
     \<and> (\<forall>j p. po_purchases s j = Some p \<and> pu_account p = i \<longrightarrow> pu_wallet p = w)"
proof -
  obtain b where b: "account_get (po_accounts s) i = Some b" "ac_walletCAddr b = Some w"
    using keepsD[OF later_state(1)[OF assms(2)] assms(3)] assms(4) by blast
  have ok: "tasks_ok s" "purchases_ok s" using run_keeps_ok[OF assms(2,1)] by (simp_all add: portal_ok_def)
  show ?thesis
    using b ok by (fastforce simp: tasks_ok_def purchases_ok_def has_account_def task_wallet_def)
qed

text \<open>
  C30. The open runs are bounded: an account never has two open verifications nor two open purchases,
  and all accounts together never have more open verifications than the configured maximum, three where
  none is set.
\<close>

theorem open_runs_bounded:
  assumes "stored_ok A" "portal_run deps (portal_boot A ss) log s"
  shows "length (filter (\<lambda>st. rn_accountId st = a \<and> \<not> rn_done st) (map snd (rg_runs (po_runs s)))) \<le> 1
     \<and> length (filter (\<lambda>st. rn_accountId st = a \<and> \<not> rn_done st) (map snd (rg_runs (po_onrampRuns s)))) \<le> 1
     \<and> activeCount (po_runs s) \<le> (case pd_maxActiveRuns deps of None \<Rightarrow> 3 | Some n \<Rightarrow> n)"
  using run_keeps_ok[OF assms(2,1)]
  by (auto simp: portal_ok_def bounds_ok_def open_runs_def filter_map activeCount_open[unfolded open_runs_def] activeCount_def max_active_def)

text \<open>
  C32. A verification that ends with a transaction counts, however late: once the pipeline of a run
  ended with one, the account is approved, with that transaction unless it was approved before and the
  run had been given up, and the run itself no longer keeps the account from starting another. Where the
  run had not been given up, the account has no open run left; after a late end a newer one may be open.
\<close>

theorem verified_is_approved:
  assumes "stored_ok A" "portal_run deps (portal_boot A ss) (PipelineEnded m i (Inr r) # log) s" "ob_txHash r = Some tx"
    and "po_tasks (portal_state deps (portal_boot A ss) log) i = Some t"
  shows "(\<exists>a. account_get (po_accounts s) (kt_account t) = Some a \<and> ak_status (ac_kyc a) = KycApproved \<and> ac_walletCAddr a \<noteq> None
       \<and> (i \<notin> set (rg_completed (po_runs (portal_state deps (portal_boot A ss) log))) \<longrightarrow> ak_txHash (ac_kyc a) = Some tx))
     \<and> (\<forall>b. activeRunId (po_runs s) b \<noteq> Some i)
     \<and> (i \<notin> set (rg_completed (po_runs (portal_state deps (portal_boot A ss) log))) \<longrightarrow> activeRunId (po_runs s) (kt_account t) = None)"
  by (rule verified_approved[OF assms])

section \<open>An example run\<close>

definition toy_deps :: PortalApiDeps where
  "toy_deps = \<lparr> pd_scrypt = toy_scrypt, pd_sha = (\<lambda>b. b), pd_gateContractId = ''CG'', pd_chain = JNull, pd_secureCookies = True,
     pd_maxActiveRuns = None, pd_chainEnabled = True \<rparr>"

definition toy_account :: AccountRecord where
  "toy_account = \<lparr> ac_id = ''u1'', ac_email = ''ann@mail.example'', ac_passwordHash = [], ac_createdAt = JInt 0, ac_walletCAddr = None, ac_walletKeyId = None,
     ac_walletDeployTxHash = None, ac_kyc = no_kyc, ac_fundingAccount = None, ac_onramp = None \<rparr>"

definition toy_sessions :: PortalSessionStore where
  "toy_sessions = \<lparr> pss_byHash = [(hashToken (\<lambda>b. b) ''t'', \<lparr> ss_tokenHash = hashToken (\<lambda>b. b) ''t'', ss_accountId = ''u1'', ss_expiresAt = 500 \<rparr>)],
     pss_durable = False, pss_file = None, pss_ttl = 86400 \<rparr>"

definition toy_moment :: "string \<Rightarrow> moment" where
  "toy_moment c = \<lparr> mo_ms = 9000, mo_id = ''u2'', mo_salt = [], mo_token = [], mo_runId = ''r'', mo_connection = c, mo_view = None, mo_onramp = None \<rparr>"

definition toy_body :: jsval where
  "toy_body = JObject [(''scenario'', JString ''approved''), (''applicant'', JObject [(''firstName'', JString ''A''), (''lastName'', JString ''B''),
     (''dateOfBirth'', JString ''1990-01-02''), (''country'', JString ''de''), (''documentNumber'', JString ''X12345'')])]"

definition toy_submit :: portal_request where
  "toy_submit = \<lparr> pq_method = Some ''POST'', pq_pathname = ''/api/kyc/submit'', pq_runId = None, pq_headers = [''cookie'' \<mapsto> HText ''portal_session=t''],
     pq_remote = None, pq_body = [Chunk (ref_utf8 (json_stringify toy_body)), StreamEnd] \<rparr>"

definition toy_stream :: portal_request where
  "toy_stream = \<lparr> pq_method = None, pq_pathname = ''/api/kyc/stream/'', pq_runId = Some ''r'', pq_headers = [''cookie'' \<mapsto> HText ''portal_session=t''],
     pq_remote = None, pq_body = [] \<rparr>"

definition toy_boot :: portal where
  "toy_boot = portal_boot (accounts_load (Some [toy_account])) toy_sessions"

lemma toy_fields [simp]: "ac_id toy_account = ''u1''" "ac_kyc toy_account = no_kyc" "ac_walletCAddr toy_account = None" "ac_email toy_account = ''ann@mail.example''"
  by (simp_all add: toy_account_def)

lemma toy_get: "account_get (accounts_load (Some [toy_account])) i = (if i = ''u1'' then Some toy_account else None)"
proof -
  have "accounts_load (Some [toy_account]) = account_store [toy_account] (Some [toy_account])" by (rule load_store) simp_all
  then show ?thesis by (simp add: account_get_def account_store_def map_get_def)
qed

lemma toy_stored: "stored_ok (accounts_load (Some [toy_account]))"
  by (simp add: stored_ok_def verdicts_ok_def toy_get approved_by_def no_kyc_def)

lemma toy_cookies: "cookies_of toy_submit = [''t'']" "cookies_of toy_stream = [''t'']"
  by (simp_all add: cookies_of_def toy_submit_def toy_stream_def readSingleHeaderValue_def readCookies_def map_filter_def cookie_value_def
      before_def after_def js_trim_def js_space_def PORTAL_COOKIE_NAME_def)

lemma toy_routes: "route_key toy_submit = ''POST /api/kyc/submit''" "route_key toy_stream = ''GET /api/kyc/stream''"
  by (simp_all add: route_key_def toy_submit_def toy_stream_def js_upper_def js_upper_char_def strip_slashes_def)

lemma toy_resolve: "portal_session_resolve (pd_sha toy_deps) ''t'' (seconds (toy_moment c)) toy_sessions = (Some ''u1'', toy_sessions)"
  by (simp add: portal_session_resolve_def toy_deps_def toy_sessions_def map_get_def seconds_def toy_moment_def)

lemma body_parses:
  assumes "hs ''content-length'' = None" "plain v" "is_object v" "length (ref_utf8 (json_stringify v)) \<le> MAX_BODY_BYTES"
  shows "readJsonBody hs [Chunk (ref_utf8 (json_stringify v)), StreamEnd] = Some (Inr v)"
proof -
  obtain kvs where "v = JObject kvs" using assms(3) by (cases v) auto
  then have "ref_utf8 (json_stringify v) \<noteq> []" by (simp add: Let_def)
  then show ?thesis
    using assms json_parse_stringify[OF assms(2)] by (simp add: readJsonBody_def captureBody_def readSingleHeaderValue_def utf8_text_ref)
qed

lemma toy_text: "length (ref_utf8 (json_stringify toy_body)) \<le> 1000" "plain toy_body"
  by (simp_all add: toy_body_def json_quote_def quote_char_def code_def printable_ascii_def)

lemma toy_submitted: "handlePortalApi toy_deps (toy_moment c) toy_submit toy_boot = (Inr (AtSubmit toy_account), toy_boot)"
  by (simp add: handlePortalApi_def toy_routes with_account_def requireAccount_def toy_cookies toy_boot_def portal_boot_def toy_resolve toy_get)

definition toy_applicant :: Applicant where
  "toy_applicant = \<lparr> ap_givenName = ''A'', ap_familyName = ''B'', ap_dateOfBirth = ''1990-01-02'', ap_documentNumber = ''X12345'', ap_residenceCountry = ''DE'' \<rparr>"

lemma toy_country: "js_upper ''de'' = ''DE''"
  by code_simp

lemma toy_answers: "parseApplicant (jget ''applicant'' toy_body) = Inr toy_applicant" "parseDisclosure (jget ''disclose'' toy_body) = Inr [Over18, NotSanctioned]"
  "requireStringField toy_body ''scenario'' = Inr ''approved''"
  by (simp_all add: toy_body_def toy_applicant_def parseApplicant_def requireStringField_def toy_country ISO_DATE_RE_def date_parses_def
      ALPHA2_RE_def parseDisclosure_def DEFAULT_DISCLOSURE_def is_digit_def undec_def digit_val_def)

definition toy_wallet_result :: wallet_result where
  "toy_wallet_result = \<lparr> wr_address = ''CW'', wr_keyId = ''k'', wr_deployTxHash = ''d'' \<rparr>"

definition toy_result :: OnboardingResult where
  "toy_result = \<lparr> ob_ok = True, ob_subject = ''CW'', ob_txHash = Some ''tx'', ob_claimBitmap = None, ob_revocationIndex = None \<rparr>"

definition toy_asked :: portal where
  "toy_asked = toy_boot\<lparr>po_waiting := [''c1'' \<mapsto> (toy_submit, AtSubmit toy_account)]\<rparr>"

lemma toy_asked: "portal_step toy_deps (Arrive (toy_moment ''c1'') toy_submit) toy_boot = toy_asked"
  by (simp add: toy_submitted toy_asked_def) (simp add: toy_boot_def portal_boot_def toy_moment_def)

definition toy_pending :: AccountRecord where
  "toy_pending = toy_account\<lparr>ac_kyc := no_kyc\<lparr>ak_status := KycPending\<rparr>\<rparr>"

definition toy_started :: portal where
  "toy_started = start_kyc_run (toy_moment ''c2'') toy_account True toy_applicant [Over18, NotSanctioned]
     (toy_boot\<lparr>po_submit := snd (exceeded ''unknown'' 9000 submitLimiter),
        po_accounts := snd (account_update ''u1'' (no_patch\<lparr>ap_kyc := Some (no_kyc\<lparr>ak_status := KycPending\<rparr>)\<rparr>) (po_accounts toy_boot))\<rparr>)"

lemma toy_started: "portal_step toy_deps (BodyRead (toy_moment ''c2'') ''c1'') toy_asked = toy_started"
proof -
  have body: "readJsonBody (pq_headers toy_submit) (pq_body toy_submit) = Some (Inr toy_body)"
    using body_parses[of "pq_headers toy_submit" toy_body] toy_text by (simp add: toy_submit_def MAX_BODY_BYTES_def toy_body_def)
  have who: "caller toy_submit = ''unknown''" by (simp add: caller_def clientIp_def first_hop_def toy_submit_def)
  obtain X where fits: "exceeded ''unknown'' 9000 submitLimiter = (False, X)"
    by (simp add: exceeded_def submitLimiter_def new_limiter_def map_get_def)
  let ?p = "no_patch\<lparr>ap_kyc := Some (no_kyc\<lparr>ak_status := KycPending\<rparr>)\<rparr>"
  obtain U where upd: "account_update ''u1'' ?p (accounts_load (Some [toy_account])) = (Inr (patched ?p toy_account), U)"
    using update_result[of "''u1''" ?p "accounts_load (Some [toy_account])"] by (cases "account_update ''u1'' ?p (accounts_load (Some [toy_account]))") (simp add: toy_get)
  have idle: "activeRunId (new_registry None) a = None" "activeCount (new_registry None) = 0" for a
    by (simp_all add: new_registry_def activeRunId_def activeCount_def)
  show ?thesis
    unfolding toy_asked_def toy_started_def
    by (simp add: body_read_def body submit_body_def toy_answers toy_deps_def who toy_boot_def portal_boot_def toy_moment_def fits idle set_pending_def upd)
qed

lemma toy_running: "po_tasks toy_started ''r'' = Some \<lparr> kt_account = ''u1'', kt_userName = ''ann@mail.example'', kt_green = True, kt_applicant = toy_applicant,
     kt_disclose = [Over18, NotSanctioned], kt_phase = Deploying \<rparr>"
  by (simp add: toy_started_def start_kyc_run_def toy_moment_def begin_runner_def update_get toy_boot_def portal_boot_def toy_get patched_def no_patch_def)

definition toy_task :: "runner_phase \<Rightarrow> kyc_task" where
  "toy_task x = \<lparr> kt_account = ''u1'', kt_userName = ''ann@mail.example'', kt_green = True, kt_applicant = toy_applicant, kt_disclose = [Over18, NotSanctioned], kt_phase = x \<rparr>"

definition toy_funded :: portal where
  "toy_funded = portal_step toy_deps (RunnerStep KycRuns ''r'' JNull) (portal_step toy_deps (WalletDeployed (toy_moment ''c3'') ''r'' toy_wallet_result) toy_started)"

definition toy_frames :: "OnboardingResult registry" where
  "toy_frames = run_emit ''r'' JNull (run_start ''r'' ''u1'' (new_registry None))"

lemma toy_funded:
  "po_runs toy_funded = toy_frames" "po_tasks toy_funded ''r'' = Some (toy_task (Piping ''CW''))" "po_sessions toy_funded = toy_sessions"
  "\<exists>a. account_get (po_accounts toy_funded) ''u1'' = Some a \<and> ac_id a = ''u1'' \<and> ac_walletCAddr a = Some ''CW''"
proof -
  have get: "account_get (po_accounts toy_started) ''u1'' = Some toy_pending"
    by (simp add: toy_started_def start_kyc_run_def update_get toy_boot_def portal_boot_def toy_get patched_def no_patch_def toy_pending_def)
  have fields: "po_runs toy_started = run_start ''r'' ''u1'' (new_registry None)" "po_sessions toy_started = toy_sessions"
    by (simp_all add: toy_started_def start_kyc_run_def toy_boot_def portal_boot_def toy_moment_def)
  let ?p = "no_patch\<lparr>ap_walletCAddr := Some ''CW'', ap_walletKeyId := Some ''k'', ap_walletDeployTxHash := Some ''d''\<rparr>"
  obtain U where U: "account_update ''u1'' ?p (po_accounts toy_started) = (Inr (patched ?p toy_pending), U)"
    using update_result[of "''u1''" ?p "po_accounts toy_started"] by (cases "account_update ''u1'' ?p (po_accounts toy_started)") (simp add: get)
  have open_run: "''r'' \<notin> set (rg_completed (po_runs toy_started))" by (simp add: fields run_start_def new_registry_def)
  have f: "toy_funded = toy_started\<lparr>po_accounts := U, po_tasks := (po_tasks toy_started)(''r'' \<mapsto> toy_task (Piping ''CW'')), po_runs := toy_frames\<rparr>"
    using U open_run by (simp add: toy_funded_def toy_running wallet_deployed_def get toy_pending_def toy_wallet_result_def fields toy_frames_def toy_task_def)
  show "po_runs toy_funded = toy_frames" "po_tasks toy_funded ''r'' = Some (toy_task (Piping ''CW''))" "po_sessions toy_funded = toy_sessions"
    by (simp_all add: f fields)
  show "\<exists>a. account_get (po_accounts toy_funded) ''u1'' = Some a \<and> ac_id a = ''u1'' \<and> ac_walletCAddr a = Some ''CW''"
    using update_get[of "''u1''" ?p "po_accounts toy_started" "''u1''"] U by (simp add: f get patched_def no_patch_def toy_pending_def)
qed

lemma toy_portal_opens: "\<exists>t. handlePortalApi toy_deps (toy_moment ''c4'') toy_stream toy_funded = (Inl (EventStream KycRuns ''r'' ''c4''), t)
    \<and> po_runs t = snd (run_subscribe ''r'' ''u1'' ''c4'' toy_frames) \<and> po_tasks t = po_tasks toy_funded"
proof -
  obtain a where a: "account_get (po_accounts toy_funded) ''u1'' = Some a" "ac_id a = ''u1''" using toy_funded(4) by blast
  have d: "run_describe toy_frames ''r'' = Some (''u1'', False)"
    by (simp add: toy_frames_def run_describe_def run_emit_def publish_def run_start_def new_registry_def js_map.get_put)
  have f: "toy_funded\<lparr>po_sessions := toy_sessions\<rparr> = toy_funded" using toy_funded(3) by simp
  have q: "pq_runId toy_stream = Some ''r''" "mo_connection (toy_moment ''c4'') = ''c4''" by (simp_all add: toy_stream_def toy_moment_def)
  have "requireAccount toy_deps (toy_moment ''c4'') toy_stream toy_funded = (Inr a, toy_funded)"
    by (simp add: requireAccount_def toy_cookies toy_funded(3) toy_resolve a f)
  then show ?thesis by (simp add: handlePortalApi_def toy_routes with_account_def streamRun_def q toy_funded(1) d a(2))
qed

definition toy_log :: "portal_event list" where
  "toy_log = [RunnerStep KycRuns ''r'' JNull, WalletDeployed (toy_moment ''c3'') ''r'' toy_wallet_result, BodyRead (toy_moment ''c2'') ''c1'', Arrive (toy_moment ''c1'') toy_submit]"

lemma toy_run_to_stream:
  "portal_run toy_deps (portal_boot (accounts_load (Some [toy_account])) toy_sessions) toy_log toy_funded"
proof -
  note boot = portal_run.booted[of toy_deps toy_boot]
  have r1: "portal_run toy_deps toy_boot [Arrive (toy_moment ''c1'') toy_submit] toy_asked"
    using portal_run.happens[OF boot, of "Arrive (toy_moment ''c1'') toy_submit"] by (simp only: toy_asked) (simp add: connections_def)
  have r2: "portal_run toy_deps toy_boot [BodyRead (toy_moment ''c2'') ''c1'', Arrive (toy_moment ''c1'') toy_submit] toy_started"
    using portal_run.happens[OF r1, of "BodyRead (toy_moment ''c2'') ''c1''"] unfolding toy_started
    by (simp add: toy_asked_def toy_boot_def portal_boot_def toy_get toy_moment_def)
  have r3: "portal_run toy_deps toy_boot [WalletDeployed (toy_moment ''c3'') ''r'' toy_wallet_result, BodyRead (toy_moment ''c2'') ''c1'', Arrive (toy_moment ''c1'') toy_submit]
      (portal_step toy_deps (WalletDeployed (toy_moment ''c3'') ''r'' toy_wallet_result) toy_started)"
    by (rule portal_run.happens[OF r2]) (simp add: toy_running)
  have "po_tasks (portal_step toy_deps (WalletDeployed (toy_moment ''c3'') ''r'' toy_wallet_result) toy_started) ''r'' = Some (toy_task (Piping ''CW''))"
    using toy_funded(2) by (simp add: toy_funded_def)
  then have a: "portal_allowed [WalletDeployed (toy_moment ''c3'') ''r'' toy_wallet_result, BodyRead (toy_moment ''c2'') ''c1'', Arrive (toy_moment ''c1'') toy_submit] (RunnerStep KycRuns ''r'' JNull)
      (portal_step toy_deps (WalletDeployed (toy_moment ''c3'') ''r'' toy_wallet_result) toy_started)" by (simp add: toy_task_def del: portal_step.simps)
  show ?thesis using portal_run.happens[OF r3 a] unfolding toy_funded_def[symmetric] toy_boot_def toy_log_def .
qed

definition toy_end :: "portal_event list" where
  "toy_end = [PipelineEnded (toy_moment ''c5'') ''r'' (Inr toy_result)]"

definition toy_done :: portal where
  "toy_done = portal_state toy_deps (portal_boot (accounts_load (Some [toy_account])) toy_sessions) (toy_end @ Arrive (toy_moment ''c4'') toy_stream # toy_log)"

lemma toy_funded_state: "portal_state toy_deps (portal_boot (accounts_load (Some [toy_account])) toy_sessions) toy_log = toy_funded"
  using portal_run_state[OF toy_run_to_stream] by simp

lemma toy_run_done:
  "portal_run toy_deps (portal_boot (accounts_load (Some [toy_account])) toy_sessions) (toy_end @ Arrive (toy_moment ''c4'') toy_stream # toy_log) toy_done"
  "po_runs toy_done = run_settle ''r'' (Inr toy_result) (snd (run_subscribe ''r'' ''u1'' ''c4'' toy_frames))"
  "po_tasks (portal_state toy_deps (portal_boot (accounts_load (Some [toy_account])) toy_sessions) (Arrive (toy_moment ''c4'') toy_stream # toy_log)) ''r'' = Some (toy_task (Piping ''CW''))"
proof -
  let ?boot = "portal_boot (accounts_load (Some [toy_account])) toy_sessions"
  obtain t where t: "handlePortalApi toy_deps (toy_moment ''c4'') toy_stream toy_funded = (Inl (EventStream KycRuns ''r'' ''c4''), t)"
    "po_runs t = snd (run_subscribe ''r'' ''u1'' ''c4'' toy_frames)" "po_tasks t = po_tasks toy_funded" using toy_portal_opens by blast
  then have st: "portal_step toy_deps (Arrive (toy_moment ''c4'') toy_stream) toy_funded = t" by simp
  have r: "portal_run toy_deps ?boot (Arrive (toy_moment ''c4'') toy_stream # toy_log) t"
    using portal_run.happens[OF toy_run_to_stream, of "Arrive (toy_moment ''c4'') toy_stream"] unfolding st
    by (simp add: toy_log_def connections_def toy_moment_def)
  have tt: "po_tasks t ''r'' = Some (toy_task (Piping ''CW''))" using t(3) toy_funded(2) by simp
  have fin: "portal_run toy_deps ?boot (toy_end @ Arrive (toy_moment ''c4'') toy_stream # toy_log) (portal_step toy_deps (PipelineEnded (toy_moment ''c5'') ''r'' (Inr toy_result)) t)"
    unfolding toy_end_def append.simps by (rule portal_run.happens[OF r]) (simp add: tt toy_task_def)
  have d: "toy_done = portal_step toy_deps (PipelineEnded (toy_moment ''c5'') ''r'' (Inr toy_result)) t"
    unfolding toy_done_def portal_run_state[OF fin, symmetric] ..
  show "portal_run toy_deps ?boot (toy_end @ Arrive (toy_moment ''c4'') toy_stream # toy_log) toy_done" using fin d by simp
  show "po_runs toy_done = run_settle ''r'' (Inr toy_result) (snd (run_subscribe ''r'' ''u1'' ''c4'' toy_frames))"
    by (simp add: d tt settle_kyc_def kyc_moved_def t(2))
  show "po_tasks (portal_state toy_deps ?boot (Arrive (toy_moment ''c4'') toy_stream # toy_log)) ''r'' = Some (toy_task (Piping ''CW''))"
    using portal_run_state[OF r] tt by simp
qed

lemma toy_run_frames: "map_get (rg_runs (po_runs toy_done)) ''r'' = Some \<lparr> rn_id = ''r'', rn_accountId = ''u1'', rn_events = [StepFrame JNull, DoneFrame toy_result],
     rn_done = True, rn_listeners = [''c4''] \<rparr>"
  by (simp add: toy_run_done(2) toy_frames_def run_settle_def run_finish_def publish_def run_subscribe_def run_emit_def run_start_def new_registry_def
      js_map.get_put Let_def)

theorem streams_exact_witness: "rg_received (po_runs toy_done) ''c4'' = [StepFrame JNull, DoneFrame toy_result]"
proof -
  obtain t where t: "handlePortalApi toy_deps (toy_moment ''c4'') toy_stream toy_funded = (Inl (EventStream KycRuns ''r'' ''c4''), t)" using toy_portal_opens by blast
  show ?thesis using streams_exact[OF toy_stored toy_run_done(1) _ toy_run_frames, unfolded toy_funded_state, OF t] by simp
qed

lemma toy_approved: "\<exists>a. account_get (po_accounts toy_done) ''u1'' = Some a \<and> ak_status (ac_kyc a) = KycApproved"
  using verified_approved[OF toy_stored toy_run_done(1)[unfolded toy_end_def append.simps] _ toy_run_done(3), of "''tx''"]
  by (auto simp: toy_result_def toy_task_def)

theorem verdicts_have_ground_witness:
  "\<exists>w tx. (''u1'', w, tx) \<in> verifications toy_deps (portal_boot (accounts_load (Some [toy_account])) toy_sessions) (toy_end @ Arrive (toy_moment ''c4'') toy_stream # toy_log)"
proof -
  obtain a where a: "account_get (po_accounts toy_done) ''u1'' = Some a" "ak_status (ac_kyc a) = KycApproved" using toy_approved by blast
  have "\<not> stored_verdict (accounts_load (Some [toy_account])) i w tx" for i w tx by (simp add: stored_verdict_def toy_get no_kyc_def)
  then show ?thesis using verdicts_have_ground[OF toy_stored toy_run_done(1) a] by blast
qed

theorem wallet_fixed_witness: "\<exists>b. account_get (po_accounts toy_done) ''u1'' = Some b \<and> ac_walletCAddr b = Some ''CW''"
proof -
  obtain a where a: "account_get (po_accounts toy_funded) ''u1'' = Some a" "ac_walletCAddr a = Some ''CW''" using toy_funded(4) by blast
  have "portal_run toy_deps (portal_boot (accounts_load (Some [toy_account])) toy_sessions) ((toy_end @ [Arrive (toy_moment ''c4'') toy_stream]) @ toy_log) toy_done"
    using toy_run_done(1) by simp
  from wallet_fixed[OF toy_stored this, unfolded toy_funded_state, OF a] show ?thesis by blast
qed

theorem open_runs_bounded_witness: "activeCount (po_runs toy_funded) \<le> 3"
  using open_runs_bounded[OF toy_stored toy_run_to_stream] by (simp add: toy_deps_def)

theorem verified_is_approved_witness: "\<exists>a. account_get (po_accounts toy_done) ''u1'' = Some a \<and> ak_status (ac_kyc a) = KycApproved"
  using verified_is_approved[OF toy_stored toy_run_done(1)[unfolded toy_end_def append.simps] _ toy_run_done(3), of "''tx''"]
  by (auto simp: toy_result_def toy_task_def)

end
