(* ===== verification/Effects.thy ===== *)
theory Effects
imports Prelude "HOL-Library.Sublist"
begin

text \<open>
  Computations that act on the world: what a run has caused so far is a list of events, and every
  answer of the world is a function of it. A computation may fail with an error value, and may not
  end. The lemmas say what a computation adds to the events, for each way to combine two. The steps
  a run shows to the holder (\<open>DemoStep\<close> of \<open>scripts/demo/demo-flow.ts\<close>) are events; their titles
  and prose are left out.
\<close>

section \<open>Computations\<close>

record ('e, 's) run =
  ru_trace :: "'e list"
  ru_state :: 's

type_synonym ('e, 's, 'x, 'a) act = "('e, 's) run \<Rightarrow> (('x + 'a) \<times> ('e, 's) run) option"

definition ret :: "'a \<Rightarrow> ('e, 's, 'x, 'a) act" where
  "ret x s = Some (Inr x, s)"

definition throw :: "'x \<Rightarrow> ('e, 's, 'x, 'a) act" where
  "throw e s = Some (Inl e, s)"

definition seqA :: "('e, 's, 'x, 'a) act \<Rightarrow> ('a \<Rightarrow> ('e, 's, 'x, 'b) act) \<Rightarrow> ('e, 's, 'x, 'b) act" where
  "seqA m f s = (case m s of None \<Rightarrow> None | Some (Inl e, t) \<Rightarrow> Some (Inl e, t) | Some (Inr x, t) \<Rightarrow> f x t)"

definition try_else :: "('e, 's, 'x, 'a) act \<Rightarrow> ('e, 's, 'x, 'a) act \<Rightarrow> ('e, 's, 'x, 'a) act" where
  "try_else m h s = (case m s of Some (Inl e, t) \<Rightarrow> h t | r \<Rightarrow> r)"

text \<open>\<open>finally\<close>: the state is changed whatever the outcome.\<close>

definition finally_do :: "('e, 's, 'x, 'a) act \<Rightarrow> ('s \<Rightarrow> 's) \<Rightarrow> ('e, 's, 'x, 'a) act" where
  "finally_do m f s = (case m s of None \<Rightarrow> None | Some (r, t) \<Rightarrow> Some (r, t\<lparr>ru_state := f (ru_state t)\<rparr>))"

text \<open>An event and the answer to it.\<close>

definition ask :: "'e \<Rightarrow> ('e list \<Rightarrow> 'a) \<Rightarrow> ('e, 's, 'x, 'a) act" where
  "ask e answer s = Some (Inr (answer (ru_trace s)), s\<lparr>ru_trace := ru_trace s @ [e]\<rparr>)"

definition tell :: "'e \<Rightarrow> ('e, 's, 'x, unit) act" where
  "tell e = ask e (\<lambda>_. ())"

fun lift_result :: "'x + 'a \<Rightarrow> ('e, 's, 'x, 'a) act" where
  "lift_result (Inl e) = throw e"
| "lift_result (Inr x) = ret x"

definition read_state :: "('s \<Rightarrow> 'a) \<Rightarrow> ('e, 's, 'x, 'a) act" where
  "read_state f s = Some (Inr (f (ru_state s)), s)"

definition change_state :: "('s \<Rightarrow> 's) \<Rightarrow> ('e, 's, 'x, unit) act" where
  "change_state f s = Some (Inr (), s\<lparr>ru_state := f (ru_state s)\<rparr>)"

section \<open>Steps\<close>

datatype step_status = StepOk | StepFail | StepPending

record DemoStep =
  ds_id :: string
  ds_status :: step_status
  ds_txHash :: "string option"
  ds_explorerUrl :: "string option"
  ds_data :: "(string \<times> jsval) list option"

definition plain_step :: "string \<Rightarrow> (string \<times> jsval) list \<Rightarrow> DemoStep" where
  "plain_step i xs = \<lparr> ds_id = i, ds_status = StepOk, ds_txHash = None, ds_explorerUrl = None, ds_data = Some xs \<rparr>"

text \<open>The transaction of a step and its page in the explorer.\<close>

definition with_tx :: "string \<Rightarrow> string option \<Rightarrow> DemoStep \<Rightarrow> DemoStep" where
  "with_tx explorerBase tx d = (case tx of None \<Rightarrow> d
     | Some h \<Rightarrow> d\<lparr> ds_txHash := Some h, ds_explorerUrl := Some (explorerBase @ ''/tx/'' @ h) \<rparr>)"

lemma step_names [simp]: "ds_id (plain_step i xs) = i" "ds_id (with_tx c tx d) = ds_id d"
  by (simp_all add: plain_step_def with_tx_def split: option.splits)

section \<open>What a computation causes\<close>

text \<open>
  \<open>causes R m\<close>: when \<open>m\<close> ends, its result and the events it added satisfy \<open>R\<close>. \<open>only Q m\<close>: each of
  them satisfies \<open>Q\<close>. \<open>at_most c n m\<close>: no more than \<open>n\<close> of them satisfy \<open>c\<close>. \<open>returns m\<close>: it ends.
\<close>

definition causes :: "('x + 'a \<Rightarrow> 'e list \<Rightarrow> bool) \<Rightarrow> ('e, 's, 'x, 'a) act \<Rightarrow> bool" where
  "causes R m = (\<forall>s r t. m s = Some (r, t) \<longrightarrow> (\<exists>new. ru_trace t = ru_trace s @ new \<and> R r new))"

definition only :: "('e \<Rightarrow> bool) \<Rightarrow> ('e, 's, 'x, 'a) act \<Rightarrow> bool" where
  "only Q = causes (\<lambda>r. list_all Q)"

definition count_of :: "('e \<Rightarrow> bool) \<Rightarrow> 'e list \<Rightarrow> nat" where
  "count_of c tr = length (filter c tr)"

definition at_most :: "('e \<Rightarrow> bool) \<Rightarrow> nat \<Rightarrow> ('e, 's, 'x, 'a) act \<Rightarrow> bool" where
  "at_most c n = causes (\<lambda>r new. count_of c new \<le> n)"

definition keeps_state :: "('e, 's, 'x, 'a) act \<Rightarrow> bool" where
  "keeps_state m = (\<forall>s r t. m s = Some (r, t) \<longrightarrow> ru_state t = ru_state s)"

definition returns :: "('e, 's, 'x, 'a) act \<Rightarrow> bool" where
  "returns m = (\<forall>s. m s \<noteq> None)"

named_theorems act_intros

lemma causesE:
  assumes "causes R m" "m s = Some (r, t)"
  obtains new where "ru_trace t = ru_trace s @ new" "R r new"
  using assms unfolding causes_def by blast

lemma seqA_cases:
  assumes "seqA m f s = Some (r, t)"
  obtains e where "m s = Some (Inl e, t)" "r = Inl e" | x u where "m s = Some (Inr x, u)" "f x u = Some (r, t)"
proof (cases "m s")
  case None
  then show ?thesis using assms by (simp add: seqA_def)
next
  case (Some p)
  obtain q u where p: "p = (q, u)" by (cases p)
  show ?thesis using assms Some p that by (cases q) (auto simp: seqA_def)
qed

lemma seqA_result: "seqA (lift_result v) f = (case v of Inl e \<Rightarrow> throw e | Inr x \<Rightarrow> f x)"
  by (auto simp: fun_eq_iff seqA_def ret_def throw_def split: sum.splits)

lemma causes_seqA:
  assumes "causes R m" and "\<And>x. causes (S x) (f x)"
    and "\<And>e new. R (Inl e) new \<Longrightarrow> T (Inl e) new"
    and "\<And>x r old new. R (Inr x) old \<Longrightarrow> S x r new \<Longrightarrow> T r (old @ new)"
  shows "causes T (seqA m f)"
  unfolding causes_def
proof (intro allI impI)
  fix s r t assume "seqA m f s = Some (r, t)"
  then show "\<exists>new. ru_trace t = ru_trace s @ new \<and> T r new"
  proof (cases rule: seqA_cases)
    case (1 e)
    then show ?thesis using assms(1,3) unfolding causes_def by blast
  next
    case (2 x u)
    obtain old where o: "ru_trace u = ru_trace s @ old" "R (Inr x) old" using causesE[OF assms(1) 2(1)] .
    obtain new where n: "ru_trace t = ru_trace u @ new" "S x r new" using causesE[OF assms(2) 2(2)] .
    show ?thesis using o n assms(4)[OF o(2) n(2)] by auto
  qed
qed

lemma causes_basic: "R (Inr x) [] \<Longrightarrow> causes R (ret x)" "R (Inl e) [] \<Longrightarrow> causes R (throw e)"
  "(\<And>x. R (Inr x) [ev]) \<Longrightarrow> causes R (ask ev a)" "(\<And>x. R (Inr x) []) \<Longrightarrow> causes R (read_state f)"
  unfolding causes_def ret_def throw_def ask_def read_state_def by auto

lemma causes_tell: "R (Inr ()) [ev] \<Longrightarrow> causes R (tell ev)" "R (Inr ()) [] \<Longrightarrow> causes R (change_state g)"
  unfolding causes_def ask_def tell_def change_state_def by auto

lemma causes_result: "(\<And>x. R (Inr x) []) \<Longrightarrow> (\<And>e. R (Inl e) []) \<Longrightarrow> causes R (lift_result b)"
  by (cases b) (simp_all add: causes_basic)

lemma causes_try_else:
  assumes "causes R m" "causes S h" "\<And>x new. R (Inr x) new \<Longrightarrow> T (Inr x) new"
    and "\<And>e r old new. R (Inl e) old \<Longrightarrow> S r new \<Longrightarrow> T r (old @ new)"
  shows "causes T (try_else m h)"
  unfolding causes_def
proof (intro allI impI)
  fix s r t assume r: "try_else m h s = Some (r, t)"
  then obtain q u where q: "m s = Some (q, u)" by (cases "m s") (auto simp: try_else_def)
  obtain old where o: "ru_trace u = ru_trace s @ old" "R q old" using causesE[OF assms(1) q] .
  show "\<exists>new. ru_trace t = ru_trace s @ new \<and> T r new"
  proof (cases q)
    case (Inl e)
    then have "h u = Some (r, t)" using r q by (simp add: try_else_def)
    then obtain new where "ru_trace t = ru_trace u @ new" "S r new" using causesE[OF assms(2)] by blast
    then show ?thesis using o assms(4) Inl by auto
  next
    case (Inr x)
    then show ?thesis using r q o assms(3) by (auto simp: try_else_def)
  qed
qed

lemma causes_finally: "causes R m \<Longrightarrow> causes R (finally_do m f)"
  unfolding causes_def finally_do_def by (fastforce split: option.splits)

lemma causes_split: "(\<And>a b. causes R (f a b)) \<Longrightarrow> causes R (case p of (a, b) \<Rightarrow> f a b)"
  by (auto split: prod.splits)

section \<open>Each event\<close>

lemma only_basic [act_intros]: "only Q (ret x)" "only Q (throw e)" "only Q (lift_result b)" "only Q (read_state f)" "only Q (change_state g)"
  unfolding only_def by (simp_all add: causes_basic causes_tell causes_result)

lemma only_ask [act_intros]: "Q ev \<Longrightarrow> only Q (ask ev a)" "Q ev \<Longrightarrow> only Q (tell ev)"
  unfolding only_def by (simp_all add: causes_basic(3) causes_tell)

lemma only_seqA [act_intros]:
  assumes "only Q m" "\<And>x. only Q (f x)"
  shows "only Q (seqA m f)"
  unfolding only_def by (rule causes_seqA[OF assms[unfolded only_def]]) auto

lemma only_try_else [act_intros]:
  assumes "only Q m" "only Q h"
  shows "only Q (try_else m h)"
  unfolding only_def by (rule causes_try_else[OF assms[unfolded only_def]]) auto

lemma only_finally [act_intros]: "only Q m \<Longrightarrow> only Q (finally_do m f)"
  unfolding only_def by (rule causes_finally)

section \<open>State and termination\<close>

lemma keeps_basic [act_intros]: "keeps_state (ret x)" "keeps_state (throw e)" "keeps_state (ask ev a)" "keeps_state (tell ev)"
  "keeps_state (lift_result w)" "keeps_state (read_state f)"
  unfolding keeps_state_def tell_def ret_def throw_def ask_def read_state_def
  by auto (cases w; auto simp: ret_def throw_def)

lemma keeps_seqA [act_intros]:
  assumes "keeps_state m" "\<And>x. keeps_state (f x)"
  shows "keeps_state (seqA m f)"
  unfolding keeps_state_def
proof (intro allI impI)
  fix s r t assume "seqA m f s = Some (r, t)"
  then show "ru_state t = ru_state s"
  proof (cases rule: seqA_cases)
    case (1 e)
    then show ?thesis using assms(1) unfolding keeps_state_def by blast
  next
    case (2 x u)
    then have "ru_state u = ru_state s" "ru_state t = ru_state u" using assms unfolding keeps_state_def by blast+
    then show ?thesis by simp
  qed
qed

lemma keeps_try_else [act_intros]: "keeps_state m \<Longrightarrow> keeps_state h \<Longrightarrow> keeps_state (try_else m h)"
  unfolding keeps_state_def try_else_def by (auto split: option.splits sum.splits)

lemma returns_basic [act_intros]: "returns (ret x)" "returns (throw e)" "returns (ask ev a)" "returns (tell ev)"
  "returns (lift_result w)" "returns (read_state f)" "returns (change_state g)"
  unfolding returns_def tell_def ret_def throw_def ask_def read_state_def change_state_def
  by auto (cases w; auto simp: ret_def throw_def)

lemma returns_seqA [act_intros]: "returns m \<Longrightarrow> (\<And>x. returns (f x)) \<Longrightarrow> returns (seqA m f)"
  unfolding returns_def seqA_def by (auto split: option.splits sum.splits)

lemma returns_try_else [act_intros]: "returns m \<Longrightarrow> returns h \<Longrightarrow> returns (try_else m h)"
  unfolding returns_def try_else_def by (auto split: option.splits sum.splits)

lemma returns_finally [act_intros]: "returns m \<Longrightarrow> returns (finally_do m f)"
  unfolding returns_def finally_do_def by (auto split: option.splits)

section \<open>Counting\<close>

lemma count_append [simp]: "count_of c [] = 0" "count_of c (e # tr) = (if c e then 1 else 0) + count_of c tr"
  "count_of c (a @ b) = count_of c a + count_of c b"
  by (simp_all add: count_of_def)

lemma at_most_basic: "at_most c 0 (ret x)" "at_most c 0 (throw e)" "at_most c 0 (lift_result b)" "at_most c 0 (read_state f)"
  "at_most c 0 (change_state g)" "at_most c (if c ev then 1 else 0) (ask ev v)" "at_most c (if c ev then 1 else 0) (tell ev)"
  unfolding at_most_def by (simp_all add: causes_basic causes_tell causes_result)

lemma at_most_seqA:
  assumes "at_most c k m" "\<And>x. at_most c l (f x)" "k + l \<le> n"
  shows "at_most c n (seqA m f)"
  unfolding at_most_def
  by (rule causes_seqA[OF assms(1,2)[unfolded at_most_def]]) (use assms(3) in auto)

lemma at_most_try_else:
  assumes "at_most c k m" "at_most c l h" "k + l \<le> n"
  shows "at_most c n (try_else m h)"
  unfolding at_most_def
  by (rule causes_try_else[OF assms(1,2)[unfolded at_most_def]]) (use assms(3) in auto)

lemma at_most_mono: "at_most c k m \<Longrightarrow> k \<le> n \<Longrightarrow> at_most c n m"
  unfolding at_most_def causes_def by (meson le_trans)

lemma at_most_split: "(\<And>a b. at_most c n (f a b)) \<Longrightarrow> at_most c n (case p of (a, b) \<Rightarrow> f a b)"
  "at_most c k m \<Longrightarrow> at_most c l h \<Longrightarrow> at_most c (max k l) (if q then m else h)"
  using at_most_mono[of c k m "max k l"] at_most_mono[of c l h "max k l"] by (auto split: prod.splits)

lemma at_most_then: "at_most c k m \<Longrightarrow> (\<And>x. at_most c l (f x)) \<Longrightarrow> at_most c (k + l) (seqA m f)"
  by (rule at_most_seqA) auto

lemma at_most_or_else: "at_most c k m \<Longrightarrow> at_most c l h \<Longrightarrow> at_most c (k + l) (try_else m h)"
  by (rule at_most_try_else) auto

lemma at_most_weaken: "at_most d n m \<Longrightarrow> (\<And>e. c e \<Longrightarrow> d e) \<Longrightarrow> at_most c n m"
proof -
  assume m: "at_most d n m" and sub: "\<And>e. c e \<Longrightarrow> d e"
  have "count_of c tr \<le> count_of d tr" for tr by (induction tr) (auto dest: sub)
  then show ?thesis using m unfolding at_most_def causes_def by (meson le_trans)
qed

lemma at_most_none: "only (\<lambda>e. \<not> c e) m \<Longrightarrow> at_most c 0 m"
proof -
  assume m: "only (\<lambda>e. \<not> c e) m"
  have "list_all (\<lambda>e. \<not> c e) tr \<Longrightarrow> count_of c tr = 0" for tr by (induction tr) auto
  then show ?thesis using m unfolding only_def at_most_def causes_def by (metis le_zero_eq)
qed

section \<open>What an onlooker can tell\<close>

text \<open>
  An onlooker sees the events \<open>vis\<close>. \<open>blind vis m\<close>: from two pasts that look the same to it, whatever else
  differs in them, \<open>m\<close> has the same result and goes on to look the same.
\<close>

definition looks_same :: "('e \<Rightarrow> bool) \<Rightarrow> (('x + 'a) \<times> ('e, 's) run) option \<Rightarrow> (('x + 'a) \<times> ('e, 's) run) option \<Rightarrow> bool" where
  "looks_same vis a b = (case a of None \<Rightarrow> b = None
     | Some (r, t) \<Rightarrow> \<exists>t'. b = Some (r, t') \<and> filter vis (ru_trace t) = filter vis (ru_trace t'))"

definition blind :: "('e \<Rightarrow> bool) \<Rightarrow> ('e, 's, 'x, 'a) act \<Rightarrow> bool" where
  "blind vis m = (\<forall>s s'. filter vis (ru_trace s) = filter vis (ru_trace s') \<longrightarrow> looks_same vis (m s) (m s'))"

lemma blindD: "blind vis m \<Longrightarrow> filter vis (ru_trace s) = filter vis (ru_trace s') \<Longrightarrow> looks_same vis (m s) (m s')"
  for m :: "('e, 's, 'x, 'a) act"
  unfolding blind_def by blast

lemma blind_basic [act_intros]: "blind vis (ret x)" "blind vis (throw e)" "blind vis (lift_result w)" "blind vis (tell ev)"
  unfolding blind_def looks_same_def tell_def ask_def ret_def throw_def by auto (cases w; auto simp: ret_def throw_def)

lemma blind_ask:
  assumes "\<And>tr tr'. filter vis tr = filter vis tr' \<Longrightarrow> f tr = f tr'"
  shows "blind vis (ask ev f)"
  unfolding blind_def
proof (intro allI impI)
  fix s s' :: "('a, 'c) run" assume same: "filter vis (ru_trace s) = filter vis (ru_trace s')"
  show "looks_same vis (ask ev f s) (ask ev f s')"
    unfolding looks_same_def ask_def assms[OF same] by (simp add: same)
qed

lemma looks_sameE:
  assumes "looks_same vis a b"
  obtains "a = None" "b = None" | r t t' where "a = Some (r, t)" "b = Some (r, t')" "filter vis (ru_trace t) = filter vis (ru_trace t')"
  using assms unfolding looks_same_def by (cases a) auto

lemma looks_same_refl: "filter vis (ru_trace t) = filter vis (ru_trace t') \<Longrightarrow> looks_same vis (Some (r, t)) (Some (r, t'))" "looks_same vis None None"
  by (simp_all add: looks_same_def)

lemma blind_seqA [act_intros]:
  fixes m :: "('e, 's, 'x, 'a) act"
  assumes "blind vis m" "\<And>x. blind vis (f x)"
  shows "blind vis (seqA m f)"
  unfolding blind_def
proof (intro allI impI)
  fix s s' :: "('e, 's) run" assume "filter vis (ru_trace s) = filter vis (ru_trace s')"
  from blindD[OF assms(1) this] show "looks_same vis (seqA m f s) (seqA m f s')"
  proof (cases rule: looks_sameE)
    case (2 r t t')
    then show ?thesis using blindD[OF assms(2)] by (cases r) (simp_all add: seqA_def looks_same_refl(1))
  qed (simp add: seqA_def looks_same_refl)
qed

lemma blind_try_else [act_intros]:
  fixes m :: "('e, 's, 'x, 'a) act"
  assumes "blind vis m" "blind vis h"
  shows "blind vis (try_else m h)"
  unfolding blind_def
proof (intro allI impI)
  fix s s' :: "('e, 's) run" assume "filter vis (ru_trace s) = filter vis (ru_trace s')"
  from blindD[OF assms(1) this] show "looks_same vis (try_else m h s) (try_else m h s')"
  proof (cases rule: looks_sameE)
    case (2 r t t')
    then show ?thesis using blindD[OF assms(2)] by (cases r) (simp_all add: try_else_def looks_same_refl(1))
  qed (simp add: try_else_def looks_same_refl)
qed

section \<open>Steps in order\<close>

text \<open>
  \<open>shown\<close> is the step an event shows. \<open>steps_are shown xs failed m\<close>: \<open>m\<close> shows the steps named \<open>xs\<close>,
  and a beginning of \<open>failed\<close> where it fails.
\<close>

definition step_ids :: "('e \<Rightarrow> DemoStep option) \<Rightarrow> 'e list \<Rightarrow> string list" where
  "step_ids shown tr = map ds_id (List.map_filter shown tr)"

lemma step_ids_simps [simp]: "step_ids shown [] = []"
  "step_ids shown (e # tr) = (case shown e of None \<Rightarrow> [] | Some d \<Rightarrow> [ds_id d]) @ step_ids shown tr"
  "step_ids shown (a @ b) = step_ids shown a @ step_ids shown b"
  by (simp_all add: step_ids_def List.map_filter_def split: option.splits)

definition steps_are :: "('e \<Rightarrow> DemoStep option) \<Rightarrow> string list \<Rightarrow> string list \<Rightarrow> ('e, 's, 'x, 'a) act \<Rightarrow> bool" where
  "steps_are shown xs failed = causes (\<lambda>r new. case r of Inr x \<Rightarrow> step_ids shown new = xs | Inl e \<Rightarrow> prefix (step_ids shown new) failed)"

lemma steps_seqA:
  assumes "steps_are shown xs vs m" "\<And>x. steps_are shown ys ws (f x)" "prefix vs zs" "prefix (xs @ ws) zs"
  shows "steps_are shown (xs @ ys) zs (seqA m f)"
proof -
  have "prefix a zs" if "prefix a vs" for a using that assms(3) by (rule prefix_order.order_trans)
  moreover have "prefix (xs @ b) zs" if "prefix b ws" for b
    using prefix_order.order_trans[OF _ assms(4)] that by simp
  ultimately show ?thesis
    unfolding steps_are_def
    by (intro causes_seqA[OF assms(1,2)[unfolded steps_are_def]]) (auto split: sum.splits)
qed

lemma steps_then:
  assumes "steps_are shown xs [] m" "\<And>x. steps_are shown ys ws (f x)"
  shows "steps_are shown (xs @ ys) (xs @ ws) (seqA m f)"
  by (rule steps_seqA[OF assms]) simp_all

lemma steps_split: "(\<And>a b. steps_are shown xs zs (f a b)) \<Longrightarrow> steps_are shown xs zs (case p of (a, b) \<Rightarrow> f a b)"
  by (auto split: prod.splits)

lemma steps_weaken: "steps_are shown xs vs m \<Longrightarrow> prefix vs zs \<Longrightarrow> steps_are shown xs zs m"
  unfolding steps_are_def causes_def by (fastforce split: sum.splits intro: prefix_order.order_trans)

text \<open>Events that show nothing.\<close>

definition silent :: "('e \<Rightarrow> DemoStep option) \<Rightarrow> 'e \<Rightarrow> bool" where
  "silent shown e = (shown e = None)"

lemma silent_steps: "only (silent shown) m \<Longrightarrow> steps_are shown [] [] (m :: ('e, 's, 'x, 'a) act)"
proof -
  have "step_ids shown new = []" if "list_all (silent shown) new" for new
    using that by (induction new) (auto simp: silent_def)
  then have ok: "list_all (silent shown) new \<Longrightarrow> case r of Inr x \<Rightarrow> step_ids shown new = [] | Inl e \<Rightarrow> prefix (step_ids shown new) []"
    for new and r :: "'x + 'a"
    by (cases r) auto
  show "only (silent shown) m \<Longrightarrow> steps_are shown [] [] m"
    unfolding only_def steps_are_def causes_def using ok by blast
qed

lemma steps_silent:
  assumes "only (silent shown) m" "\<And>x. steps_are shown xs [] (f x)"
  shows "steps_are shown xs [] (seqA m f)"
  using steps_seqA[OF silent_steps[OF assms(1)] assms(2), of "[]"] by simp

lemma steps_finally: "steps_are shown xs zs m \<Longrightarrow> steps_are shown xs zs (finally_do m f)"
  unfolding steps_are_def by (rule causes_finally)

text \<open>The interface of a kind of events among which there are steps.\<close>

locale shows_steps =
  fixes shown :: "'e \<Rightarrow> DemoStep option" and emitted :: "DemoStep \<Rightarrow> 'e"
  assumes shown_emitted: "shown (emitted d) = Some d"
begin

lemma steps_end: "ds_id d = i \<Longrightarrow> steps_are shown [i] [] (tell (emitted d))"
  "ds_id d = i \<Longrightarrow> steps_are shown [i] [] (seqA (tell (emitted d)) (\<lambda>u. ret x))"
  unfolding steps_are_def tell_def causes_def seqA_def ask_def ret_def by (auto simp: shown_emitted)

lemma steps_more: "ds_id d = i \<Longrightarrow> (\<And>u. steps_are shown xs zs (f u)) \<Longrightarrow> steps_are shown (i # xs) (i # zs) (seqA (tell (emitted d)) f)"
  using steps_then[OF steps_end(1), of d i xs zs f] by simp

end

end
