(* ===== verification/Onramp.thy ===== *)
theory Onramp
imports Complex_Main Portal Effects
begin

text \<open>
  The purchase of USDC through the anchor (\<open>scripts/onboard/onramp.ts\<close>): the custody of the funding
  keys, the client of the anchor, SEP-10 to SEP-6 in their order, the wait for the payout. A run is a
  computation over the events it has caused so far; what the gate, the anchor, Horizon, friendbot,
  the clock and the generator of keys answer is any function of those events. The Stellar SDK is an
  argument: the public key of a secret, the reading of a challenge, its signature. The titles and the
  prose of the steps are left out, a file is the value its text parses to and writes to it succeed.
\<close>

section \<open>Text\<close>

fun nullish :: "jsval \<Rightarrow> jsval \<Rightarrow> jsval" where
  "nullish JUndefined d = d"
| "nullish JNull d = d"
| "nullish v d = v"

definition upper_hex :: "nat \<Rightarrow> char" where
  "upper_hex k = (if k < 10 then char_of (48 + k) else char_of (55 + k))"

definition uri_unreserved :: "char \<Rightarrow> bool" where
  "uri_unreserved c = (let k = code c in (48 \<le> k \<and> k \<le> 57) \<or> (65 \<le> k \<and> k \<le> 90) \<or> (97 \<le> k \<and> k \<le> 122)
     \<or> c \<in> set ''-_.!~*()'' \<or> k = 39)"

definition encodeURIComponent :: "string \<Rightarrow> string" where
  "encodeURIComponent s = concat (map (\<lambda>c. if uri_unreserved c then [c]
     else concat (map (\<lambda>b. [CHR ''%'', upper_hex (unat b div 16), upper_hex (unat b mod 16)]) (ref_utf8 [c]))) s)"

text \<open>\<open>host\<close> and \<open>pathname\<close> of the URLs the program builds: a scheme, a host, then a path without dot segments.\<close>

definition after_scheme :: "string \<Rightarrow> string" where
  "after_scheme u = drop 2 (after CHR '':'' u)"

definition url_host :: "string \<Rightarrow> string" where
  "url_host u = js_lower (takeWhile (\<lambda>c. c \<notin> set ''/?#'') (after_scheme u))"

definition url_pathname :: "string \<Rightarrow> string" where
  "url_pathname u = (let p = takeWhile (\<lambda>c. c \<notin> set ''?#'') (dropWhile (\<lambda>c. c \<notin> set ''/?#'') (after_scheme u))
     in if p = [] then ''/'' else p)"

text \<open>\<open>x.toFixed(2)\<close>: the nearest hundredth, upwards from the middle.\<close>

definition fixed_digits :: "nat \<Rightarrow> string" where
  "fixed_digits n = dec (n div 100) @ ''.'' @ dec (n div 10 mod 10) @ dec (n mod 10)"

definition toFixed2 :: "rat \<Rightarrow> string" where
  "toFixed2 x = (if x < 0 then ''-'' @ fixed_digits (nat \<lfloor>- x * 100 + 1 / 2\<rfloor>) else fixed_digits (nat \<lfloor>x * 100 + 1 / 2\<rfloor>))"

section \<open>Configuration\<close>

record AnchorConfig =
  an_baseUrl :: string
  an_signingKey :: string
  an_networkPassphrase :: string
  an_horizonUrl :: string
  an_usdcIssuer :: string
  an_explorerBase :: string

definition TR_MOCK_ANCHOR :: AnchorConfig where
  "TR_MOCK_ANCHOR = \<lparr>
     an_baseUrl = ''https://tr-mock-anchor.fly.dev'',
     an_signingKey = ''GDXYO6FJCNXZEWGXD54GT76FGFYLOLSOGSOJLNQ6WGHCGEQPO7NTE73M'',
     an_networkPassphrase = ''Test SDF Network ; September 2015'',
     an_horizonUrl = ''https://horizon-testnet.stellar.org'',
     an_usdcIssuer = ''GBBD47IF6LWK7P7MDEVSCWR7DPUWV3NY3DTQEVFL4NAT4AQH3ZLLFLA5'',
     an_explorerBase = ''https://stellar.expert/explorer/testnet'' \<rparr>"

section \<open>Events and answers\<close>

datatype http_method = GET | POST | PUT

datatype onramp_event = GateRead string | Fetched http_method string "string option" "jsval option"
  | AccountLoaded string | TrustlineSubmitted string | KeyDrawn | ClockRead | Slept nat | Emitted DemoStep

record balance_line =
  bl_asset_type :: string
  bl_asset_code :: "string option"
  bl_asset_issuer :: "string option"
  bl_balance :: string

text \<open>
  The answers, each a function of the events before it. A \<open>fetch\<close> rejects, or has a status and a body,
  \<open>None\<close> where the body is not JSON. The last three fields are the Stellar SDK.
\<close>

record onramp_env =
  env_gate :: "onramp_event list \<Rightarrow> string \<Rightarrow> string + bool"
  env_fetch :: "onramp_event list \<Rightarrow> http_method \<Rightarrow> string \<Rightarrow> string option \<Rightarrow> jsval option \<Rightarrow> string + nat \<times> jsval option"
  env_account :: "onramp_event list \<Rightarrow> string \<Rightarrow> string + balance_line list"
  env_submit :: "onramp_event list \<Rightarrow> string \<Rightarrow> string + string"
  env_random :: "onramp_event list \<Rightarrow> string"
  env_now :: "onramp_event list \<Rightarrow> int"
  sdk_publicKey :: "string \<Rightarrow> string option"
  sdk_readChallenge :: "string \<Rightarrow> string \<Rightarrow> string \<Rightarrow> string \<Rightarrow> string \<Rightarrow> string + string"
  sdk_sign :: "string \<Rightarrow> string \<Rightarrow> string \<Rightarrow> string + string"

datatype onramp_error = AnchorError string | OtherFailure string

text \<open>The keys in memory, under their account ids, and the file.\<close>

record FundingKeyStore =
  fk_keys :: "(string \<times> jsval) list"
  fk_file :: "jsval option"

type_synonym onramp_run = "(onramp_event, FundingKeyStore) run"
type_synonym 'a purchase_act = "(onramp_event, FundingKeyStore, onramp_error, 'a) act"

text \<open>A rejection of the world outside is a failure.\<close>

abbreviation settle :: "string + 'a \<Rightarrow> 'a purchase_act" where
  "settle a \<equiv> lift_result (map_err OtherFailure a)"

abbreviation emit_step :: "DemoStep \<Rightarrow> unit purchase_act" where
  "emit_step d \<equiv> tell (Emitted d)"

section \<open>Funding keys\<close>

definition fundingKeys_open :: "string \<Rightarrow> jsval option \<Rightarrow> string + FundingKeyStore" where
  "fundingKeys_open path file = (case file of
     None \<Rightarrow> Inr \<lparr> fk_keys = [], fk_file = None \<rparr>
   | Some raw \<Rightarrow>
       if raw = JNull then Inl ''TypeError''
       else if jget ''version'' raw \<noteq> JNum (JInt 1) then Inl (path @ '' is not a version-1 funding-keys file'')
       else case jget ''keys'' raw of
         JObject kvs \<Rightarrow> Inr \<lparr> fk_keys = fold (\<lambda>(k, v). map_set k v) kvs [], fk_file = file \<rparr>
       | JArray vs \<Rightarrow> Inr \<lparr> fk_keys = map (\<lambda>(i, v). (dec i, v)) (enumerate 0 vs), fk_file = file \<rparr>
       | _ \<Rightarrow> Inl (path @ '' is not a version-1 funding-keys file''))"

text \<open>A keypair is its secret.\<close>

definition fundingKeys_get :: "onramp_env \<Rightarrow> string \<Rightarrow> FundingKeyStore \<Rightarrow> onramp_error + string option" where
  "fundingKeys_get E accountId store = (case map_get (fk_keys store) accountId of
     None \<Rightarrow> Inr None
   | Some (JString secret) \<Rightarrow> (if sdk_publicKey E secret = None then Inl (OtherFailure ''invalid secret'') else Inr (Some secret))
   | Some _ \<Rightarrow> Inl (OtherFailure ''invalid secret''))"

definition fundingKeys_put :: "string \<Rightarrow> string \<Rightarrow> FundingKeyStore \<Rightarrow> FundingKeyStore" where
  "fundingKeys_put accountId secret store = (let keys = map_set accountId (JString secret) (fk_keys store) in
     \<lparr> fk_keys = keys, fk_file = Some (JObject [(''version'', JNum (JInt 1)), (''keys'', JObject keys)]) \<rparr>)"

definition getOrCreate :: "onramp_env \<Rightarrow> string \<Rightarrow> string purchase_act" where
  "getOrCreate E accountId s = (case fundingKeys_get E accountId (ru_state s) of
     Inl e \<Rightarrow> throw e s
   | Inr (Some kp) \<Rightarrow> ret kp s
   | Inr None \<Rightarrow> seqA (ask KeyDrawn (env_random E))
       (\<lambda>kp s. ret kp (s\<lparr>ru_state := fundingKeys_put accountId kp (ru_state s)\<rparr>)) s)"

definition kp_publicKey :: "onramp_env \<Rightarrow> string \<Rightarrow> string" where
  "kp_publicKey E kp = (case sdk_publicKey E kp of Some pk \<Rightarrow> pk | None \<Rightarrow> [])"

section \<open>The client of the anchor\<close>

text \<open>\<open>getJson\<close>, \<open>postJson\<close> and \<open>postPut\<close> differ in the method and the payload.\<close>

definition request_json :: "onramp_env \<Rightarrow> http_method \<Rightarrow> string \<Rightarrow> jsval option \<Rightarrow> string option \<Rightarrow> jsval purchase_act" where
  "request_json E method url payload token =
     seqA (ask (Fetched method url token payload) (\<lambda>tr. env_fetch E tr method url token payload))
     (\<lambda>reply. seqA (settle reply)
     (\<lambda>(status, parsed). let body = (case parsed of None \<Rightarrow> JNull | Some v \<Rightarrow> v) in
        if \<not> (200 \<le> status \<and> status \<le> 299) \<or> body = JNull
        then throw (AnchorError (url_pathname url @ '': HTTP '' @ dec status @ '' '' @ take 200 (json_stringify body)))
        else ret body))"

definition getJson :: "onramp_env \<Rightarrow> string \<Rightarrow> string option \<Rightarrow> jsval purchase_act" where
  "getJson E url token = request_json E GET url None token"

definition postJson :: "onramp_env \<Rightarrow> string \<Rightarrow> jsval \<Rightarrow> string option \<Rightarrow> jsval purchase_act" where
  "postJson E url payload token = request_json E POST url (Some payload) token"

definition postPut :: "onramp_env \<Rightarrow> string \<Rightarrow> jsval \<Rightarrow> string \<Rightarrow> jsval purchase_act" where
  "postPut E url payload token = request_json E PUT url (Some payload) (Some token)"

definition bag_str :: "jsval \<Rightarrow> string \<Rightarrow> onramp_error + string" where
  "bag_str bag key = (case jget key bag of
     JString v \<Rightarrow> if v = [] then Inl (AnchorError (''anchor response has no '' @ json_quote key)) else Inr v
   | _ \<Rightarrow> Inl (AnchorError (''anchor response has no '' @ json_quote key)))"

definition verifyChallenge :: "onramp_env \<Rightarrow> string \<Rightarrow> AnchorConfig \<Rightarrow> string \<Rightarrow> onramp_error + unit" where
  "verifyChallenge E xdr c clientAccount = (let homeDomain = url_host (an_baseUrl c) in
     case sdk_readChallenge E xdr (an_signingKey c) (an_networkPassphrase c) homeDomain homeDomain of
       Inl why \<Rightarrow> Inl (OtherFailure why)
     | Inr clientAccountID \<Rightarrow>
         if clientAccountID \<noteq> clientAccount
         then Inl (AnchorError (''SEP-10 challenge is for '' @ clientAccountID @ '', not '' @ clientAccount)) else Inr ())"

definition sep10Authenticate :: "onramp_env \<Rightarrow> AnchorConfig \<Rightarrow> string \<Rightarrow> string purchase_act" where
  "sep10Authenticate E c kp =
     seqA (getJson E (an_baseUrl c @ ''/auth?account='' @ kp_publicKey E kp) None)
     (\<lambda>challenge. seqA (lift_result (bag_str challenge ''transaction''))
     (\<lambda>xdr. seqA (lift_result (verifyChallenge E xdr c (kp_publicKey E kp)))
     (\<lambda>_. seqA (settle (sdk_sign E xdr (an_networkPassphrase c) kp))
     (\<lambda>signed. seqA (postJson E (an_baseUrl c @ ''/auth'') (JObject [(''transaction'', JString signed)]) None)
     (\<lambda>answer. lift_result (bag_str answer ''token''))))))"

record Quote =
  qt_id :: string
  qt_price :: string
  qt_totalPrice :: string
  qt_sellAmount :: string
  qt_buyAmount :: string
  qt_expiresAt :: string

definition parseQuote :: "jsval \<Rightarrow> onramp_error + Quote" where
  "parseQuote body =
     ebind (bag_str body ''id'') (\<lambda>i. ebind (bag_str body ''price'') (\<lambda>price.
     ebind (bag_str body ''total_price'') (\<lambda>total. ebind (bag_str body ''sell_amount'') (\<lambda>sell.
     ebind (bag_str body ''buy_amount'') (\<lambda>buy. ebind (bag_str body ''expires_at'') (\<lambda>expires.
       Inr \<lparr> qt_id = i, qt_price = price, qt_totalPrice = total, qt_sellAmount = sell, qt_buyAmount = buy, qt_expiresAt = expires \<rparr>))))))"

record DepositInstructions =
  dp_id :: string
  dp_bankName :: string
  dp_iban :: string
  dp_memo :: string

definition deposit_field :: "jsval \<Rightarrow> string \<Rightarrow> string" where
  "deposit_field instructions k = (let v = jget k instructions in
     case jget ''value'' v of JString s \<Rightarrow> s | _ \<Rightarrow> (case v of JString s \<Rightarrow> s | _ \<Rightarrow> []))"

definition text_or_empty :: "jsval \<Rightarrow> string" where
  "text_or_empty v = (case v of JString s \<Rightarrow> s | _ \<Rightarrow> [])"

definition parseDeposit :: "jsval \<Rightarrow> onramp_error + DepositInstructions" where
  "parseDeposit body = ebind (bag_str body ''id'') (\<lambda>i.
     let instructions = nullish (jget ''instructions'' body) (JObject []); field = deposit_field instructions in
     ebind (if field ''bank_name'' \<noteq> [] then Inr (field ''bank_name'') else bag_str body ''bank_name'') (\<lambda>bankName.
     Inr \<lparr> dp_id = i, dp_bankName = bankName,
           dp_iban = (if field ''bank_account_number'' \<noteq> [] then field ''bank_account_number'' else text_or_empty (jget ''bank_account_number'' body)),
           dp_memo = (if field ''external_transfer_memo'' \<noteq> [] then field ''external_transfer_memo''
                      else text_or_empty (jget ''external_transfer_memo'' body)) \<rparr>))"

section \<open>The flow\<close>

definition usdc_line :: "AnchorConfig \<Rightarrow> balance_line \<Rightarrow> bool" where
  "usdc_line c b = (bl_asset_type b \<noteq> ''native'' \<and> bl_asset_code b = Some ''USDC'' \<and> bl_asset_issuer b = Some (an_usdcIssuer c))"

definition loadAccount :: "onramp_env \<Rightarrow> string \<Rightarrow> balance_line list purchase_act" where
  "loadAccount E account = seqA (ask (AccountLoaded account) (\<lambda>tr. env_account E tr account)) settle"

definition usdcBalance :: "onramp_env \<Rightarrow> AnchorConfig \<Rightarrow> string \<Rightarrow> string purchase_act" where
  "usdcBalance E c account = seqA (loadAccount E account)
     (\<lambda>balances. ret (case List.find (usdc_line c) balances of None \<Rightarrow> ''0'' | Some line \<Rightarrow> bl_balance line))"

definition fund_by_friendbot :: "onramp_env \<Rightarrow> string \<Rightarrow> balance_line list purchase_act" where
  "fund_by_friendbot E pk = (let url = ''https://friendbot.stellar.org?addr='' @ pk in
     seqA (ask (Fetched GET url None None) (\<lambda>tr. env_fetch E tr GET url None None))
     (\<lambda>reply. seqA (settle reply)
     (\<lambda>(status, _). if \<not> (200 \<le> status \<and> status \<le> 299)
        then throw (AnchorError (''friendbot refused to fund '' @ pk @ '': HTTP '' @ dec status))
        else loadAccount E pk)))"

definition ensureFundingAccount :: "onramp_env \<Rightarrow> AnchorConfig \<Rightarrow> string \<Rightarrow> (bool \<times> string option) purchase_act" where
  "ensureFundingAccount E c kp = (let pk = kp_publicKey E kp in
     seqA (try_else (seqA (loadAccount E pk) (\<lambda>account. ret (False, account)))
                    (seqA (fund_by_friendbot E pk) (\<lambda>account. ret (True, account))))
     (\<lambda>(created, account). if list_ex (usdc_line c) account then ret (created, None)
        else seqA (ask (TrustlineSubmitted pk) (\<lambda>tr. env_submit E tr pk))
             (\<lambda>answer. seqA (settle answer) (\<lambda>hash. ret (created, Some hash)))))"

definition POLL_MS :: nat where "POLL_MS = 3000"
definition MAX_WAIT_MS :: nat where "MAX_WAIT_MS = 150000"

text \<open>One look at the deposit: \<open>Some\<close> once it is settled, else what was seen.\<close>

definition poll_deposit :: "onramp_env \<Rightarrow> AnchorConfig \<Rightarrow> string \<Rightarrow> string \<Rightarrow> (jsval \<times> bool) purchase_act" where
  "poll_deposit E c token i =
     seqA (getJson E (an_baseUrl c @ ''/sep6/transaction?id='' @ encodeURIComponent i) (Some token))
     (\<lambda>body. let last = nullish (jget ''transaction'' body) body; status = jget ''status'' last in
        if status = JString ''completed'' then ret (last, True)
        else if status = JString ''error'' \<or> status = JString ''refunded''
        then throw (AnchorError (''deposit '' @ i @ '' ended in status '' @ js_String status @ '': '' @ js_String (nullish (jget ''message'' last) (JString []))))
        else seqA (ask (Slept POLL_MS) (\<lambda>_. ())) (\<lambda>_. ret (last, False)))"

partial_function (option) wait_loop :: "onramp_env \<Rightarrow> AnchorConfig \<Rightarrow> string \<Rightarrow> string \<Rightarrow> int \<Rightarrow> jsval \<Rightarrow> onramp_run
    \<Rightarrow> ((onramp_error + jsval \<times> bool) \<times> onramp_run) option" where
  "wait_loop E c token i deadline latest s =
     (case (ask ClockRead (env_now E) :: int purchase_act) s of
       Some (Inr now, s1) \<Rightarrow>
         (if \<not> now < deadline then Some (Inr (latest, False), s1)
          else case poll_deposit E c token i s1 of
            Some (Inr (seen, completed), s2) \<Rightarrow>
              (if completed then Some (Inr (seen, completed), s2) else wait_loop E c token i deadline seen s2)
          | r \<Rightarrow> r)
     | _ \<Rightarrow> None)"

definition waitForDeposit :: "onramp_env \<Rightarrow> AnchorConfig \<Rightarrow> string \<Rightarrow> string \<Rightarrow> (jsval \<times> bool) purchase_act" where
  "waitForDeposit E c token i = seqA (ask ClockRead (env_now E))
     (\<lambda>now. wait_loop E c token i (now + int MAX_WAIT_MS) (JObject []))"

definition gate_refused :: DemoStep where
  "gate_refused = \<lparr> ds_id = ''gate'', ds_status = StepFail, ds_txHash = None, ds_explorerUrl = None, ds_data = None \<rparr>"

definition gate_stage :: "onramp_env \<Rightarrow> string \<Rightarrow> unit purchase_act" where
  "gate_stage E wallet = seqA (ask (GateRead wallet) (\<lambda>tr. env_gate E tr wallet))
     (\<lambda>answer. seqA (settle answer)
     (\<lambda>allowed. if \<not> allowed
        then seqA (emit_step gate_refused)
             (\<lambda>_. throw (AnchorError ''the chain does not record over18 for this wallet''))
        else emit_step (plain_step ''gate'' [(''wallet'', JString wallet)])))"

definition funding_stage :: "onramp_env \<Rightarrow> AnchorConfig \<Rightarrow> string \<Rightarrow> unit purchase_act" where
  "funding_stage E c kp = seqA (ensureFundingAccount E c kp)
     (\<lambda>(created, trustlineTx). emit_step (with_tx (an_explorerBase c) trustlineTx (plain_step ''funding'' [(''account'', JString (kp_publicKey E kp))])))"

definition sep10_stage :: "onramp_env \<Rightarrow> AnchorConfig \<Rightarrow> string \<Rightarrow> string purchase_act" where
  "sep10_stage E c kp = seqA (sep10Authenticate E c kp)
     (\<lambda>token. seqA (emit_step (plain_step ''sep10'' [(''anchor'', JString (url_host (an_baseUrl c)))])) (\<lambda>_. ret token))"

definition sep12_stage :: "onramp_env \<Rightarrow> AnchorConfig \<Rightarrow> string \<Rightarrow> unit purchase_act" where
  "sep12_stage E c token =
     seqA (postPut E (an_baseUrl c @ ''/sep12/customer'') (JObject [(''first_name'', JString ''Onramp''), (''last_name'', JString ''Customer'')]) token)
     (\<lambda>customer. seqA (getJson E (an_baseUrl c @ ''/sep12/customer'') (Some token))
     (\<lambda>kycStatus. emit_step (plain_step ''sep12''
        [(''customerId'', JString (js_String (nullish (jget ''id'' customer) (JString [])))),
         (''status'', JString (js_String (nullish (jget ''status'' kycStatus) (JString []))))])))"

definition quote_payload :: "AnchorConfig \<Rightarrow> string \<Rightarrow> jsval" where
  "quote_payload c sell = JObject [(''sell_asset'', JString ''iso4217:TRY''),
     (''buy_asset'', JString (''stellar:USDC:'' @ an_usdcIssuer c)), (''sell_amount'', JString sell), (''context'', JString ''sep6'')]"

definition sep38_stage :: "onramp_env \<Rightarrow> AnchorConfig \<Rightarrow> string \<Rightarrow> string \<Rightarrow> Quote purchase_act" where
  "sep38_stage E c token sell =
     seqA (postJson E (an_baseUrl c @ ''/sep38/quote'') (quote_payload c sell) (Some token))
     (\<lambda>body. seqA (lift_result (parseQuote body))
     (\<lambda>quote. seqA (emit_step (plain_step ''sep38''
        [(''quoteId'', JString (qt_id quote)), (''sellAmount'', JString (qt_sellAmount quote)),
         (''buyAmount'', JString (qt_buyAmount quote)), (''price'', JString (qt_totalPrice quote))]))
     (\<lambda>_. ret quote)))"

definition deposit_url :: "onramp_env \<Rightarrow> AnchorConfig \<Rightarrow> string \<Rightarrow> string \<Rightarrow> string \<Rightarrow> string" where
  "deposit_url E c kp sell quoteId = an_baseUrl c @ ''/sep6/deposit?asset_code=USDC&amount='' @ sell @ ''&account='' @ kp_publicKey E kp
     @ ''&funding_method=bank_account&type=bank_account&quote_id='' @ encodeURIComponent quoteId"

definition sep6_stage :: "onramp_env \<Rightarrow> AnchorConfig \<Rightarrow> string \<Rightarrow> string \<Rightarrow> string \<Rightarrow> Quote \<Rightarrow> DepositInstructions purchase_act" where
  "sep6_stage E c kp token sell quote =
     seqA (getJson E (deposit_url E c kp sell (qt_id quote)) (Some token))
     (\<lambda>body. seqA (lift_result (parseDeposit body))
     (\<lambda>deposit. seqA (emit_step (plain_step ''sep6''
        [(''depositId'', JString (dp_id deposit)), (''bankName'', JString (dp_bankName deposit)),
         (''iban'', JString (dp_iban deposit)), (''reference'', JString (dp_memo deposit))]))
     (\<lambda>_. ret deposit)))"

definition bank_stage :: "onramp_env \<Rightarrow> AnchorConfig \<Rightarrow> string \<Rightarrow> string \<Rightarrow> unit purchase_act" where
  "bank_stage E c sell depositId =
     seqA (postJson E (an_baseUrl c @ ''/sep6/tx/'' @ encodeURIComponent depositId @ ''/simulate-bank-transfer'') (JObject [(''amount'', JString sell)]) None)
     (\<lambda>_. emit_step (plain_step ''bank'' [(''amountTry'', JString sell)]))"

definition usdc_stage :: "onramp_env \<Rightarrow> AnchorConfig \<Rightarrow> string \<Rightarrow> string \<Rightarrow> Quote \<Rightarrow> string \<Rightarrow> OnrampResult purchase_act" where
  "usdc_stage E c kp token quote depositId =
     seqA (waitForDeposit E c token depositId)
     (\<lambda>(tx, completed). let stellarTx = js_String (nullish (jget ''stellar_transaction_id'' tx) (JString [])) in
     seqA (usdcBalance E c (kp_publicKey E kp))
     (\<lambda>balance. seqA (emit_step (with_tx (an_explorerBase c) (if stellarTx = [] then None else Some stellarTx)
        (plain_step ''usdc''
          [(''usdcBalance'', JString balance), (''fundingAccount'', JString (kp_publicKey E kp)), (''depositId'', JString depositId),
           (''anchorStatus'', JString (js_String (nullish (jget ''status'' tx) (JString []))))])
        \<lparr> ds_status := (if completed then StepOk else StepPending) \<rparr>))
     (\<lambda>_. ret \<lparr> om_fundingAccount = kp_publicKey E kp, om_tryAmount = qt_sellAmount quote, om_usdcAmount = qt_buyAmount quote,
        om_quoteId = qt_id quote, om_depositId = depositId, om_stellarTxHash = stellarTx, om_usdcBalance = balance \<rparr>)))"

definition buy_usdc :: "onramp_env \<Rightarrow> AnchorConfig \<Rightarrow> rat \<Rightarrow> string \<Rightarrow> OnrampResult purchase_act" where
  "buy_usdc E c tryAmount kp =
     seqA (funding_stage E c kp)
     (\<lambda>_. seqA (sep10_stage E c kp)
     (\<lambda>token. seqA (sep12_stage E c token)
     (\<lambda>_. seqA (sep38_stage E c token (toFixed2 tryAmount))
     (\<lambda>quote. seqA (sep6_stage E c kp token (toFixed2 tryAmount) quote)
     (\<lambda>deposit. seqA (bank_stage E c (toFixed2 tryAmount) (dp_id deposit))
     (\<lambda>_. usdc_stage E c kp token quote (dp_id deposit)))))))"

definition runOnramp :: "onramp_env \<Rightarrow> AnchorConfig \<Rightarrow> string \<Rightarrow> string \<Rightarrow> rat \<Rightarrow> OnrampResult purchase_act" where
  "runOnramp E c accountId walletCAddr tryAmount =
     seqA (gate_stage E walletCAddr)
     (\<lambda>_. seqA (getOrCreate E accountId) (buy_usdc E c tryAmount))"

definition readOnrampState :: "onramp_env \<Rightarrow> AnchorConfig \<Rightarrow> string \<Rightarrow> (string option \<times> string option) purchase_act" where
  "readOnrampState E c accountId s = (case fundingKeys_get E accountId (ru_state s) of
     Inl e \<Rightarrow> throw e s
   | Inr None \<Rightarrow> ret (None, None) s
   | Inr (Some kp) \<Rightarrow>
       try_else (seqA (usdcBalance E c (kp_publicKey E kp)) (\<lambda>balance. ret (Some (kp_publicKey E kp), Some balance)))
                (ret (Some (kp_publicKey E kp), None)) s)"

section \<open>Requests and waiting\<close>

fun is_fetch :: "onramp_event \<Rightarrow> bool" where
  "is_fetch (Fetched m u t b) = True"
| "is_fetch e = False"

abbreviation requests :: "onramp_event list \<Rightarrow> nat" where
  "requests \<equiv> count_of is_fetch"

text \<open>All calls to others: the chain, Horizon and the web. The looks at a deposit are among them.\<close>

fun is_call :: "onramp_event \<Rightarrow> bool" where
  "is_call (GateRead w) = True"
| "is_call (Fetched m u t b) = True"
| "is_call (AccountLoaded a) = True"
| "is_call (TrustlineSubmitted a) = True"
| "is_call e = False"

definition is_look :: "AnchorConfig \<Rightarrow> onramp_event \<Rightarrow> bool" where
  "is_look c e = (\<exists>token i. e = Fetched GET (an_baseUrl c @ ''/sep6/transaction?id='' @ encodeURIComponent i) (Some token) None)"

fun slept_in :: "onramp_event list \<Rightarrow> nat" where
  "slept_in [] = 0"
| "slept_in (Slept ms # tr) = ms + slept_in tr"
| "slept_in (e # tr) = slept_in tr"

text \<open>The clock does not go back, and a sleep takes its time.\<close>

definition clock_runs :: "onramp_env \<Rightarrow> bool" where
  "clock_runs E = (\<forall>old new. env_now E old + int (slept_in new) \<le> env_now E (old @ new))"

lemma call_once: "at_most is_call 1 (ask (Fetched method url token payload) v)" "at_most is_call 0 (tell (Emitted d))"
  "at_most is_call 1 (ask (GateRead w) v)" "at_most is_call 1 (ask (AccountLoaded a) v)" "at_most is_call 1 (ask (TrustlineSubmitted a) v)" "at_most is_call 0 (ask KeyDrawn v)"
  using at_most_basic(6,7)[of is_call] by (metis is_call.simps)+

lemma at_most_request: "at_most q 1 (request_json E method url payload token)"
proof -
  have once: "at_most q 1 (ask (Fetched method url token payload) v)" for v :: "onramp_event list \<Rightarrow> string + nat \<times> jsval option"
    by (rule at_most_mono[OF at_most_basic(6)]) simp
  show ?thesis
    unfolding request_json_def Let_def by (rule at_most_mono, (rule once at_most_basic at_most_split at_most_then)+, simp)
qed

lemma request_returns [act_intros]: "returns (request_json E method url payload token)"
  unfolding request_json_def Let_def by (auto intro!: act_intros split: prod.splits)

lemma request_only [act_intros]: "Q (Fetched method url token payload) \<Longrightarrow> only Q (request_json E method url payload token)"
  unfolding request_json_def Let_def by (auto intro!: act_intros split: prod.splits)

lemma request_keeps [act_intros]: "keeps_state (request_json E method url payload token)"
  unfolding request_json_def Let_def by (auto intro!: act_intros split: prod.splits)

lemma slept_append [simp]: "slept_in (a @ b) = slept_in a + slept_in b"
  by (induction a rule: slept_in.induct) auto

text \<open>Where a look neither settles the deposit nor fails, it slept.\<close>

lemma poll_outcome:
  assumes "poll_deposit E c token i s = Some (r, t)"
  obtains new where "ru_trace t = ru_trace s @ new" "requests new \<le> 1" "ru_state t = ru_state s"
    "\<And>seen. r = Inr (seen, False) \<Longrightarrow> POLL_MS \<le> slept_in new"
    "\<And>seen. r = Inr (seen, True) \<Longrightarrow> jget ''status'' seen = JString ''completed''"
  using assms[unfolded poll_deposit_def getJson_def]
proof (cases rule: seqA_cases)
  case (1 e)
  obtain new where "ru_trace t = ru_trace s @ new" "requests new \<le> 1"
    using causesE[OF at_most_request[unfolded at_most_def] 1(1)] .
  moreover have "ru_state t = ru_state s" using request_keeps 1(1) unfolding keeps_state_def by blast
  ultimately show ?thesis using that 1(2) by blast
next
  case (2 body u)
  obtain new where n: "ru_trace u = ru_trace s @ new" "requests new \<le> 1"
    using causesE[OF at_most_request[unfolded at_most_def] 2(1)] .
  have k: "ru_state u = ru_state s" using request_keeps 2(1) unfolding keeps_state_def by blast
  show ?thesis using 2(2) that[of new] that[of "new @ [Slept POLL_MS]"] n k
    by (auto simp: Let_def ret_def throw_def seqA_def ask_def split: if_splits)
qed

definition poll_event :: "AnchorConfig \<Rightarrow> string \<Rightarrow> string \<Rightarrow> onramp_event \<Rightarrow> bool" where
  "poll_event c token i e = (e = ClockRead \<or> e = Slept POLL_MS
     \<or> e = Fetched GET (an_baseUrl c @ ''/sep6/transaction?id='' @ encodeURIComponent i) (Some token) None)"

lemma poll_only: "only (poll_event c token i) (poll_deposit E c token i)"
  unfolding poll_deposit_def getJson_def Let_def by (auto intro!: act_intros simp: poll_event_def)

lemma poll_returns [act_intros]: "returns (poll_deposit E c token i)"
  unfolding poll_deposit_def getJson_def Let_def by (auto intro!: act_intros)

lemma clock_slept: "clock_runs E \<Longrightarrow> env_now E old + int (slept_in new) \<le> env_now E (old @ new)"
  unfolding clock_runs_def by blast

lemma clock_forward: "clock_runs E \<Longrightarrow> env_now E old \<le> env_now E (old @ new)"
  using clock_slept[of E old new] by simp

definition wait_result :: "onramp_env \<Rightarrow> int \<Rightarrow> (onramp_error + jsval \<times> bool) \<Rightarrow> onramp_run \<Rightarrow> bool" where
  "wait_result E deadline r t = (case r of Inl e \<Rightarrow> True
     | Inr (seen, completed) \<Rightarrow> if completed then jget ''status'' seen = JString ''completed'' else deadline \<le> env_now E (ru_trace t))"

lemma wait_loop_ends:
  assumes clock: "clock_runs E"
  shows "deadline - env_now E (ru_trace s) \<le> int (n * POLL_MS) \<Longrightarrow>
    \<exists>r t new. wait_loop E c token i deadline latest s = Some (r, t) \<and> ru_trace t = ru_trace s @ new \<and> requests new \<le> n
      \<and> wait_result E deadline r t \<and> ru_state t = ru_state s \<and> list_all (poll_event c token i) new"
proof (induction n arbitrary: s latest)
  case (0 s latest)
  then have "\<not> env_now E (ru_trace s) < deadline" by simp
  moreover have "deadline \<le> env_now E (ru_trace s @ [ClockRead])" using 0 clock_forward[OF clock, of "ru_trace s" "[ClockRead]"] by simp
  ultimately show ?case by (subst wait_loop.simps) (simp add: ask_def wait_result_def poll_event_def)
next
  case (Suc n s latest)
  define s1 where "s1 = s\<lparr>ru_trace := ru_trace s @ [ClockRead]\<rparr>"
  have a: "ask ClockRead (env_now E) s = Some (Inr (env_now E (ru_trace s)), s1)" by (simp add: ask_def s1_def)
  have t1: "ru_trace s1 = ru_trace s @ [ClockRead]" "ru_state s1 = ru_state s" by (simp_all add: s1_def)
  show ?case
  proof (cases "env_now E (ru_trace s) < deadline")
    case False
    then have "deadline \<le> env_now E (ru_trace s1)" using clock_forward[OF clock, of "ru_trace s" "[ClockRead]"] t1 by simp
    then show ?thesis using False t1 by (subst wait_loop.simps) (simp add: a wait_result_def poll_event_def)
  next
    case True
    obtain r s2 where p: "poll_deposit E c token i s1 = Some (r, s2)"
      using poll_returns unfolding returns_def by (metis option.exhaust prod.exhaust)
    obtain new where n: "ru_trace s2 = ru_trace s1 @ new" "requests new \<le> 1" "ru_state s2 = ru_state s1"
      "\<And>seen. r = Inr (seen, False) \<Longrightarrow> POLL_MS \<le> slept_in new"
      "\<And>seen. r = Inr (seen, True) \<Longrightarrow> jget ''status'' seen = JString ''completed''"
      using poll_outcome[OF p] by blast
    have ev: "list_all (poll_event c token i) (ClockRead # new)"
      using poll_only[of c token i E] p n(1) unfolding only_def causes_def by (fastforce simp: poll_event_def)
    consider "\<forall>seen. r \<noteq> Inr (seen, False)" | seen where "r = Inr (seen, False)" by blast
    then show ?thesis
    proof cases
      case 1
      then have "wait_loop E c token i deadline latest s = Some (r, s2)"
        using True p by (subst wait_loop.simps) (auto simp: a split: sum.splits prod.splits bool.splits)
      moreover have "wait_result E deadline r s2" using 1 n(5) by (auto simp: wait_result_def split: sum.splits)
      ultimately show ?thesis using n(1,2,3) t1 ev by (intro exI[of _ r] exI[of _ s2] exI[of _ "ClockRead # new"]) simp
    next
      case (2 seen)
      have "env_now E (ru_trace s) + int POLL_MS \<le> env_now E (ru_trace s2)"
        using clock_slept[OF clock, of "ru_trace s" "ClockRead # new"] n(4)[OF 2] n(1) t1 by simp
      then have "deadline - env_now E (ru_trace s2) \<le> int (n * POLL_MS)" using Suc.prems by simp
      from Suc.IH[OF this, of seen] obtain r' t' new' where
        w: "wait_loop E c token i deadline seen s2 = Some (r', t')" "ru_trace t' = ru_trace s2 @ new'" "requests new' \<le> n"
           "wait_result E deadline r' t'" "ru_state t' = ru_state s2"
           "list_all (poll_event c token i) new'" by blast
      have "wait_loop E c token i deadline latest s = Some (r', t')"
        using True p 2 w(1) by (subst wait_loop.simps) (simp add: a)
      moreover have "ru_trace t' = ru_trace s @ (ClockRead # new @ new')" using w(2) n(1) t1 by simp
      ultimately show ?thesis using w(3-6) n(2,3) t1 ev by (intro exI[of _ r'] exI[of _ t'] exI[of _ "ClockRead # new @ new'"]) simp
    qed
  qed
qed

lemma wait_ends:
  assumes "clock_runs E"
  obtains r t new where "waitForDeposit E c token i s = Some (r, t)" "ru_trace t = ru_trace s @ new" "requests new \<le> 50"
    "wait_result E (env_now E (ru_trace s) + int MAX_WAIT_MS) r t" "ru_state t = ru_state s" "list_all (poll_event c token i) new"
proof -
  define s1 where "s1 = s\<lparr>ru_trace := ru_trace s @ [ClockRead]\<rparr>"
  have "env_now E (ru_trace s) + int MAX_WAIT_MS - env_now E (ru_trace s1) \<le> int (50 * POLL_MS)"
    using clock_forward[OF assms, of "ru_trace s" "[ClockRead]"] by (simp add: s1_def MAX_WAIT_MS_def POLL_MS_def)
  from wait_loop_ends[OF assms this, of c token i "JObject []"] obtain r t new where
    w: "wait_loop E c token i (env_now E (ru_trace s) + int MAX_WAIT_MS) (JObject []) s1 = Some (r, t)" "ru_trace t = ru_trace s1 @ new"
      "requests new \<le> 50" "wait_result E (env_now E (ru_trace s) + int MAX_WAIT_MS) r t" "ru_state t = ru_state s1"
      "list_all (poll_event c token i) new" by blast
  have "waitForDeposit E c token i s = Some (r, t)" using w(1) by (simp add: waitForDeposit_def seqA_def ask_def s1_def)
  then show ?thesis using that[of r t "ClockRead # new"] w(2-6) by (simp add: s1_def poll_event_def)
qed

lemma wait_causes:
  assumes "clock_runs E"
  shows "returns (waitForDeposit E c token i)" "keeps_state (waitForDeposit E c token i)" "at_most is_call 50 (waitForDeposit E c token i)"
    "(\<And>e. poll_event c token i e \<Longrightarrow> Q e) \<Longrightarrow> only Q (waitForDeposit E c token i)"
proof -
  have w: "waitForDeposit E c token i s \<noteq> None" for s using wait_ends[OF assms] by (metis option.distinct(1))
  have v: "\<exists>new. ru_trace t = ru_trace s @ new \<and> requests new \<le> 50 \<and> ru_state t = ru_state s \<and> list_all (poll_event c token i) new"
    if r: "waitForDeposit E c token i s = Some (r, t)" for s r t
  proof -
    obtain r' t' new where "waitForDeposit E c token i s = Some (r', t')" "ru_trace t' = ru_trace s @ new" "requests new \<le> 50"
      "ru_state t' = ru_state s" "list_all (poll_event c token i) new" using wait_ends[OF assms] by metis
    then show ?thesis using r by auto
  qed
  show "returns (waitForDeposit E c token i)" unfolding returns_def using w by blast
  show "keeps_state (waitForDeposit E c token i)" unfolding keeps_state_def using v by blast
  have "list_all (poll_event c token i) new \<Longrightarrow> count_of is_call new = requests new" for new
    by (induction new) (auto simp: poll_event_def)
  then show "at_most is_call 50 (waitForDeposit E c token i)" unfolding at_most_def causes_def using v by metis
  show "only Q (waitForDeposit E c token i)" if "\<And>e. poll_event c token i e \<Longrightarrow> Q e"
    unfolding only_def causes_def using v that by (metis list_all_iff)
qed

section \<open>The stages\<close>

lemmas stage_defs = gate_stage_def funding_stage_def ensureFundingAccount_def fund_by_friendbot_def loadAccount_def
  sep10_stage_def sep10Authenticate_def sep12_stage_def sep38_stage_def sep6_stage_def bank_stage_def usdc_stage_def usdcBalance_def
  getJson_def postJson_def postPut_def Let_def

lemma stage_returns [act_intros]:
  "returns (gate_stage E w)" "returns (funding_stage E c kp)" "returns (sep10_stage E c kp)" "returns (sep12_stage E c token)"
  "returns (sep38_stage E c token sell)" "returns (sep6_stage E c kp token sell quote)" "returns (bank_stage E c sell d)"
  "clock_runs E \<Longrightarrow> returns (usdc_stage E c kp token quote d)"
  unfolding stage_defs by (auto intro!: act_intros wait_causes split: prod.splits)

lemma stage_keeps [act_intros]:
  "keeps_state (gate_stage E w)" "keeps_state (funding_stage E c kp)" "keeps_state (sep10_stage E c kp)" "keeps_state (sep12_stage E c token)"
  "keeps_state (sep38_stage E c token sell)" "keeps_state (sep6_stage E c kp token sell quote)" "keeps_state (bank_stage E c sell d)"
  "clock_runs E \<Longrightarrow> keeps_state (usdc_stage E c kp token quote d)"
  unfolding stage_defs by (auto intro!: act_intros wait_causes split: prod.splits)

lemmas counts = call_once at_most_basic(1-5) at_most_request at_most_split at_most_then at_most_or_else

lemma stage_calls:
  "at_most is_call 1 (gate_stage E w)"
  "at_most is_call 4 (funding_stage E c kp)"
  "at_most is_call 2 (sep10_stage E c kp)"
  "at_most is_call 2 (sep12_stage E c token)"
  "at_most is_call 1 (sep38_stage E c token sell)"
  "at_most is_call 1 (sep6_stage E c kp token sell quote)"
  "at_most is_call 1 (bank_stage E c sell d)"
  "clock_runs E \<Longrightarrow> at_most is_call 51 (usdc_stage E c kp token quote d)"
proof -
  show "at_most is_call 1 (gate_stage E w)"
    unfolding stage_defs by (rule at_most_mono, (rule counts)+, simp)
  show "at_most is_call 4 (funding_stage E c kp)"
    unfolding stage_defs by (rule at_most_mono, (rule counts)+, simp)
  show "at_most is_call 2 (sep10_stage E c kp)"
    unfolding stage_defs by (rule at_most_mono, (rule counts)+, simp)
  show "at_most is_call 2 (sep12_stage E c token)"
    unfolding stage_defs by (rule at_most_mono, (rule counts)+, simp)
  show "at_most is_call 1 (sep38_stage E c token sell)"
    unfolding stage_defs by (rule at_most_mono, (rule counts)+, simp)
  show "at_most is_call 1 (sep6_stage E c kp token sell quote)"
    unfolding stage_defs by (rule at_most_mono, (rule counts)+, simp)
  show "at_most is_call 1 (bank_stage E c sell d)"
    unfolding stage_defs by (rule at_most_mono, (rule counts)+, simp)
  show "at_most is_call 51 (usdc_stage E c kp token quote d)" if "clock_runs E"
    unfolding stage_defs by (rule at_most_mono, (rule counts wait_causes(3)[OF that])+, simp)
qed

text \<open>Only the last stage looks at the deposit.\<close>

lemma no_look [simp]:
  "\<not> is_look c (Fetched GET u None p)" "\<not> is_look c (Fetched POST u t p)" "\<not> is_look c (Fetched PUT u t p)" "\<not> is_look c (Emitted d)"
  "\<not> is_look c (GateRead w)" "\<not> is_look c (AccountLoaded a)" "\<not> is_look c (TrustlineSubmitted a)" "\<not> is_look c KeyDrawn"
  "\<not> is_look c (Fetched GET (an_baseUrl c @ ''/sep12/customer'') t p)" "\<not> is_look c (Fetched GET (deposit_url E c kp sell q) t p)"
  by (simp_all add: is_look_def deposit_url_def)

lemma stage_no_look:
  "only (\<lambda>e. \<not> is_look c e) (funding_stage E c kp)" "only (\<lambda>e. \<not> is_look c e) (sep10_stage E c kp)" "only (\<lambda>e. \<not> is_look c e) (sep12_stage E c token)"
  "only (\<lambda>e. \<not> is_look c e) (sep38_stage E c token sell)" "only (\<lambda>e. \<not> is_look c e) (sep6_stage E c kp token sell quote)"
  "only (\<lambda>e. \<not> is_look c e) (bank_stage E c sell d)" "only (\<lambda>e. \<not> is_look c e) (usdcBalance E c a)"
  unfolding stage_defs by (auto intro!: act_intros split: prod.splits)

lemma usdc_looks: "clock_runs E \<Longrightarrow> at_most (is_look c) 50 (usdc_stage E c kp token quote d)"
proof -
  assume clock: "clock_runs E"
  have wait: "at_most (is_look c) 50 (waitForDeposit E c token d)"
    by (rule at_most_weaken[OF wait_causes(3)[OF clock]]) (auto simp: is_look_def)
  have shown: "at_most (is_look c) 0 (tell (Emitted x))" for x by (rule at_most_none) (auto intro: act_intros)
  show ?thesis
    unfolding usdc_stage_def Let_def
    by (rule at_most_mono, (rule wait shown at_most_none[OF stage_no_look(7)] at_most_basic(1) at_most_split at_most_then)+, simp)
qed

fun onramp_step :: "onramp_event \<Rightarrow> DemoStep option" where
  "onramp_step (Emitted d) = Some d"
| "onramp_step e = None"

interpretation onramp: shows_steps onramp_step Emitted
  by unfold_locales simp

lemma silent_events [simp]: "silent onramp_step (GateRead w)" "silent onramp_step (Fetched m u t b)" "silent onramp_step (AccountLoaded a)" "silent onramp_step (TrustlineSubmitted a)"
  "silent onramp_step KeyDrawn" "silent onramp_step ClockRead" "silent onramp_step (Slept n)"
  by (simp_all add: silent_def)

lemma stage_silent:
  "only (silent onramp_step) (ensureFundingAccount E c kp)" "only (silent onramp_step) (sep10Authenticate E c kp)" "only (silent onramp_step) (usdcBalance E c a)"
  "clock_runs E \<Longrightarrow> only (silent onramp_step) (waitForDeposit E c token d)"
  unfolding stage_defs by (auto intro!: act_intros wait_causes(4) simp: poll_event_def split: prod.splits)

lemma stage_steps:
  "steps_are onramp_step [''funding''] [] (funding_stage E c kp)"
  "steps_are onramp_step [''sep10''] [] (sep10_stage E c kp)"
  "steps_are onramp_step [''sep12''] [] (sep12_stage E c token)"
  "steps_are onramp_step [''sep38''] [] (sep38_stage E c token sell)"
  "steps_are onramp_step [''sep6''] [] (sep6_stage E c kp token sell quote)"
  "steps_are onramp_step [''bank''] [] (bank_stage E c sell d)"
  "clock_runs E \<Longrightarrow> steps_are onramp_step [''usdc''] [] (usdc_stage E c kp token quote d)"
proof -
  note steps_end = onramp.steps_end and silences = stage_silent request_only only_basic silent_events
  show "steps_are onramp_step [''funding''] [] (funding_stage E c kp)"
    unfolding funding_stage_def sep10_stage_def sep12_stage_def sep38_stage_def sep6_stage_def bank_stage_def getJson_def postJson_def postPut_def
    by (rule steps_end steps_split steps_silent silences | simp)+
  show "steps_are onramp_step [''sep10''] [] (sep10_stage E c kp)"
    unfolding funding_stage_def sep10_stage_def sep12_stage_def sep38_stage_def sep6_stage_def bank_stage_def getJson_def postJson_def postPut_def
    by (rule steps_end steps_split steps_silent silences | simp)+
  show "steps_are onramp_step [''sep12''] [] (sep12_stage E c token)"
    unfolding funding_stage_def sep10_stage_def sep12_stage_def sep38_stage_def sep6_stage_def bank_stage_def getJson_def postJson_def postPut_def
    by (rule steps_end steps_split steps_silent silences | simp)+
  show "steps_are onramp_step [''sep38''] [] (sep38_stage E c token sell)"
    unfolding funding_stage_def sep10_stage_def sep12_stage_def sep38_stage_def sep6_stage_def bank_stage_def getJson_def postJson_def postPut_def
    by (rule steps_end steps_split steps_silent silences | simp)+
  show "steps_are onramp_step [''sep6''] [] (sep6_stage E c kp token sell quote)"
    unfolding funding_stage_def sep10_stage_def sep12_stage_def sep38_stage_def sep6_stage_def bank_stage_def getJson_def postJson_def postPut_def
    by (rule steps_end steps_split steps_silent silences | simp)+
  show "steps_are onramp_step [''bank''] [] (bank_stage E c sell d)"
    unfolding funding_stage_def sep10_stage_def sep12_stage_def sep38_stage_def sep6_stage_def bank_stage_def getJson_def postJson_def postPut_def
    by (rule steps_end steps_split steps_silent silences | simp)+
  show "steps_are onramp_step [''usdc''] [] (usdc_stage E c kp token quote d)" if "clock_runs E"
    unfolding usdc_stage_def Let_def
    by (rule steps_end steps_split steps_silent stage_silent that | simp)+
qed

section \<open>What a purchase may do\<close>

definition texts :: "(string \<times> jsval) list \<Rightarrow> bool" where
  "texts xs = list_all (\<lambda>(k, v). js_string v \<noteq> None) xs"

definition step_typed :: "DemoStep \<Rightarrow> bool" where
  "step_typed d = (case ds_data d of None \<Rightarrow> True | Some xs \<Rightarrow> texts xs)"

text \<open>The requests a purchase makes with the key \<open>kp\<close> for \<open>sell\<close> lira, and the other events it causes.\<close>

fun purchase_event :: "onramp_env \<Rightarrow> AnchorConfig \<Rightarrow> string \<Rightarrow> string \<Rightarrow> onramp_event \<Rightarrow> bool" where
  "purchase_event E c kp sell (Fetched GET url None body) = (body = None \<and>
     (url = an_baseUrl c @ ''/auth?account='' @ kp_publicKey E kp \<or> url = ''https://friendbot.stellar.org?addr='' @ kp_publicKey E kp))"
| "purchase_event E c kp sell (Fetched GET url (Some token) body) = (body = None \<and>
     (url = an_baseUrl c @ ''/sep12/customer'' \<or> (\<exists>q. url = deposit_url E c kp sell q)
      \<or> (\<exists>i. url = an_baseUrl c @ ''/sep6/transaction?id='' @ encodeURIComponent i)))"
| "purchase_event E c kp sell (Fetched PUT url token body) = (url = an_baseUrl c @ ''/sep12/customer'' \<and> token \<noteq> None
     \<and> body = Some (JObject [(''first_name'', JString ''Onramp''), (''last_name'', JString ''Customer'')]))"
| "purchase_event E c kp sell (Fetched POST url (Some token) body) = (url = an_baseUrl c @ ''/sep38/quote'' \<and> body = Some (quote_payload c sell))"
| "purchase_event E c kp sell (Fetched POST url None body) =
     ((url = an_baseUrl c @ ''/auth'' \<and> (\<exists>xdr signed. verifyChallenge E xdr c (kp_publicKey E kp) = Inr ()
         \<and> sdk_sign E xdr (an_networkPassphrase c) kp = Inr signed \<and> body = Some (JObject [(''transaction'', JString signed)])))
      \<or> (\<exists>i. url = an_baseUrl c @ ''/sep6/tx/'' @ encodeURIComponent i @ ''/simulate-bank-transfer'' \<and> body = Some (JObject [(''amount'', JString sell)])))"
| "purchase_event E c kp sell (AccountLoaded a) = (a = kp_publicKey E kp)"
| "purchase_event E c kp sell (TrustlineSubmitted a) = (a = kp_publicKey E kp)"
| "purchase_event E c kp sell (Emitted d) = step_typed d"
| "purchase_event E c kp sell (GateRead w) = False"
| "purchase_event E c kp sell e = True"

lemma typed_plain [simp]: "step_typed (plain_step i xs) = texts xs" "step_typed (with_tx c tx d) = step_typed d"
  "step_typed (d\<lparr>ds_status := st\<rparr>) = step_typed d" "texts []" "texts ((k, JString s) # xs) = texts xs"
  by (simp_all add: step_typed_def plain_step_def with_tx_def texts_def split: option.splits)

lemma sep10_events: "only (purchase_event E c kp sell) (sep10_stage E c kp)"
proof -
  have signed: "only (purchase_event E c kp sell) (postJson E (an_baseUrl c @ ''/auth'') (JObject [(''transaction'', JString signed)]) None)"
    if "verifyChallenge E xdr c (kp_publicKey E kp) = Inr ()" "sdk_sign E xdr (an_networkPassphrase c) kp = Inr signed" for xdr signed
    unfolding postJson_def by (intro act_intros) (use that in auto)
  have "only (purchase_event E c kp sell) (sep10Authenticate E c kp)"
    unfolding sep10Authenticate_def seqA_result getJson_def
    by (auto intro!: act_intros simp: map_err_Inr split: sum.splits) (rule signed)
  then show ?thesis unfolding sep10_stage_def by (auto intro!: act_intros)
qed

lemma stage_events:
  "only (purchase_event E c kp sell) (funding_stage E c kp)" "only (purchase_event E c kp sell) (sep12_stage E c token)"
  "only (purchase_event E c kp sell) (sep38_stage E c token sell)" "only (purchase_event E c kp sell) (sep6_stage E c kp token sell quote)"
  "only (purchase_event E c kp sell) (bank_stage E c sell d)" "only (purchase_event E c kp sell) (sep10_stage E c kp)"
  using sep10_events unfolding funding_stage_def ensureFundingAccount_def fund_by_friendbot_def loadAccount_def sep12_stage_def sep38_stage_def
    sep6_stage_def bank_stage_def getJson_def postJson_def postPut_def Let_def
  by (auto intro!: act_intros split: prod.splits)

lemma usdc_events: "clock_runs E \<Longrightarrow> only (purchase_event E c kp sell) (usdc_stage E c kp token quote d)"
proof -
  assume clock: "clock_runs E"
  have "purchase_event E c kp sell e" if "poll_event c token d e" for e
    using that unfolding poll_event_def by (elim disjE) (simp_all only: purchase_event.simps, blast)
  then show ?thesis
    unfolding stage_defs by (auto intro!: act_intros wait_causes(4)[OF clock] split: prod.splits)
qed

lemma buy_facts:
  assumes "clock_runs E"
  shows "returns (buy_usdc E c amount kp)" "keeps_state (buy_usdc E c amount kp)" "at_most is_call 62 (buy_usdc E c amount kp)"
    "only (purchase_event E c kp (toFixed2 amount)) (buy_usdc E c amount kp)"
    "steps_are onramp_step [''funding'', ''sep10'', ''sep12'', ''sep38'', ''sep6'', ''bank'', ''usdc'']
       [''funding'', ''sep10'', ''sep12'', ''sep38'', ''sep6'', ''bank''] (buy_usdc E c amount kp)"
    "at_most (is_look c) 50 (buy_usdc E c amount kp)"
proof -
  show "returns (buy_usdc E c amount kp)" "keeps_state (buy_usdc E c amount kp)"
    "only (purchase_event E c kp (toFixed2 amount)) (buy_usdc E c amount kp)"
    unfolding buy_usdc_def by (intro act_intros stage_events usdc_events assms)+
  show "at_most is_call 62 (buy_usdc E c amount kp)"
    unfolding buy_usdc_def by (rule at_most_mono, (rule at_most_then stage_calls assms)+, simp)
  show "at_most (is_look c) 50 (buy_usdc E c amount kp)"
    unfolding buy_usdc_def by (rule at_most_mono, (rule at_most_then at_most_none[OF stage_no_look(1)] at_most_none[OF stage_no_look(2)]
      at_most_none[OF stage_no_look(3)] at_most_none[OF stage_no_look(4)] at_most_none[OF stage_no_look(5)] at_most_none[OF stage_no_look(6)]
      usdc_looks assms)+, simp)
  have "steps_are onramp_step ([''funding''] @ [''sep10''] @ [''sep12''] @ [''sep38''] @ [''sep6''] @ [''bank''] @ [''usdc''])
       ([''funding''] @ [''sep10''] @ [''sep12''] @ [''sep38''] @ [''sep6''] @ [''bank''] @ []) (buy_usdc E c amount kp)"
    unfolding buy_usdc_def
    by (rule steps_then stage_steps[where E = E and c = c] assms)+
  then show "steps_are onramp_step [''funding'', ''sep10'', ''sep12'', ''sep38'', ''sep6'', ''bank'', ''usdc'']
       [''funding'', ''sep10'', ''sep12'', ''sep38'', ''sep6'', ''bank''] (buy_usdc E c amount kp)" by simp
qed

section \<open>The life of the funding keys\<close>

text \<open>Opening the file again gives the keys in memory.\<close>

definition keys_stored :: "FundingKeyStore \<Rightarrow> bool" where
  "keys_stored store = (distinct (map fst (fk_keys store)) \<and>
     (\<forall>path. \<exists>again. fundingKeys_open path (fk_file store) = Inr again \<and> fk_keys again = fk_keys store \<and> fk_file again = fk_file store))"

lemma map_set_fold: "distinct (map fst kvs) \<Longrightarrow> fst ` set m \<inter> fst ` set kvs = {} \<Longrightarrow> fold (\<lambda>(k, v). map_set k v) kvs m = m @ kvs"
proof (induction kvs arbitrary: m)
  case (Cons p kvs)
  obtain k v where p: "p = (k, v)" by (cases p)
  have "map_set k v m = m @ [(k, v)]" using Cons.prems p by (intro map_set_fresh) auto
  moreover have "fst ` set (m @ [(k, v)]) \<inter> fst ` set kvs = {}" using Cons.prems p by auto
  ultimately show ?case using Cons.IH[of "m @ [(k, v)]"] Cons.prems p by simp
qed simp

lemma keys_stored_open:
  assumes "fundingKeys_open path file = Inr store"
  shows "keys_stored store"
proof -
  have d: "distinct (map fst (fold (\<lambda>(k, v). map_set k v) kvs m))" if "distinct (map fst m)"
    for kvs m :: "(string \<times> jsval) list"
    using that by (induction kvs arbitrary: m) (auto simp: map_set_keys(1))
  have e: "distinct (map fst (map (\<lambda>(i, v). (dec i, v)) (enumerate 0 vs)))" for vs :: "jsval list"
  proof -
    have "map fst (map (\<lambda>(i, v). (dec i, v)) ps) = map dec (map fst ps)" for ps :: "(nat \<times> jsval) list" by (induction ps) auto
    then show ?thesis by (simp del: map_map add: distinct_map inj_on_def)
  qed
  show ?thesis
  proof (cases "file")
    case None
    then show ?thesis using assms by (auto simp: fundingKeys_open_def keys_stored_def)
  next
    case (Some raw)
    then have r: "raw \<noteq> JNull" "jget ''version'' raw = JNum (JInt 1)" using assms by (simp_all add: fundingKeys_open_def split: if_splits)
    show ?thesis
    proof (cases "jget ''keys'' raw")
      case (JObject kvs)
      then have "store = \<lparr> fk_keys = fold (\<lambda>(k, v). map_set k v) kvs [], fk_file = file \<rparr>" using assms Some r by (simp add: fundingKeys_open_def)
      then show ?thesis using d[of "[]" kvs] JObject Some r by (simp add: keys_stored_def fundingKeys_open_def)
    next
      case (JArray vs)
      then have "store = \<lparr> fk_keys = map (\<lambda>(i, v). (dec i, v)) (enumerate 0 vs), fk_file = file \<rparr>" using assms Some r by (simp add: fundingKeys_open_def)
      then show ?thesis using e[of vs] JArray Some r by (simp del: map_map add: keys_stored_def fundingKeys_open_def)
    qed (use assms Some r in \<open>simp_all add: fundingKeys_open_def\<close>)
  qed
qed

lemma keys_stored_put: "keys_stored store \<Longrightarrow> keys_stored (fundingKeys_put accountId secret store)"
  unfolding keys_stored_def fundingKeys_put_def fundingKeys_open_def Let_def
  using map_set_fold[of "map_set accountId (JString secret) (fk_keys store)" "[]"] map_set_keys(1)[of "fk_keys store" accountId "JString secret"]
  by simp

inductive keys_life :: "onramp_env \<Rightarrow> FundingKeyStore \<Rightarrow> FundingKeyStore \<Rightarrow> bool" for E where
  same: "keys_life E s s"
| used: "keys_life E s t \<Longrightarrow> getOrCreate E accountId \<lparr> ru_trace = tr, ru_state = t \<rparr> = Some (r, u) \<Longrightarrow> keys_life E s (ru_state u)"
| reopened: "keys_life E s t \<Longrightarrow> fundingKeys_open path (fk_file t) = Inr u \<Longrightarrow> keys_life E s u"

lemma getOrCreate_cases:
  assumes "getOrCreate E a s = Some (r, t)"
  obtains e where "fundingKeys_get E a (ru_state s) = Inl e" "r = Inl e" "t = s"
  | kp where "fundingKeys_get E a (ru_state s) = Inr (Some kp)" "r = Inr kp" "t = s"
  | "fundingKeys_get E a (ru_state s) = Inr None" "r = Inr (env_random E (ru_trace s))"
    "ru_trace t = ru_trace s @ [KeyDrawn]" "ru_state t = fundingKeys_put a (env_random E (ru_trace s)) (ru_state s)"
  using assms by (auto simp: getOrCreate_def throw_def ret_def seqA_def ask_def split: sum.splits option.splits)

lemma put_get: "map_get (fk_keys (fundingKeys_put a secret store)) b = (if b = a then Some (JString secret) else map_get (fk_keys store) b)"
  by (simp add: fundingKeys_put_def js_map.get_put Let_def)

lemma get_some: "fundingKeys_get E a store = Inr (Some kp) \<longleftrightarrow> map_get (fk_keys store) a = Some (JString kp) \<and> sdk_publicKey E kp \<noteq> None"
  by (auto simp: fundingKeys_get_def split: option.splits jsval.splits)

lemma get_none: "fundingKeys_get E a store = Inr None \<longleftrightarrow> map_get (fk_keys store) a = None"
  by (auto simp: fundingKeys_get_def split: option.splits jsval.splits)

lemma keys_life_keeps:
  "keys_life E s t \<Longrightarrow> keys_stored s \<Longrightarrow> keys_stored t \<and> (\<forall>a v. map_get (fk_keys s) a = Some v \<longrightarrow> map_get (fk_keys t) a = Some v)"
proof (induction rule: keys_life.induct)
  case (used s t accountId tr r u)
  then show ?case
    using keys_stored_put[of t] by (cases rule: getOrCreate_cases[OF used.hyps(2)]) (auto simp: get_none put_get)
next
  case (reopened s t path u)
  then have "fk_keys u = fk_keys t" unfolding keys_stored_def by (metis sum.inject(2))
  then show ?case using reopened keys_stored_open by metis
qed simp

definition keys_valid :: "onramp_env \<Rightarrow> bool" where
  "keys_valid E = (\<forall>tr. sdk_publicKey E (env_random E tr) \<noteq> None)"

lemma funding_key_for_ever:
  assumes "keys_valid E" "fundingKeys_open path file = Inr s0" "keys_life E s0 (ru_state s)"
    and "getOrCreate E a s = Some (Inr kp, t)" "keys_life E (ru_state t) (ru_state u)"
  shows "getOrCreate E a u = Some (Inr kp, u)"
proof -
  have "keys_stored (ru_state s)" using keys_life_keeps[OF assms(3) keys_stored_open[OF assms(2)]] by blast
  then have "keys_stored (ru_state t) \<and> fundingKeys_get E a (ru_state t) = Inr (Some kp)"
    using assms(1,4) keys_stored_put unfolding keys_valid_def
    by (cases rule: getOrCreate_cases[OF assms(4)]) (auto simp: get_some put_get)
  then have "fundingKeys_get E a (ru_state u) = Inr (Some kp)" using keys_life_keeps[OF assms(5)] by (auto simp: get_some)
  then show ?thesis by (simp add: getOrCreate_def ret_def)
qed

section \<open>A purchase\<close>

definition gate_passed :: "string \<Rightarrow> DemoStep" where
  "gate_passed w = plain_step ''gate'' [(''wallet'', JString w)]"

definition onramp_order :: "string list" where
  "onramp_order = [''gate'', ''funding'', ''sep10'', ''sep12'', ''sep38'', ''sep6'', ''bank'', ''usdc'']"

lemma order_parts:
  "[''funding'', ''sep10'', ''sep12'', ''sep38'', ''sep6'', ''bank'', ''usdc''] = tl onramp_order"
  "[''funding'', ''sep10'', ''sep12'', ''sep38'', ''sep6'', ''bank''] = butlast (tl onramp_order)"
  by (simp_all add: onramp_order_def)

lemma gate_closed:
  assumes "env_gate E (ru_trace s) w \<noteq> Inr True"
  obtains e t new where "runOnramp E c a w amount s = Some (Inl e, t)" "ru_state t = ru_state s"
    "ru_trace t = ru_trace s @ GateRead w # new" "new = [] \<or> new = [Emitted gate_refused]"
proof (cases "env_gate E (ru_trace s) w")
  case (Inl e)
  then show ?thesis using that[of "OtherFailure e" "s\<lparr>ru_trace := ru_trace s @ [GateRead w]\<rparr>" "[]"]
    by (simp add: runOnramp_def gate_stage_def seqA_def ask_def throw_def)
next
  case (Inr b)
  then have "\<not> b" using assms by simp
  then show ?thesis using that[of _ "s\<lparr>ru_trace := ru_trace s @ [GateRead w, Emitted gate_refused]\<rparr>" "[Emitted gate_refused]"] Inr
    by (simp add: runOnramp_def gate_stage_def seqA_def ask_def throw_def ret_def tell_def)
qed

lemma gate_open:
  assumes "env_gate E (ru_trace s) w = Inr True"
  shows "runOnramp E c a w amount s
    = seqA (getOrCreate E a) (buy_usdc E c amount) (s\<lparr>ru_trace := ru_trace s @ [GateRead w, Emitted (gate_passed w)]\<rparr>)"
  using assms by (simp add: runOnramp_def gate_stage_def seqA_def ask_def ret_def tell_def gate_passed_def)

text \<open>What a run is, once the gate is open and a key is there.\<close>

lemma run_with_key:
  assumes clock: "clock_runs E" and gate: "env_gate E (ru_trace s) w = Inr True"
  obtains (refused) e t where "runOnramp E c a w amount s = Some (Inl e, t)" "ru_state t = ru_state s"
      "ru_trace t = ru_trace s @ [GateRead w, Emitted (gate_passed w)]"
  | (bought) r t kp drawn new where "runOnramp E c a w amount s = Some (r, t)"
      "ru_trace t = ru_trace s @ GateRead w # Emitted (gate_passed w) # drawn @ new" "drawn = [] \<or> drawn = [KeyDrawn]"
      "list_all (purchase_event E c kp (toFixed2 amount)) new" "count_of is_call new \<le> 62" "count_of (is_look c) new \<le> 50"
      "map_get (fk_keys (ru_state t)) a = Some (JString kp)"
      "case r of Inr x \<Rightarrow> step_ids onramp_step new = tl onramp_order | Inl e \<Rightarrow> prefix (step_ids onramp_step new) (butlast (tl onramp_order))"
proof -
  define s1 where "s1 = s\<lparr>ru_trace := ru_trace s @ [GateRead w, Emitted (gate_passed w)]\<rparr>"
  have run: "runOnramp E c a w amount s = seqA (getOrCreate E a) (buy_usdc E c amount) s1" unfolding s1_def by (rule gate_open[OF gate])
  have s1: "ru_trace s1 = ru_trace s @ [GateRead w, Emitted (gate_passed w)]" "ru_state s1 = ru_state s" by (simp_all add: s1_def)
  have "getOrCreate E a s1 \<noteq> None"
    by (auto simp: getOrCreate_def throw_def ret_def seqA_def ask_def split: sum.splits option.splits)
  then obtain k s2 where k: "getOrCreate E a s1 = Some (k, s2)" by auto
  have buy: thesis if kp: "k = Inr kp" "map_get (fk_keys (ru_state s2)) a = Some (JString kp)"
    and drawn: "ru_trace s2 = ru_trace s1 @ drawn" "drawn = [] \<or> drawn = [KeyDrawn]" for kp drawn
  proof -
    note facts = buy_facts[where c = c and amount = amount and kp = kp, OF clock]
    obtain r t where b: "buy_usdc E c amount kp s2 = Some (r, t)" using facts(1) unfolding returns_def by (metis option.exhaust prod.exhaust)
    obtain new where n: "ru_trace t = ru_trace s2 @ new" "list_all (purchase_event E c kp (toFixed2 amount)) new"
      using causesE[OF facts(4)[unfolded only_def] b] .
    obtain calls looks where n': "ru_trace t = ru_trace s2 @ calls" "count_of is_call calls \<le> 62"
      "ru_trace t = ru_trace s2 @ looks" "count_of (is_look c) looks \<le> 50"
      using causesE[OF facts(3)[unfolded at_most_def] b] causesE[OF facts(6)[unfolded at_most_def] b] by metis
    then have "count_of is_call new \<le> 62" "count_of (is_look c) new \<le> 50" using n(1) by simp_all
    moreover obtain ids where i: "ru_trace t = ru_trace s2 @ ids"
      "case r of Inr x \<Rightarrow> step_ids onramp_step ids = tl onramp_order | Inl e \<Rightarrow> prefix (step_ids onramp_step ids) (butlast (tl onramp_order))"
      using causesE[OF facts(5)[unfolded order_parts steps_are_def] b] .
    then have "ids = new" using n(1) by simp
    then have "case r of Inr x \<Rightarrow> step_ids onramp_step new = tl onramp_order | Inl e \<Rightarrow> prefix (step_ids onramp_step new) (butlast (tl onramp_order))" using i(2) by (rule subst)
    moreover have "ru_state t = ru_state s2" using facts(2) b unfolding keeps_state_def by blast
    moreover have "runOnramp E c a w amount s = Some (r, t)" using run k kp(1) b by (simp add: seqA_def)
    ultimately show thesis using bought[where r = r and t = t and drawn = drawn and kp = kp and new = new] n kp(2) drawn s1(1) by simp
  qed
  show thesis
  proof (cases rule: getOrCreate_cases[OF k])
    case (1 e)
    then show thesis using refused[of e s2] run k s1 by (simp add: seqA_def)
  next
    case (2 kp)
    then show thesis using buy[of kp "[]"] by (auto simp: get_some)
  next
    case 3
    then show thesis using buy[of _ "[KeyDrawn]"] by (simp add: put_get)
  qed
qed

lemma gate_decides:
  assumes "clock_runs E"
  shows "\<exists>r t new. runOnramp E c accountId wallet amount s = Some (r, t) \<and> ru_trace t = ru_trace s @ GateRead wallet # new \<and>
    (if env_gate E (ru_trace s) wallet \<noteq> Inr True
     then \<not> is_ok r \<and> ru_state t = ru_state s \<and> (new = [] \<or> new = [Emitted gate_refused])
     else (\<not> is_ok r \<and> ru_state t = ru_state s \<and> new = [Emitted (gate_passed wallet)])
        \<or> (\<exists>kp. map_get (fk_keys (ru_state t)) accountId = Some (JString kp) \<and> list_all (purchase_event E c kp (toFixed2 amount)) new))"
proof (cases "env_gate E (ru_trace s) wallet = Inr True")
  case True
  then show ?thesis
  proof (cases rule: run_with_key[OF assms True, of c accountId amount])
    case (1 e t)
    then show ?thesis using True by (intro exI conjI) (assumption | simp)+
  next
    case (2 r t kp drawn new)
    then have "list_all (purchase_event E c kp (toFixed2 amount)) (Emitted (gate_passed wallet) # drawn @ new)" by (auto simp: gate_passed_def)
    then show ?thesis using True 2 by (intro exI[of _ r] exI[of _ t] exI conjI) (assumption | simp)+
  qed
next
  case False
  obtain e t new where "runOnramp E c accountId wallet amount s = Some (Inl e, t)" "ru_state t = ru_state s"
    "ru_trace t = ru_trace s @ GateRead wallet # new" "new = [] \<or> new = [Emitted gate_refused]" using gate_closed[OF False] by blast
  then show ?thesis using False by (intro exI[of _ "Inl e"] exI[of _ t] exI[of _ new]) simp
qed

section \<open>What the others learn\<close>

text \<open>
  The anchor, Horizon and friendbot see the calls made to them, and the clock; they do not see the read of
  the gate, the steps shown to the holder or the drawing of a key. Where they are \<open>oblivious\<close>, what they
  answer depends on what they see alone.
\<close>

fun others_see :: "onramp_event \<Rightarrow> bool" where
  "others_see (GateRead w) = False"
| "others_see (Emitted d) = False"
| "others_see KeyDrawn = False"
| "others_see e = True"

abbreviation seen :: "onramp_event list \<Rightarrow> onramp_event list" where
  "seen \<equiv> filter others_see"

definition oblivious :: "onramp_env \<Rightarrow> bool" where
  "oblivious E = (\<forall>tr tr'. seen tr = seen tr' \<longrightarrow> env_fetch E tr = env_fetch E tr' \<and> env_account E tr = env_account E tr'
     \<and> env_submit E tr = env_submit E tr' \<and> env_now E tr = env_now E tr')"

lemma obliviousD:
  assumes "oblivious E" "seen tr = seen tr'"
  shows "env_fetch E tr = env_fetch E tr'" "env_account E tr = env_account E tr'" "env_submit E tr = env_submit E tr'" "env_now E tr = env_now E tr'"
proof -
  note all = assms(1)[unfolded oblivious_def, THEN spec, THEN spec, THEN mp, OF assms(2)]
  show "env_fetch E tr = env_fetch E tr'" by (rule all[THEN conjunct1])
  show "env_account E tr = env_account E tr'" by (rule all[THEN conjunct2, THEN conjunct1])
  show "env_submit E tr = env_submit E tr'" by (rule all[THEN conjunct2, THEN conjunct2, THEN conjunct1])
  show "env_now E tr = env_now E tr'" by (rule all[THEN conjunct2, THEN conjunct2, THEN conjunct2])
qed

lemma blind_asks [act_intros]:
  assumes "oblivious E"
  shows "blind others_see (ask ev (\<lambda>tr. env_fetch E tr m u token body))" "blind others_see (ask ev (\<lambda>tr. env_account E tr a))"
    "blind others_see (ask ev (\<lambda>tr. env_submit E tr a))" "blind others_see (ask ev (env_now E))"
     apply (rule blind_ask, drule obliviousD(1)[OF assms], simp)
    apply (rule blind_ask, drule obliviousD(2)[OF assms], simp)
   apply (rule blind_ask, drule obliviousD(3)[OF assms], simp)
  apply (rule blind_ask, erule obliviousD(4)[OF assms])
  done

lemma blind_unit [act_intros]: "blind vis (ask ev (\<lambda>_. ()))"
  by (rule blind_ask) simp

lemma request_blind [act_intros]: "oblivious E \<Longrightarrow> blind others_see (request_json E method url payload token)"
  unfolding request_json_def Let_def by (auto intro!: act_intros split: prod.splits)

lemma poll_blind [act_intros]: "oblivious E \<Longrightarrow> blind others_see (poll_deposit E c token i)"
  unfolding poll_deposit_def getJson_def Let_def by (auto intro!: act_intros)

lemma wait_loop_blind:
  assumes clock: "clock_runs E" and obl: "oblivious E"
  shows "deadline - env_now E (ru_trace s) \<le> int (n * POLL_MS) \<Longrightarrow> seen (ru_trace s) = seen (ru_trace s') \<Longrightarrow>
    looks_same others_see (wait_loop E c token i deadline latest s) (wait_loop E c token i deadline latest s')"
proof (induction n arbitrary: s s' latest)
  case (0 s s' latest)
  have "env_now E (ru_trace s') = env_now E (ru_trace s)" using obliviousD(4)[OF obl 0(2)] by simp
  then show ?case using 0 by (subst (1 2) wait_loop.simps) (simp add: ask_def looks_same_def)
next
  case (Suc n s s' latest)
  define s1 where "s1 = s\<lparr>ru_trace := ru_trace s @ [ClockRead]\<rparr>"
  define s1' where "s1' = s'\<lparr>ru_trace := ru_trace s' @ [ClockRead]\<rparr>"
  have now: "env_now E (ru_trace s') = env_now E (ru_trace s)" using obliviousD(4)[OF obl Suc.prems(2)] by simp
  have a: "ask ClockRead (env_now E) s = Some (Inr (env_now E (ru_trace s)), s1)" "ask ClockRead (env_now E) s' = Some (Inr (env_now E (ru_trace s)), s1')"
    by (simp_all add: ask_def s1_def s1'_def now)
  have one: "seen (ru_trace s1) = seen (ru_trace s1')" using Suc.prems(2) by (simp add: s1_def s1'_def)
  show ?case
  proof (cases "env_now E (ru_trace s) < deadline")
    case False
    then show ?thesis using one by (subst (1 2) wait_loop.simps) (simp add: a looks_same_def)
  next
    case True
    from blindD[OF poll_blind[OF obl] one, of c token i] show ?thesis
    proof (cases rule: looks_sameE)
      case 1
      then have False using poll_returns unfolding returns_def by blast
      then show ?thesis ..
    next
      case (2 r t t')
      consider "\<forall>last. r \<noteq> Inr (last, False)" | last where "r = Inr (last, False)" by blast
      then show ?thesis
      proof cases
        case 1
        then have "wait_loop E c token i deadline latest s = Some (r, t)" "wait_loop E c token i deadline latest s' = Some (r, t')"
          using True 2 by (subst wait_loop.simps, auto simp: a split: sum.splits prod.splits bool.splits)+
        then show ?thesis using 2(3) by (simp add: looks_same_refl)
      next
        case (2 last)
        note p = \<open>poll_deposit E c token i s1 = Some (r, t)\<close> \<open>poll_deposit E c token i s1' = Some (r, t')\<close>
        obtain new where "ru_trace t = ru_trace s1 @ new" "POLL_MS \<le> slept_in new" using poll_outcome[OF p(1)] 2 by metis
        then have "env_now E (ru_trace s) + int POLL_MS \<le> env_now E (ru_trace t)"
          using clock_slept[OF clock, of "ru_trace s" "ClockRead # new"] by (simp add: s1_def)
        then have "deadline - env_now E (ru_trace t) \<le> int (n * POLL_MS)" using Suc.prems(1) by simp
        from Suc.IH[OF this \<open>seen (ru_trace t) = seen (ru_trace t')\<close>, of last]
        show ?thesis using True p by (subst (1 2) wait_loop.simps) (simp add: a 2)
      qed
    qed
  qed
qed

lemma wait_blind:
  assumes "clock_runs E" "oblivious E"
  shows "blind others_see (waitForDeposit E c token i)"
  unfolding blind_def
proof (intro allI impI)
  fix s s' :: onramp_run assume same: "seen (ru_trace s) = seen (ru_trace s')"
  define s1 s1' where "s1 = s\<lparr>ru_trace := ru_trace s @ [ClockRead]\<rparr>" and "s1' = s'\<lparr>ru_trace := ru_trace s' @ [ClockRead]\<rparr>"
  let ?d = "env_now E (ru_trace s) + int MAX_WAIT_MS"
  have now: "env_now E (ru_trace s') = env_now E (ru_trace s)" using obliviousD(4)[OF assms(2) same] by simp
  have "waitForDeposit E c token i s = wait_loop E c token i ?d (JObject []) s1" "waitForDeposit E c token i s' = wait_loop E c token i ?d (JObject []) s1'"
    by (simp_all add: waitForDeposit_def seqA_def ask_def s1_def s1'_def now)
  moreover have "?d - env_now E (ru_trace s1) \<le> int (50 * POLL_MS)"
    using clock_forward[OF assms(1), of "ru_trace s" "[ClockRead]"] by (simp add: s1_def MAX_WAIT_MS_def POLL_MS_def)
  moreover have "seen (ru_trace s1) = seen (ru_trace s1')" using same by (simp add: s1_def s1'_def)
  ultimately show "looks_same others_see (waitForDeposit E c token i s) (waitForDeposit E c token i s')"
    using wait_loop_blind[OF assms] by metis
qed

lemma buy_blind:
  assumes "clock_runs E" "oblivious E"
  shows "blind others_see (buy_usdc E c amount kp)"
  unfolding buy_usdc_def stage_defs
  by (intro act_intros wait_blind assms | auto intro!: act_intros wait_blind assms split: prod.splits)+

text \<open>A purchase past the gate with the key \<open>kp\<close>.\<close>

definition purchased :: "onramp_env \<Rightarrow> AnchorConfig \<Rightarrow> string \<Rightarrow> string \<Rightarrow> rat \<Rightarrow> onramp_run \<Rightarrow> string \<Rightarrow> (onramp_error + OnrampResult) \<Rightarrow> onramp_run \<Rightarrow> bool" where
  "purchased E c accountId wallet amount s kp r t = (env_gate E (ru_trace s) wallet = Inr True
     \<and> runOnramp E c accountId wallet amount s = Some (r, t) \<and> map_get (fk_keys (ru_state t)) accountId = Some (JString kp))"

lemma purchased_buy:
  assumes "clock_runs E" "sdk_publicKey E kp \<noteq> None" "purchased E c a w amount s kp r t"
  obtains u where "buy_usdc E c amount kp u = Some (r, t)" "seen (ru_trace u) = seen (ru_trace s)"
proof -
  define s1 where "s1 = s\<lparr>ru_trace := ru_trace s @ [GateRead w, Emitted (gate_passed w)]\<rparr>"
  have run: "seqA (getOrCreate E a) (buy_usdc E c amount) s1 = Some (r, t)" and key: "map_get (fk_keys (ru_state t)) a = Some (JString kp)"
    using assms(3) gate_open[of E s w c a amount] by (auto simp: purchased_def s1_def)
  have s1: "seen (ru_trace s1) = seen (ru_trace s)" by (simp add: s1_def)
  obtain k u where k: "getOrCreate E a s1 = Some (k, u)" using run by (cases "getOrCreate E a s1") (auto simp: seqA_def)
  have kept: "map_get (fk_keys (ru_state u)) a = Some (JString kp)" if "k = Inr kp'" for kp'
  proof -
    have "buy_usdc E c amount kp' u = Some (r, t)" using run k that by (simp add: seqA_def)
    then have "ru_state t = ru_state u" using buy_facts(2)[OF assms(1)] unfolding keeps_state_def by blast
    then show ?thesis using key by simp
  qed
  show thesis
  proof (cases rule: getOrCreate_cases[OF k])
    case (1 e)
    then have "ru_state t = ru_state s1" "fundingKeys_get E a (ru_state s1) = Inl e" using run k by (auto simp: seqA_def)
    then show thesis using key assms(2) by (simp add: fundingKeys_get_def split: if_splits)
  next
    case (2 kp')
    then have "kp' = kp" using kept[of kp'] by (auto simp: get_some)
    then show thesis using that[of u] run k 2 s1 by (simp add: seqA_def)
  next
    case 3
    then have "env_random E (ru_trace s1) = kp" using kept[OF 3(2)] by (simp add: put_get)
    then show thesis using that[of u] run k 3 s1 by (simp add: seqA_def)
  qed
qed

lemma purchases_look_same:
  assumes "clock_runs E" "oblivious E" "sdk_publicKey E kp \<noteq> None" "seen (ru_trace s) = seen (ru_trace s')"
    and "purchased E c a w amount s kp r t" "purchased E c a' w' amount s' kp r' t'"
  shows "r = r' \<and> seen (ru_trace t) = seen (ru_trace t')"
proof -
  obtain u u' where u: "buy_usdc E c amount kp u = Some (r, t)" "buy_usdc E c amount kp u' = Some (r', t')" "seen (ru_trace u) = seen (ru_trace u')"
    using purchased_buy[OF assms(1,3,5)] purchased_buy[OF assms(1,3,6)] assms(4) by metis
  show ?thesis using blindD[OF buy_blind[OF assms(1,2)] u(3), of c amount kp] u(1,2) by (auto simp: looks_same_def)
qed

section \<open>Two runs\<close>

text \<open>An anchor that answers every request at once, and has paid at the first look.\<close>

definition toy_anchor :: AnchorConfig where
  "toy_anchor = TR_MOCK_ANCHOR\<lparr>an_baseUrl := ''https://a''\<rparr>"

definition toy_body :: jsval where
  "toy_body = JObject (map (\<lambda>(k, v). (k, JString v)) [(''transaction'', ''X''), (''token'', ''T''), (''id'', ''D''), (''price'', ''40''),
     (''total_price'', ''41''), (''sell_amount'', ''82.00''), (''buy_amount'', ''2''), (''expires_at'', ''soon''), (''bank_name'', ''B'')])"

definition toy_paid :: jsval where
  "toy_paid = JObject [(''status'', JString ''completed''), (''stellar_transaction_id'', JString ''H'')]"

definition toy_env :: "bool \<Rightarrow> onramp_env" where
  "toy_env passed = \<lparr>
     env_gate = (\<lambda>tr w. Inr passed),
     env_fetch = (\<lambda>tr method url token payload. Inr (200, Some (if url = ''https://a/sep6/transaction?id=D'' then toy_paid else toy_body))),
     env_account = (\<lambda>tr a. Inr []), env_submit = (\<lambda>tr a. Inr ''L''), env_random = (\<lambda>tr. ''S''), env_now = (\<lambda>tr. int (slept_in tr)),
     sdk_publicKey = (\<lambda>secret. Some (CHR ''G'' # secret)), sdk_readChallenge = (\<lambda>xdr key net home web. Inr ''GS''),
     sdk_sign = (\<lambda>xdr net secret. Inr (xdr @ secret)) \<rparr>"

definition toy_start :: onramp_run where
  "toy_start = \<lparr> ru_trace = [], ru_state = \<lparr> fk_keys = [], fk_file = None \<rparr> \<rparr>"

lemma toy_clock: "clock_runs (toy_env b)"
  by (simp add: clock_runs_def toy_env_def)

lemma toy_valid: "keys_valid (toy_env b)"
  by (simp add: keys_valid_def toy_env_def)

lemmas toy_simps = toy_env_def toy_anchor_def TR_MOCK_ANCHOR_def seqA_def ask_def ret_def throw_def try_else_def tell_def
  request_json_def bag_str_def toy_body_def Let_def kp_publicKey_def

lemma toy_stages:
  "\<exists>t. funding_stage (toy_env True) toy_anchor ''S'' s = Some (Inr (), t)"
  "\<exists>t. sep10_stage (toy_env True) toy_anchor ''S'' s = Some (Inr ''T'', t)"
  "\<exists>t. sep12_stage (toy_env True) toy_anchor ''T'' s = Some (Inr (), t)"
  by (simp_all add: stage_defs toy_simps verifyChallenge_def)

lemma toy_quote:
  "\<exists>t. sep38_stage (toy_env True) toy_anchor ''T'' sell s = Some (Inr \<lparr> qt_id = ''D'', qt_price = ''40'', qt_totalPrice = ''41'',
     qt_sellAmount = ''82.00'', qt_buyAmount = ''2'', qt_expiresAt = ''soon'' \<rparr>, t)"
  "\<exists>t. sep6_stage (toy_env True) toy_anchor ''S'' ''T'' sell q s = Some (Inr \<lparr> dp_id = ''D'', dp_bankName = ''B'', dp_iban = [], dp_memo = [] \<rparr>, t)"
  "\<exists>t. bank_stage (toy_env True) toy_anchor sell ''D'' s = Some (Inr (), t)"
  by (simp_all add: stage_defs toy_simps parseQuote_def parseDeposit_def deposit_field_def text_or_empty_def deposit_url_def)

lemma toy_wait: "\<exists>t. waitForDeposit (toy_env True) toy_anchor ''T'' ''D'' s = Some (Inr (toy_paid, True), t)"
  unfolding waitForDeposit_def seqA_def ask_def
  by (subst option.case sum.case prod.case)+ (subst wait_loop.simps, simp add: poll_deposit_def getJson_def toy_simps toy_paid_def encodeURIComponent_def uri_unreserved_def code_def MAX_WAIT_MS_def)

lemma toy_usdc: "\<exists>x t. usdc_stage (toy_env True) toy_anchor ''S'' ''T'' q ''D'' s = Some (Inr x, t)"
proof -
  obtain t where "waitForDeposit (toy_env True) toy_anchor ''T'' ''D'' s = Some (Inr (toy_paid, True), t)" using toy_wait by blast
  then show ?thesis
    unfolding usdc_stage_def by (simp add: seqA_def Let_def usdcBalance_def loadAccount_def ask_def ret_def toy_env_def tell_def)
qed

lemma toy_purchased: "\<exists>x t. purchased (toy_env True) toy_anchor a w 82 toy_start ''S'' (Inr x) t"
proof -
  have bought: "\<exists>y t. buy_usdc (toy_env True) toy_anchor 82 ''S'' s = Some (Inr y, t)" for s
  proof -
    obtain t1 where t1: "funding_stage (toy_env True) toy_anchor ''S'' s = Some (Inr (), t1)" using toy_stages(1) by blast
    obtain t2 where t2: "sep10_stage (toy_env True) toy_anchor ''S'' t1 = Some (Inr ''T'', t2)" using toy_stages(2) by blast
    obtain t3 where t3: "sep12_stage (toy_env True) toy_anchor ''T'' t2 = Some (Inr (), t3)" using toy_stages(3) by blast
    obtain q t4 where t4: "sep38_stage (toy_env True) toy_anchor ''T'' (toFixed2 82) t3 = Some (Inr q, t4)" using toy_quote(1) by blast
    obtain d t5 where t5: "sep6_stage (toy_env True) toy_anchor ''S'' ''T'' (toFixed2 82) q t4 = Some (Inr d, t5)" "dp_id d = ''D''"
      using toy_quote(2) by (metis DepositInstructions.select_convs(1))
    obtain t6 where t6: "bank_stage (toy_env True) toy_anchor (toFixed2 82) ''D'' t5 = Some (Inr (), t6)" using toy_quote(3) by blast
    show ?thesis using t1 t2 t3 t4 t5 t6 toy_usdc[of q t6] by (simp add: buy_usdc_def seqA_def)
  qed
  define s1 where "s1 = \<lparr> ru_trace = [GateRead w, Emitted (gate_passed w), KeyDrawn], ru_state = fundingKeys_put a ''S'' (ru_state toy_start) \<rparr>"
  obtain y t where b: "buy_usdc (toy_env True) toy_anchor 82 ''S'' s1 = Some (Inr y, t)" using bought by blast
  have "env_gate (toy_env True) (ru_trace toy_start) w = Inr True" by (simp add: toy_env_def)
  moreover have "runOnramp (toy_env True) toy_anchor a w 82 toy_start = Some (Inr y, t)"
    unfolding gate_open[OF calculation]
    using b by (simp add: toy_start_def toy_env_def seqA_def getOrCreate_def fundingKeys_get_def map_get_def ask_def ret_def s1_def)
  moreover have "ru_state t = ru_state s1" using buy_facts(2)[OF toy_clock] b unfolding keeps_state_def by blast
  then have "map_get (fk_keys (ru_state t)) a = Some (JString ''S'')" by (simp add: s1_def put_get)
  ultimately show ?thesis unfolding purchased_def by blast
qed

lemma toy_bought: "\<exists>x t. runOnramp (toy_env True) toy_anchor ''a1'' ''CW'' 82 toy_start = Some (Inr x, t)"
  using toy_purchased by (meson purchased_def)

lemma toy_oblivious: "oblivious (toy_env True)"
proof -
  have "slept_in (seen tr) = slept_in tr" for tr by (induction tr rule: slept_in.induct) auto
  then show ?thesis unfolding oblivious_def by (auto simp: toy_env_def) metis
qed

section \<open>Properties\<close>

text \<open>
  C34. Nobody buys unless the chain says so, and nobody learns for whom. A purchase begins with one read
  of the gate for the wallet; if that does not read true, the purchase fails having made no request to anyone
  and drawn or stored no key. If it does, every later event belongs to a purchase of that amount with
  the account's own funding key: each request is one of nine, what is signed for the anchor is only a
  challenge that was read back as the anchor's, for this network and this key, and every step shown to
  the holder is text. And the anchor, Horizon and friendbot cannot tell the holder: two purchases of one
  amount with one key, for whatever accounts and wallets, make the same calls with the same contents and end
  alike, where the answers depend on what was asked alone. The clock must run.
\<close>

theorem onramp_only_verified:
  assumes "clock_runs E"
  shows "(\<exists>r t new. runOnramp E c accountId wallet amount s = Some (r, t) \<and> ru_trace t = ru_trace s @ GateRead wallet # new \<and>
    (if env_gate E (ru_trace s) wallet \<noteq> Inr True
     then \<not> is_ok r \<and> ru_state t = ru_state s \<and> (new = [] \<or> new = [Emitted gate_refused])
     else (\<not> is_ok r \<and> ru_state t = ru_state s \<and> new = [Emitted (gate_passed wallet)])
        \<or> (\<exists>kp. map_get (fk_keys (ru_state t)) accountId = Some (JString kp) \<and> list_all (purchase_event E c kp (toFixed2 amount)) new)))
   \<and> (\<forall>accountId' wallet' s' kp r t r' t'. oblivious E \<and> sdk_publicKey E kp \<noteq> None \<and> seen (ru_trace s) = seen (ru_trace s')
        \<and> purchased E c accountId wallet amount s kp r t \<and> purchased E c accountId' wallet' amount s' kp r' t'
      \<longrightarrow> r = r' \<and> seen (ru_trace t) = seen (ru_trace t'))"
proof
  show "\<forall>accountId' wallet' s' kp r t r' t'. oblivious E \<and> sdk_publicKey E kp \<noteq> None \<and> seen (ru_trace s) = seen (ru_trace s')
        \<and> purchased E c accountId wallet amount s kp r t \<and> purchased E c accountId' wallet' amount s' kp r' t'
      \<longrightarrow> r = r' \<and> seen (ru_trace t) = seen (ru_trace t')"
    using purchases_look_same[OF assms] by blast
qed (rule gate_decides[OF assms])

lemma onramp_only_verified_witness:
  "clock_runs (toy_env True) \<and> clock_runs (toy_env False)
   \<and> (\<exists>t. runOnramp (toy_env False) toy_anchor ''a1'' ''CW'' 82 toy_start = Some (Inl (AnchorError ''the chain does not record over18 for this wallet''), t)
        \<and> ru_trace t = [GateRead ''CW'', Emitted gate_refused])
   \<and> (\<exists>x t t'. purchased (toy_env True) toy_anchor ''a1'' ''CW'' 82 toy_start ''S'' x t
        \<and> purchased (toy_env True) toy_anchor ''a2'' ''CV'' 82 toy_start ''S'' x t' \<and> seen (ru_trace t) = seen (ru_trace t'))"
proof -
  obtain t where t: "runOnramp (toy_env False) toy_anchor ''a1'' ''CW'' 82 toy_start = Some (Inl (AnchorError ''the chain does not record over18 for this wallet''), t)"
    "ru_trace t = [GateRead ''CW'', Emitted gate_refused]"
    by (simp add: runOnramp_def gate_stage_def seqA_def ask_def throw_def ret_def tell_def toy_env_def toy_start_def)
  obtain x u where u: "purchased (toy_env True) toy_anchor ''a1'' ''CW'' 82 toy_start ''S'' x u" using toy_purchased by blast
  obtain y v where v: "purchased (toy_env True) toy_anchor ''a2'' ''CV'' 82 toy_start ''S'' y v" using toy_purchased by blast
  have "oblivious (toy_env True)" "sdk_publicKey (toy_env True) ''S'' \<noteq> None" by (rule toy_oblivious) (simp add: toy_env_def)
  then have "x = y \<and> seen (ru_trace u) = seen (ru_trace v)"
    using onramp_only_verified[OF toy_clock[of True], of toy_anchor "''a1''" "''CW''" 82 toy_start] u v by blast
  then show ?thesis using t u v toy_clock by blast
qed

text \<open>
  C35. As long as the clock runs and does not go back, every purchase ends, whatever the gate, the anchor,
  Horizon and friendbot answer: it looks at the deposit at most fifty times, and calls others at most
  sixty-three times in all, the read of the gate, the requests, and what it loads from and submits to
  Horizon together. It ends well exactly with the eight steps in their order, and where it fails it
  has shown the first of them, never the last.
\<close>

theorem onramp_ends:
  assumes "clock_runs E"
  shows "\<exists>r t new. runOnramp E c accountId wallet amount s = Some (r, t) \<and> ru_trace t = ru_trace s @ new
    \<and> count_of is_call new \<le> 63 \<and> count_of (is_look c) new \<le> 50
    \<and> (if is_ok r then step_ids onramp_step new = onramp_order else prefix (step_ids onramp_step new) (butlast onramp_order))"
proof (cases "env_gate E (ru_trace s) wallet = Inr True")
  case True
  have ids: "step_ids onramp_step (Emitted (gate_passed wallet) # tr) = ''gate'' # step_ids onramp_step tr" for tr by (simp add: gate_passed_def)
  have order: "onramp_order = ''gate'' # tl onramp_order" "butlast onramp_order = ''gate'' # butlast (tl onramp_order)" by (simp_all add: onramp_order_def)
  show ?thesis
  proof (cases rule: run_with_key[OF assms True, of c accountId amount])
    case (1 e t)
    have "step_ids onramp_step [GateRead wallet, Emitted (gate_passed wallet)] = [''gate'']" by (simp add: gate_passed_def)
    then show ?thesis using 1 by (intro exI[of _ "Inl e"] exI[of _ t] exI[of _ "[GateRead wallet, Emitted (gate_passed wallet)]"]) (simp add: onramp_order_def)
  next
    case (2 r t kp drawn new)
    define all where "all = GateRead wallet # Emitted (gate_passed wallet) # drawn @ new"
    have "step_ids onramp_step drawn = [] \<and> count_of is_call drawn = 0 \<and> count_of (is_look c) drawn = 0" using 2(3) by auto
    then have a: "step_ids onramp_step all = ''gate'' # step_ids onramp_step new" "count_of is_call all \<le> 63" "count_of (is_look c) all \<le> 50"
      using 2(5,6) by (auto simp: all_def gate_passed_def)
    have "if is_ok r then step_ids onramp_step all = onramp_order else prefix (step_ids onramp_step all) (butlast onramp_order)"
      using 2(8) a(1) order by (cases r) simp_all
    then show ?thesis using 2(1,2) a(2,3) unfolding all_def by blast
  qed
next
  case False
  obtain e t new where "runOnramp E c accountId wallet amount s = Some (Inl e, t)"
    "ru_trace t = ru_trace s @ GateRead wallet # new" "new = [] \<or> new = [Emitted gate_refused]" using gate_closed[OF False] by blast
  then show ?thesis
    by (intro exI[of _ "Inl e"] exI[of _ t] exI[of _ "GateRead wallet # new"]) (auto simp: gate_refused_def onramp_order_def)
qed

lemma onramp_ends_witness: "clock_runs (toy_env True) \<and> (\<exists>x t new. runOnramp (toy_env True) toy_anchor ''a1'' ''CW'' 82 toy_start = Some (Inr x, t)
    \<and> ru_trace t = new \<and> step_ids onramp_step new = onramp_order)"
proof -
  obtain x u where u: "runOnramp (toy_env True) toy_anchor ''a1'' ''CW'' 82 toy_start = Some (Inr x, u)" using toy_bought by blast
  then have "step_ids onramp_step (ru_trace u) = onramp_order"
    using onramp_ends[OF toy_clock[of True], of toy_anchor "''a1''" "''CW''" 82 toy_start] by (auto simp: toy_start_def)
  then show ?thesis using u toy_clock by blast
qed

text \<open>
  C36. An account keeps its funding key for ever: once a run has given it one, every later run of the
  account gets the same key and draws none, however many other accounts have bought meanwhile and
  however often the file was opened again. A drawn secret must be one the SDK accepts back.
\<close>

theorem funding_key_kept:
  assumes "keys_valid E" "fundingKeys_open path file = Inr s0" "keys_life E s0 (ru_state s)"
    and "getOrCreate E accountId s = Some (Inr kp, t)" "keys_life E (ru_state t) (ru_state u)"
  shows "getOrCreate E accountId u = Some (Inr kp, u)"
  by (rule funding_key_for_ever[OF assms])

lemma funding_key_kept_witness:
  "\<exists>t u. fundingKeys_open ''keys.json'' None = Inr \<lparr> fk_keys = [], fk_file = None \<rparr>
     \<and> getOrCreate (toy_env True) ''a1'' toy_start = Some (Inr ''S'', t)
     \<and> fundingKeys_open ''keys.json'' (fk_file (ru_state t)) = Inr (ru_state u) \<and> getOrCreate (toy_env True) ''a1'' u = Some (Inr ''S'', u)"
proof -
  define t where "t = \<lparr> ru_trace = [KeyDrawn], ru_state = fundingKeys_put ''a1'' ''S'' \<lparr> fk_keys = [], fk_file = None \<rparr> \<rparr>"
  have o: "fundingKeys_open ''keys.json'' None = Inr (ru_state toy_start)" by (simp add: fundingKeys_open_def toy_start_def)
  have g: "getOrCreate (toy_env True) ''a1'' toy_start = Some (Inr ''S'', t)"
    by (simp add: getOrCreate_def fundingKeys_get_def map_get_def toy_start_def toy_env_def seqA_def ask_def ret_def t_def)
  have again: "fundingKeys_open ''keys.json'' (fk_file (ru_state t)) = Inr (ru_state t)"
    by (simp add: t_def fundingKeys_put_def fundingKeys_open_def map_set_def Let_def)
  then have "keys_life (toy_env True) (ru_state t) (ru_state t)" by (rule keys_life.reopened[OF keys_life.same])
  then show ?thesis using funding_key_kept[OF toy_valid o keys_life.same g] o g again by (auto simp: toy_start_def)
qed

end
