(* ===== verification/Pii.thy ===== *)
theory Pii
imports Base64url Json "HOL-Library.Sublist"
begin

text \<open>
  The detector of personal data (\<open>gateway/src/kyc/pii.ts\<close>): the encodings a secret is looked for,
  the walk over a value of the language, the refusal. Objects live in a heap, so that a value may
  share parts or contain itself; an object is its reference. SHA-256 is an argument.
\<close>

section \<open>Values in a heap\<close>

text \<open>
  A value is \<open>null\<close> or \<open>undefined\<close>, a text, another primitive or a function with the text \<open>String\<close>
  gives it, or a reference.
\<close>

datatype audit_value = AEmpty | AText string | APrimitive string | ARef nat

datatype audit_node = NBytes bytes
  | NError string string "string option" audit_value "(string \<times> audit_value) list"
  | NArray "audit_value list" | NMap "(audit_value \<times> audit_value) list" | NSet "audit_value list"
  | NObject "(string \<times> audit_value) list"

type_synonym audit_heap = "nat \<Rightarrow> audit_node"

text \<open>\<open>toString('binary')\<close> and \<open>toString('base64')\<close> of a buffer.\<close>

definition latin1 :: "bytes \<Rightarrow> string" where
  "latin1 bs = map (\<lambda>b. char_of (unat b)) bs"

definition base64 :: "bytes \<Rightarrow> string" where
  "base64 bs = map (\<lambda>c. if c = CHR ''-'' then CHR ''+'' else if c = CHR ''_'' then CHR ''/'' else c) (base64urlEncode bs)
     @ replicate ((3 - length bs mod 3) mod 3) CHR ''=''"

text \<open>\<open>hay.indexOf(needle) !== -1\<close>.\<close>

fun buffer_contains :: "bytes \<Rightarrow> bytes \<Rightarrow> bool" where
  "buffer_contains needle [] = (needle = [])"
| "buffer_contains needle (b # hay) = (take (length needle) (b # hay) = needle \<or> buffer_contains needle hay)"

section \<open>The search\<close>

datatype PiiEncoding = Utf8Form | HexForm | Base64Form | Sha256Form

definition PII_ENCODINGS :: "PiiEncoding list" where
  "PII_ENCODINGS = [Utf8Form, HexForm, Base64Form, Sha256Form]"

definition candidates :: "(bytes \<Rightarrow> bytes) \<Rightarrow> bytes \<Rightarrow> (PiiEncoding \<times> bytes) list" where
  "candidates sha raw = [(Utf8Form, raw), (HexForm, ref_utf8 (ref_hex raw)), (Base64Form, ref_utf8 (base64 raw)), (Sha256Form, sha raw)]"

definition findEncodings :: "(bytes \<Rightarrow> bytes) \<Rightarrow> bytes \<Rightarrow> string \<Rightarrow> PiiEncoding list" where
  "findEncodings sha haystack secret = (let raw = ref_utf8 secret in
     if raw = [] then [] else map fst (filter (\<lambda>(name, needle). buffer_contains needle haystack) (candidates sha raw)))"

section \<open>The walk\<close>

definition MAX_DEPTH :: nat where "MAX_DEPTH = 12"

text \<open>
  The first argument counts the levels that are left: a value at depth \<open>d\<close> is visited with
  \<open>MAX_DEPTH + 1 - d\<close>. The state is the parts and the objects seen.
\<close>

fun collect :: "audit_heap \<Rightarrow> nat \<Rightarrow> audit_value \<Rightarrow> string list \<times> nat list \<Rightarrow> string list \<times> nat list" where
  "collect h 0 v s = s"
| "collect h (Suc k) v (out, seen) = (case v of
     AEmpty \<Rightarrow> (out, seen)
   | AText t \<Rightarrow> (out @ [t], seen)
   | APrimitive t \<Rightarrow> (out @ [t], seen)
   | ARef r \<Rightarrow>
       if r \<in> set seen then (out, seen) else
       (case h r of
          NBytes bs \<Rightarrow> (out @ [latin1 bs, ref_hex bs], r # seen)
        | NError name message stack cause props \<Rightarrow>
            fold (\<lambda>(key, x) (o1, s1). collect h k x (o1 @ [key], s1)) props
              (collect h k cause (out @ [name, message, case stack of None \<Rightarrow> [] | Some t \<Rightarrow> t], r # seen))
        | NArray xs \<Rightarrow> fold (collect h k) xs (out, r # seen)
        | NMap kvs \<Rightarrow> fold (\<lambda>(key, x) s1. collect h k x (collect h k key s1)) kvs (out, r # seen)
        | NSet xs \<Rightarrow> fold (collect h k) xs (out, r # seen)
        | NObject props \<Rightarrow> fold (\<lambda>(key, x) (o1, s1). collect h k x (o1 @ [key], s1)) props (out, r # seen)))"

definition NUL_SEPARATOR :: string where "NUL_SEPARATOR = [char_of (0::nat)]"

definition auditBytes :: "audit_heap \<Rightarrow> audit_value \<Rightarrow> bytes" where
  "auditBytes h v = ref_utf8 (join NUL_SEPARATOR (fst (collect h (Suc MAX_DEPTH) v ([], []))))"

record PiiLeakError =
  le_label :: string
  le_artefact :: string
  le_encodings :: "PiiEncoding list"

record PiiSecret =
  se_label :: string
  se_value :: string

fun assert_clean :: "(bytes \<Rightarrow> bytes) \<Rightarrow> bytes \<Rightarrow> PiiSecret list \<Rightarrow> string \<Rightarrow> PiiLeakError + unit" where
  "assert_clean sha hay [] what = Inr ()"
| "assert_clean sha hay (secret # secrets) what = (let found = findEncodings sha hay (se_value secret) in
     if found \<noteq> [] then Inl \<lparr> le_label = se_label secret, le_artefact = what, le_encodings = found \<rparr>
     else assert_clean sha hay secrets what)"

definition assertNoPii :: "(bytes \<Rightarrow> bytes) \<Rightarrow> audit_heap \<Rightarrow> audit_value \<Rightarrow> PiiSecret list \<Rightarrow> string \<Rightarrow> PiiLeakError + unit" where
  "assertNoPii sha h artefact secrets what = assert_clean sha (auditBytes h artefact) secrets what"

definition detectorControl :: "(bytes \<Rightarrow> bytes) \<Rightarrow> audit_heap \<Rightarrow> audit_value \<Rightarrow> string \<Rightarrow> PiiEncoding list" where
  "detectorControl sha h artefact canary = findEncodings sha (auditBytes h artefact) canary"

section \<open>Searching bytes and searching text\<close>

lemma buffer_contains_iff: "buffer_contains needle hay \<longleftrightarrow> sublist needle hay"
proof (induction hay)
  case Nil
  then show ?case by simp
next
  case (Cons b hay)
  have "take (length needle) (b # hay) = needle \<longleftrightarrow> prefix needle (b # hay)"
    by (metis append_eq_conv_conj prefix_def take_is_prefix)
  then show ?case using Cons by (simp add: sublist_Cons_right)
qed

lemma utf8_append [simp]: "ref_utf8 (s @ t) = ref_utf8 s @ ref_utf8 t"
  by (induction s) (simp_all add: Let_def)

lemma utf8_sublist: "sublist s t \<Longrightarrow> sublist (ref_utf8 s) (ref_utf8 t)"
  by (fastforce simp: sublist_def)

definition starts_char :: "byte \<Rightarrow> bool" where
  "starts_char b = (unat b < 128 \<or> 192 \<le> unat b)"

lemma utf8_char:
  obtains b where "ref_utf8 [c] = [b]" "unat b < 128"
  | b d where "ref_utf8 [c] = [b, d]" "192 \<le> unat b" "\<not> starts_char d"
proof -
  define k where "k = (of_char c :: nat)"
  have k: "k < 256" by (simp add: k_def of_char_less_256)
  show thesis
  proof (cases "k < 128")
    case True
    then show thesis using that(1)[of "word_of_nat k"] k by (simp add: k_def)
  next
    case False
    have n: "192 + k div 64 < 256" "128 + k mod 64 < 192" using k by auto
    have d: "unat (word_of_nat (192 + k div 64) :: byte) = 192 + k div 64" "unat (word_of_nat (128 + k mod 64) :: byte) = 128 + k mod 64"
      using n by (intro unat_word8_of_nat; simp)+
    show thesis
      by (rule that(2)[of "word_of_nat (192 + k div 64)" "word_of_nat (128 + k mod 64)"])
         (use False d n in \<open>auto simp: k_def Let_def starts_char_def simp del: of_nat_add\<close>)
  qed
qed

lemma utf8_Cons: "ref_utf8 (c # s) = ref_utf8 [c] @ ref_utf8 s"
  using utf8_append[of "[c]" s] by simp

lemma utf8_Nil [simp]: "ref_utf8 s = [] \<longleftrightarrow> s = []"
  by (cases s) (simp_all add: Let_def)

declare ref_utf8.simps(2) [simp del]

lemma utf8_prefix: "prefix (ref_utf8 s) (ref_utf8 t) \<Longrightarrow> prefix s t"
proof (induction s arbitrary: t)
  case (Cons c s)
  then obtain d t' where t: "t = d # t'" by (cases t) auto
  have p: "prefix (ref_utf8 [c] @ ref_utf8 s) (ref_utf8 [d] @ ref_utf8 t')"
    using Cons.prems unfolding t utf8_Cons[of c s] utf8_Cons[of d t'] .
  then have "ref_utf8 [c] = ref_utf8 [d]"
    by (cases rule: utf8_char[of c]; cases rule: utf8_char[of d]) auto
  then show ?case using Cons.IH p ref_utf8_inj t by fastforce
qed simp

lemma utf8_sublist_back: "sublist (ref_utf8 s) (ref_utf8 t) \<Longrightarrow> s \<noteq> [] \<Longrightarrow> sublist s t"
proof (induction t)
  case Nil
  then show ?case by simp
next
  case (Cons c t)
  obtain d s' where s: "s = d # s'" using Cons.prems(2) by (cases s) auto
  obtain b r where r: "ref_utf8 s = b # r" "starts_char b"
    unfolding s utf8_Cons[of d s'] by (cases rule: utf8_char[of d]) (auto simp: starts_char_def)
  have "prefix (ref_utf8 s) (ref_utf8 (c # t)) \<or> sublist (ref_utf8 s) (ref_utf8 t)"
    using Cons.prems(1) r unfolding utf8_Cons[of c t]
    by (cases rule: utf8_char[of c]) (auto simp: sublist_Cons_right)
  then show ?case using utf8_prefix[of s "c # t"] Cons.IH Cons.prems(2) by (auto simp: sublist_Cons_right)
qed

lemma utf8_sublist_iff: "s \<noteq> [] \<Longrightarrow> sublist (ref_utf8 s) (ref_utf8 t) \<longleftrightarrow> sublist s t"
  using utf8_sublist utf8_sublist_back by blast

text \<open>A text without the separator lies within one part.\<close>

lemma sublist_across: "sublist s (a @ x # b) \<Longrightarrow> x \<notin> set s \<Longrightarrow> sublist s a \<or> sublist s b"
proof -
  assume "sublist s (a @ x # b)" "x \<notin> set s"
  then consider "sublist s a" | "sublist s (x # b)" | u v where "s = u @ v" "suffix u a" "prefix v (x # b)" by (auto simp: sublist_append)
  then show ?thesis
  proof cases
    case 3
    then have "v = []" using \<open>x \<notin> set s\<close> by (cases v) auto
    then show ?thesis using 3 by auto
  qed (use \<open>x \<notin> set s\<close> in \<open>auto simp: sublist_Cons_right prefix_Cons\<close>)
qed

lemma sublist_join:
  assumes "x \<notin> set s" "s \<noteq> []"
  shows "sublist s (join [x] ps) \<longleftrightarrow> (\<exists>p\<in>set ps. sublist s p)"
proof (induction "[x]" ps rule: join.induct)
  case (3 y z ps)
  have "sublist s (join [x] (y # z # ps)) \<longleftrightarrow> sublist s y \<or> sublist s (join [x] (z # ps))"
    using sublist_across[of s y x "join [x] (z # ps)"] assms(1) by (auto simp: sublist_append sublist_Cons_right)
  then show ?case using 3 by simp
qed (use assms in auto)

section \<open>What the walk finds\<close>

datatype piece = Part string | Sub audit_value

fun node_pieces :: "audit_node \<Rightarrow> piece list" where
  "node_pieces (NBytes bs) = [Part (latin1 bs), Part (ref_hex bs)]"
| "node_pieces (NError name message stack cause props) = [Part name, Part message, Part (case stack of None \<Rightarrow> [] | Some t \<Rightarrow> t), Sub cause]
     @ concat (map (\<lambda>(key, x). [Part key, Sub x]) props)"
| "node_pieces (NArray xs) = map Sub xs"
| "node_pieces (NMap kvs) = concat (map (\<lambda>(key, x). [Sub key, Sub x]) kvs)"
| "node_pieces (NSet xs) = map Sub xs"
| "node_pieces (NObject props) = concat (map (\<lambda>(key, x). [Part key, Sub x]) props)"

text \<open>The texts of a value down to a depth, and the objects met on the way, as in a tree.\<close>

fun contents :: "audit_heap \<Rightarrow> nat \<Rightarrow> audit_value \<Rightarrow> string list" where
  "contents h 0 v = []"
| "contents h (Suc k) v = (case v of AEmpty \<Rightarrow> [] | AText t \<Rightarrow> [t] | APrimitive t \<Rightarrow> [t]
     | ARef r \<Rightarrow> concat (map (\<lambda>p. case p of Part t \<Rightarrow> [t] | Sub x \<Rightarrow> contents h k x) (node_pieces (h r))))"

fun references :: "audit_heap \<Rightarrow> nat \<Rightarrow> audit_value \<Rightarrow> nat list" where
  "references h 0 v = []"
| "references h (Suc k) v = (case v of
       ARef r \<Rightarrow> r # concat (map (\<lambda>p. case p of Part t \<Rightarrow> [] | Sub x \<Rightarrow> references h k x) (node_pieces (h r)))
     | _ \<Rightarrow> [])"

definition unshared :: "audit_heap \<Rightarrow> audit_value \<Rightarrow> bool" where
  "unshared h v = distinct (references h (Suc MAX_DEPTH) v)"

fun visit :: "audit_heap \<Rightarrow> nat \<Rightarrow> piece \<Rightarrow> string list \<times> nat list \<Rightarrow> string list \<times> nat list" where
  "visit h k (Part t) (out, seen) = (out @ [t], seen)"
| "visit h k (Sub x) s = collect h k x s"

lemma visit_props: "fold (visit h k) (concat (map (\<lambda>(key, x). [Part key, Sub x]) props)) s
    = fold (\<lambda>(key, x) (o1, s1). collect h k x (o1 @ [key], s1)) props s"
  by (induction props arbitrary: s) auto

lemma visit_subs: "fold (visit h k) (map Sub xs) s = fold (collect h k) xs s"
  by (induction xs arbitrary: s) auto

lemma visit_map: "fold (visit h k) (concat (map (\<lambda>(key, x). [Sub key, Sub x]) kvs)) s
    = fold (\<lambda>(key, x) s1. collect h k x (collect h k key s1)) kvs s"
  by (induction kvs arbitrary: s) auto

lemma collect_ref: "collect h (Suc k) (ARef r) (out, seen)
    = (if r \<in> set seen then (out, seen) else fold (visit h k) (node_pieces (h r)) (out, r # seen))"
  by (cases "h r") (simp_all add: visit_props visit_subs visit_map)

lemma collect_tree:
  "distinct (references h k v) \<Longrightarrow> set (references h k v) \<inter> set seen = {} \<Longrightarrow>
   collect h k v (out, seen) = (out @ contents h k v, rev (references h k v) @ seen)"
proof (induction k arbitrary: v out seen)
  case (Suc k)
  define subs where "subs p = (case p of Part t \<Rightarrow> [] | Sub x \<Rightarrow> references h k x)" for p
  define strs where "strs p = (case p of Part t \<Rightarrow> [t] | Sub x \<Rightarrow> contents h k x)" for p
  have pieces: "fold (visit h k) ps (out, seen) = (out @ concat (map strs ps), rev (concat (map subs ps)) @ seen)"
    if "distinct (concat (map subs ps))" "set (concat (map subs ps)) \<inter> set seen = {}" for ps out seen
    using that
  proof (induction ps arbitrary: out seen)
    case (Cons p ps)
    have v: "visit h k p (out, seen) = (out @ strs p, rev (subs p) @ seen)"
    proof (cases p)
      case (Sub x)
      then show ?thesis using Suc.IH[of x seen out] Cons.prems by (auto simp: subs_def strs_def)
    qed (simp add: subs_def strs_def)
    show ?case using Cons.IH[of "rev (subs p) @ seen" "out @ strs p"] Cons.prems by (auto simp: v)
  qed simp
  show ?case
  proof (cases v)
    case (ARef r)
    have c: "contents h (Suc k) v = concat (map strs (node_pieces (h r)))"
      "references h (Suc k) v = r # concat (map subs (node_pieces (h r)))"
      unfolding ARef by (simp_all add: strs_def [abs_def] subs_def [abs_def])
    show ?thesis
      using Suc.prems pieces[of "node_pieces (h r)" "r # seen" out] unfolding c unfolding ARef collect_ref by auto
  qed simp_all
qed simp

text \<open>With sharing or cycles, what is found is still in the value.\<close>

lemma collect_sound: "set (fst (collect h k v s)) \<subseteq> set (fst s) \<union> set (contents h k v)"
proof (induction k arbitrary: v s)
  case (Suc k)
  define strs where "strs p = (case p of Part t \<Rightarrow> [t] | Sub x \<Rightarrow> contents h k x)" for p
  have pieces: "set (fst (fold (visit h k) ps s)) \<subseteq> set (fst s) \<union> set (concat (map strs ps))" for ps s
  proof (induction ps arbitrary: s)
    case (Cons p ps)
    have "set (fst (visit h k p s)) \<subseteq> set (fst s) \<union> set (strs p)"
    proof (cases p)
      case (Sub x)
      then show ?thesis using Suc.IH[of x s] by (simp add: strs_def)
    qed (cases s; simp add: strs_def)
    then show ?case using Cons.IH[of "visit h k p s"] by auto
  qed simp
  obtain out seen where s: "s = (out, seen)" by (cases s)
  show ?case
  proof (cases v)
    case (ARef r)
    have "contents h (Suc k) v = concat (map strs (node_pieces (h r)))" unfolding ARef by (simp add: strs_def [abs_def])
    then show ?thesis using pieces[of "node_pieces (h r)" "(out, r # seen)"] unfolding s ARef collect_ref by auto
  qed (simp_all add: s)
qed simp

section \<open>The encodings\<close>

lemma b64n_chars: "b64n s acc bits out \<noteq> None \<Longrightarrow> set s \<subseteq> set B64URL_ALPHABET"
proof (induction s acc bits out rule: b64n.induct)
  case (2 c cs acc bits out)
  then show ?case
    by (cases "B64URL_REVERSE c") (auto simp: B64URL_REVERSE_Some alphabet_facts(1) Let_def split: if_splits)
qed simp

lemma base64_chars: "char_of (0::nat) \<notin> set (base64 bs)"
proof -
  have "set (base64urlEncode bs) \<subseteq> set B64URL_ALPHABET" using b64n_chars b64n_encode by (metis option.distinct(1))
  moreover have "char_of (0::nat) \<notin> set B64URL_ALPHABET" by code_simp
  moreover have "char_of (0::nat) \<noteq> CHR ''+''" "char_of (0::nat) \<noteq> CHR ''/''" "char_of (0::nat) \<noteq> CHR ''=''" by code_simp+
  ultimately show ?thesis by (auto simp: base64_def)
qed

lemma base64_Nil: "base64 bs = [] \<longleftrightarrow> bs = []"
proof -
  have "base64urlEncode bs = [] \<longleftrightarrow> bs = []" by (cases bs rule: base64urlEncode.cases) (simp_all add: Let_def)
  then show ?thesis by (auto simp: base64_def)
qed

lemma hex_chars: "char_of (0::nat) \<notin> set (ref_hex bs)"
proof -
  have "\<not> is_lower_hex (char_of (0::nat))" by code_simp
  then show ?thesis using ref_hex_props[of bs] by (auto simp: list_all_iff)
qed

definition text_form :: "PiiEncoding \<Rightarrow> string \<Rightarrow> string" where
  "text_form e secret = (case e of HexForm \<Rightarrow> ref_hex (ref_utf8 secret) | Base64Form \<Rightarrow> base64 (ref_utf8 secret) | _ \<Rightarrow> secret)"

lemma text_form_facts: "secret \<noteq> [] \<Longrightarrow> text_form e secret \<noteq> []"
  "char_of (0::nat) \<notin> set secret \<Longrightarrow> char_of (0::nat) \<notin> set (text_form e secret)"
proof -
  have "ref_hex bs = [] \<longleftrightarrow> bs = []" for bs by (cases bs) simp_all
  then show "secret \<noteq> [] \<Longrightarrow> text_form e secret \<noteq> []" by (cases e) (simp_all add: text_form_def base64_Nil)
  show "char_of (0::nat) \<notin> set secret \<Longrightarrow> char_of (0::nat) \<notin> set (text_form e secret)"
    using hex_chars base64_chars by (cases e) (simp_all add: text_form_def)
qed

lemma findEncodings_iff:
  "e \<in> set (findEncodings sha hay secret) \<longleftrightarrow> secret \<noteq> [] \<and>
     (if e = Sha256Form then sublist (sha (ref_utf8 secret)) hay else sublist (ref_utf8 (text_form e secret)) hay)"
  by (cases e) (auto simp: findEncodings_def candidates_def text_form_def buffer_contains_iff Let_def)

lemma findEncodings_text:
  "secret \<noteq> [] \<Longrightarrow> e \<noteq> Sha256Form \<Longrightarrow> e \<in> set (findEncodings sha (ref_utf8 t) secret) \<longleftrightarrow> sublist (text_form e secret) t"
  by (simp add: findEncodings_iff utf8_sublist_iff text_form_facts)

lemma found_in_parts:
  assumes "secret \<noteq> []" "e \<noteq> Sha256Form" "char_of (0::nat) \<notin> set secret"
  shows "e \<in> set (findEncodings sha (ref_utf8 (join NUL_SEPARATOR ps)) secret) \<longleftrightarrow> (\<exists>t\<in>set ps. sublist (text_form e secret) t)"
  using assms by (simp add: findEncodings_text NUL_SEPARATOR_def sublist_join text_form_facts)

lemma assert_clean_iff: "assert_clean sha hay secrets what = Inr () \<longleftrightarrow> (\<forall>se\<in>set secrets. findEncodings sha hay (se_value se) = [])"
  by (induction secrets) (auto simp: Let_def)

text \<open>A byte from 245 on is in no UTF-8 text.\<close>

lemma utf8_bytes: "b \<in> set (ref_utf8 t) \<Longrightarrow> unat b < 245"
proof (induction t)
  case (Cons c t)
  have "unat x < 245" if "x \<in> set (ref_utf8 [c])" for x
  proof -
    define k where "k = (of_char c :: nat)"
    have k: "k < 256" by (simp add: k_def of_char_less_256)
    have n: "192 + k div 64 < 245" "128 + k mod 64 < 245" using k by auto
    then have d: "unat (word_of_nat (192 + k div 64) :: byte) = 192 + k div 64" "unat (word_of_nat (128 + k mod 64) :: byte) = 128 + k mod 64"
      by (intro unat_word8_of_nat; simp)+
    have "ref_utf8 [c] = (if k < 128 then [word_of_nat k] else [word_of_nat (192 + k div 64), word_of_nat (128 + k mod 64)])"
      by (simp add: ref_utf8.simps(2) k_def Let_def)
    then show ?thesis using that d n k by (auto split: if_splits simp del: of_nat_add)
  qed
  then show ?case using Cons unfolding utf8_Cons[of c t] by auto
qed simp

section \<open>Properties\<close>

definition toy_secret :: PiiSecret where
  "toy_secret = \<lparr> se_label = ''date of birth'', se_value = ''1990-05-04'' \<rparr>"

definition toy_heap :: audit_heap where
  "toy_heap r = (if r = 0 then NObject [(''a'', ARef 1), (''b'', APrimitive ''7'')]
     else if r = 1 then NError ''E'' ''refused'' None (ARef 2) [] else NArray [AText ''born 1990-05-04''])"

text \<open>
  C37. In a value without shared parts the detector is exact: the plain, the hex and the base64 form
  of a secret are reported exactly when that form stands within one of the texts of the value: a
  string, a key, a number, the text or the hex of a buffer, the name, message, stack or a property
  of an error or of one of its causes, down to depth twelve. A secret with the separator in it is
  excluded.
\<close>

theorem detector_exact:
  assumes "unshared h v" "secret \<noteq> []" "char_of (0::nat) \<notin> set secret" "e \<noteq> Sha256Form"
  shows "e \<in> set (findEncodings sha (auditBytes h v) secret) \<longleftrightarrow> (\<exists>t\<in>set (contents h (Suc MAX_DEPTH) v). sublist (text_form e secret) t)"
  using found_in_parts[OF assms(2,4,3)] collect_tree[of h "Suc MAX_DEPTH" v "[]" "[]"] assms(1) by (simp add: auditBytes_def unshared_def)

lemma detector_exact_witness:
  "unshared toy_heap (ARef 0) \<and> Utf8Form \<in> set (findEncodings id (auditBytes toy_heap (ARef 0)) ''1990-05-04'')
   \<and> HexForm \<notin> set (findEncodings id (auditBytes toy_heap (ARef 0)) ''1990-05-04'')
   \<and> \<not> is_ok (assertNoPii id toy_heap (ARef 0) [toy_secret] ''log line'')"
proof -
  have u: "unshared toy_heap (ARef 0)" by code_simp
  have n: "char_of (0::nat) \<notin> set ''1990-05-04''" by code_simp
  have c: "contents toy_heap (Suc MAX_DEPTH) (ARef 0) = [''a'', ''E'', ''refused'', [], ''born 1990-05-04'', ''b'', ''7'']" by code_simp
  have "\<exists>t\<in>set (contents toy_heap (Suc MAX_DEPTH) (ARef 0)). sublist (text_form Utf8Form ''1990-05-04'') t"
    unfolding c text_form_def by (simp add: sublist_Cons_right)
  moreover have "\<not> (\<exists>t\<in>set (contents toy_heap (Suc MAX_DEPTH) (ARef 0)). sublist (text_form HexForm ''1990-05-04'') t)"
  proof -
    have "text_form HexForm ''1990-05-04'' = ''313939302d30352d3034''" by code_simp
    then show ?thesis unfolding c by (simp add: sublist_Cons_right)
  qed
  moreover have "\<not> is_ok (assertNoPii id toy_heap (ARef 0) [toy_secret] ''log line'')" by code_simp
  ultimately show ?thesis
    using u detector_exact[OF u _ n, of Utf8Form id] detector_exact[OF u _ n, of HexForm id] by simp
qed

text \<open>
  C38. The walk hides hashes: where the SHA-256 digest of a secret has a byte from 245 on, as most
  digests have, that digest is reported in no value at all, not even in the buffer that holds it.
  The walk turns everything it meets into UTF-8, and the digest is looked for as raw bytes.
\<close>

theorem digest_never_found:
  assumes "\<exists>b\<in>set (sha (ref_utf8 secret)). 245 \<le> unat b"
  shows "Sha256Form \<notin> set (findEncodings sha (auditBytes h v) secret)"
proof
  assume "Sha256Form \<in> set (findEncodings sha (auditBytes h v) secret)"
  then have "set (sha (ref_utf8 secret)) \<subseteq> set (auditBytes h v)" by (auto simp: findEncodings_iff sublist_def)
  then show False using assms utf8_bytes unfolding auditBytes_def by fastforce
qed

lemma digest_never_found_witness:
  "Sha256Form \<in> set (findEncodings (\<lambda>raw. [1, 255]) [1, 255] ''P4'')
   \<and> Sha256Form \<notin> set (findEncodings (\<lambda>raw. [1, 255]) (auditBytes (\<lambda>r. NBytes [1, 255]) (ARef 0)) ''P4'')"
proof
  show "Sha256Form \<in> set (findEncodings (\<lambda>raw. [1, 255]) [1, 255] ''P4'')" by code_simp
  have "\<exists>b\<in>set ((\<lambda>raw. [1, 255]) (ref_utf8 ''P4'')). 245 \<le> unat (b :: byte)" by simp
  then show "Sha256Form \<notin> set (findEncodings (\<lambda>raw. [1, 255]) (auditBytes (\<lambda>r. NBytes [1, 255]) (ARef 0)) ''P4'')"
    by (rule digest_never_found)
qed

text \<open>
  With shared parts a text can be missed although it stands one level down: an object that was first
  met at depth twelve, where nothing below it is read, counts as seen when it comes up again.
\<close>

definition shared_heap :: audit_heap where
  "shared_heap r = (if r = 0 then NArray [ARef 1, ARef 20] else if r < 11 then NArray [ARef (r + 1)]
     else if r = 11 then NArray [ARef 20] else NArray [AText ''1990-05-04''])"

lemma shared_text_missed:
  "''1990-05-04'' \<in> set (contents shared_heap (Suc MAX_DEPTH) (ARef 0))
   \<and> assertNoPii id shared_heap (ARef 0) [toy_secret] ''log line'' = Inr ()"
  by (rule conjI; code_simp)

text \<open>
  The base64 form is that of the secret alone, padded: in the base64 of a longer text it is not found.
\<close>

lemma base64_layer_missed:
  "assertNoPii id (\<lambda>r. NArray []) (AText (base64 (ref_utf8 ''dob 1990-05-04.''))) [toy_secret] ''token'' = Inr ()"
  by code_simp

end
