(* ===== verification/Spec2Isabelle.thy ===== *)
theory Spec2Isabelle
imports Predicates Generators Issuance Resolver CredentialStore Jws ChainState Attest GatewayServer PortalRuns Onramp Pii
begin

text \<open>
  Onramp: know-your-customer once, prove claims on chain. A person is verified by a provider, receives a
  BBS+ credential over twelve claims, bound to a passkey wallet, and proves single claims of it to relying
  parties and to a Soroban contract; a partner portal drives the whole and sells USDC to the verified. The
  program is the TypeScript of \<open>packages/identity\<close>, \<open>packages/gateway\<close>, \<open>packages/sdk\<close>,
  \<open>apps/gateway-http\<close> and \<open>scripts\<close>.

  \<^bold>\<open>The parts and how they interact.\<close>

  \<^item> \<open>identity\<close> (the credential library). \<open>Schema\<close> (\<open>schema.ts\<close>): the claim table, a claim as a text \<open>name=value\<close>,
    indexes. \<open>Binding\<close> (\<open>binding.ts\<close>): what a proof is bound to, its canonical bytes, the replay guard. \<open>Points\<close>,
    \<open>Generators\<close>: wire forms and message generators. \<open>Base64url\<close>, \<open>StatusList\<close> (\<open>status-list.ts\<close>): the bit string
    of revoked indexes. \<open>Credential\<close> (\<open>credential.ts\<close>): issue, derive, verify. \<open>Predicates\<close> (\<open>predicates.ts\<close>).
  \<^item> \<open>gateway\<close> (the issuer). \<open>Age\<close>, \<open>KycClaims\<close> (\<open>kyc/age.ts\<close>, \<open>kyc/claims.ts\<close>): the six booleans of a verdict and
    their bitmap. \<open>RevocationIndex\<close>, \<open>Issuance\<close> (\<open>kyc/revocation-index.ts\<close>, \<open>kyc/issue.ts\<close>, \<open>kyc/record.ts\<close>): one
    index per credential, one issuance end to end. \<open>StatusCredential\<close>, \<open>Resolver\<close> (\<open>status/\<close>): the list signed,
    published, fetched and checked. \<open>Json\<close>, \<open>Jws\<close> (\<open>auth/jws.ts\<close>): tokens. \<open>ChainState\<close> (\<open>chain/\<close>): contract errors,
    epochs, records. \<open>Pii\<close> (\<open>kyc/pii.ts\<close>): the detector of personal data.
  \<^item> \<open>sdk\<close> (the holder). \<open>CredentialStore\<close> (\<open>sdk/store.ts\<close> and \<open>scripts/onboard/durable.ts\<close>): custody, and the files of
    revoked indexes. \<open>Attest\<close> (\<open>sdk/attest\<close>): the call \<open>attest_bbs\<close> and its submission.
  \<^item> \<open>apps/gateway-http\<close>. \<open>Router\<close>, \<open>GatewayHttp\<close>, \<open>GatewayServer\<close>: the route table, the pipeline from the raw request
    to the answer, sessions and their tokens, the handlers; a server is a function from its state, the draws of
    one request (ids, salt, clock) and the request to the answer and the next state.
  \<^item> \<open>scripts/onboard\<close> (the portal). \<open>JsText\<close>, \<open>Accounts\<close> (\<open>accounts.ts\<close>): accounts, passwords, sign-in sessions.
    \<open>KycRun\<close>, \<open>RunLedger\<close> (\<open>kyc-run.ts\<close>): the registry of runs. \<open>PortalRequest\<close>, \<open>Portal\<close>, \<open>PortalFacts\<close>, \<open>PortalRuns\<close>
    (\<open>portal-api.ts\<close>): the routes, and the portal as a machine whose events are requests, the ends of
    asynchronous work and restarts. \<open>Effects\<close>, \<open>Onramp\<close> (\<open>onramp.ts\<close>): a purchase as a computation over the
    events it has caused so far.
  \<^item> \<open>Prelude\<close> holds the vocabulary (numbers of JavaScript, bytes, results, the hash and text library as a record of
    functions), \<open>Interfaces\<close> the contracts between components as locales: a single-use register (interpreted on the replay
    guard), an index allocator (on both allocators), a keyed store (on the maps of the stores), a canonical codec (on
    base64url); \<open>Effects\<close> has the one of events that show steps (on the purchase). This theory composes the components.

  \<^bold>\<open>Conventions.\<close> A class is a record of its fields, an operation a function from the state to the result and the
  next state, an exception a value of a sum. Third-party code is an argument: the BBS library (\<open>bbs_lib\<close>), hashes and
  text encoding (\<open>noble\<close>), Ed25519, P-256, gzip, the URL parser, scrypt, the Stellar SDK, the network; what
  is relied on of them is a named hypothesis (\<open>bbs_complete\<close>, \<open>noble_ok\<close>, \<open>ed25519_ok\<close>, \<open>crypto_ok\<close>, \<open>gzip_ok\<close>,
  \<open>scrypt_ok\<close>), and each is instantiated by a concrete function for the witnesses. Histories are lists of events; where
  they are logs the newest event is first.

  \<^bold>\<open>What is shown.\<close> Formats: claims, bindings, base64url, status lists and tokens round-trip, and only canonical forms
  are accepted (C1 to C5, C17, C18, C20). The verifier: acceptance is exactly a declarative contract, and
  burns its binding once (C6 to C8); issued credentials verify (C9). The issuer: ages against an independent
  calendar, claims that only grow with time, one index per credential (C10 to C12). Revocation: bounded and checked
  fetching, authentic lists, published bits that resolve (C13 to C15, C40). Custody (C16), the chain call (C19), the gateway
  (C21 to C23), accounts and sign-in (C24 to C26), runs (C27), the portal (C28 to C33), purchases (C34 to
  C36), the detector (C37, C38), and whole paths: from the KYC answer to the relying party's acceptance (C39),
  from the revocation store to its refusal (C40).

  \<^bold>\<open>Bounds and fuel.\<close> The fetch loop recurses on the redirects left, the detector on the depth left (twelve), the router on
  the path, the poll for a transaction on the attempts left; each is the bound of the code, so none runs out
  before the code does. The wait for a deposit is a partial function; where the clock runs it ends after at most fifty
  looks, its 150 seconds over the three of a sleep (C35). A status list holds at most sixteen mebibytes, below
  which the 32-bit shifts of \<open>bitIndex >> 3\<close>, which the model divides without wrapping, do not wrap.

  \<^bold>\<open>What is assumed.\<close> Text has codes below 256, and \<open>JSON.parse\<close> is modelled on such text (code points beyond, invalid
  UTF-8 and decimals that are not exact are outside the model). Sums of times are exact where the code adds doubles. A
  file is the value its text parses to and is replaced as a whole; writes of the credential store, of the allocator
  and of the file of revoked indexes succeed or fail, as events say, while writes of the account, session and
  funding-key files are taken to succeed. The network answers within one call of the resolver by a function of the URL.
  Requests are handled one after the other up to each await; where the portal works on after its answer,
  the end of that work is an event of its own, in any order.

  \<^bold>\<open>What is not modelled.\<close> The Rust contracts, the pages, the composition root \<open>demo-web.ts\<close>, configuration loading, the
  passkey wallet and its minter (calls of third-party libraries), the operator's password script, test vectors, prose
  and titles of steps and messages. The manifest lists each with its reason.
\<close>

section \<open>Composition of the components\<close>


lemma checks_with_expectation:
  assumes "verify_checks N B G p pk b UNSAFE_NO_CHECKS = Inr d" and "check_demanded w (pr_disclosedIndexes p) = Inr ()"
  shows "verify_checks N B G p pk b (UNSAFE_NO_CHECKS\<lparr>vo_expectedClaims := e, vo_expectedDisclosedIndexes := w\<rparr>)
     = ebind (check_expected e d) (\<lambda>_. Inr d)"
  using assms unfolding verify_checks_def policy_checks_def UNSAFE_NO_CHECKS_def
  by (cases "check_expected e d") (auto simp: res_simps)

lemma one_index: "i < 12 \<Longrightarrow> normalizeIndexes [JInt (int i)] = Inr [i]"
  by (simp add: normalizeIndexes_def SCHEMA_ATTRIBUTE_COUNT_def assertNoPii_v1 Let_def del: assertNoPiiDisclosed.simps)

lemma issued_by_key:
  assumes "issueKycCredential N B alloc fresh q s = (Inr ic, s')"
  shows "\<exists>sk claims i subject. issue N B claims sk = Inr (ic_credential ic) \<and> alloc s = (Inr i, s')
     \<and> claims = issued_claims (issuerIdFromPublicKey N (rq_issuerPublicKey q)) i (rq_issuedAt q) (rq_expiresAt q) subject (rq_claims q)"
  using assms unfolding issueKycCredential_Inr issue_with_index_Inr Let_def by blast

text \<open>A presentation of one claim of an issued credential.\<close>

lemma issued_single:
  assumes "noble_ok N" "bbs_complete B" "issue N B claims sk = Inr c" "assertValidBinding b = Inr ()" "i < 12"
  obtains p where "derive N B c [JInt (int i)] b = Inr p" "pr_disclosedIndexes p = [JInt (int i)]"
    "verify_checks N B G p (c_issuerPublicKey c) b UNSAFE_NO_CHECKS = Inr (claims |` {n. CLAIM_INDEX n = i})"
proof -
  obtain p where p: "derive N B c [JInt (int i)] b = Inr p"
    "\<forall>g. verify_checks N B G p (c_issuerPublicKey c) b (UNSAFE_NO_CHECKS\<lparr>vo_replayGuard := g\<rparr>) = Inr (claims |` {n. CLAIM_INDEX n \<in> set [i]})"
    using issued_checks[OF assms(1-4) one_index[OF assms(5)], of G] by blast
  have "UNSAFE_NO_CHECKS\<lparr>vo_replayGuard := UnsafeSkip\<rparr> = UNSAFE_NO_CHECKS" by (simp add: UNSAFE_NO_CHECKS_def)
  then have "verify_checks N B G p (c_issuerPublicKey c) b UNSAFE_NO_CHECKS = Inr (claims |` {n. CLAIM_INDEX n = i})"
    using spec[OF p(2), of UnsafeSkip] by simp
  moreover have "pr_disclosedIndexes p = [JInt (int i)]"
    using derive_issued[OF assms(1-4) one_index[OF assms(5)]] p(1) by auto
  ultimately show thesis using that p(1) by blast
qed

text \<open>
  C39. From the KYC answer to the relying party: the credential issued for an approved applicant
  proves \<open>over18\<close>, and the relying party accepts the proof, exactly when the applicant's eighteenth
  anniversary had been reached on the day of the derivation.
\<close>

theorem over18_end_to_end:
  assumes "noble_ok N" "bbs_complete B" and "deriveClaimSet (Some st) instant = Inr cs" and "rq_claims q = cs"
    and "issueKycCredential N B alloc fresh q s = (Inr ic, s')" and "assertValidBinding b = Inr ()"
  shows "\<exists>p dob c t. prove_predicate N B (ic_credential ic) over18 b = Inr p
     \<and> instant = Some t \<and> ks_dateOfBirth st = JString dob \<and> spells dob c
     \<and> (is_ok (fst (checkPredicate N B G p over18 (c_issuerPublicKey (ic_credential ic)) b UNSAFE_NO_CHECKS))
          \<longleftrightarrow> not_after (anniversary c 18) (utc_day t))"
proof -
  obtain o18 o21 where age: "deriveAgeClaims (ks_dateOfBirth st) instant = Inr (o18, o21)" "cs_over18 cs = o18"
    using assms(3) by (auto simp: deriveClaimSet_def res_simps split: if_splits)
  obtain dob c t where dob: "instant = Some t" "ks_dateOfBirth st = JString dob" "spells dob c"
    "o18 \<longleftrightarrow> not_after (anniversary c 18) (utc_day t)"
    using deriveAgeClaims_thresholds[OF age(1)] by metis
  obtain sk claims i subject where cr: "issue N B claims sk = Inr (ic_credential ic)"
    "claims = issued_claims (issuerIdFromPublicKey N (rq_issuerPublicKey q)) i (rq_issuedAt q) (rq_expiresAt q) subject (rq_claims q)"
    using issued_by_key[OF assms(5)] by blast
  have "(6 :: nat) < 12" by simp
  then obtain p where p: "derive N B (ic_credential ic) [JInt 6] b = Inr p" "pr_disclosedIndexes p = [JInt 6]"
    "verify_checks N B G p (c_issuerPublicKey (ic_credential ic)) b UNSAFE_NO_CHECKS = Inr (claims |` {n. CLAIM_INDEX n = 6})"
    using issued_single[OF assms(1,2) cr(1) assms(6), of 6 G] by (metis of_nat_numeral)
  have d: "(claims |` {n. CLAIM_INDEX n = 6}) Over18 = Some (VBool o18)"
    using cr(2) age(2) assms(4) by (simp add: issued_claims_def)
  have demanded: "check_demanded (Demand (JArray [JNum (JInt 6)])) (pr_disclosedIndexes p) = Inr ()"
    using p(2) by (simp add: SCHEMA_ATTRIBUTE_COUNT_def)
  have "claim_named ''over18'' = Some Over18" using claim_named_iff[of "''over18''" Over18] by simp
  then have "check_expected (Demand (PlainObject [(''over18'', Some (VBool True))])) (claims |` {n. CLAIM_INDEX n = 6})
      = (if o18 then Inr () else Inl V_claim_mismatch)"
    using d by simp
  then have "is_ok (fst (checkPredicate N B G p over18 (c_issuerPublicKey (ic_credential ic)) b UNSAFE_NO_CHECKS)) \<longleftrightarrow> o18"
    using checks_with_expectation[OF p(3) demanded, of "Demand (PlainObject [(''over18'', Some (VBool True))])"] p(2)
    by (simp add: checkPredicate_def over18_def claim_flag_def verifyDetailed_def consume_last_def UNSAFE_NO_CHECKS_def)
  moreover have "prove_predicate N B (ic_credential ic) over18 b = Inr p"
    using p(1) by (simp add: prove_predicate_def over18_def claim_flag_def)
  ultimately show ?thesis using dob by blast
qed

definition toy_status :: KycStatus where
  "toy_status = \<lparr> ks_provider = ''mock'', ks_providerRefId = ''r1'', ks_answer = ''approved'', ks_dateOfBirth = JString ''2004-02-29'',
     ks_residenceCountry = JUndefined, ks_sanctionsHit = JBool False, ks_pepHit = JBool False, ks_livenessPassed = JBool True \<rparr>"

lemma toy_status_claims: "deriveClaimSet (Some toy_status) (Some (Date_UTC 2023 0 1)) = Inr (rq_claims toy_request)"
  by code_simp

theorem over18_end_to_end_witness:
  "\<exists>(ic :: IssuedCredential) p c. prove_predicate noble_ref toy_bbs (ic_credential ic) over18 example_binding = Inr p \<and> spells ''2004-02-29'' c
     \<and> (is_ok (fst (checkPredicate noble_ref toy_bbs gzip_identity p over18 (c_issuerPublicKey (ic_credential ic)) example_binding UNSAFE_NO_CHECKS))
          \<longleftrightarrow> not_after (anniversary c 18) (utc_day (Date_UTC 2023 0 1)))"
proof -
  obtain ic where "issueKycCredential noble_ref toy_bbs allocate (replicate 32 7) toy_request \<lparr> im_next = 3, im_max = 9 \<rparr>
     = (Inr ic, \<lparr> im_next = 4, im_max = 9 \<rparr>)" using toy_issuance by blast
  from over18_end_to_end[OF noble_ref_ok toy_bbs_complete toy_status_claims refl this example_binding_ok, of gzip_identity]
  obtain p dob c t where "prove_predicate noble_ref toy_bbs (ic_credential ic) over18 example_binding = Inr p"
    "Some (Date_UTC 2023 0 1) = Some t" "ks_dateOfBirth toy_status = JString dob" "spells dob c"
    "is_ok (fst (checkPredicate noble_ref toy_bbs gzip_identity p over18 (c_issuerPublicKey (ic_credential ic)) example_binding UNSAFE_NO_CHECKS))
      \<longleftrightarrow> not_after (anniversary c 18) (utc_day t)" by blast
  moreover from this(2,3) have "t = Date_UTC 2023 0 1" "dob = ''2004-02-29''" by (simp_all add: toy_status_def)
  ultimately show ?thesis by blast
qed



end
